(* ===== verification/Prelude.thy ===== *)
theory Prelude
  imports Main "HOL-Library.Word"
begin

text \<open>
  The vocabulary every component of the model of statsd-c shares.

  \<^item> \<^verbatim>\<open>fault\<close>: the ways a C function of the program can leave the
    behaviour the language defines (a null or wild pointer dereferenced, an array
    written past its end, an uninitialised or freed pointer read, \<dots>), each a value of
    the model instead of a hypothesis of a theorem; \<^verbatim>\<open>'a res\<close> is the result of
    a function that may fault, \<^verbatim>\<open>rbind\<close> its sequencing.
  \<^item> C strings: a \<^verbatim>\<open>char *\<close> that points at a terminated string is the list of
    the bytes before the terminator; \<^verbatim>\<open>strcpy_buf\<close> is \<^verbatim>\<open>strcpy\<close>
    into an array of a known size; \<^verbatim>\<open>strtok_r\<close> and the character tests are
    those of the C library (C locale).
\<close>

named_theorems res_simps \<open>evaluation of the result type\<close>
named_theorems cstr_simps \<open>evaluation of the C string functions\<close>

subsection \<open>Faults and results\<close>

datatype fault =
    Null_Deref          \<comment> \<open>a null pointer is read through\<close>
  | Wild_Deref          \<comment> \<open>a pointer that was never an object's address is read through\<close>
  | Type_Confusion      \<comment> \<open>the wrong member of a union is used as a pointer\<close>
  | Uninitialised       \<comment> \<open>an automatic variable is used before it is set\<close>
  | Use_After_Free      \<comment> \<open>a freed object is used\<close>
  | Buffer_Overflow     \<comment> \<open>a string is written past the end of its array\<close>
  | Out_Of_Bounds       \<comment> \<open>an array is indexed past its end\<close>
  | Signed_Overflow     \<comment> \<open>an \<^verbatim>\<open>int\<close> leaves its range\<close>
  | Deadlock            \<comment> \<open>a semaphore is waited for that no other thread will post\<close>
  | Endless_Loop        \<comment> \<open>a loop never reaches its exit\<close>
  | Division_By_Zero    \<comment> \<open>an integer is divided by zero\<close>

type_synonym 'a res = "fault + 'a"

definition rbind :: "'a res \<Rightarrow> ('a \<Rightarrow> 'b res) \<Rightarrow> 'b res" where
  "rbind m f = (case m of Inl e \<Rightarrow> Inl e | Inr x \<Rightarrow> f x)"

lemma rbind_Inl [simp, res_simps]: "rbind (Inl e) f = Inl e"
  by (simp add: rbind_def)

lemma rbind_Inr [simp, res_simps]: "rbind (Inr x) f = f x"
  by (simp add: rbind_def)

lemma rbind_eq_Inr: "rbind m f = Inr y \<longleftrightarrow> (\<exists>x. m = Inr x \<and> f x = Inr y)"
  by (cases m) auto

lemma rbind_eq_Inl: "rbind m f = Inl e \<longleftrightarrow> m = Inl e \<or> (\<exists>x. m = Inr x \<and> f x = Inl e)"
  by (cases m) auto

lemma rbind_InrE [elim!]:
  assumes "rbind m f = Inr y"
  obtains x where "m = Inr x" and "f x = Inr y"
  using assms by (auto simp: rbind_eq_Inr)

lemma rbind_cong [fundef_cong]:
  "m = m' \<Longrightarrow> (\<And>x. m' = Inr x \<Longrightarrow> f x = f' x) \<Longrightarrow> rbind m f = rbind m' f'"
  by (cases m') auto

lemma rbind_assoc: "rbind (rbind m f) g = rbind m (\<lambda>x. rbind (f x) g)"
  by (cases m) auto

text \<open>A computation that returns.\<close>

definition returns :: "'a res \<Rightarrow> bool" where
  "returns m = (case m of Inl _ \<Rightarrow> False | Inr _ \<Rightarrow> True)"

lemma returns_simps [simp, res_simps]: "returns (Inr x)" "\<not> returns (Inl e)"
  by (simp_all add: returns_def)

lemma returns_iff: "returns m \<longleftrightarrow> (\<exists>x. m = Inr x)"
  by (cases m) auto

text \<open>A fold that stops at the first fault: the shape of every loop over a table.\<close>

fun rfold :: "('a \<Rightarrow> 's \<Rightarrow> 's res) \<Rightarrow> 'a list \<Rightarrow> 's \<Rightarrow> 's res" where
  "rfold f [] s = Inr s"
| "rfold f (x # xs) s = rbind (f x s) (rfold f xs)"

lemma rfold_append: "rfold f (xs @ ys) s = rbind (rfold f xs s) (rfold f ys)"
  by (induction xs arbitrary: s) (auto simp: rbind_def split: sum.splits)

lemma rbind_return: "rbind m Inr = m"
  by (simp add: rbind_def split: sum.split)

lemma rfold_single: "rfold f [] = Inr" "rfold f [x] = f x"
  by (simp_all add: fun_eq_iff rbind_def split: sum.split)

lemma rfold_invariant:
  assumes "rfold f xs s = Inr s'" and "P s"
    and "\<And>x s t. x \<in> set xs \<Longrightarrow> P s \<Longrightarrow> f x s = Inr t \<Longrightarrow> P t"
  shows "P s'"
  using assms by (induction xs arbitrary: s) auto

text \<open>A loop over positions whose state after \<open>n\<close> turns is known.\<close>

lemma rfold_upt:
  assumes "\<And>n. n < N \<Longrightarrow> f n (S n) = Inr (S (Suc n))"
  shows "n \<le> N \<Longrightarrow> rfold f [0..<n] (S 0) = Inr (S n)"
proof (induction n)
  case (Suc n)
  with assms [of n] show ?case by (simp add: rfold_append)
qed simp

lemma list_update_prefix:
  assumes "n < length xs"
  shows "(map f (take n xs) @ drop n xs)[n := f (xs ! n)] = map f (take (Suc n) xs) @ drop (Suc n) xs"
  using assms by (simp add: list_update_append take_Suc_conv_app_nth Cons_nth_drop_Suc [symmetric])

text \<open>An \<^verbatim>\<open>int\<close> counter: C leaves its overflow undefined.\<close>

definition INT_MAX :: int where "INT_MAX = 2147483647"

definition inc_int :: "int \<Rightarrow> int res" where
  "inc_int n = (if n < INT_MAX then Inr (n + 1) else Inl Signed_Overflow)"

text \<open>An \<^verbatim>\<open>unsigned\<close> that does not wrap.\<close>

lemma unat_of_nat_32: "n < 2 ^ 32 \<Longrightarrow> unat (of_nat n :: 32 word) = n"
  by (simp add: unat_of_nat take_bit_nat_eq_self)

subsection \<open>C strings\<close>

type_synonym cstring = string

text \<open>The string a byte buffer holds: the bytes before the first zero byte.\<close>

definition cstr_of :: "char list \<Rightarrow> cstring" where
  "cstr_of bs = takeWhile (\<lambda>c. c \<noteq> CHR 0x00) bs"

definition is_cstring :: "char list \<Rightarrow> bool" where
  "is_cstring s \<longleftrightarrow> CHR 0x00 \<notin> set s"

lemma is_cstring_simps [simp, cstr_simps]:
  "is_cstring []"
  "is_cstring (c # s) \<longleftrightarrow> c \<noteq> CHR 0x00 \<and> is_cstring s"
  "is_cstring (s @ t) \<longleftrightarrow> is_cstring s \<and> is_cstring t"
  by (auto simp: is_cstring_def)

lemma is_cstring_cstr_of [simp]: "is_cstring (cstr_of bs)"
  by (auto simp: is_cstring_def cstr_of_def dest: set_takeWhileD)

lemma cstr_of_append_zero: "cstr_of (s @ CHR 0x00 # r) = cstr_of s"
  unfolding cstr_of_def by (induction s) auto

lemma cstr_of_id [simp]: "is_cstring s \<Longrightarrow> cstr_of s = s"
  by (auto simp: is_cstring_def cstr_of_def takeWhile_eq_all_conv)

lemma is_cstring_subset: "is_cstring s \<Longrightarrow> set t \<subseteq> set s \<Longrightarrow> is_cstring t"
  by (auto simp: is_cstring_def)

text \<open>\<^verbatim>\<open>strcpy(buf, s)\<close> into \<^verbatim>\<open>char buf[n]\<close>: it writes the
  string and its terminator.\<close>

definition strcpy_buf :: "nat \<Rightarrow> cstring \<Rightarrow> cstring res" where
  "strcpy_buf n s = (if length s < n then Inr s else Inl Buffer_Overflow)"

lemma strcpy_buf_simps [simp, res_simps]:
  "length s < n \<Longrightarrow> strcpy_buf n s = Inr s"
  "\<not> length s < n \<Longrightarrow> strcpy_buf n s = Inl Buffer_Overflow"
  by (simp_all add: strcpy_buf_def)

lemma strcpy_buf_InrD [dest!]: "strcpy_buf n s = Inr t \<Longrightarrow> t = s \<and> length s < n"
  by (simp add: strcpy_buf_def split: if_splits)

subsection \<open>Character classes\<close>

definition char_code :: "char \<Rightarrow> nat" where
  "char_code c = of_char c"

lemma less_16: "k < (16::nat) \<Longrightarrow> k \<in> {0, 1, 2, 3, 4, 5, 6, 7, 8, 9, 10, 11, 12, 13, 14, 15}"
  by (simp, presburger)

definition is_digit :: "char \<Rightarrow> bool" where
  "is_digit c \<longleftrightarrow> 48 \<le> char_code c \<and> char_code c \<le> 57"

definition is_lower :: "char \<Rightarrow> bool" where
  "is_lower c \<longleftrightarrow> 97 \<le> char_code c \<and> char_code c \<le> 122"

definition is_upper :: "char \<Rightarrow> bool" where
  "is_upper c \<longleftrightarrow> 65 \<le> char_code c \<and> char_code c \<le> 90"

text \<open>\<^verbatim>\<open>isspace\<close> of the C locale: space, \<open>\\t \\n \\v \\f \\r\<close>.\<close>

definition isspace :: "char \<Rightarrow> bool" where
  "isspace c \<longleftrightarrow> char_code c = 32 \<or> (9 \<le> char_code c \<and> char_code c \<le> 13)"

definition tolower :: "char \<Rightarrow> char" where
  "tolower c = (if is_upper c then char_of (char_code c + 32) else c)"

definition digit_val :: "char \<Rightarrow> nat" where
  "digit_val c = char_code c - 48"

lemmas char_class_defs = is_digit_def is_lower_def is_upper_def isspace_def char_code_def

lemma is_digit_not_space: "is_digit c \<Longrightarrow> \<not> isspace c"
  by (auto simp: char_class_defs)

lemma digit_val_less: "is_digit c \<Longrightarrow> digit_val c < 10"
  by (auto simp: is_digit_def digit_val_def)

text \<open>\<^verbatim>\<open>strncasecmp(a, b, n) == 0\<close>, on byte buffers: equality up to case of
  the first \<open>n\<close> bytes, or up to a common terminator before that. Reading past the end of
  a buffer is out of bounds.\<close>

fun strncaseeq :: "char list \<Rightarrow> char list \<Rightarrow> nat \<Rightarrow> bool res" where
  "strncaseeq a b 0 = Inr True"
| "strncaseeq (x # a) (y # b) (Suc n) =
     (if tolower x \<noteq> tolower y then Inr False
      else if x = CHR 0x00 then Inr True else strncaseeq a b n)"
| "strncaseeq _ _ (Suc n) = Inl Out_Of_Bounds"

lemma strncaseeq_code [code]:
  "strncaseeq a b n =
     (if n = 0 then Inr True
      else case (a, b) of
          (x # a', y # b') \<Rightarrow> (if tolower x \<noteq> tolower y then Inr False
            else if x = CHR 0x00 then Inr True else strncaseeq a' b' (n - 1))
        | _ \<Rightarrow> Inl Out_Of_Bounds)"
  by (cases n) (auto split: list.splits)

subsection \<open>strtok_r\<close>

text \<open>
  \<^verbatim>\<open>strtok_r(s, "d", &save)\<close> with one delimiter: leading delimiters are skipped;
  if nothing is left the result is the null pointer; otherwise the token runs to the next
  delimiter, which is overwritten, and \<^verbatim>\<open>save\<close> is what follows it.
\<close>

definition strtok_r :: "char \<Rightarrow> cstring \<Rightarrow> (cstring \<times> cstring) option" where
  "strtok_r d s =
     (let s' = dropWhile (\<lambda>c. c = d) s
      in if s' = [] then None
         else Some (takeWhile (\<lambda>c. c \<noteq> d) s', drop 1 (dropWhile (\<lambda>c. c \<noteq> d) s')))"

lemma strtok_r_shorter: "strtok_r d s = Some (t, r) \<Longrightarrow> length r < length s"
proof -
  assume *: "strtok_r d s = Some (t, r)"
  let ?s = "dropWhile (\<lambda>c. c = d) s"
  from * have "?s \<noteq> []" and r: "r = drop 1 (dropWhile (\<lambda>c. c \<noteq> d) ?s)"
    by (auto simp: strtok_r_def Let_def split: if_splits)
  then have "length r < length ?s"
    using length_dropWhile_le [of "\<lambda>c. c \<noteq> d" ?s] by (cases ?s) auto
  then show ?thesis
    using length_dropWhile_le [of "\<lambda>c. c = d" s] by simp
qed

lemma strtok_r_token: "strtok_r d s = Some (t, r) \<Longrightarrow> t \<noteq> [] \<and> d \<notin> set t"
proof -
  assume *: "strtok_r d s = Some (t, r)"
  then obtain x xs where x: "dropWhile (\<lambda>c. c = d) s = x # xs" "x \<noteq> d"
    and t: "t = takeWhile (\<lambda>c. c \<noteq> d) (x # xs)"
    using hd_dropWhile [of "\<lambda>c. c = d" s]
    by (cases "dropWhile (\<lambda>c. c = d) s") (auto simp: strtok_r_def Let_def split: if_splits)
  then show ?thesis by (auto dest: set_takeWhileD)
qed

lemma strtok_r_subset:
  "strtok_r d s = Some (t, r) \<Longrightarrow> set t \<subseteq> set s \<and> set r \<subseteq> set s"
  by (auto simp: strtok_r_def Let_def split: if_splits
      dest!: set_takeWhileD set_dropWhileD in_set_dropD)

lemma strtok_r_cstring:
  "strtok_r d s = Some (t, r) \<Longrightarrow> is_cstring s \<Longrightarrow> is_cstring t \<and> is_cstring r"
  using strtok_r_subset is_cstring_subset by blast

lemma strtok_r_Nil [simp, cstr_simps]: "strtok_r d [] = None"
  by (simp add: strtok_r_def)

lemma strtok_r_delim [simp, cstr_simps]: "strtok_r d (d # s) = strtok_r d s"
  by (simp add: strtok_r_def)

lemma strtok_r_append:
  "t \<noteq> [] \<Longrightarrow> d \<notin> set t \<Longrightarrow> strtok_r d (t @ d # r) = Some (t, r)"
  by (cases t) (auto simp: strtok_r_def takeWhile_append dropWhile_append takeWhile_eq_all_conv)

lemma strtok_r_all:
  "t \<noteq> [] \<Longrightarrow> d \<notin> set t \<Longrightarrow> strtok_r d t = Some (t, [])"
  using dropWhile_eq_Nil_conv [of "\<lambda>c. c \<noteq> d" "tl t"]
  by (cases t) (auto simp: strtok_r_def takeWhile_eq_all_conv simp del: dropWhile_eq_Nil_conv)

lemma strtok_r_None: "strtok_r d s = None \<longleftrightarrow> set s \<subseteq> {d}"
  by (auto simp: strtok_r_def Let_def)

text \<open>All the tokens a \<^verbatim>\<open>strtok_r\<close> loop visits.\<close>

function strtok_all :: "char \<Rightarrow> cstring \<Rightarrow> cstring list" where
  "strtok_all d s = (case strtok_r d s of None \<Rightarrow> [] | Some (t, r) \<Rightarrow> t # strtok_all d r)"
  by pat_completeness auto
termination
  by (relation "measure (\<lambda>(d, s). length s)") (auto dest: strtok_r_shorter)

declare strtok_all.simps [simp del]

lemma strtok_all_None [cstr_simps]: "strtok_r d s = None \<Longrightarrow> strtok_all d s = []"
  by (simp add: strtok_all.simps)

lemma strtok_all_Some [cstr_simps]:
  "strtok_r d s = Some (t, r) \<Longrightarrow> strtok_all d s = t # strtok_all d r"
  by (simp add: strtok_all.simps)

lemma strtok_all_Nil [simp, cstr_simps]: "strtok_all d [] = []"
  by (simp add: strtok_all_None)

lemma strtok_all_append:
  "t \<noteq> [] \<Longrightarrow> d \<notin> set t \<Longrightarrow> strtok_all d (t @ d # r) = t # strtok_all d r"
  by (simp add: strtok_all_Some strtok_r_append)

lemma strtok_all_single: "t \<noteq> [] \<Longrightarrow> d \<notin> set t \<Longrightarrow> strtok_all d t = [t]"
  by (simp add: strtok_all_Some strtok_r_all)

lemma strtok_all_Nil_iff: "strtok_all d s = [] \<longleftrightarrow> set s \<subseteq> {d}"
  by (cases "strtok_r d s") (auto simp: cstr_simps strtok_r_None [symmetric])

lemma strtok_induct [case_names None Some]:
  assumes "\<And>s. strtok_r d s = None \<Longrightarrow> P s"
    and "\<And>s t r. strtok_r d s = Some (t, r) \<Longrightarrow> P r \<Longrightarrow> P s"
  shows "P s"
proof (induction "length s" arbitrary: s rule: less_induct)
  case less
  show ?case
  proof (cases "strtok_r d s")
    case (Some tr)
    then obtain t r where tr: "strtok_r d s = Some (t, r)" by (cases tr) auto
    with less strtok_r_shorter [OF tr] assms(2) show ?thesis by blast
  qed (rule assms(1))
qed

lemma strtok_all_tokens:
  "t \<in> set (strtok_all d s) \<Longrightarrow> t \<noteq> [] \<and> d \<notin> set t \<and> set t \<subseteq> set s"
proof (induction s rule: strtok_induct [of d])
  case (Some s t' r)
  with strtok_r_token [OF Some(1)] strtok_r_subset [OF Some(1)] show ?case
    by (auto simp: strtok_all_Some)
qed (simp add: strtok_all_None)

lemma length_strtok_all: "length (strtok_all d s) \<le> length s"
proof (induction s rule: strtok_induct [of d])
  case (Some s t r)
  with strtok_r_shorter [OF Some(1)] show ?case by (simp add: strtok_all_Some)
qed (simp add: strtok_all_None)

end
