(* ===== verification/CNum.thy ===== *)
theory CNum
  imports Prelude "HOL-Library.Code_Target_Nat"
begin

text \<open>
  Decimal integers of the C library: \<^verbatim>\<open>sprintf("%d"/"%ld")\<close>
  (\<^verbatim>\<open>dec_of_int\<close>), \<^verbatim>\<open>atol\<close> on a 64-bit \<^verbatim>\<open>long\<close>
  (\<^verbatim>\<open>atol\<close>, saturating as \<^verbatim>\<open>strtol\<close> does) and
  \<^verbatim>\<open>atoi\<close>, the low 32 bits of it. The lemmas are the round trip between the two
  and the bounds on the printed length that the program's fixed buffers rely on.
\<close>

named_theorems num_simps \<open>printing and reading numbers\<close>

subsection \<open>Digits\<close>

definition digit_char :: "nat \<Rightarrow> char" where
  "digit_char d = char_of (48 + d)"

lemma char_code_digit_char: "d < 10 \<Longrightarrow> char_code (digit_char d) = 48 + d"
  by (simp add: char_code_def digit_char_def)

lemma is_digit_digit_char [simp, num_simps]: "d < 10 \<Longrightarrow> is_digit (digit_char d)"
  by (simp add: is_digit_def char_code_digit_char)

lemma digit_val_digit_char [simp, num_simps]: "d < 10 \<Longrightarrow> digit_val (digit_char d) = d"
  by (simp add: digit_val_def char_code_digit_char)

definition digits_val :: "string \<Rightarrow> nat" where
  "digits_val s = foldl (\<lambda>a c. 10 * a + digit_val c) 0 s"

lemma digits_val_Nil [simp, num_simps]: "digits_val [] = 0"
  by (simp add: digits_val_def)

lemma digits_val_snoc [simp, num_simps]: "digits_val (s @ [c]) = 10 * digits_val s + digit_val c"
  by (simp add: digits_val_def)

lemma digits_val_single [simp, num_simps]: "digits_val [c] = digit_val c"
  by (simp add: digits_val_def)

fun dec_of_nat :: "nat \<Rightarrow> string" where
  "dec_of_nat n = (if n < 10 then [digit_char n]
                   else dec_of_nat (n div 10) @ [digit_char (n mod 10)])"

declare dec_of_nat.simps [simp del]

lemma dec_of_nat_small: "n < 10 \<Longrightarrow> dec_of_nat n = [digit_char n]"
  by (simp add: dec_of_nat.simps)

lemma dec_of_nat_step:
  "10 \<le> n \<Longrightarrow> dec_of_nat n = dec_of_nat (n div 10) @ [digit_char (n mod 10)]"
  by (subst dec_of_nat.simps) simp

lemma dec_of_nat_nonempty [simp]: "dec_of_nat n \<noteq> []"
  by (subst dec_of_nat.simps) simp

lemma dec_of_nat_digits: "c \<in> set (dec_of_nat n) \<Longrightarrow> is_digit c"
proof (induction n rule: dec_of_nat.induct)
  case (1 n)
  then show ?case
    by (cases "n < 10") (auto simp: dec_of_nat_small dec_of_nat_step)
qed

lemma digits_val_dec_of_nat [simp, num_simps]: "digits_val (dec_of_nat n) = n"
proof (induction n rule: dec_of_nat.induct)
  case (1 n)
  then show ?case
    by (cases "n < 10") (auto simp: dec_of_nat_small dec_of_nat_step)
qed

lemma length_dec_of_nat: "n < 10 ^ k \<Longrightarrow> 0 < k \<Longrightarrow> length (dec_of_nat n) \<le> k"
proof (induction k arbitrary: n)
  case 0
  then show ?case by simp
next
  case (Suc k)
  show ?case
  proof (cases "n < 10")
    case True
    then show ?thesis by (simp add: dec_of_nat_small)
  next
    case False
    with Suc.prems have "n div 10 < 10 ^ k" and "0 < k"
      by (auto simp: less_mult_imp_div_less mult.commute intro: Suc_leI gr0I)
    with Suc.IH have "length (dec_of_nat (n div 10)) \<le> k" by blast
    with False show ?thesis by (simp add: dec_of_nat_step)
  qed
qed

lemma length_dec_of_nat_ge: "10 ^ k \<le> n \<Longrightarrow> k < length (dec_of_nat n)"
proof (induction k arbitrary: n)
  case 0
  then show ?case by (simp add: length_greater_0_conv)
next
  case (Suc k)
  then have "10 \<le> n" by (metis le_trans one_le_power one_le_numeral power_Suc mult_le_mono2 nat_mult_1_right)
  moreover from Suc.prems have "10 ^ k \<le> n div 10" by (simp add: less_eq_div_iff_mult_less_eq mult.commute)
  ultimately show ?case using Suc.IH [of "n div 10"] by (simp add: dec_of_nat_step)
qed

lemma takeWhile_dec_of_nat [simp, num_simps]:
  "takeWhile is_digit (dec_of_nat n) = dec_of_nat n"
  by (auto simp: takeWhile_eq_all_conv dec_of_nat_digits)

lemma dropWhile_dec_of_nat [simp, num_simps]: "dropWhile is_digit (dec_of_nat n) = []"
  by (auto simp: dec_of_nat_digits)

lemma takeWhile_dec_of_nat_append:
  "takeWhile is_digit (dec_of_nat n @ s) = dec_of_nat n @ takeWhile is_digit s"
  "dropWhile is_digit (dec_of_nat n @ s) = dropWhile is_digit s"
  by (auto simp: dec_of_nat_digits takeWhile_append dropWhile_append)

lemma dec_of_nat_ConsE:
  obtains c cs where "dec_of_nat n = c # cs" and "is_digit c"
  using dec_of_nat_digits [of _ n] by (cases "dec_of_nat n") auto

lemma is_digit_neq:
  assumes "is_digit c"
  shows "c \<noteq> CHR ''-''" "c \<noteq> CHR ''+''" "c \<noteq> CHR ''.''" "c \<noteq> CHR 0x00" "c \<noteq> CHR '':''"
    "c \<noteq> CHR ''|''" "c \<noteq> CHR ''e''" "c \<noteq> CHR ''E''"
  using assms by (auto simp: char_class_defs)

lemma is_cstring_dec_of_nat [simp]: "is_cstring (dec_of_nat n)"
  by (auto simp: is_cstring_def dest: dec_of_nat_digits is_digit_neq)

subsection \<open>Signed decimals\<close>

definition dec_of_int :: "int \<Rightarrow> string" where
  "dec_of_int i = (if i < 0 then CHR ''-'' # dec_of_nat (nat (- i)) else dec_of_nat (nat i))"

lemma is_cstring_dec_of_int [simp]: "is_cstring (dec_of_int i)"
  by (simp add: dec_of_int_def)

lemma length_dec_of_int:
  "\<bar>i\<bar> < 10 ^ k \<Longrightarrow> 0 < k \<Longrightarrow> length (dec_of_int i) \<le> Suc k"
  using length_dec_of_nat [of "nat \<bar>i\<bar>" k]
  by (auto simp: dec_of_int_def nat_less_iff le_SucI)

text \<open>A 64-bit \<^verbatim>\<open>long\<close> prints in at most 20 characters.\<close>

definition LONG_MAX :: int where "LONG_MAX = 9223372036854775807"
definition LONG_MIN :: int where "LONG_MIN = - 9223372036854775808"

definition is_long :: "int \<Rightarrow> bool" where
  "is_long i \<longleftrightarrow> LONG_MIN \<le> i \<and> i \<le> LONG_MAX"

lemma length_dec_of_long: "is_long i \<Longrightarrow> length (dec_of_int i) \<le> 20"
  using length_dec_of_int [of i 19] by (simp add: is_long_def LONG_MIN_def LONG_MAX_def abs_less_iff)

subsection \<open>\<^verbatim>\<open>atol\<close>\<close>

definition clamp_long :: "int \<Rightarrow> int" where
  "clamp_long i = max LONG_MIN (min LONG_MAX i)"

text \<open>An optional sign: whether it is negative, and what follows.\<close>

definition read_sign :: "cstring \<Rightarrow> bool \<times> cstring" where
  "read_sign s = (case s of
       [] \<Rightarrow> (False, [])
     | c # r \<Rightarrow> (if c = CHR ''-'' then (True, r) else if c = CHR ''+'' then (False, r) else (False, s)))"

definition strtol_val :: "cstring \<Rightarrow> int" where
  "strtol_val s =
     (let (neg, r) = read_sign (dropWhile isspace s);
          v = int (digits_val (takeWhile is_digit r))
      in if neg then - v else v)"

definition atol :: "cstring \<Rightarrow> int" where
  "atol s = clamp_long (strtol_val s)"

text \<open>\<^verbatim>\<open>atoi\<close> is the conversion of the \<^verbatim>\<open>long\<close> to
  \<^verbatim>\<open>int\<close>.\<close>

definition to_int32 :: "int \<Rightarrow> int" where
  "to_int32 i = (let m = i mod 4294967296 in if m < 2147483648 then m else m - 4294967296)"

definition atoi :: "cstring \<Rightarrow> int" where
  "atoi s = to_int32 (atol s)"

lemma is_long_atol [simp]: "is_long (atol s)"
  by (simp add: atol_def clamp_long_def is_long_def LONG_MIN_def LONG_MAX_def)

lemma clamp_long_id: "is_long i \<Longrightarrow> clamp_long i = i"
  by (simp add: is_long_def clamp_long_def)

lemma read_sign_digits [num_simps]: "read_sign (dec_of_nat n @ s) = (False, dec_of_nat n @ s)"
proof -
  obtain c cs where "dec_of_nat n = c # cs" "is_digit c" by (rule dec_of_nat_ConsE)
  then show ?thesis by (simp add: read_sign_def is_digit_neq)
qed

lemma dropWhile_isspace_digits [num_simps]: "dropWhile isspace (dec_of_nat n @ s) = dec_of_nat n @ s"
proof -
  obtain c cs where "dec_of_nat n = c # cs" "is_digit c" by (rule dec_of_nat_ConsE)
  then show ?thesis by (simp add: is_digit_not_space)
qed

lemma strtol_val_dec_of_int: "strtol_val (dec_of_int i) = i"
proof (cases "i < 0")
  case True
  have "\<not> isspace (CHR ''-'')" by (simp add: char_class_defs)
  with True show ?thesis
    by (simp add: strtol_val_def dec_of_int_def read_sign_def)
next
  case False
  then show ?thesis
    using read_sign_digits [of "nat i" "[]"] dropWhile_isspace_digits [of "nat i" "[]"]
    by (simp add: strtol_val_def dec_of_int_def)
qed

lemma atol_dec_of_int: "is_long i \<Longrightarrow> atol (dec_of_int i) = i"
  by (simp add: atol_def strtol_val_dec_of_int clamp_long_id)

lemma to_int32_id:
  assumes "- 2147483648 \<le> i" and "i < 2147483648"
  shows "to_int32 i = i"
proof (cases "0 \<le> i")
  case True
  with assms show ?thesis by (simp add: to_int32_def)
next
  case False
  with assms have "i mod 4294967296 = i + 4294967296"
    using mod_pos_pos_trivial [of "i + 4294967296" 4294967296] mod_add_self2 [of i 4294967296]
    by linarith
  with assms False show ?thesis by (simp add: to_int32_def)
qed

end
