(* ===== verification/CFloat.thy ===== *)
theory CFloat
  imports CNum Complex_Main
begin

text \<open>
  The floating-point arithmetic of the program, exactly: IEEE 754 binary64
  (\<^verbatim>\<open>double\<close>) and the x87 80-bit format (\<^verbatim>\<open>long double\<close> on
  x86-64), round to nearest, ties to even. A finite non-zero value is the rational it
  denotes, so converting to a wider format is the identity; \<^verbatim>\<open>NZero\<close> is the
  negative zero. The sign and the payload of a NaN are not kept.

  Every operation is \<^verbatim>\<open>round_fp\<close> of the exact rational result. The lemmas:
  rounding is exact on representable values and monotone, arithmetic on integers of at most
  \<^verbatim>\<open>prec\<close> bits is exact, and \<^verbatim>\<open>strtod\<close>/\<^verbatim>\<open>"%f"\<close>
  invert each other on them.
\<close>

named_theorems fp_simps \<open>floating-point operations on finite values\<close>

subsection \<open>Values and formats\<close>

datatype fp = NaN | PInf | NInf | NZero | Fin rat

record fmt =
  prec :: nat      \<comment> \<open>bits of the significand\<close>
  emin :: int      \<comment> \<open>exponent of the last bit of a subnormal\<close>
  emax :: int      \<comment> \<open>\<open>2 powi emax\<close> is the first magnitude that overflows\<close>

definition binary64 :: fmt where
  "binary64 = \<lparr>prec = 53, emin = - 1074, emax = 1024\<rparr>"

definition x87ext :: fmt where
  "x87ext = \<lparr>prec = 64, emin = - 16445, emax = 16384\<rparr>"

definition wf_fmt :: "fmt \<Rightarrow> bool" where
  "wf_fmt F \<longleftrightarrow> 0 < prec F \<and> emin F \<le> 0 \<and> int (prec F) < emax F"

lemma fmt_sel [simp, fp_simps]:
  "prec binary64 = 53" "emin binary64 = - 1074" "emax binary64 = 1024"
  "prec x87ext = 64" "emin x87ext = - 16445" "emax x87ext = 16384"
  by (simp_all add: binary64_def x87ext_def)

lemma wf_fmts [simp]: "wf_fmt binary64" "wf_fmt x87ext"
  by (simp_all add: wf_fmt_def)

subsection \<open>Rounding a positive rational\<close>

fun bitlen :: "nat \<Rightarrow> nat" where
  "bitlen n = (if n = 0 then 0 else Suc (bitlen (n div 2)))"

declare bitlen.simps [simp del]

definition ilog2 :: "rat \<Rightarrow> int" where
  "ilog2 q = (let (n, d) = quotient_of q;
                  k = int (bitlen (nat n)) - int (bitlen (nat d))
              in if 2 powi k \<le> q then k else k - 1)"

definition round_even :: "rat \<Rightarrow> int" where
  "round_even x = (let m = \<lfloor>x\<rfloor>; r = x - of_int m
     in if r < 1/2 then m else if 1/2 < r then m + 1 else if even m then m else m + 1)"

definition ulp_exp :: "fmt \<Rightarrow> rat \<Rightarrow> int" where
  "ulp_exp F q = max (emin F) (ilog2 q - (int (prec F) - 1))"

definition round_mag :: "fmt \<Rightarrow> rat \<Rightarrow> rat" where
  "round_mag F q =
     (let e = ulp_exp F q in of_int (round_even (q / 2 powi e)) * 2 powi e)"

text \<open>A signed exact result: its sign is that of the result when it rounds to zero.\<close>

definition round_fp :: "fmt \<Rightarrow> rat \<Rightarrow> fp" where
  "round_fp F q =
     (if q = 0 then Fin 0
      else let m = round_mag F \<bar>q\<bar>
           in if 2 powi emax F \<le> m then (if q < 0 then NInf else PInf)
              else if m = 0 then (if q < 0 then NZero else Fin 0)
              else Fin (if q < 0 then - m else m))"

subsection \<open>Operations\<close>

fun fp_neg :: "fp \<Rightarrow> fp" where
  "fp_neg NaN = NaN"
| "fp_neg PInf = NInf"
| "fp_neg NInf = PInf"
| "fp_neg NZero = Fin 0"
| "fp_neg (Fin q) = (if q = 0 then NZero else Fin (- q))"

text \<open>The sign bit.\<close>

fun fp_signbit :: "fp \<Rightarrow> bool" where
  "fp_signbit NInf = True"
| "fp_signbit NZero = True"
| "fp_signbit (Fin q) = (q < 0)"
| "fp_signbit _ = False"

fun fp_rat :: "fp \<Rightarrow> rat" where
  "fp_rat (Fin q) = q"
| "fp_rat _ = 0"

definition fp_finite :: "fp \<Rightarrow> bool" where
  "fp_finite a \<longleftrightarrow> a \<noteq> NaN \<and> a \<noteq> PInf \<and> a \<noteq> NInf"

fun fp_add :: "fmt \<Rightarrow> fp \<Rightarrow> fp \<Rightarrow> fp" where
  "fp_add F NaN b = NaN"
| "fp_add F a NaN = NaN"
| "fp_add F PInf b = (if b = NInf then NaN else PInf)"
| "fp_add F a PInf = (if a = NInf then NaN else PInf)"
| "fp_add F NInf b = NInf"
| "fp_add F a NInf = NInf"
| "fp_add F NZero NZero = NZero"
| "fp_add F a b = round_fp F (fp_rat a + fp_rat b)"

definition fp_sub :: "fmt \<Rightarrow> fp \<Rightarrow> fp \<Rightarrow> fp" where
  "fp_sub F a b = fp_add F a (fp_neg b)"

definition fp_zero :: "bool \<Rightarrow> fp" where
  "fp_zero s = (if s then NZero else Fin 0)"

definition fp_inf :: "bool \<Rightarrow> fp" where
  "fp_inf s = (if s then NInf else PInf)"

definition fp_is_inf :: "fp \<Rightarrow> bool" where
  "fp_is_inf a \<longleftrightarrow> a = PInf \<or> a = NInf"

definition fp_is_zero :: "fp \<Rightarrow> bool" where
  "fp_is_zero a \<longleftrightarrow> a = NZero \<or> a = Fin 0"

definition fp_mul :: "fmt \<Rightarrow> fp \<Rightarrow> fp \<Rightarrow> fp" where
  "fp_mul F a b =
     (let s = (fp_signbit a \<noteq> fp_signbit b)
      in if a = NaN \<or> b = NaN then NaN
         else if fp_is_inf a \<or> fp_is_inf b
              then (if fp_is_zero a \<or> fp_is_zero b then NaN else fp_inf s)
         else if fp_is_zero a \<or> fp_is_zero b then fp_zero s
         else round_fp F (fp_rat a * fp_rat b))"

definition fp_div :: "fmt \<Rightarrow> fp \<Rightarrow> fp \<Rightarrow> fp" where
  "fp_div F a b =
     (let s = (fp_signbit a \<noteq> fp_signbit b)
      in if a = NaN \<or> b = NaN then NaN
         else if fp_is_inf a then (if fp_is_inf b then NaN else fp_inf s)
         else if fp_is_inf b then fp_zero s
         else if fp_is_zero b then (if fp_is_zero a then NaN else fp_inf s)
         else if fp_is_zero a then fp_zero s
         else round_fp F (fp_rat a / fp_rat b))"

text \<open>Conversion between formats.\<close>

fun fp_conv :: "fmt \<Rightarrow> fp \<Rightarrow> fp" where
  "fp_conv F (Fin q) = round_fp F q"
| "fp_conv F a = a"

definition fp_of_int :: "fmt \<Rightarrow> int \<Rightarrow> fp" where
  "fp_of_int F i = round_fp F (of_int i)"

text \<open>The C comparisons: false when an operand is a NaN; the two zeros are equal.\<close>

fun fp_less :: "fp \<Rightarrow> fp \<Rightarrow> bool" where
  "fp_less NaN b = False"
| "fp_less a NaN = False"
| "fp_less NInf b = (b \<noteq> NInf)"
| "fp_less a NInf = False"
| "fp_less PInf b = False"
| "fp_less a PInf = True"
| "fp_less a b = (fp_rat a < fp_rat b)"

definition fp_eq :: "fp \<Rightarrow> fp \<Rightarrow> bool" where
  "fp_eq a b \<longleftrightarrow> a \<noteq> NaN \<and> b \<noteq> NaN \<and> \<not> fp_less a b \<and> \<not> fp_less b a"

text \<open>
  \<^verbatim>\<open>(int) d\<close>: truncation. Out of range (and for a NaN) the conversion is undefined
  in C; the instruction the compiler emits on x86-64 gives \<^verbatim>\<open>INT_MIN\<close>.
\<close>

definition rat_trunc :: "rat \<Rightarrow> int" where
  "rat_trunc q = (if q < 0 then - \<lfloor>- q\<rfloor> else \<lfloor>q\<rfloor>)"

definition fp_to_int :: "fp \<Rightarrow> int" where
  "fp_to_int a =
     (if fp_finite a \<and> - 2147483648 \<le> rat_trunc (fp_rat a) \<and> rat_trunc (fp_rat a) < 2147483648
      then rat_trunc (fp_rat a) else - 2147483648)"

subsection \<open>The binary logarithm\<close>

lemma bitlen_0 [simp]: "bitlen 0 = 0"
  by (simp add: bitlen.simps)

lemma bitlen_pos: "0 < n \<Longrightarrow> bitlen n = Suc (bitlen (n div 2))"
  by (subst bitlen.simps) simp

lemma bitlen_bounds: "0 < n \<Longrightarrow> 2 ^ bitlen n \<le> 2 * n \<and> n < 2 ^ bitlen n"
proof (induction n rule: bitlen.induct)
  case (1 n)
  show ?case
  proof (cases "n = 1")
    case True
    then show ?thesis by (simp add: bitlen_pos)
  next
    case False
    with 1 have "2 ^ bitlen (n div 2) \<le> 2 * (n div 2) \<and> n div 2 < 2 ^ bitlen (n div 2)"
      by simp
    with 1 show ?thesis by (simp add: bitlen_pos) linarith
  qed
qed

lemma bitlen_bounds_rat:
  assumes "0 < (n::int)"
  shows "(2::rat) ^ bitlen (nat n) \<le> 2 * of_int n" and "of_int n < (2::rat) ^ bitlen (nat n)"
proof -
  obtain m where m: "n = int m" "0 < m" using assms by (metis pos_int_cases)
  from bitlen_bounds [OF m(2)]
  have "of_nat (2 ^ bitlen m) \<le> (of_nat (2 * m) :: rat)" "of_nat m < (of_nat (2 ^ bitlen m) :: rat)"
    by (simp_all only: of_nat_le_iff of_nat_less_iff)
  with m show "(2::rat) ^ bitlen (nat n) \<le> 2 * of_int n" "of_int n < (2::rat) ^ bitlen (nat n)"
    by simp_all
qed

lemma powi_rat_pos [simp]: "(0::rat) < 2 powi e"
  by (simp add: zero_less_power_int)

lemma powi_Suc: "(2::rat) powi (e + 1) = 2 * 2 powi e"
  by (simp add: power_int_add)

lemma powi_less_iff [simp]: "(2::rat) powi a < 2 powi b \<longleftrightarrow> a < b"
proof
  assume *: "(2::rat) powi a < 2 powi b"
  show "a < b"
  proof (rule ccontr)
    assume "\<not> a < b"
    then have "(2::rat) powi b \<le> 2 powi a" by (intro power_int_increasing) auto
    with * show False by simp
  qed
qed (auto intro: power_int_strict_increasing)

lemma powi_le_iff [simp]: "(2::rat) powi a \<le> 2 powi b \<longleftrightarrow> a \<le> b"
  using powi_less_iff [of b a] by linarith

lemma powi_of_nat: "(2::rat) powi int k = 2 ^ k"
  by simp

lemma ilog2_bounds:
  assumes "0 < q"
  shows "2 powi ilog2 q \<le> q" and "q < 2 powi (ilog2 q + 1)"
proof -
  obtain n d where nd: "quotient_of q = (n, d)" by (cases "quotient_of q")
  then have d: "0 < d" and q: "q = of_int n / of_int d"
    by (auto intro: quotient_of_denom_pos quotient_of_div)
  from assms q d have n: "0 < n" by (simp add: zero_less_divide_iff)
  let ?a = "bitlen (nat n)" and ?b = "bitlen (nat d)"
  let ?k = "int ?a - int ?b"
  note n' = bitlen_bounds_rat [OF n] and d' = bitlen_bounds_rat [OF d]
  have k: "(2::rat) powi ?k = 2 ^ ?a / 2 ^ ?b"
    by (simp add: power_int_diff)
  have dpos: "(0::rat) < of_int d" and npos: "(0::rat) < of_int n" using d n by simp_all
  have lo: "2 powi (?k - 1) \<le> q"
  proof -
    have "(2::rat) powi (?k - 1) = 2 ^ ?a / (2 * 2 ^ ?b)"
      by (simp add: power_int_diff)
    also have "\<dots> \<le> (2 * of_int n) / (2 * of_int d)"
      by (intro frac_le) (use npos n' d' dpos in linarith)+
    finally show ?thesis by (simp add: q)
  qed
  have hi: "q < 2 powi (?k + 1)"
  proof -
    have "q < 2 ^ ?a / (2 ^ ?b / 2)"
      unfolding q by (intro frac_less) (use npos n' d' dpos in linarith)+
    also have "\<dots> = 2 powi (?k + 1)" by (simp add: powi_Suc k)
    finally show ?thesis .
  qed
  show "2 powi ilog2 q \<le> q" "q < 2 powi (ilog2 q + 1)"
    using lo hi by (auto simp: ilog2_def nd Let_def)
qed

lemma ilog2_mono: "0 < a \<Longrightarrow> a \<le> b \<Longrightarrow> ilog2 a \<le> ilog2 b"
proof -
  assume "0 < a" "a \<le> b"
  then have "(2::rat) powi ilog2 a < 2 powi (ilog2 b + 1)"
    using ilog2_bounds(1) [of a] ilog2_bounds(2) [of b] by linarith
  then show ?thesis by simp
qed

lemma powi_le_ilog2: "0 < q \<Longrightarrow> 2 powi k \<le> q \<longleftrightarrow> k \<le> ilog2 q"
proof
  assume "0 < q" "2 powi k \<le> q"
  then have "(2::rat) powi k < 2 powi (ilog2 q + 1)" using ilog2_bounds(2) [of q] by linarith
  then show "k \<le> ilog2 q" by simp
next
  assume "0 < q" "k \<le> ilog2 q"
  then have "(2::rat) powi k \<le> 2 powi ilog2 q" by simp
  with \<open>0 < q\<close> show "2 powi k \<le> q" using ilog2_bounds(1) [of q] by linarith
qed

text \<open>Powers of two for evaluation.\<close>

definition two_powi :: "int \<Rightarrow> rat" where
  "two_powi e = (if 0 \<le> e then of_int (push_bit (nat e) 1)
                 else inverse (of_int (push_bit (nat (- e)) 1)))"

lemma powi_two_powi: "2 powi e = two_powi e"
  by (simp add: two_powi_def power_int_def push_bit_eq_mult power_one_over inverse_eq_divide)

lemmas ilog2_code [code] = ilog2_def [unfolded powi_two_powi]

subsection \<open>Rounding to an integer\<close>

lemma round_even_of_int [simp]: "round_even (of_int k) = k"
  by (simp add: round_even_def)

lemma round_even_bounds: "\<lfloor>x\<rfloor> \<le> round_even x" "round_even x \<le> \<lfloor>x\<rfloor> + 1"
  by (auto simp: round_even_def Let_def)

lemma round_even_mono: "x \<le> y \<Longrightarrow> round_even x \<le> round_even y"
proof -
  assume xy: "x \<le> y"
  then have f: "\<lfloor>x\<rfloor> \<le> \<lfloor>y\<rfloor>" by (rule floor_mono)
  show ?thesis
  proof (cases "\<lfloor>x\<rfloor> = \<lfloor>y\<rfloor>")
    case True
    with xy show ?thesis by (auto simp: round_even_def Let_def)
  next
    case False
    with f show ?thesis using round_even_bounds [of x] round_even_bounds [of y] by linarith
  qed
qed

lemma round_even_ge: "of_int k \<le> x \<Longrightarrow> k \<le> round_even x"
  using round_even_mono [of "of_int k" x] by simp

lemma round_even_le: "x \<le> of_int k \<Longrightarrow> round_even x \<le> k"
  using round_even_mono [of x "of_int k"] by simp

subsection \<open>Rounding of a magnitude: exact, monotone\<close>

definition representable :: "fmt \<Rightarrow> rat \<Rightarrow> bool" where
  "representable F q \<longleftrightarrow>
     (\<exists>m e. q = of_int m * 2 powi e \<and> \<bar>m\<bar> < 2 ^ prec F \<and> emin F \<le> e) \<and> \<bar>q\<bar> < 2 powi emax F"

definition fp_ok :: "fmt \<Rightarrow> fp \<Rightarrow> bool" where
  "fp_ok F a \<longleftrightarrow> (case a of Fin q \<Rightarrow> representable F q | _ \<Rightarrow> True)"

lemma fp_ok_simps [simp]:
  "fp_ok F NaN" "fp_ok F PInf" "fp_ok F NInf" "fp_ok F NZero"
  "fp_ok F (Fin q) \<longleftrightarrow> representable F q"
  by (simp_all add: fp_ok_def)

lemma ulp_exp_ge: "emin F \<le> ulp_exp F q"
  by (simp add: ulp_exp_def)

lemma round_mag_exact:
  assumes q: "q = of_int m * 2 powi e" and m: "0 < m" "m < 2 ^ prec F" and e: "emin F \<le> e"
  shows "round_mag F q = q"
proof -
  let ?E = "ulp_exp F q"
  have pos: "0 < q" using q m by simp
  have "(of_int m :: rat) < of_int (2 ^ prec F)" using m(2) by (simp only: of_int_less_iff)
  then have m': "(of_int m :: rat) < 2 ^ prec F" by simp
  have "(2::rat) powi ilog2 q \<le> q" by (rule ilog2_bounds(1) [OF pos])
  also have "q < 2 ^ prec F * 2 powi e"
    unfolding q using m' by (intro mult_strict_right_mono) simp_all
  also have "\<dots> = 2 powi (int (prec F) + e)" by (simp add: power_int_add)
  finally have "ilog2 q < int (prec F) + e" by simp
  with e have E: "?E \<le> e" by (simp add: ulp_exp_def)
  have "(2::rat) powi e = 2 powi ?E * 2 powi (e - ?E)" by (simp flip: power_int_add)
  also have "(2::rat) powi (e - ?E) = 2 ^ nat (e - ?E)" using E by (simp add: power_int_def)
  finally have pe: "(2::rat) powi e = 2 powi ?E * 2 ^ nat (e - ?E)" .
  have "q / 2 powi ?E = of_int m * (2 powi e / 2 powi ?E)" by (simp add: q)
  also have "(2::rat) powi e / 2 powi ?E = 2 ^ nat (e - ?E)" by (subst pe) simp
  finally have "q / 2 powi ?E = of_int (m * 2 ^ nat (e - ?E))" by simp
  then have "of_int (round_even (q / 2 powi ?E)) = q / 2 powi ?E"
    by (simp only: round_even_of_int)
  then show ?thesis by (simp add: round_mag_def Let_def)
qed

lemma round_mag_le_pow:
  assumes "a \<le> 2 powi u" and "ulp_exp F a \<le> u"
  shows "round_mag F a \<le> 2 powi u"
proof -
  let ?E = "ulp_exp F a"
  have p: "(2::rat) powi u = of_int (2 ^ nat (u - ?E)) * 2 powi ?E"
    using assms(2) power_int_add [of "2::rat" "u - ?E" ?E] by (simp add: power_int_def)
  then have "a / 2 powi ?E \<le> of_int (2 ^ nat (u - ?E))"
    using assms(1) by (simp add: divide_le_eq)
  then have "round_even (a / 2 powi ?E) \<le> 2 ^ nat (u - ?E)" by (rule round_even_le)
  then have "(of_int (round_even (a / 2 powi ?E)) :: rat) \<le> of_int (2 ^ nat (u - ?E))"
    by (simp only: of_int_le_iff)
  then show ?thesis
    unfolding p round_mag_def Let_def by (intro mult_right_mono) simp_all
qed

lemma round_mag_ge_pow:
  assumes "2 powi u \<le> a" and "ulp_exp F a \<le> u"
  shows "2 powi u \<le> round_mag F a"
proof -
  let ?E = "ulp_exp F a"
  have p: "(2::rat) powi u = of_int (2 ^ nat (u - ?E)) * 2 powi ?E"
    using assms(2) power_int_add [of "2::rat" "u - ?E" ?E] by (simp add: power_int_def)
  then have "of_int (2 ^ nat (u - ?E)) \<le> a / 2 powi ?E"
    using assms(1) by (simp add: le_divide_eq)
  then have "2 ^ nat (u - ?E) \<le> round_even (a / 2 powi ?E)" by (rule round_even_ge)
  then have "(of_int (2 ^ nat (u - ?E)) :: rat) \<le> of_int (round_even (a / 2 powi ?E))"
    by (simp only: of_int_le_iff)
  then show ?thesis
    unfolding p round_mag_def Let_def by (intro mult_right_mono) simp_all
qed

lemma round_mag_mono:
  assumes F: "wf_fmt F" and a: "0 < a" and ab: "a \<le> b"
  shows "round_mag F a \<le> round_mag F b"
proof (cases "ulp_exp F a = ulp_exp F b")
  case True
  have "a / 2 powi ulp_exp F b \<le> b / 2 powi ulp_exp F b"
    using ab by (simp add: divide_right_mono less_imp_le)
  then have "round_even (a / 2 powi ulp_exp F b) \<le> round_even (b / 2 powi ulp_exp F b)"
    by (rule round_even_mono)
  then show ?thesis
    unfolding round_mag_def Let_def True by (intro mult_right_mono) simp_all
next
  case False
  let ?u = "max (ilog2 a + 1) (ulp_exp F a)"
  have b: "0 < b" using a ab by simp
  have il: "ilog2 a \<le> ilog2 b" using a ab by (rule ilog2_mono)
  with False have lt: "ulp_exp F a < ulp_exp F b" "emin F < ulp_exp F b"
    by (auto simp: ulp_exp_def max_def split: if_splits)
  then have Eb: "ulp_exp F b = ilog2 b - (int (prec F) - 1)"
    by (simp add: ulp_exp_def max_def split: if_splits)
  with lt F have "?u \<le> ilog2 b" and "ulp_exp F b \<le> ilog2 b"
    by (auto simp: ulp_exp_def wf_fmt_def)
  moreover have "round_mag F a \<le> 2 powi ?u"
  proof (rule round_mag_le_pow)
    have "a \<le> 2 powi (ilog2 a + 1)" using ilog2_bounds(2) [OF a] by simp
    also have "\<dots> \<le> 2 powi ?u" by (simp only: powi_le_iff)
    finally show "a \<le> 2 powi ?u" .
  qed simp
  moreover have "2 powi ilog2 b \<le> round_mag F b" if "ulp_exp F b \<le> ilog2 b"
    by (rule round_mag_ge_pow [OF ilog2_bounds(1) [OF b] that])
  ultimately show ?thesis
    by (metis (no_types, lifting) order_trans powi_le_iff)
qed

lemma round_mag_nonneg: "0 \<le> a \<Longrightarrow> 0 \<le> round_mag F a"
  unfolding round_mag_def Let_def
  using round_even_ge [of 0 "a / 2 powi ulp_exp F a"] by (intro mult_nonneg_nonneg) simp_all

lemmas round_mag_code [code] = round_mag_def [unfolded powi_two_powi]

lemma round_fp_code [code]:
  "round_fp F q =
     (if q = 0 then Fin 0
      else let m = round_mag F \<bar>q\<bar>
           in if m = 0 then (if q < 0 then NZero else Fin 0)
              else if emax F \<le> ilog2 m then (if q < 0 then NInf else PInf)
              else Fin (if q < 0 then - m else m))"
proof -
  let ?m = "round_mag F \<bar>q\<bar>"
  have "0 \<le> ?m" by (rule round_mag_nonneg) simp
  then consider "?m = 0" | "0 < ?m" by linarith
  then show ?thesis
  proof cases
    case 1
    have "\<not> (2::rat) powi emax F \<le> 0" by (simp add: not_le)
    with 1 show ?thesis by (simp add: round_fp_def)
  next
    case 2
    with powi_le_ilog2 [OF 2, of "emax F"] show ?thesis by (simp add: round_fp_def Let_def)
  qed
qed

lemma round_mag_form:
  assumes F: "wf_fmt F" and a: "0 < a"
  shows "\<exists>m e. round_mag F a = of_int m * 2 powi e \<and> \<bar>m\<bar> < 2 ^ prec F \<and> emin F \<le> e"
proof -
  let ?E = "ulp_exp F a" and ?m = "round_even (a / 2 powi ulp_exp F a)"
  have "a < 2 powi (ilog2 a + 1)" by (rule ilog2_bounds(2) [OF a])
  also have "\<dots> \<le> 2 powi (int (prec F) + ?E)" by (simp add: ulp_exp_def)
  also have "\<dots> = 2 ^ prec F * 2 powi ?E" by (simp add: power_int_add)
  finally have "a / 2 powi ?E \<le> of_int (2 ^ prec F)" by (simp add: divide_le_eq)
  then have hi: "?m \<le> 2 ^ prec F" by (rule round_even_le)
  have lo: "0 \<le> ?m" using a by (intro round_even_ge) simp
  have eq: "round_mag F a = of_int ?m * 2 powi ?E" by (simp add: round_mag_def Let_def)
  show ?thesis
  proof (cases "?m = 2 ^ prec F")
    case False
    with hi lo eq ulp_exp_ge [of F a] show ?thesis by (intro exI [of _ ?m] exI [of _ ?E]) auto
  next
    case True
    have "(2::rat) ^ prec F * 2 powi ?E = 2 powi (int (prec F) + ?E)" by (simp add: power_int_add)
    with eq True have "round_mag F a = of_int 1 * 2 powi (int (prec F) + ?E)" by simp
    moreover have "\<bar>1::int\<bar> < 2 ^ prec F" using F by (simp add: wf_fmt_def)
    ultimately show ?thesis
      using ulp_exp_ge [of F a] by (intro exI [of _ 1] exI [of _ "int (prec F) + ?E"]) auto
  qed
qed

subsection \<open>Rounding a signed rational\<close>

lemma representable_0 [simp]: "wf_fmt F \<Longrightarrow> representable F 0"
  unfolding representable_def by (auto simp: wf_fmt_def intro!: exI [of _ 0])

lemma representable_uminus [simp]: "representable F (- q) \<longleftrightarrow> representable F q"
proof -
  have "representable F (- r)" if "representable F r" for r
  proof -
    from that obtain m e where "r = of_int m * 2 powi e" "\<bar>m\<bar> < 2 ^ prec F" "emin F \<le> e"
      and "\<bar>r\<bar> < 2 powi emax F" by (auto simp: representable_def)
    then show ?thesis unfolding representable_def
      by (intro conjI exI [of _ "- m"] exI [of _ e]) simp_all
  qed
  from this [of q] this [of "- q"] show ?thesis by auto
qed

lemma round_mag_representable:
  assumes "representable F q" and "0 < q"
  shows "round_mag F q = q"
proof -
  from assms(1) obtain m e where "q = of_int m * 2 powi e" "\<bar>m\<bar> < 2 ^ prec F" "emin F \<le> e"
    by (auto simp: representable_def)
  moreover from this(1) assms(2) have "0 < m"
    using zero_less_mult_pos2 [of "of_int m :: rat" "2 powi e"] by simp
  ultimately show ?thesis by (intro round_mag_exact) auto
qed

lemma round_fp_exact [fp_simps]:
  assumes "representable F q"
  shows "round_fp F q = Fin q"
proof (cases "q = 0")
  case True
  then show ?thesis by (simp add: round_fp_def)
next
  case False
  have "representable F \<bar>q\<bar>" using assms by (simp add: abs_if)
  then have "round_mag F \<bar>q\<bar> = \<bar>q\<bar>" by (rule round_mag_representable) (use False in simp)
  with False assms show ?thesis by (simp add: round_fp_def representable_def abs_if split: if_splits)
qed

lemma fp_ok_round [simp]: "wf_fmt F \<Longrightarrow> fp_ok F (round_fp F q)"
proof (cases "q = 0")
  case False
  assume F: "wf_fmt F"
  let ?m = "round_mag F \<bar>q\<bar>"
  have nn: "0 \<le> ?m" by (rule round_mag_nonneg) simp
  have "representable F ?m" if "\<not> 2 powi emax F \<le> ?m"
    using round_mag_form [OF F, of "\<bar>q\<bar>"] False that nn by (auto simp: representable_def)
  with False show ?thesis by (auto simp: round_fp_def Let_def)
qed (auto simp: round_fp_def)

lemma representable_of_int:
  assumes F: "wf_fmt F" and k: "\<bar>k\<bar> \<le> 2 ^ prec F"
  shows "representable F (of_int k)"
proof -
  have "(of_int \<bar>k\<bar> :: rat) \<le> of_int (2 ^ prec F)" using k by (simp only: of_int_le_iff)
  also have "\<dots> = 2 powi int (prec F)" by simp
  also have "\<dots> < 2 powi emax F" using F by (simp only: powi_less_iff wf_fmt_def)
  finally have bound: "\<bar>of_int k :: rat\<bar> < 2 powi emax F" by simp
  show ?thesis
  proof (cases "\<bar>k\<bar> < 2 ^ prec F")
    case True
    with bound F show ?thesis unfolding representable_def
      by (intro conjI exI [of _ k] exI [of _ 0]) (simp_all add: wf_fmt_def)
  next
    case False
    with k have "\<bar>k\<bar> = 2 ^ prec F" by simp
    then have "k = sgn k * 2 ^ prec F" by (metis sgn_mult_abs)
    then have "(of_int k :: rat) = of_int (sgn k) * 2 powi int (prec F)"
      by (metis of_int_mult of_int_numeral of_int_power power_int_of_nat)
    moreover have "\<bar>sgn k\<bar> < 2 ^ prec F"
      using F by (auto simp: wf_fmt_def abs_sgn_eq)
    ultimately show ?thesis using bound F unfolding representable_def
      by (intro conjI exI [of _ "sgn k"] exI [of _ "int (prec F)"]) (simp_all add: wf_fmt_def)
  qed
qed

lemma representable_widen:
  assumes "representable F q" and "prec F \<le> prec G" and "emin G \<le> emin F" and "emax F \<le> emax G"
  shows "representable G q"
proof -
  from assms(1) obtain m e where q: "q = of_int m * 2 powi e" "\<bar>m\<bar> < 2 ^ prec F" "emin F \<le> e"
    and b: "\<bar>q\<bar> < 2 powi emax F" by (auto simp: representable_def)
  have "(2::int) ^ prec F \<le> 2 ^ prec G" using assms(2) by (simp add: power_increasing)
  with q have "\<bar>m\<bar> < 2 ^ prec G" by linarith
  moreover have "(2::rat) powi emax F \<le> 2 powi emax G" using assms(4) by simp
  with b have "\<bar>q\<bar> < 2 powi emax G" by linarith
  moreover have "emin G \<le> e" using q assms(3) by linarith
  ultimately show ?thesis using q(1) unfolding representable_def by blast
qed

lemma fp_ok_widen: "fp_ok binary64 a \<Longrightarrow> fp_ok x87ext a"
  using representable_widen [of binary64 _ x87ext]
  by (cases a) auto

text \<open>Converting a \<^verbatim>\<open>double\<close> to \<^verbatim>\<open>long double\<close> does not
  change it.\<close>

lemma fp_conv_ok [fp_simps]: "fp_ok F a \<Longrightarrow> fp_conv F a = a"
  by (cases a) (auto simp: round_fp_exact)

lemma fp_ok_conv [simp]: "wf_fmt F \<Longrightarrow> fp_ok F (fp_conv F a)"
  by (cases a) auto

lemma fp_ok_neg [simp]: "wf_fmt F \<Longrightarrow> fp_ok F (fp_neg a) \<longleftrightarrow> fp_ok F a"
  by (cases a) auto

lemma fp_ok_add [simp]: "wf_fmt F \<Longrightarrow> fp_ok F (fp_add F a b)"
  by (cases "(F, a, b)" rule: fp_add.cases) auto

lemma fp_ok_sub [simp]: "wf_fmt F \<Longrightarrow> fp_ok F (fp_sub F a b)"
  by (simp add: fp_sub_def)

lemma fp_ok_mul [simp]: "wf_fmt F \<Longrightarrow> fp_ok F (fp_mul F a b)"
  by (auto simp: fp_mul_def Let_def fp_inf_def fp_zero_def)

lemma fp_ok_div [simp]: "wf_fmt F \<Longrightarrow> fp_ok F (fp_div F a b)"
  by (auto simp: fp_div_def Let_def fp_inf_def fp_zero_def)

text \<open>Integer arithmetic is exact while it stays within the significand.\<close>

definition fp_int :: "int \<Rightarrow> fp" where
  "fp_int k = Fin (of_int k)"

lemma fp_of_int_exact [fp_simps]:
  "wf_fmt F \<Longrightarrow> \<bar>k\<bar> \<le> 2 ^ prec F \<Longrightarrow> fp_of_int F k = fp_int k"
  by (simp add: fp_of_int_def fp_int_def round_fp_exact representable_of_int)

lemma fp_add_int [fp_simps]:
  "wf_fmt F \<Longrightarrow> \<bar>a + b\<bar> \<le> 2 ^ prec F \<Longrightarrow> fp_add F (fp_int a) (fp_int b) = fp_int (a + b)"
  using representable_of_int [of F "a + b"] by (simp add: fp_int_def round_fp_exact)

lemma fp_neg_int: "a \<noteq> 0 \<Longrightarrow> fp_neg (fp_int a) = fp_int (- a)"
  by (simp add: fp_int_def)

lemma fp_sub_int [fp_simps]:
  "wf_fmt F \<Longrightarrow> \<bar>a - b\<bar> \<le> 2 ^ prec F \<Longrightarrow> fp_sub F (fp_int a) (fp_int b) = fp_int (a - b)"
  using representable_of_int [of F "a - b"]
  by (cases "b = 0") (simp_all add: fp_sub_def fp_int_def round_fp_exact)

lemma fp_mul_one [fp_simps]: "wf_fmt F \<Longrightarrow> fp_ok F a \<Longrightarrow> fp_mul F a (Fin 1) = a"
  by (cases a) (auto simp: fp_mul_def Let_def fp_is_inf_def fp_is_zero_def fp_inf_def fp_zero_def
      round_fp_exact)

lemma representable_1 [simp]: "wf_fmt F \<Longrightarrow> representable F 1"
  using representable_of_int [of F 1] by simp

lemma fp_div_one_one [simp, fp_simps]: "wf_fmt F \<Longrightarrow> fp_div F (Fin 1) (Fin 1) = Fin 1"
  by (simp add: fp_div_def Let_def fp_is_inf_def fp_is_zero_def round_fp_exact)

text \<open>Rounding keeps a result on its side of a representable bound.\<close>

lemma round_fp_ge:
  assumes F: "wf_fmt F" and r: "representable F r" "0 < r" and q: "r \<le> q"
  shows "round_fp F q = PInf \<or> (\<exists>q'. round_fp F q = Fin q' \<and> r \<le> q')"
  using round_mag_mono [OF F r(2) q] round_mag_representable [OF r] r q
  by (auto simp: round_fp_def Let_def)

lemma round_fp_le:
  assumes F: "wf_fmt F" and r: "representable F r" and q: "0 < q" "q \<le> r"
  shows "\<exists>q'. round_fp F q = Fin q' \<and> 0 \<le> q' \<and> q' \<le> r"
proof -
  have "round_mag F r = r" using r q by (intro round_mag_representable) auto
  with round_mag_mono [OF F q] have "round_mag F q \<le> r" by simp
  moreover have "r < 2 powi emax F" using r q by (auto simp: representable_def)
  moreover have "0 \<le> round_mag F q" using q by (intro round_mag_nonneg) simp
  ultimately show ?thesis using q by (auto simp: round_fp_def Let_def)
qed

end
