(* ===== verification/CText.thy ===== *)
theory CText
  imports CFloat
begin

text \<open>
  Floating-point numbers as text: \<^verbatim>\<open>strtod\<close> (decimal, hexadecimal, infinity
  and NaN forms, correctly rounded) and \<^verbatim>\<open>printf("%f")\<close> /
  \<^verbatim>\<open>("%Lf")\<close>, six decimals, the exact value rounded half to even, as glibc
  prints it. The lemmas give both on integers, where they invert each other, and the length
  of what \<^verbatim>\<open>%f\<close> writes, which the program puts into arrays of 30 and 32
  bytes.
\<close>

subsection \<open>\<^verbatim>\<open>strtod\<close>\<close>

definition is_xdigit :: "char \<Rightarrow> bool" where
  "is_xdigit c \<longleftrightarrow> is_digit c \<or> (97 \<le> char_code (tolower c) \<and> char_code (tolower c) \<le> 102)"

definition xdigit_val :: "char \<Rightarrow> nat" where
  "xdigit_val c = (if is_digit c then digit_val c else char_code (tolower c) - 87)"

definition xdigits_val :: "string \<Rightarrow> nat" where
  "xdigits_val s = foldl (\<lambda>a c. 16 * a + xdigit_val c) 0 s"

text \<open>An exponent part: its value and what follows, \<open>(0, s)\<close> when there is none.\<close>

definition read_exp :: "char \<Rightarrow> cstring \<Rightarrow> int \<times> cstring" where
  "read_exp mark s = (case s of
       [] \<Rightarrow> (0, s)
     | c # r \<Rightarrow>
         if tolower c = mark
         then let (neg, r') = read_sign r; ds = takeWhile is_digit r'
              in if ds = [] then (0, s)
                 else ((if neg then - int (digits_val ds) else int (digits_val ds)),
                       dropWhile is_digit r')
         else (0, s))"

text \<open>A mantissa in a radix: the digits before and after the point, and what follows.\<close>

definition read_mant :: "(char \<Rightarrow> bool) \<Rightarrow> cstring \<Rightarrow> string \<times> string \<times> cstring" where
  "read_mant isd s =
     (let ip = takeWhile isd s; r = dropWhile isd s
      in case r of
           c # r' \<Rightarrow> if c = CHR ''.'' \<and> \<not> (ip = [] \<and> takeWhile isd r' = [])
                     then (ip, takeWhile isd r', dropWhile isd r') else (ip, [], r)
         | [] \<Rightarrow> (ip, [], r))"

definition read_dec :: "cstring \<Rightarrow> (rat \<times> cstring) option" where
  "read_dec s =
     (let (ip, fp, r) = read_mant is_digit s; (e, r') = read_exp (CHR ''e'') r
      in if ip = [] \<and> fp = [] then None
         else Some (of_nat (digits_val (ip @ fp)) * 10 powi (e - int (length fp)), r'))"

definition read_hex :: "cstring \<Rightarrow> (rat \<times> cstring) option" where
  "read_hex s = (case s of
       z # x # t \<Rightarrow>
         if z = CHR ''0'' \<and> tolower x = CHR ''x''
         then let (ip, fp, r) = read_mant is_xdigit t; (e, r') = read_exp (CHR ''p'') r
              in if ip = [] \<and> fp = [] then None
                 else Some (of_nat (xdigits_val (ip @ fp)) * 2 powi (e - 4 * int (length fp)), r')
         else None
     | _ \<Rightarrow> None)"

definition has_prefix_ci :: "string \<Rightarrow> cstring \<Rightarrow> bool" where
  "has_prefix_ci p s \<longleftrightarrow> map tolower (take (length p) s) = p"

text \<open>\<^verbatim>\<open>nan\<close> may carry a parenthesised character sequence, which is
  consumed.\<close>

definition drop_nan_seq :: "cstring \<Rightarrow> cstring" where
  "drop_nan_seq s = (case s of
       c # r \<Rightarrow>
         let r' = dropWhile (\<lambda>d. is_digit d \<or> is_lower d \<or> is_upper d \<or> d = CHR ''_'') r
         in if c = CHR ''('' \<and> r' \<noteq> [] \<and> hd r' = CHR '')'' then tl r' else s
     | [] \<Rightarrow> s)"

text \<open>The value and the rest of the string; \<open>None\<close> where no number is there.\<close>

definition strtod_full :: "cstring \<Rightarrow> (fp \<times> cstring) option" where
  "strtod_full s =
     (let (neg, r) = read_sign (dropWhile isspace s);
          sgn_fp = (\<lambda>v. if neg then fp_neg v else v)
      in if has_prefix_ci ''infinity'' r then Some (sgn_fp PInf, drop 8 r)
         else if has_prefix_ci ''inf'' r then Some (sgn_fp PInf, drop 3 r)
         else if has_prefix_ci ''nan'' r then Some (NaN, drop_nan_seq (drop 3 r))
         else case read_hex r of
                Some (q, r') \<Rightarrow> Some (sgn_fp (round_fp binary64 q), r')
              | None \<Rightarrow> (case read_dec r of
                            Some (q, r') \<Rightarrow> Some (sgn_fp (round_fp binary64 q), r')
                          | None \<Rightarrow> None))"

definition strtod :: "cstring \<Rightarrow> fp" where
  "strtod s = (case strtod_full s of None \<Rightarrow> Fin 0 | Some (v, _) \<Rightarrow> v)"

lemma fp_ok_strtod_full: "strtod_full s = Some (v, r) \<Longrightarrow> fp_ok binary64 v"
  by (auto simp: strtod_full_def Let_def split: prod.splits if_splits option.splits)

lemma fp_ok_strtod [simp]: "fp_ok binary64 (strtod s)"
  by (auto simp: strtod_def dest: fp_ok_strtod_full split: option.splits)

lemma has_prefix_ci_digit:
  "is_digit c \<Longrightarrow> \<not> has_prefix_ci (CHR ''i'' # p) (c # s)"
  "is_digit c \<Longrightarrow> \<not> has_prefix_ci (CHR ''n'' # p) (c # s)"
  by (auto simp: has_prefix_ci_def tolower_def char_class_defs)

lemma tolower_digit: "is_digit c \<Longrightarrow> tolower c = c"
  by (auto simp: tolower_def char_class_defs)

lemma read_hex_digits: "read_hex (dec_of_nat n) = None"
proof (cases "dec_of_nat n")
  case (Cons c cs)
  then have "\<And>x t. cs = x # t \<Longrightarrow> is_digit x" using dec_of_nat_digits [of _ n] by auto
  then have "\<And>x t. cs = x # t \<Longrightarrow> tolower x \<noteq> CHR ''x''"
    by (auto simp: tolower_digit char_class_defs)
  with Cons show ?thesis by (auto simp: read_hex_def split: list.splits)
qed (simp add: read_hex_def)

lemma read_dec_digits: "read_dec (dec_of_nat n) = Some (of_nat n, [])"
  by (simp add: read_dec_def read_mant_def read_exp_def)

lemma strtod_dec_of_nat: "strtod (dec_of_nat n) = round_fp binary64 (of_nat n)"
proof -
  obtain c cs where c: "dec_of_nat n = c # cs" "is_digit c" by (rule dec_of_nat_ConsE)
  have "read_sign (dropWhile isspace (dec_of_nat n)) = (False, dec_of_nat n)"
    using read_sign_digits [of n "[]"] dropWhile_isspace_digits [of n "[]"] by simp
  moreover have "\<not> has_prefix_ci ''infinity'' (dec_of_nat n)" "\<not> has_prefix_ci ''inf'' (dec_of_nat n)"
    "\<not> has_prefix_ci ''nan'' (dec_of_nat n)"
    using c has_prefix_ci_digit by auto
  ultimately show ?thesis
    by (simp add: strtod_def strtod_full_def read_hex_digits read_dec_digits)
qed

lemma strtod_minus: 
  assumes "s = dec_of_nat n"
  shows "strtod (CHR ''-'' # s) = fp_neg (strtod s)"
proof -
  obtain c cs where c: "dec_of_nat n = c # cs" "is_digit c" by (rule dec_of_nat_ConsE)
  have sp: "\<not> isspace (CHR ''-'')" by (simp add: char_class_defs)
  have "read_sign (dropWhile isspace (dec_of_nat n)) = (False, dec_of_nat n)"
    using read_sign_digits [of n "[]"] dropWhile_isspace_digits [of n "[]"] by simp
  moreover have "\<not> has_prefix_ci ''infinity'' (dec_of_nat n)" "\<not> has_prefix_ci ''inf'' (dec_of_nat n)"
    "\<not> has_prefix_ci ''nan'' (dec_of_nat n)"
    using c has_prefix_ci_digit by auto
  moreover have "read_sign (CHR ''-'' # s) = (True, s)" by (simp add: read_sign_def)
  ultimately show ?thesis using sp assms
    by (simp add: strtod_def strtod_full_def read_hex_digits read_dec_digits)
qed

text \<open>A decimal integer that a \<^verbatim>\<open>double\<close> holds is read exactly (the text
  \<open>-0\<close>, which \<^verbatim>\<open>dec_of_int\<close> never produces, reads as the negative
  zero).\<close>

lemma strtod_dec_of_int:
  assumes "\<bar>k\<bar> \<le> 2 ^ 53"
  shows "strtod (dec_of_int k) = fp_int k"
proof -
  have n: "round_fp binary64 (of_nat (nat \<bar>k\<bar>)) = fp_int \<bar>k\<bar>"
    using fp_of_int_exact [of binary64 "\<bar>k\<bar>"] assms
    by (simp add: fp_of_int_def)
  show ?thesis
  proof (cases "k < 0")
    case True
    then have "strtod (dec_of_int k) = fp_neg (fp_int \<bar>k\<bar>)"
      using n strtod_minus [OF refl, of "nat (- k)"] by (simp add: dec_of_int_def strtod_dec_of_nat)
    with True show ?thesis by (simp add: fp_neg_int)
  next
    case False
    with n show ?thesis by (simp add: dec_of_int_def strtod_dec_of_nat)
  qed
qed

subsection \<open>\<^verbatim>\<open>%f\<close>\<close>

definition pad_left :: "nat \<Rightarrow> string \<Rightarrow> string" where
  "pad_left k s = replicate (k - length s) (CHR ''0'') @ s"

definition fmt_mag :: "rat \<Rightarrow> string" where
  "fmt_mag q =
     (let n = nat (round_even (q * 1000000))
      in dec_of_nat (n div 1000000) @ CHR ''.'' # pad_left 6 (dec_of_nat (n mod 1000000)))"

fun fmt_f :: "fp \<Rightarrow> string" where
  "fmt_f NaN = ''nan''"
| "fmt_f PInf = ''inf''"
| "fmt_f NInf = ''-inf''"
| "fmt_f NZero = CHR ''-'' # fmt_mag 0"
| "fmt_f (Fin q) = (if q < 0 then CHR ''-'' # fmt_mag (- q) else fmt_mag q)"

lemma length_pad_left: "length s \<le> k \<Longrightarrow> length (pad_left k s) = k"
  by (simp add: pad_left_def)

lemma is_cstring_pad_left [simp]: "is_cstring (pad_left k s) \<longleftrightarrow> is_cstring s"
  by (auto simp: pad_left_def is_cstring_def)

lemma is_cstring_fmt_f [simp]: "is_cstring (fmt_f a)"
  by (cases a) (auto simp: fmt_mag_def Let_def)

lemma nat_less_iff': "0 < n \<Longrightarrow> nat i < n \<longleftrightarrow> i < int n"
  by linarith

lemma length_fmt_mag:
  "length (fmt_mag q) = length (dec_of_nat (nat (round_even (q * 1000000)) div 1000000)) + 7"
proof -
  have "length (dec_of_nat (m mod 1000000)) \<le> 6" for m
    by (rule length_dec_of_nat) simp_all
  then show ?thesis by (simp add: fmt_mag_def Let_def length_pad_left)
qed

text \<open>A magnitude below \<open>10 ^ k\<close> takes at most \<open>k + 8\<close> characters with its sign
  (one more where it rounds up to \<open>10 ^ k\<close>).\<close>

lemma length_fmt_mag_le:
  assumes "q \<le> of_int (10 ^ k - 1)" and "0 < k"
  shows "length (fmt_mag q) \<le> k + 7"
proof -
  have "q * 1000000 \<le> of_int ((10 ^ k - 1) * 1000000)" using assms(1) by simp
  then have "round_even (q * 1000000) \<le> (10 ^ k - 1) * 1000000" by (rule round_even_le)
  also have "\<dots> < int (10 ^ k * 1000000)" by simp
  finally have "nat (round_even (q * 1000000)) < 10 ^ k * 1000000"
    by (subst nat_less_iff') simp_all
  then have "nat (round_even (q * 1000000)) div 1000000 < 10 ^ k"
    by (rule less_mult_imp_div_less)
  then show ?thesis using length_dec_of_nat [OF _ assms(2)] by (simp add: length_fmt_mag)
qed

lemma length_fmt_f_le:
  assumes "\<bar>q\<bar> \<le> of_int (10 ^ k - 1)" and "0 < k"
  shows "length (fmt_f (Fin q)) \<le> k + 8"
  using assms length_fmt_mag_le [of q k] length_fmt_mag_le [of "- q" k] by auto

lemma length_fmt_f_ge:
  assumes "10 ^ k \<le> \<bar>q\<bar>"
  shows "k + 7 < length (fmt_f (Fin q))"
proof -
  have *: "k + 7 < length (fmt_mag r)" if r: "10 ^ k \<le> r" for r
  proof -
    have "of_int (10 ^ k * 1000000) \<le> r * 1000000" using r by simp
    then have "10 ^ k * 1000000 \<le> round_even (r * 1000000)" by (rule round_even_ge)
    then have "nat (10 ^ k * 1000000) \<le> nat (round_even (r * 1000000))" by (rule nat_mono)
    then have "10 ^ k * 1000000 \<le> nat (round_even (r * 1000000))"
      by (simp add: nat_mult_distrib nat_power_eq)
    then have "10 ^ k \<le> nat (round_even (r * 1000000)) div 1000000"
      by (simp add: less_eq_div_iff_mult_less_eq)
    then show ?thesis using length_dec_of_nat_ge by (simp add: length_fmt_mag)
  qed
  show ?thesis using *[of q] *[of "- q"] assms by (auto simp: abs_if split: if_splits)
qed

text \<open>An integer prints with six zeros.\<close>

lemma fmt_f_int: "fmt_f (fp_int k) = dec_of_int k @ ''.000000''"
proof -
  have d0: "pad_left 6 (dec_of_nat 0) = ''000000''" by code_simp
  have mag: "fmt_mag (of_int m) = dec_of_nat (nat m) @ ''.000000''" if "0 \<le> m" for m
  proof -
    have "round_even (of_int m * 1000000) = m * 1000000"
      by (metis of_int_mult of_int_numeral round_even_of_int)
    then show ?thesis using that
      by (simp add: fmt_mag_def nat_mult_distrib d0)
  qed
  show ?thesis
    using mag [of k] mag [of "- k"] by (cases "k < 0") (simp_all add: fp_int_def dec_of_int_def)
qed

end
