(* ===== verification/UtHash.thy ===== *)
theory UtHash
  imports Prelude
begin

text \<open>
  The hash tables of the program at the level of uthash's interface
  (\<^verbatim>\<open>src/uthash/uthash.h\<close>): a table is the list of its elements in insertion
  order, which is the order \<^verbatim>\<open>HASH_ITER\<close> visits, and a pointer to an element is
  its position in that list (elements are never deleted by the program, so positions are
  stable). \<^verbatim>\<open>HASH_ADD\<close> appends without looking for the key; where a key occurs
  twice, \<^verbatim>\<open>HASH_FIND\<close> returns the element added last, as a bucket is a list
  that grows at its head, until the buckets are doubled and their lists turn round. The tables
  of the program have no key twice, and \<open>UtHashImpl\<close>, which models the buckets, shows that
  this interface is then exact.

  The locale \<^verbatim>\<open>keyed_table\<close> is what the clients rely on, and proves once what the
  find-or-create pattern of every \<^verbatim>\<open>update_*\<close> function does to the map a table
  stands for.
\<close>

named_theorems table_simps \<open>look-ups after the table operations\<close>

fun hash_find :: "('e \<Rightarrow> 'k) \<Rightarrow> 'k \<Rightarrow> 'e list \<Rightarrow> nat option" where
  "hash_find key k [] = None"
| "hash_find key k (e # es) =
     (case hash_find key k es of
        Some i \<Rightarrow> Some (Suc i)
      | None \<Rightarrow> if key e = k then Some 0 else None)"

definition hash_add :: "'e \<Rightarrow> 'e list \<Rightarrow> 'e list" where
  "hash_add e es = es @ [e]"

definition hash_put :: "nat \<Rightarrow> 'e \<Rightarrow> 'e list \<Rightarrow> 'e list" where
  "hash_put i e es = es[i := e]"

definition hash_lookup :: "('e \<Rightarrow> 'k) \<Rightarrow> 'k \<Rightarrow> 'e list \<Rightarrow> 'e option" where
  "hash_lookup key k es = map_option (\<lambda>i. es ! i) (hash_find key k es)"

definition hash_wf :: "('e \<Rightarrow> 'k) \<Rightarrow> 'e list \<Rightarrow> bool" where
  "hash_wf key es \<longleftrightarrow> distinct (map key es)"

lemma hash_find_Some: "hash_find key k es = Some i \<Longrightarrow> i < length es \<and> key (es ! i) = k"
  by (induction es arbitrary: i) (auto split: option.splits if_splits)

lemma hash_find_None: "hash_find key k es = None \<longleftrightarrow> k \<notin> key ` set es"
  by (induction es) (auto split: option.splits)

lemma hash_find_append:
  "hash_find key k (es @ [e]) = (if key e = k then Some (length es) else hash_find key k es)"
  by (induction es) (auto split: option.splits)

lemma hash_find_map: "hash_find key k es = hash_find id k (map key es)"
  by (induction es) (auto split: option.splits)

lemma hash_find_update:
  assumes "i < length es" and "key e = key (es ! i)"
  shows "hash_find key k (es[i := e]) = hash_find key k es"
proof -
  have "map key (es[i := e]) = map key es"
    using assms by (simp add: map_update list_update_same_conv)
  then show ?thesis by (simp only: hash_find_map [of key k])
qed

lemma hash_wf_find:
  "hash_wf key es \<Longrightarrow> i < length es \<Longrightarrow> hash_find key (key (es ! i)) es = Some i"
proof -
  assume wf: "hash_wf key es" and i: "i < length es"
  then have "hash_find key (key (es ! i)) es \<noteq> None" by (auto simp: hash_find_None)
  then obtain j where j: "hash_find key (key (es ! i)) es = Some j" by blast
  then have "j < length es" "key (es ! j) = key (es ! i)" by (auto dest: hash_find_Some)
  with wf i have "j = i" by (simp add: hash_wf_def distinct_map inj_on_eq_iff nth_eq_iff_index_eq
      distinct_conv_nth) (metis inj_on_contraD nth_mem)
  with j show ?thesis by simp
qed

lemma hash_lookup_Nil [simp, table_simps]: "hash_lookup key k [] = None"
  by (simp add: hash_lookup_def)

lemma hash_lookup_None: "hash_lookup key k es = None \<longleftrightarrow> k \<notin> key ` set es"
  by (simp add: hash_lookup_def hash_find_None)

lemma hash_lookup_SomeD: "hash_lookup key k es = Some e \<Longrightarrow> e \<in> set es \<and> key e = k"
  by (auto simp: hash_lookup_def dest!: hash_find_Some)

lemma hash_lookup_in:
  "hash_wf key es \<Longrightarrow> e \<in> set es \<Longrightarrow> hash_lookup key (key e) es = Some e"
  by (auto simp: hash_lookup_def in_set_conv_nth hash_wf_find)

lemma set_hash_put_subset: "set (hash_put i e es) \<subseteq> insert e (set es)"
  by (simp add: hash_put_def set_update_subset_insert)

lemma set_hash_add [simp]: "set (hash_add e es) = insert e (set es)"
  by (simp add: hash_add_def)

lemma map_key_put:
  "i < length es \<Longrightarrow> key e = key (es ! i) \<Longrightarrow> map key (hash_put i e es) = map key es"
  by (simp add: hash_put_def map_update list_update_same_conv)

subsection \<open>The interface its clients use\<close>

locale keyed_table =
  fixes key :: "'e \<Rightarrow> 'k"
    and find :: "'k \<Rightarrow> 't \<Rightarrow> nat option"
    and get :: "'t \<Rightarrow> nat \<Rightarrow> 'e"
    and put :: "nat \<Rightarrow> 'e \<Rightarrow> 't \<Rightarrow> 't"
    and add :: "'e \<Rightarrow> 't \<Rightarrow> 't"
    and lookup :: "'k \<Rightarrow> 't \<Rightarrow> 'e option"
    and wf :: "'t \<Rightarrow> bool"
  assumes lookup_find: "lookup k t = map_option (get t) (find k t)"
    and find_key: "find k t = Some i \<Longrightarrow> key (get t i) = k"
    and put_wf: "wf t \<Longrightarrow> find k t = Some i \<Longrightarrow> key e = k \<Longrightarrow> wf (put i e t)"
    and put_lookup: "wf t \<Longrightarrow> find k t = Some i \<Longrightarrow> key e = k \<Longrightarrow>
           lookup k' (put i e t) = (if k' = k then Some e else lookup k' t)"
    and add_wf: "wf t \<Longrightarrow> find (key e) t = None \<Longrightarrow> wf (add e t)"
    and add_lookup: "lookup k' (add e t) = (if k' = key e then Some e else lookup k' t)"
begin

text \<open>Find the element of key \<open>k\<close> and replace it by \<open>f\<close> of it, or add \<open>new\<close>.\<close>

definition upsert :: "'k \<Rightarrow> ('e \<Rightarrow> 'e) \<Rightarrow> 'e \<Rightarrow> 't \<Rightarrow> 't" where
  "upsert k f new t =
     (case find k t of Some i \<Rightarrow> put i (f (get t i)) t | None \<Rightarrow> add new t)"

lemma upsert_wf:
  assumes "wf t" and "\<And>e. key e = k \<Longrightarrow> key (f e) = k" and "key new = k"
  shows "wf (upsert k f new t)"
  using assms put_wf add_wf find_key by (auto simp: upsert_def split: option.splits)

lemma upsert_lookup:
  assumes "wf t" and "\<And>e. key e = k \<Longrightarrow> key (f e) = k" and "key new = k"
  shows "lookup k' (upsert k f new t) =
    (if k' = k then Some (case lookup k t of Some e \<Rightarrow> f e | None \<Rightarrow> new) else lookup k' t)"
proof (cases "find k t")
  case None
  then show ?thesis using assms by (simp add: upsert_def add_lookup lookup_find [of k])
next
  case (Some i)
  then have "key (f (get t i)) = k" using assms(2) find_key by blast
  with Some show ?thesis
    using put_lookup [OF assms(1) Some] by (simp add: upsert_def lookup_find [of k])
qed

lemma upsert_twice:
  assumes "wf t" and "\<And>e. key e = k \<Longrightarrow> key (f e) = k" and "key new = k"
    and "\<And>e. key e = k \<Longrightarrow> key (g e) = k" and "key new' = k"
  shows "lookup k (upsert k g new' (upsert k f new t)) =
    Some (g (case lookup k t of Some e \<Rightarrow> f e | None \<Rightarrow> new))"
  using assms upsert_lookup [of "upsert k f new t" k g new' k] upsert_lookup [of t k f new k]
    upsert_wf [of t k f new]
  by simp

end

interpretation hash: keyed_table key "hash_find key" "(!)" hash_put hash_add "hash_lookup key"
    "hash_wf key"
  for key :: "'e \<Rightarrow> 'k"
proof unfold_locales
  fix t :: "'e list" and k k' :: 'k and i :: nat and e :: 'e
  show "hash_lookup key k t = map_option ((!) t) (hash_find key k t)"
    by (simp add: hash_lookup_def)
  show "hash_find key k t = Some i \<Longrightarrow> key (t ! i) = k"
    by (simp add: hash_find_Some)
  show "hash_wf key t \<Longrightarrow> hash_find key k t = Some i \<Longrightarrow> key e = k \<Longrightarrow> hash_wf key (hash_put i e t)"
    by (auto simp: hash_wf_def map_key_put dest!: hash_find_Some)
  show "hash_lookup key k' (hash_put i e t) = (if k' = k then Some e else hash_lookup key k' t)"
    if "hash_wf key t" "hash_find key k t = Some i" "key e = k"
  proof -
    from that have i: "i < length t" "key (t ! i) = k" by (auto dest: hash_find_Some)
    have "hash_find key k' t \<noteq> Some i" if "k' \<noteq> k" using that i by (auto dest: hash_find_Some)
    with that i show ?thesis
      by (cases "hash_find key k' t")
        (auto simp: hash_lookup_def hash_put_def hash_find_update nth_list_update)
  qed
  show "hash_wf key t \<Longrightarrow> hash_find key (key e) t = None \<Longrightarrow> hash_wf key (hash_add e t)"
    by (auto simp: hash_wf_def hash_add_def hash_find_None)
  show "hash_lookup key k' (hash_add e t) = (if k' = key e then Some e else hash_lookup key k' t)"
    by (cases "hash_find key k' t")
      (auto simp: hash_lookup_def hash_add_def hash_find_append nth_append dest: hash_find_Some)
qed

end
