(* ===== verification/Stats.thy ===== *)
theory Stats
  imports CText UtHash
begin

text \<open>
  The metrics the daemon keeps (\<^verbatim>\<open>stats.h\<close>, \<^verbatim>\<open>counters.h\<close>,
  \<^verbatim>\<open>gauges.h\<close>, \<^verbatim>\<open>timers.h\<close>; the globals of
  \<^verbatim>\<open>statsd.c\<close>) and the functions that record a value in them
  (\<^verbatim>\<open>update_stat\<close>, \<^verbatim>\<open>update_counter\<close>,
  \<^verbatim>\<open>update_gauge\<close>, \<^verbatim>\<open>update_gauge_plusminus\<close>,
  \<^verbatim>\<open>update_timer\<close>, \<^verbatim>\<open>add_timer\<close>).

  The state is the record \<^verbatim>\<open>daemon\<close>: the four hash tables and the four
  semaphores that guard them, as counts. The functions are compiled without
  \<^verbatim>\<open>LOCK_OPTIMIZE\<close>, the default of \<^verbatim>\<open>CMakeLists.txt\<close>, so that
  every update waits and posts. The lemmas: a well-formedness invariant every operation keeps;
  what each does to the map its table stands for; when it faults (a new key of 100 bytes or
  more); the frame, which tables it does not touch.
\<close>

named_theorems daemon_frame \<open>what an operation does not change\<close>

subsection \<open>Data\<close>

definition KEY_SIZE :: nat where "KEY_SIZE = 100"

record statsd_stat_name_t =
  group_name :: cstring
  key_name :: cstring

record statsd_stat_t =
  sname :: statsd_stat_name_t
  svalue :: int
  slocked :: bool

record statsd_counter_t =
  ckey :: cstring
  cvalue :: fp        \<comment> \<open>\<^verbatim>\<open>long double\<close>\<close>

record statsd_gauge_t =
  gkey :: cstring
  gvalue :: fp        \<comment> \<open>\<^verbatim>\<open>long double\<close>\<close>

record statsd_timer_t =
  tkey :: cstring
  tcount :: int
  tvalues :: "fp list"  \<comment> \<open>\<^verbatim>\<open>UT_array\<close> of \<^verbatim>\<open>double\<close>\<close>

record daemon =
  stats :: "statsd_stat_t list"
  stats_lock :: nat
  counters :: "statsd_counter_t list"
  counters_lock :: nat
  gauges :: "statsd_gauge_t list"
  gauges_lock :: nat
  timers :: "statsd_timer_t list"
  timers_lock :: nat

text \<open>The globals as \<^verbatim>\<open>main\<close> leaves them after the \<^verbatim>\<open>sem_init\<close> calls.\<close>

definition daemon_init :: daemon where
  "daemon_init = \<lparr>stats = [], stats_lock = 1, counters = [], counters_lock = 1,
                  gauges = [], gauges_lock = 1, timers = [], timers_lock = 1\<rparr>"

subsection \<open>Semaphores\<close>

definition sem_wait :: "nat \<Rightarrow> nat res" where
  "sem_wait n = (case n of 0 \<Rightarrow> Inl Deadlock | Suc m \<Rightarrow> Inr m)"

definition sem_post :: "nat \<Rightarrow> nat" where
  "sem_post n = Suc n"

definition wait_for_stats_lock :: "daemon \<Rightarrow> daemon res" where
  "wait_for_stats_lock d = rbind (sem_wait (stats_lock d)) (\<lambda>n. Inr (d\<lparr>stats_lock := n\<rparr>))"

definition remove_stats_lock :: "daemon \<Rightarrow> daemon" where
  "remove_stats_lock d = d\<lparr>stats_lock := sem_post (stats_lock d)\<rparr>"

definition wait_for_counters_lock :: "daemon \<Rightarrow> daemon res" where
  "wait_for_counters_lock d = rbind (sem_wait (counters_lock d)) (\<lambda>n. Inr (d\<lparr>counters_lock := n\<rparr>))"

definition remove_counters_lock :: "daemon \<Rightarrow> daemon" where
  "remove_counters_lock d = d\<lparr>counters_lock := sem_post (counters_lock d)\<rparr>"

definition wait_for_gauges_lock :: "daemon \<Rightarrow> daemon res" where
  "wait_for_gauges_lock d = rbind (sem_wait (gauges_lock d)) (\<lambda>n. Inr (d\<lparr>gauges_lock := n\<rparr>))"

definition remove_gauges_lock :: "daemon \<Rightarrow> daemon" where
  "remove_gauges_lock d = d\<lparr>gauges_lock := sem_post (gauges_lock d)\<rparr>"

definition wait_for_timers_lock :: "daemon \<Rightarrow> daemon res" where
  "wait_for_timers_lock d = rbind (sem_wait (timers_lock d)) (\<lambda>n. Inr (d\<lparr>timers_lock := n\<rparr>))"

definition remove_timers_lock :: "daemon \<Rightarrow> daemon" where
  "remove_timers_lock d = d\<lparr>timers_lock := sem_post (timers_lock d)\<rparr>"

lemmas lock_defs = wait_for_stats_lock_def remove_stats_lock_def wait_for_counters_lock_def
  remove_counters_lock_def wait_for_gauges_lock_def remove_gauges_lock_def
  wait_for_timers_lock_def remove_timers_lock_def sem_post_def

subsection \<open>Recording a value\<close>

definition update_stat :: "cstring \<Rightarrow> cstring \<Rightarrow> cstring \<Rightarrow> daemon \<Rightarrow> daemon res" where
  "update_stat grp key val d =
     rbind (strcpy_buf KEY_SIZE grp) (\<lambda>g.
     rbind (strcpy_buf KEY_SIZE key) (\<lambda>k.
     let l = \<lparr>group_name = g, key_name = k\<rparr>
     in case hash_find sname l (stats d) of
          Some s \<Rightarrow>
            rbind (wait_for_stats_lock d) (\<lambda>d.
            Inr (remove_stats_lock
              (d\<lparr>stats := hash_put s ((stats d ! s)\<lparr>svalue := atol val\<rparr>) (stats d)\<rparr>)))
        | None \<Rightarrow>
            rbind (strcpy_buf KEY_SIZE grp) (\<lambda>g'.
            rbind (strcpy_buf KEY_SIZE key) (\<lambda>k'.
            let s = \<lparr>sname = \<lparr>group_name = g', key_name = k'\<rparr>, svalue = atol val, slocked = False\<rparr>
            in rbind (wait_for_stats_lock d) (\<lambda>d.
               Inr (remove_stats_lock (d\<lparr>stats := hash_add s (stats d)\<rparr>)))))))"

text \<open>The value a sampled increment adds: \<^verbatim>\<open>double\<close> arithmetic.\<close>

definition scaled :: "fp \<Rightarrow> fp \<Rightarrow> fp" where
  "scaled v rate = fp_mul binary64 v (fp_div binary64 (Fin 1) rate)"

definition update_counter :: "cstring \<Rightarrow> fp \<Rightarrow> fp \<Rightarrow> daemon \<Rightarrow> daemon res" where
  "update_counter key v sample_rate d =
     (case hash_find ckey key (counters d) of
        Some c \<Rightarrow>
          if fp_eq sample_rate (Fin 0)
          then rbind (wait_for_counters_lock d) (\<lambda>d.
               Inr (remove_counters_lock
                 (d\<lparr>counters := hash_put c ((counters d ! c)
                      \<lparr>cvalue := fp_add x87ext (cvalue (counters d ! c)) v\<rparr>) (counters d)\<rparr>)))
          else rbind (wait_for_counters_lock d) (\<lambda>d.
               Inr (remove_counters_lock
                 (d\<lparr>counters := hash_put c ((counters d ! c)
                      \<lparr>cvalue := fp_add x87ext (cvalue (counters d ! c)) (scaled v sample_rate)\<rparr>)
                      (counters d)\<rparr>)))
      | None \<Rightarrow>
          rbind (strcpy_buf KEY_SIZE key) (\<lambda>k.
          let c = \<lparr>ckey = k, cvalue = (if fp_eq sample_rate (Fin 0) then v else scaled v sample_rate)\<rparr>
          in rbind (wait_for_counters_lock d) (\<lambda>d.
             Inr (remove_counters_lock (d\<lparr>counters := hash_add c (counters d)\<rparr>)))))"

text \<open>\<open>plusminus\<close>: 0 sets, 1 subtracts, 2 adds; any other value is only logged, so that a
  new gauge would keep the indeterminate value \<^verbatim>\<open>malloc\<close> left in it.\<close>

definition update_gauge_plusminus :: "cstring \<Rightarrow> fp \<Rightarrow> int \<Rightarrow> daemon \<Rightarrow> daemon res" where
  "update_gauge_plusminus key v plusminus d =
     (case hash_find gkey key (gauges d) of
        Some g \<Rightarrow>
          rbind (wait_for_gauges_lock d) (\<lambda>d.
          let old = gvalue (gauges d ! g);
              new = (if plusminus < 1 then v
                     else if plusminus < 2 then fp_sub x87ext old v
                     else if plusminus < 3 then fp_add x87ext old v
                     else old)
          in Inr (remove_gauges_lock
               (d\<lparr>gauges := hash_put g ((gauges d ! g)\<lparr>gvalue := new\<rparr>) (gauges d)\<rparr>)))
      | None \<Rightarrow>
          rbind (strcpy_buf KEY_SIZE key) (\<lambda>k.
          rbind (if plusminus < 1 then Inr v
                 else if plusminus < 2 then Inr (fp_sub binary64 (Fin 0) v)
                 else if plusminus < 3 then Inr (fp_add binary64 (Fin 0) v)
                 else Inl Uninitialised) (\<lambda>new.
          rbind (wait_for_gauges_lock d) (\<lambda>d.
          Inr (remove_gauges_lock
            (d\<lparr>gauges := hash_add \<lparr>gkey = k, gvalue = new\<rparr> (gauges d)\<rparr>))))))"

definition update_gauge :: "cstring \<Rightarrow> fp \<Rightarrow> daemon \<Rightarrow> daemon res" where
  "update_gauge key v d =
     (case hash_find gkey key (gauges d) of
        Some g \<Rightarrow>
          rbind (wait_for_gauges_lock d) (\<lambda>d.
          Inr (remove_gauges_lock
            (d\<lparr>gauges := hash_put g ((gauges d ! g)\<lparr>gvalue := v\<rparr>) (gauges d)\<rparr>)))
      | None \<Rightarrow>
          rbind (strcpy_buf KEY_SIZE key) (\<lambda>k.
          rbind (wait_for_gauges_lock d) (\<lambda>d.
          Inr (remove_gauges_lock
            (d\<lparr>gauges := hash_add \<lparr>gkey = k, gvalue = v\<rparr> (gauges d)\<rparr>)))))"

definition update_timer :: "cstring \<Rightarrow> fp \<Rightarrow> daemon \<Rightarrow> daemon res" where
  "update_timer key v d =
     (case hash_find tkey key (timers d) of
        Some t \<Rightarrow>
          rbind (wait_for_timers_lock d) (\<lambda>d.
          rbind (inc_int (tcount (timers d ! t))) (\<lambda>n.
          Inr (remove_timers_lock
            (d\<lparr>timers := hash_put t ((timers d ! t)
                 \<lparr>tvalues := tvalues (timers d ! t) @ [v], tcount := n\<rparr>) (timers d)\<rparr>))))
      | None \<Rightarrow>
          rbind (strcpy_buf KEY_SIZE key) (\<lambda>k.
          rbind (inc_int 0) (\<lambda>n.
          rbind (wait_for_timers_lock d) (\<lambda>d.
          Inr (remove_timers_lock
            (d\<lparr>timers := hash_add \<lparr>tkey = k, tcount = n, tvalues = [v]\<rparr> (timers d)\<rparr>))))))"

text \<open>\<^verbatim>\<open>add_timer\<close>: the same effect, with the counter set instead of
  incremented in a new entry and incremented first in an old one.\<close>

definition add_timer :: "cstring \<Rightarrow> fp \<Rightarrow> daemon \<Rightarrow> daemon res" where
  "add_timer key v d =
     (case hash_find tkey key (timers d) of
        Some t \<Rightarrow>
          rbind (wait_for_timers_lock d) (\<lambda>d.
          rbind (inc_int (tcount (timers d ! t))) (\<lambda>n.
          let t1 = (timers d ! t)\<lparr>tcount := n\<rparr>;
              t2 = t1\<lparr>tvalues := tvalues t1 @ [v]\<rparr>
          in Inr (remove_timers_lock (d\<lparr>timers := hash_put t t2 (timers d)\<rparr>))))
      | None \<Rightarrow>
          rbind (strcpy_buf KEY_SIZE key) (\<lambda>k.
          let t = \<lparr>tkey = k, tcount = 1, tvalues = [] @ [v]\<rparr>
          in rbind (wait_for_timers_lock d) (\<lambda>d.
             Inr (remove_timers_lock (d\<lparr>timers := hash_add t (timers d)\<rparr>)))))"

subsection \<open>Views and invariant\<close>

definition stat_of :: "daemon \<Rightarrow> cstring \<Rightarrow> cstring \<Rightarrow> int option" where
  "stat_of d g k =
     map_option svalue (hash_lookup sname \<lparr>group_name = g, key_name = k\<rparr> (stats d))"

definition counter_of :: "daemon \<Rightarrow> cstring \<Rightarrow> fp option" where
  "counter_of d k = map_option cvalue (hash_lookup ckey k (counters d))"

definition gauge_of :: "daemon \<Rightarrow> cstring \<Rightarrow> fp option" where
  "gauge_of d k = map_option gvalue (hash_lookup gkey k (gauges d))"

definition timer_of :: "daemon \<Rightarrow> cstring \<Rightarrow> fp list option" where
  "timer_of d k = map_option tvalues (hash_lookup tkey k (timers d))"

definition key_ok :: "cstring \<Rightarrow> bool" where
  "key_ok k \<longleftrightarrow> is_cstring k \<and> length k < KEY_SIZE"

definition stat_ok :: "statsd_stat_t \<Rightarrow> bool" where
  "stat_ok s \<longleftrightarrow> key_ok (group_name (sname s)) \<and> key_ok (key_name (sname s)) \<and> is_long (svalue s)"

definition counter_ok :: "statsd_counter_t \<Rightarrow> bool" where
  "counter_ok c \<longleftrightarrow> key_ok (ckey c) \<and> fp_ok x87ext (cvalue c)"

definition gauge_ok :: "statsd_gauge_t \<Rightarrow> bool" where
  "gauge_ok g \<longleftrightarrow> key_ok (gkey g) \<and> fp_ok x87ext (gvalue g)"

definition timer_ok :: "statsd_timer_t \<Rightarrow> bool" where
  "timer_ok t \<longleftrightarrow> key_ok (tkey t) \<and> tcount t = int (length (tvalues t)) \<and> tcount t \<le> INT_MAX
                 \<and> (\<forall>v \<in> set (tvalues t). fp_ok binary64 v)"

definition table_ok :: "('e \<Rightarrow> 'k) \<Rightarrow> ('e \<Rightarrow> bool) \<Rightarrow> 'e list \<Rightarrow> bool" where
  "table_ok key ok es \<longleftrightarrow> hash_wf key es \<and> (\<forall>e \<in> set es. ok e)"

definition locks_ok :: "daemon \<Rightarrow> bool" where
  "locks_ok d \<longleftrightarrow> 0 < stats_lock d \<and> 0 < counters_lock d \<and> 0 < gauges_lock d \<and> 0 < timers_lock d"

definition daemon_wf :: "daemon \<Rightarrow> bool" where
  "daemon_wf d \<longleftrightarrow> table_ok sname stat_ok (stats d) \<and> table_ok ckey counter_ok (counters d)
                  \<and> table_ok gkey gauge_ok (gauges d) \<and> table_ok tkey timer_ok (timers d)
                  \<and> locks_ok d"

lemma daemon_wf_init [simp]: "daemon_wf daemon_init"
  by (simp add: daemon_wf_def daemon_init_def table_ok_def hash_wf_def locks_ok_def)

lemma daemon_wfD:
  assumes "daemon_wf d"
  shows "table_ok sname stat_ok (stats d)" "table_ok ckey counter_ok (counters d)"
    "table_ok gkey gauge_ok (gauges d)" "table_ok tkey timer_ok (timers d)" "locks_ok d"
  using assms by (simp_all add: daemon_wf_def)

lemma table_ok_lookup: "table_ok key ok es \<Longrightarrow> hash_lookup key k es = Some e \<Longrightarrow> ok e"
  by (auto simp: table_ok_def dest: hash_lookup_SomeD)

text \<open>Find-or-create on a table of well-formed entries.\<close>

lemma table_ok_upsert:
  assumes "table_ok key ok es" and "\<And>e. key e = k \<Longrightarrow> key (f e) = k" and "key new = k"
    and "\<And>e. hash_lookup key k es = Some e \<Longrightarrow> ok (f e)"
    and "hash_lookup key k es = None \<Longrightarrow> ok new"
  shows "table_ok key ok (hash.upsert key k f new es)"
proof -
  have "hash_wf key (hash.upsert key k f new es)"
    using assms by (intro hash.upsert_wf) (auto simp: table_ok_def)
  moreover have "ok e" if "e \<in> set (hash.upsert key k f new es)" for e
  proof (cases "hash_find key k es")
    case None
    with that assms show ?thesis
      by (auto simp: hash.upsert_def table_ok_def hash_lookup_def)
  next
    case (Some i)
    with that set_hash_put_subset [of i "f (es ! i)" es] assms show ?thesis
      by (auto simp: hash.upsert_def table_ok_def hash_lookup_def)
  qed
  ultimately show ?thesis by (simp add: table_ok_def)
qed

lemma lookup_upsert:
  assumes "table_ok key ok es" and "\<And>e. key e = k \<Longrightarrow> key (f e) = k" and "key new = k"
  shows "hash_lookup key k' (hash.upsert key k f new es) =
    (if k' = k then Some (case hash_lookup key k es of Some e \<Rightarrow> f e | None \<Rightarrow> new)
     else hash_lookup key k' es)"
  using assms by (intro hash.upsert_lookup) (auto simp: table_ok_def)

text \<open>A wait followed by the post leaves the semaphore as it was.\<close>

lemma sem_wait_pos: "0 < n \<Longrightarrow> sem_wait n = Inr (n - 1)"
  by (cases n) (simp_all add: sem_wait_def)

subsection \<open>Each operation as find-or-create\<close>

text \<open>
  With the semaphore available, an operation is \<^verbatim>\<open>upsert\<close> on its table, unless
  it must create an entry and the key does not fit.
\<close>

definition fits :: "cstring \<Rightarrow> 'e option \<Rightarrow> bool" where
  "fits k e \<longleftrightarrow> e \<noteq> None \<or> length k < KEY_SIZE"

lemma hash_lookup_find:
  "hash_find key k es = None \<Longrightarrow> hash_lookup key k es = None"
  "hash_find key k es = Some i \<Longrightarrow> hash_lookup key k es = Some (es ! i)"
  by (simp_all add: hash_lookup_def)

lemmas upsert_eval = hash.upsert_def lock_defs sem_wait_pos fits_def hash_lookup_find strcpy_buf_def

definition increment :: "fp \<Rightarrow> fp \<Rightarrow> fp" where
  "increment v rate = (if fp_eq rate (Fin 0) then v else scaled v rate)"

lemma update_counter_eq:
  assumes "0 < counters_lock d"
  shows "update_counter key v rate d =
    (if fits key (hash_lookup ckey key (counters d))
     then Inr (d\<lparr>counters := hash.upsert ckey key
            (\<lambda>c. c\<lparr>cvalue := fp_add x87ext (cvalue c) (increment v rate)\<rparr>)
            \<lparr>ckey = key, cvalue = increment v rate\<rparr> (counters d)\<rparr>)
     else Inl Buffer_Overflow)"
  using assms
  by (cases "hash_find ckey key (counters d)")
    (simp_all add: update_counter_def upsert_eval increment_def Let_def)

definition gauge_step :: "int \<Rightarrow> fp \<Rightarrow> fp \<Rightarrow> fp" where
  "gauge_step plusminus old v =
     (if plusminus < 1 then v else if plusminus < 2 then fp_sub x87ext old v
      else if plusminus < 3 then fp_add x87ext old v else old)"

definition gauge_first :: "int \<Rightarrow> fp \<Rightarrow> fp" where
  "gauge_first plusminus v =
     (if plusminus < 1 then v else if plusminus < 2 then fp_sub binary64 (Fin 0) v
      else fp_add binary64 (Fin 0) v)"

lemma update_gauge_plusminus_eq:
  assumes "0 < gauges_lock d" and "plusminus < 3"
  shows "update_gauge_plusminus key v plusminus d =
    (if fits key (hash_lookup gkey key (gauges d))
     then Inr (d\<lparr>gauges := hash.upsert gkey key (\<lambda>g. g\<lparr>gvalue := gauge_step plusminus (gvalue g) v\<rparr>)
            \<lparr>gkey = key, gvalue = gauge_first plusminus v\<rparr> (gauges d)\<rparr>)
     else Inl Buffer_Overflow)"
  using assms
  by (cases "hash_find gkey key (gauges d)")
    (simp_all add: update_gauge_plusminus_def upsert_eval gauge_step_def gauge_first_def Let_def)

lemma update_gauge_eq:
  assumes "0 < gauges_lock d"
  shows "update_gauge key v d = update_gauge_plusminus key v 0 d"
  using assms
  by (cases "hash_find gkey key (gauges d)")
    (simp_all add: update_gauge_def update_gauge_plusminus_def upsert_eval Let_def)

definition timer_full :: "cstring \<Rightarrow> daemon \<Rightarrow> bool" where
  "timer_full key d \<longleftrightarrow>
     (\<exists>t. hash_lookup tkey key (timers d) = Some t \<and> INT_MAX \<le> tcount t)"

lemma update_timer_eq:
  assumes "0 < timers_lock d"
  shows "update_timer key v d =
    (if timer_full key d then Inl Signed_Overflow
     else if fits key (hash_lookup tkey key (timers d))
     then Inr (d\<lparr>timers := hash.upsert tkey key
            (\<lambda>t. t\<lparr>tvalues := tvalues t @ [v], tcount := tcount t + 1\<rparr>)
            \<lparr>tkey = key, tcount = 1, tvalues = [v]\<rparr> (timers d)\<rparr>)
     else Inl Buffer_Overflow)"
  using assms
  by (cases "hash_find tkey key (timers d)")
    (auto simp: update_timer_def upsert_eval timer_full_def inc_int_def INT_MAX_def)

lemma update_stat_eq:
  assumes "0 < stats_lock d"
  shows "update_stat g k val d =
    (if length g < KEY_SIZE \<and> length k < KEY_SIZE
     then Inr (d\<lparr>stats := hash.upsert sname \<lparr>group_name = g, key_name = k\<rparr>
            (\<lambda>s. s\<lparr>svalue := atol val\<rparr>)
            \<lparr>sname = \<lparr>group_name = g, key_name = k\<rparr>, svalue = atol val, slocked = False\<rparr> (stats d)\<rparr>)
     else Inl Buffer_Overflow)"
  using assms
  by (cases "hash_find sname \<lparr>group_name = g, key_name = k\<rparr> (stats d)")
    (auto simp: update_stat_def upsert_eval Let_def)

subsection \<open>Preservation of the invariant\<close>

lemma key_okI: "is_cstring k \<Longrightarrow> fits k e \<Longrightarrow> e = None \<Longrightarrow> key_ok k"
  by (simp add: key_ok_def fits_def)

lemma fp_ok_increment [simp]: "fp_ok binary64 v \<Longrightarrow> fp_ok binary64 (increment v rate)"
  by (simp add: increment_def scaled_def)

lemma fp_ok_gauge_step [simp]:
  "fp_ok x87ext old \<Longrightarrow> fp_ok binary64 v \<Longrightarrow> fp_ok x87ext (gauge_step pm old v)"
  by (simp add: gauge_step_def fp_ok_widen)

lemma fp_ok_gauge_first [simp]: "fp_ok binary64 v \<Longrightarrow> fp_ok binary64 (gauge_first pm v)"
  by (simp add: gauge_first_def)

lemma update_counter_wf:
  assumes "daemon_wf d" and "is_cstring key" and "fp_ok binary64 v"
    and "update_counter key v rate d = Inr d'"
  shows "daemon_wf d'"
proof -
  from assms(1) have l: "0 < counters_lock d" by (simp add: daemon_wf_def locks_ok_def)
  from assms(4) have f: "fits key (hash_lookup ckey key (counters d))"
    and d': "d' = d\<lparr>counters := hash.upsert ckey key
        (\<lambda>c. c\<lparr>cvalue := fp_add x87ext (cvalue c) (increment v rate)\<rparr>)
        \<lparr>ckey = key, cvalue = increment v rate\<rparr> (counters d)\<rparr>"
    by (auto simp: update_counter_eq [OF l] split: if_splits)
  have "table_ok ckey counter_ok (counters d')"
    unfolding d' using daemon_wfD [OF assms(1)] assms(2,3) f
    by simp (rule table_ok_upsert,
      auto simp: counter_ok_def fp_ok_widen intro: key_okI dest!: table_ok_lookup)
  with assms(1) show ?thesis unfolding d' by (simp add: daemon_wf_def locks_ok_def)
qed

lemma update_gauge_plusminus_wf:
  assumes "daemon_wf d" and "is_cstring key" and "fp_ok binary64 v" and "pm < 3"
    and "update_gauge_plusminus key v pm d = Inr d'"
  shows "daemon_wf d'"
proof -
  from assms(1) have l: "0 < gauges_lock d" by (simp add: daemon_wf_def locks_ok_def)
  from assms(5) have f: "fits key (hash_lookup gkey key (gauges d))"
    and d': "d' = d\<lparr>gauges := hash.upsert gkey key (\<lambda>g. g\<lparr>gvalue := gauge_step pm (gvalue g) v\<rparr>)
        \<lparr>gkey = key, gvalue = gauge_first pm v\<rparr> (gauges d)\<rparr>"
    by (auto simp: update_gauge_plusminus_eq [OF l assms(4)] split: if_splits)
  have "table_ok gkey gauge_ok (gauges d')"
    unfolding d' using daemon_wfD [OF assms(1)] assms(2,3) f
    by simp (rule table_ok_upsert,
      auto simp: gauge_ok_def fp_ok_widen intro: key_okI dest!: table_ok_lookup)
  with assms(1) show ?thesis unfolding d' by (simp add: daemon_wf_def locks_ok_def)
qed

lemma update_timer_wf:
  assumes "daemon_wf d" and "is_cstring key" and "fp_ok binary64 v"
    and "update_timer key v d = Inr d'"
  shows "daemon_wf d'"
proof -
  from assms(1) have l: "0 < timers_lock d" by (simp add: daemon_wf_def locks_ok_def)
  from assms(4) have f: "fits key (hash_lookup tkey key (timers d))" and nf: "\<not> timer_full key d"
    and d': "d' = d\<lparr>timers := hash.upsert tkey key
        (\<lambda>t. t\<lparr>tvalues := tvalues t @ [v], tcount := tcount t + 1\<rparr>)
        \<lparr>tkey = key, tcount = 1, tvalues = [v]\<rparr> (timers d)\<rparr>"
    by (auto simp: update_timer_eq [OF l] split: if_splits)
  have "table_ok tkey timer_ok (timers d')"
    unfolding d' using daemon_wfD [OF assms(1)] assms(2,3) f nf
    by simp (rule table_ok_upsert,
      auto simp: timer_ok_def timer_full_def INT_MAX_def intro: key_okI dest!: table_ok_lookup)
  with assms(1) show ?thesis unfolding d' by (simp add: daemon_wf_def locks_ok_def)
qed

lemma update_stat_wf:
  assumes "daemon_wf d" and "is_cstring g" and "is_cstring k" and "update_stat g k val d = Inr d'"
  shows "daemon_wf d'"
proof -
  from assms(1) have l: "0 < stats_lock d" by (simp add: daemon_wf_def locks_ok_def)
  let ?k = "\<lparr>group_name = g, key_name = k\<rparr>"
  from assms(4) have f: "length g < KEY_SIZE" "length k < KEY_SIZE"
    and d': "d' = d\<lparr>stats := hash.upsert sname ?k (\<lambda>s. s\<lparr>svalue := atol val\<rparr>)
        \<lparr>sname = ?k, svalue = atol val, slocked = False\<rparr> (stats d)\<rparr>"
    by (auto simp: update_stat_eq [OF l] split: if_splits)
  have "table_ok sname stat_ok (stats d')"
    unfolding d' using daemon_wfD [OF assms(1)] assms(2,3) f
    by simp (rule table_ok_upsert, auto simp: stat_ok_def key_ok_def dest!: table_ok_lookup)
  with assms(1) show ?thesis unfolding d' by (simp add: daemon_wf_def locks_ok_def)
qed

subsection \<open>The views after an operation\<close>

lemma daemon_wf_locks:
  assumes "daemon_wf d"
  shows "0 < stats_lock d" "0 < counters_lock d" "0 < gauges_lock d" "0 < timers_lock d"
  using assms by (simp_all add: daemon_wf_def locks_ok_def)

lemma update_counter_view:
  assumes "daemon_wf d" and "update_counter key v rate d = Inr d'"
  shows "counter_of d' = (counter_of d)(key \<mapsto>
           (case counter_of d key of None \<Rightarrow> increment v rate
            | Some c \<Rightarrow> fp_add x87ext c (increment v rate)))"
  using assms
  by (auto simp: update_counter_eq [OF daemon_wf_locks(2)] counter_of_def fun_eq_iff
      lookup_upsert [OF daemon_wfD(2)] split: if_splits option.splits)

lemma update_gauge_plusminus_view:
  assumes "daemon_wf d" and "pm < 3" and "update_gauge_plusminus key v pm d = Inr d'"
  shows "gauge_of d' = (gauge_of d)(key \<mapsto>
           (case gauge_of d key of None \<Rightarrow> gauge_first pm v | Some g \<Rightarrow> gauge_step pm g v))"
  using assms
  by (auto simp: update_gauge_plusminus_eq [OF daemon_wf_locks(3)] gauge_of_def fun_eq_iff
      lookup_upsert [OF daemon_wfD(3)] split: if_splits option.splits)

lemma update_timer_view:
  assumes "daemon_wf d" and "update_timer key v d = Inr d'"
  shows "timer_of d' = (timer_of d)(key \<mapsto>
           (case timer_of d key of None \<Rightarrow> [v] | Some vs \<Rightarrow> vs @ [v]))"
  using assms
  by (auto simp: update_timer_eq [OF daemon_wf_locks(4)] timer_of_def fun_eq_iff
      lookup_upsert [OF daemon_wfD(4)] split: if_splits option.splits)

lemma update_stat_view:
  assumes "daemon_wf d" and "update_stat g k val d = Inr d'"
  shows "stat_of d' g' k' = (if g' = g \<and> k' = k then Some (atol val) else stat_of d g' k')"
  using assms
  by (auto simp: update_stat_eq [OF daemon_wf_locks(1)] stat_of_def
      lookup_upsert [OF daemon_wfD(1)] split: if_splits option.splits)

lemma update_counter_frame [daemon_frame]:
  assumes "update_counter key v rate d = Inr d'" and "0 < counters_lock d"
  shows "stats d' = stats d" "gauges d' = gauges d" "timers d' = timers d"
    "stats_lock d' = stats_lock d" "counters_lock d' = counters_lock d"
    "gauges_lock d' = gauges_lock d" "timers_lock d' = timers_lock d"
  using assms by (auto simp: update_counter_eq split: if_splits)

lemma update_gauge_plusminus_frame [daemon_frame]:
  assumes "update_gauge_plusminus key v pm d = Inr d'" and "0 < gauges_lock d" and "pm < 3"
  shows "stats d' = stats d" "counters d' = counters d" "timers d' = timers d"
    "stats_lock d' = stats_lock d" "counters_lock d' = counters_lock d"
    "gauges_lock d' = gauges_lock d" "timers_lock d' = timers_lock d"
  using assms by (auto simp: update_gauge_plusminus_eq split: if_splits)

lemma update_timer_frame [daemon_frame]:
  assumes "update_timer key v d = Inr d'" and "0 < timers_lock d"
  shows "stats d' = stats d" "counters d' = counters d" "gauges d' = gauges d"
    "stats_lock d' = stats_lock d" "counters_lock d' = counters_lock d"
    "gauges_lock d' = gauges_lock d" "timers_lock d' = timers_lock d"
  using assms by (auto simp: update_timer_eq split: if_splits)

lemma update_stat_frame [daemon_frame]:
  assumes "update_stat g k val d = Inr d'" and "0 < stats_lock d"
  shows "counters d' = counters d" "gauges d' = gauges d" "timers d' = timers d"
    "stats_lock d' = stats_lock d" "counters_lock d' = counters_lock d"
    "gauges_lock d' = gauges_lock d" "timers_lock d' = timers_lock d"
  using assms by (auto simp: update_stat_eq split: if_splits)

end
