(* ===== verification/Sanitize.thy ===== *)
theory Sanitize
  imports CText
begin

text \<open>
  \<^verbatim>\<open>strings.c\<close>: the in-place clean-up of metric names and values and the
  number-to-text helpers. Each \<^verbatim>\<open>sanitize_*\<close> loop copies into a buffer as long
  as its input and copies back at most as much, so it is a function from strings to strings
  whose result is never longer; the lemmas give the alphabet of the result, idempotence, and
  how the filters compose where the packet parser applies two in a row.
\<close>

fun sanitize_key :: "cstring \<Rightarrow> cstring" where
  "sanitize_key [] = []"
| "sanitize_key (p # s) =
     (if p = CHR ''.'' then CHR ''_'' # sanitize_key s
      else if p = CHR 0x5C \<or> p = CHR ''/'' then CHR ''-'' # sanitize_key s
      else if is_lower p \<or> is_upper p \<or> is_digit p \<or> p = CHR ''_'' \<or> p = CHR ''-''
      then p # sanitize_key s
      else sanitize_key s)"

fun sanitize_value :: "cstring \<Rightarrow> cstring" where
  "sanitize_value [] = []"
| "sanitize_value (p # s) =
     (if p = CHR ''.'' \<or> p = CHR ''-'' \<or> is_digit p then p # sanitize_value s
      else sanitize_value s)"

fun sanitize_gaugevalue :: "cstring \<Rightarrow> cstring" where
  "sanitize_gaugevalue [] = []"
| "sanitize_gaugevalue (p # s) =
     (if p = CHR ''.'' \<or> p = CHR ''-'' \<or> p = CHR ''+'' \<or> is_digit p
      then p # sanitize_gaugevalue s else sanitize_gaugevalue s)"

definition ltoa :: "int \<Rightarrow> cstring res" where
  "ltoa l = strcpy_buf 20 (dec_of_int l)"

definition ldtoa :: "fp \<Rightarrow> cstring res" where
  "ldtoa ld = strcpy_buf 20 (fmt_f ld)"

subsection \<open>Names\<close>

definition key_char :: "char \<Rightarrow> bool" where
  "key_char c \<longleftrightarrow> is_lower c \<or> is_upper c \<or> is_digit c \<or> c = CHR ''_'' \<or> c = CHR ''-''"

lemma key_char_not_special: "\<not> key_char (CHR ''.'')" "\<not> key_char (CHR 0x5C)" "\<not> key_char (CHR ''/'')"
  "\<not> key_char (CHR 0x00)"
  by (simp_all add: key_char_def char_class_defs)

lemma sanitize_key_chars: "c \<in> set (sanitize_key s) \<Longrightarrow> key_char c"
  by (induction s rule: sanitize_key.induct) (auto simp: key_char_def split: if_splits)

lemma length_sanitize_key: "length (sanitize_key s) \<le> length s"
  by (induction s rule: sanitize_key.induct) auto

lemma sanitize_key_id: "(\<And>c. c \<in> set s \<Longrightarrow> key_char c) \<Longrightarrow> sanitize_key s = s"
proof (induction s rule: sanitize_key.induct)
  case (2 p s)
  then have "key_char p" by simp
  then have "p \<noteq> CHR ''.''" "p \<noteq> CHR 0x5C" "p \<noteq> CHR ''/''" using key_char_not_special by metis+
  with 2 \<open>key_char p\<close> show ?case by (auto simp: key_char_def)
qed simp

lemma sanitize_key_idem: "sanitize_key (sanitize_key s) = sanitize_key s"
  by (rule sanitize_key_id) (rule sanitize_key_chars)

lemma sanitize_key_append: "sanitize_key (s @ t) = sanitize_key s @ sanitize_key t"
  by (induction s rule: sanitize_key.induct) auto

lemma is_cstring_sanitize_key [simp]: "is_cstring (sanitize_key s)"
  unfolding is_cstring_def using sanitize_key_chars key_char_not_special(4) by blast

subsection \<open>Values\<close>

definition value_char :: "char \<Rightarrow> bool" where
  "value_char c \<longleftrightarrow> c = CHR ''.'' \<or> c = CHR ''-'' \<or> is_digit c"

lemma sanitize_value_filter: "sanitize_value s = filter value_char s"
  by (induction s rule: sanitize_value.induct) (auto simp: value_char_def)

lemma sanitize_gaugevalue_filter:
  "sanitize_gaugevalue s = filter (\<lambda>c. value_char c \<or> c = CHR ''+'') s"
  by (induction s rule: sanitize_gaugevalue.induct) (auto simp: value_char_def)

lemma sanitize_value_gaugevalue: "sanitize_value (sanitize_gaugevalue s) = sanitize_value s"
  by (simp add: sanitize_value_filter sanitize_gaugevalue_filter) (metis (no_types, lifting) conj_disj_distribL)

lemma sanitize_value_idem: "sanitize_value (sanitize_value s) = sanitize_value s"
  by (simp add: sanitize_value_filter)

lemma value_char_dec_of_int: "c \<in> set (dec_of_int k) \<Longrightarrow> value_char c"
  by (auto simp: dec_of_int_def value_char_def dest: dec_of_nat_digits split: if_splits)

lemma sanitize_value_dec_of_int [simp]: "sanitize_value (dec_of_int k) = dec_of_int k"
  by (simp add: sanitize_value_filter filter_id_conv value_char_dec_of_int)

lemma sanitize_gaugevalue_dec_of_int [simp]: "sanitize_gaugevalue (dec_of_int k) = dec_of_int k"
  by (simp add: sanitize_gaugevalue_filter filter_id_conv value_char_dec_of_int)

lemma sanitize_value_subset: "set (sanitize_value s) \<subseteq> set s"
  by (auto simp: sanitize_value_filter)

text \<open>What \<^verbatim>\<open>strtod\<close> is given is free of letters, so it never reads an infinity
  or a NaN by name; the value is always finite or an overflow.\<close>

lemma strtod_full_value_chars:
  assumes "\<And>c. c \<in> set s \<Longrightarrow> value_char c" and "strtod_full s = Some (v, r)"
  shows "v \<noteq> NaN"
proof -
  have ns: "value_char c \<Longrightarrow> \<not> isspace c" for c by (auto simp: value_char_def char_class_defs)
  have pre: "\<not> has_prefix_ci (p # ps) t" if "set t \<subseteq> set s" "p \<in> {CHR ''i'', CHR ''n''}" for p ps t
  proof
    assume "has_prefix_ci (p # ps) t"
    then obtain c cs where "t = c # cs" "tolower c = p" by (cases t) (auto simp: has_prefix_ci_def)
    with that assms(1) have "value_char c" "tolower c \<in> {CHR ''i'', CHR ''n''}" by auto
    then show False by (auto simp: value_char_def tolower_def char_class_defs)
  qed
  have "set (snd (read_sign t)) \<subseteq> set t" for t
    by (auto simp: read_sign_def split: list.splits)
  then have "set (snd (read_sign (dropWhile isspace s))) \<subseteq> set s"
    by (meson set_dropWhileD subsetD subsetI)
  with assms(2) pre show ?thesis
    by (auto simp: strtod_full_def Let_def round_fp_def split: prod.splits if_splits option.splits)
qed

lemma strtod_sanitized: "strtod (sanitize_value s) \<noteq> NaN"
  using strtod_full_value_chars [of "sanitize_value s"]
  by (auto simp: strtod_def sanitize_value_filter split: option.splits)

subsection \<open>Buffers\<close>

lemma ltoa_fits: "\<bar>l\<bar> < 10 ^ 18 \<Longrightarrow> ltoa l = Inr (dec_of_int l)"
  using length_dec_of_int [of l 18] by (simp add: ltoa_def)

lemma ldtoa_overflow: "10 ^ 12 \<le> \<bar>q\<bar> \<Longrightarrow> ldtoa (Fin q) = Inl Buffer_Overflow"
  using length_fmt_f_ge [of 12 q] by (simp add: ldtoa_def del: fmt_f.simps)

end
