(* ===== verification/Packet.thy ===== *)
theory Packet
  imports Stats Sanitize
begin

text \<open>
  \<^verbatim>\<open>process_stats_packet\<close> of \<^verbatim>\<open>statsd.c\<close>: the parser of the
  text protocol \<open>name:value|type|@rate\<close>. Its local variables are the records
  \<^verbatim>\<open>packet_vars\<close> (those that live across the values of a packet) and
  \<^verbatim>\<open>field_vars\<close> (those of one value). \<^verbatim>\<open>charvalue\<close> is a pointer
  the function does not initialise, assigns only when a value has a field before a pipe, frees
  after a gauge, and never resets: \<^verbatim>\<open>char_ptr\<close> keeps that state, and reading
  through it in the wrong one is a fault.

  The lemmas reduce the two nested \<^verbatim>\<open>strtok_r\<close> loops to a fold over the list of
  tokens, and give the effect of one value of each kind.
\<close>

datatype char_ptr = Ptr_Uninit | Ptr_Freed | Ptr_Live cstring

definition deref :: "char_ptr \<Rightarrow> cstring res" where
  "deref p = (case p of Ptr_Uninit \<Rightarrow> Inl Uninitialised | Ptr_Freed \<Rightarrow> Inl Use_After_Free
                      | Ptr_Live s \<Rightarrow> Inr s)"

record packet_vars =
  pkey :: "cstring option"     \<comment> \<open>\<^verbatim>\<open>key_name\<close>, initially null\<close>
  pvalue :: fp                 \<comment> \<open>\<^verbatim>\<open>value\<close>\<close>
  charvalue :: char_ptr

record field_vars =
  fcharvalue :: char_ptr
  is_timer :: bool
  is_gauge :: bool
  s_sample_rate :: "cstring option"

text \<open>\<^verbatim>\<open>UPDATE_LAST_MSG_SEEN\<close>, at the time \<open>t\<close> that
  \<^verbatim>\<open>time(NULL)\<close> returns.\<close>

definition UPDATE_LAST_MSG_SEEN :: "int \<Rightarrow> daemon \<Rightarrow> daemon res" where
  "UPDATE_LAST_MSG_SEEN t d =
     rbind (strcpy_buf 32 (dec_of_int t)) (\<lambda>time_sec.
     update_stat ''messages'' ''last_msg_seen'' time_sec d)"

subsection \<open>The fields of one value\<close>

text \<open>The \<^verbatim>\<open>switch (j)\<close> over the position of a field.\<close>

definition field_case :: "nat \<Rightarrow> cstring \<Rightarrow> field_vars \<Rightarrow> field_vars" where
  "field_case j subtoken f =
     (if j = 1 then f\<lparr>fcharvalue := Ptr_Live (sanitize_gaugevalue subtoken)\<rparr>
      else if j = 2 then
        (if length subtoken < 2
         then f\<lparr>is_timer := False,
                is_gauge := (if take 1 subtoken = ''g'' then True else is_gauge f)\<rparr>
         else if take 2 subtoken = ''ms'' then f\<lparr>is_timer := True, is_gauge := False\<rparr> else f)
      else if j = 3 then f\<lparr>s_sample_rate := Some subtoken\<rparr>
      else f)"

function field_loop :: "nat \<Rightarrow> cstring \<Rightarrow> field_vars \<Rightarrow> field_vars" where
  "field_loop j flds f =
     (case strtok_r (CHR ''|'') flds of
        None \<Rightarrow> f
      | Some (subtoken, subsave) \<Rightarrow> field_loop (j + 1) subsave (field_case j subtoken f))"
  by pat_completeness auto
termination
  by (relation "measure (\<lambda>(j, s, f). length s)") (auto dest: strtok_r_shorter)

declare field_loop.simps [simp del]

subsection \<open>One value\<close>

text \<open>The three branches after the fields: a timer, a gauge, a counter. Each yields the new
  \<^verbatim>\<open>charvalue\<close>, the new \<^verbatim>\<open>value\<close> and the new state.\<close>

definition handle_timer :: "cstring \<Rightarrow> char_ptr \<Rightarrow> daemon \<Rightarrow> (char_ptr \<times> fp \<times> daemon) res" where
  "handle_timer key p d =
     rbind (deref p) (\<lambda>cv.
     let cv' = sanitize_value cv; v = strtod cv'
     in rbind (update_timer key v d) (\<lambda>d'. Inr (Ptr_Live cv', v, d')))"

definition handle_gauge :: "cstring \<Rightarrow> char_ptr \<Rightarrow> daemon \<Rightarrow> (char_ptr \<times> fp \<times> daemon) res" where
  "handle_gauge key p d =
     rbind (deref p) (\<lambda>cv.
     if take 1 cv = ''-'' then
       let v = strtod (sanitize_value (drop 1 cv))
       in rbind (update_gauge_plusminus key v 1 d) (\<lambda>d'. Inr (Ptr_Freed, v, d'))
     else if take 1 cv = ''+'' then
       let v = strtod (sanitize_value (drop 1 cv))
       in rbind (update_gauge_plusminus key v 2 d) (\<lambda>d'. Inr (Ptr_Freed, v, d'))
     else
       let v = strtod (sanitize_value cv)
       in rbind (update_gauge_plusminus key v 0 d) (\<lambda>d'. Inr (Ptr_Freed, v, d')))"

definition handle_counter ::
    "cstring \<Rightarrow> cstring option \<Rightarrow> char_ptr \<Rightarrow> daemon \<Rightarrow> (char_ptr \<times> fp \<times> daemon) res" where
  "handle_counter key rate p d =
     (let sample_rate = (case rate of
            Some r \<Rightarrow> if take 1 r = ''@'' then strtod (drop 1 r) else Fin 1
          | None \<Rightarrow> Fin 1)
      in rbind (deref p) (\<lambda>cv.
         let cv' = sanitize_value cv; v = strtod cv'
         in rbind (update_counter key v sample_rate d) (\<lambda>d'. Inr (Ptr_Live cv', v, d'))))"

definition process_token :: "cstring \<Rightarrow> packet_vars \<Rightarrow> daemon \<Rightarrow> (packet_vars \<times> daemon) res" where
  "process_token token pv d =
     (let f0 = \<lparr>fcharvalue = charvalue pv, is_timer = False, is_gauge = False,
                s_sample_rate = None\<rparr>;
          f = (if CHR ''|'' \<notin> set token then f0 else field_loop 1 token f0)
      in case pkey pv of
           None \<Rightarrow> Inl Null_Deref
         | Some key \<Rightarrow>
             rbind (if is_timer f then handle_timer key (fcharvalue f) d
                    else if is_gauge f then handle_gauge key (fcharvalue f) d
                    else handle_counter key (s_sample_rate f) (fcharvalue f) d)
               (\<lambda>(p, v, d'). Inr (pv\<lparr>charvalue := p, pvalue := v\<rparr>, d')))"

subsection \<open>The packet\<close>

function packet_loop ::
    "nat \<Rightarrow> cstring \<Rightarrow> packet_vars \<Rightarrow> daemon \<Rightarrow> (nat \<times> packet_vars \<times> daemon) res" where
  "packet_loop i bits pv d =
     (case strtok_r (CHR '':'') bits of
        None \<Rightarrow> Inr (i, pv, d)
      | Some (token, save) \<Rightarrow>
          if i = 1 then packet_loop (i + 1) save (pv\<lparr>pkey := Some (sanitize_key token)\<rparr>) d
          else rbind (process_token token pv d) (\<lambda>(pv', d'). packet_loop (i + 1) save pv' d'))"
  by pat_completeness auto
termination
  by (relation "measure (\<lambda>(i, s, pv, d). length s)") (auto dest: strtok_r_shorter)

declare packet_loop.simps [simp del]

definition packet_vars_init :: packet_vars where
  "packet_vars_init = \<lparr>pkey = None, pvalue = Fin 1, charvalue = Ptr_Uninit\<rparr>"

definition process_stats_packet :: "int \<Rightarrow> cstring \<Rightarrow> daemon \<Rightarrow> daemon res" where
  "process_stats_packet t buf_in d =
     (if length buf_in < 2 then UPDATE_LAST_MSG_SEEN t d
      else rbind (packet_loop 1 buf_in packet_vars_init d) (\<lambda>(i, pv, d).
           let i = i - 1
           in rbind (if i \<le> 1
                     then (case pkey pv of
                             None \<Rightarrow> Inl Null_Deref
                           | Some key \<Rightarrow> update_counter key (pvalue pv) (Fin 1) d)
                     else Inr d) (UPDATE_LAST_MSG_SEEN t)))"

subsection \<open>The loops as folds over the tokens\<close>

lemma field_loop_None: "strtok_r (CHR ''|'') s = None \<Longrightarrow> field_loop j s f = f"
  by (simp add: field_loop.simps)

lemma field_loop_Some:
  "strtok_r (CHR ''|'') s = Some (t, r) \<Longrightarrow>
   field_loop j s f = field_loop (j + 1) r (field_case j t f)"
  by (simp add: field_loop.simps [of j s])

fun field_fold :: "nat \<Rightarrow> cstring list \<Rightarrow> field_vars \<Rightarrow> field_vars" where
  "field_fold j [] f = f"
| "field_fold j (t # ts) f = field_fold (j + 1) ts (field_case j t f)"

lemma field_loop_fold: "field_loop j s f = field_fold j (strtok_all (CHR ''|'') s) f"
proof (induction s arbitrary: j f rule: strtok_induct [of "CHR ''|''"])
  case (None s)
  then show ?case by (simp add: field_loop_None strtok_all_None)
next
  case (Some s t r)
  then show ?case by (simp add: field_loop_Some strtok_all_Some)
qed

lemma field_fold_rest: "3 < j \<Longrightarrow> field_fold j ts f = f"
  by (induction ts arbitrary: j) (simp_all add: field_case_def)

definition run_values :: "cstring list \<Rightarrow> packet_vars \<times> daemon \<Rightarrow> (packet_vars \<times> daemon) res" where
  "run_values = rfold (\<lambda>tok st. process_token tok (fst st) (snd st))"

lemma run_values_simps [simp]:
  "run_values [] st = Inr st"
  "run_values (tok # toks) st = rbind (process_token tok (fst st) (snd st)) (run_values toks)"
  by (simp_all add: run_values_def)

lemma packet_loop_tokens:
  "2 \<le> i \<Longrightarrow> packet_loop i s pv d =
     rbind (run_values (strtok_all (CHR '':'') s) (pv, d))
       (\<lambda>(pv', d'). Inr (i + length (strtok_all (CHR '':'') s), pv', d'))"
proof (induction s arbitrary: i pv d rule: strtok_induct [of "CHR '':''"])
  case (None s)
  then show ?case by (simp add: packet_loop.simps [of i s] strtok_all_None)
next
  case (Some s t r)
  then show ?case
    by (cases "process_token t pv d")
      (auto simp: packet_loop.simps [of i s] strtok_all_Some split: prod.splits)
qed

lemma packet_loop_first:
  "packet_loop (Suc 0) s pv d =
     (case strtok_all (CHR '':'') s of
        [] \<Rightarrow> Inr (1, pv, d)
      | name # vals \<Rightarrow>
          rbind (run_values vals (pv\<lparr>pkey := Some (sanitize_key name)\<rparr>, d))
            (\<lambda>(pv', d'). Inr (2 + length vals, pv', d')))"
  by (cases "strtok_r (CHR '':'') s")
    (auto simp: packet_loop.simps [of "Suc 0" s] strtok_all_None strtok_all_Some packet_loop_tokens)

lemma process_token_key:
  "process_token tok pv d = Inr (pv', d') \<Longrightarrow> pkey pv' = pkey pv"
  by (auto simp: process_token_def Let_def split: option.splits if_splits)

lemma run_values_key: "run_values toks (pv, d) = Inr (pv', d') \<Longrightarrow> pkey pv' = pkey pv"
  by (induction toks arbitrary: pv d) (auto dest: process_token_key)

text \<open>The whole function over the list of tokens.\<close>

definition packet_spec :: "int \<Rightarrow> cstring list \<Rightarrow> daemon \<Rightarrow> daemon res" where
  "packet_spec t toks d =
     (case toks of
        [] \<Rightarrow> Inl Null_Deref
      | [name] \<Rightarrow>
          rbind (update_counter (sanitize_key name) (Fin 1) (Fin 1) d) (UPDATE_LAST_MSG_SEEN t)
      | name # vals \<Rightarrow>
          rbind (run_values vals (packet_vars_init\<lparr>pkey := Some (sanitize_key name)\<rparr>, d))
            (\<lambda>(pv, d'). UPDATE_LAST_MSG_SEEN t d'))"

lemma process_stats_packet_short:
  "length buf < 2 \<Longrightarrow> process_stats_packet t buf d = UPDATE_LAST_MSG_SEEN t d"
  by (simp add: process_stats_packet_def)

lemma process_stats_packet_tokens:
  assumes "2 \<le> length buf"
  shows "process_stats_packet t buf d = packet_spec t (strtok_all (CHR '':'') buf) d"
proof (cases "strtok_all (CHR '':'') buf")
  case Nil
  with assms show ?thesis
    by (simp add: process_stats_packet_def packet_loop_first packet_spec_def packet_vars_init_def)
next
  case (Cons name vals)
  then show ?thesis
    using assms
    by (cases vals; cases "run_values vals (packet_vars_init\<lparr>pkey := Some (sanitize_key name)\<rparr>, d)")
      (auto simp: process_stats_packet_def packet_loop_first packet_spec_def packet_vars_init_def
        split: prod.splits)
qed

subsection \<open>What a well-formed value does\<close>

text \<open>A value token that has a pipe and a field: its fields, and the update it stands for.\<close>

definition token_ok :: "cstring \<Rightarrow> bool" where
  "token_ok tok \<longleftrightarrow> CHR ''|'' \<in> set tok \<and> \<not> set tok \<subseteq> {CHR ''|''}"

definition gauge_update :: "cstring \<Rightarrow> cstring \<Rightarrow> daemon \<Rightarrow> daemon res" where
  "gauge_update key cv d =
     (case cv of
        c # r \<Rightarrow>
          if c = CHR ''-'' then update_gauge_plusminus key (strtod (sanitize_value r)) 1 d
          else if c = CHR ''+'' then update_gauge_plusminus key (strtod (sanitize_value r)) 2 d
          else update_gauge_plusminus key (strtod (sanitize_value cv)) 0 d
      | [] \<Rightarrow> update_gauge_plusminus key (strtod []) 0 d)"

definition rate_of :: "cstring option \<Rightarrow> fp" where
  "rate_of rate = (case rate of
     Some r \<Rightarrow> if take 1 r = ''@'' then strtod (drop 1 r) else Fin 1 | None \<Rightarrow> Fin 1)"

definition value_update :: "cstring \<Rightarrow> cstring \<Rightarrow> daemon \<Rightarrow> daemon res" where
  "value_update key tok d =
     (case strtok_all (CHR ''|'') tok of
        [] \<Rightarrow> Inl Uninitialised
      | v # rest \<Rightarrow>
          let vtype = (case rest of [] \<Rightarrow> [] | ty # _ \<Rightarrow> ty);
              rate = (case rest of _ # r # _ \<Rightarrow> Some r | _ \<Rightarrow> None)
          in if take 2 vtype = ''ms'' then update_timer key (strtod (sanitize_value v)) d
             else if vtype = ''g'' then gauge_update key (sanitize_gaugevalue v) d
             else update_counter key (strtod (sanitize_value v)) (rate_of rate) d)"

lemma take_1_single: "length s < 2 \<Longrightarrow> take 1 s = [c] \<longleftrightarrow> s = [c]"
  by (cases s) auto

lemma take_2_ms: "take 2 s = ''ms'' \<Longrightarrow> \<not> length s < 2"
  by (cases s) (auto simp: take_Cons' split: if_splits)

lemma handle_gauge_update:
  "handle_gauge key (Ptr_Live cv) d = rbind (gauge_update key cv d)
     (\<lambda>d'. Inr (Ptr_Freed, strtod (sanitize_value (case cv of c # r \<Rightarrow>
        if c = CHR ''-'' \<or> c = CHR ''+'' then r else cv | [] \<Rightarrow> [])), d'))"
  by (cases cv) (auto simp: handle_gauge_def gauge_update_def deref_def Let_def)

text \<open>The state after a well-formed value is that of the update, whatever
  \<^verbatim>\<open>charvalue\<close> held before.\<close>

lemma process_token_ok:
  assumes tok: "token_ok tok" and key: "pkey pv = Some key"
  shows "\<exists>p v. process_token tok pv d =
    rbind (value_update key tok d) (\<lambda>d'. Inr (pv\<lparr>charvalue := p, pvalue := v\<rparr>, d'))"
proof -
  let ?f0 = "\<lparr>fcharvalue = charvalue pv, is_timer = False, is_gauge = False, s_sample_rate = None\<rparr>"
  have "strtok_all (CHR ''|'') tok \<noteq> []" using tok by (simp add: token_ok_def strtok_all_Nil_iff)
  then obtain v rest where st: "strtok_all (CHR ''|'') tok = v # rest"
    by (cases "strtok_all (CHR ''|'') tok") auto
  let ?vty = "case rest of [] \<Rightarrow> [] | ty # _ \<Rightarrow> ty"
  let ?rate = "case rest of _ # r # _ \<Rightarrow> Some r | _ \<Rightarrow> None"
  have f: "field_loop (Suc 0) tok ?f0 = \<lparr>fcharvalue = Ptr_Live (sanitize_gaugevalue v),
      is_timer = (take 2 ?vty = ''ms''), is_gauge = (?vty = ''g''), s_sample_rate = ?rate\<rparr>"
  proof (cases rest)
    case Nil
    then show ?thesis by (simp add: field_loop_fold st field_case_def)
  next
    case (Cons ty rest')
    then show ?thesis
      using take_1_single [of ty "CHR ''g''"] take_2_ms [of ty]
      by (cases rest')
        (auto simp: field_loop_fold st field_case_def field_fold_rest)
  qed
  show ?thesis
    using tok by (auto simp: process_token_def token_ok_def key f value_update_def st Let_def
        handle_timer_def handle_counter_def deref_def handle_gauge_update rate_of_def
        rbind_assoc sanitize_value_gaugevalue)
qed

lemma run_values_ok:
  assumes "\<forall>tok \<in> set toks. token_ok tok" and "pkey pv = Some key"
  shows "\<exists>pv'. run_values toks (pv, d) = rbind (rfold (value_update key) toks d) (\<lambda>d'. Inr (pv', d'))"
  using assms
proof (induction toks arbitrary: pv d)
  case (Cons tok toks)
  then obtain p v where *: "process_token tok pv d =
      rbind (value_update key tok d) (\<lambda>d'. Inr (pv\<lparr>charvalue := p, pvalue := v\<rparr>, d'))"
    using process_token_ok [of tok pv key d] by auto
  show ?case
  proof (cases "value_update key tok d")
    case (Inr d1)
    with * Cons.IH [of "pv\<lparr>charvalue := p, pvalue := v\<rparr>" d1] Cons.prems show ?thesis by simp
  qed (use * in simp)
qed simp

text \<open>So a packet all of whose values are well formed is the sequence of its updates.\<close>

lemma packet_spec_ok:
  assumes "\<forall>tok \<in> set vals. token_ok tok" and "vals \<noteq> []"
  shows "packet_spec t (name # vals) d =
    rbind (rfold (value_update (sanitize_key name)) vals d) (UPDATE_LAST_MSG_SEEN t)"
proof -
  let ?pv = "packet_vars_init\<lparr>pkey := Some (sanitize_key name)\<rparr>"
  obtain pv' where "run_values vals (?pv, d) =
      rbind (rfold (value_update (sanitize_key name)) vals d) (\<lambda>d'. Inr (pv', d'))"
    using run_values_ok [OF assms(1), of ?pv "sanitize_key name" d] by auto
  then show ?thesis using assms(2)
    by (cases "rfold (value_update (sanitize_key name)) vals d")
      (auto simp: packet_spec_def neq_Nil_conv simp del: rfold.simps run_values_simps)
qed

subsection \<open>Invariant and absence of faults\<close>

lemma fp_ok_Fin1 [simp]: "fp_ok binary64 (Fin 1)"
  by simp

lemma handle_timer_wf:
  "daemon_wf d \<Longrightarrow> is_cstring key \<Longrightarrow> handle_timer key p d = Inr (p', v, d') \<Longrightarrow> daemon_wf d'"
  by (auto simp: handle_timer_def Let_def intro: update_timer_wf [OF _ _ fp_ok_strtod])

lemma update_gauge_strtod_wf:
  "update_gauge_plusminus key (strtod s) pm d = Inr d' \<Longrightarrow> pm < 3 \<Longrightarrow> daemon_wf d \<Longrightarrow> is_cstring key \<Longrightarrow>
   daemon_wf d'"
  by (rule update_gauge_plusminus_wf [OF _ _ fp_ok_strtod])

lemma gauge_update_wf:
  assumes "daemon_wf d" and "is_cstring key" and "gauge_update key cv d = Inr d'"
  shows "daemon_wf d'"
  using assms
  by (cases cv) (auto simp: gauge_update_def split: if_splits
      dest: update_gauge_strtod_wf [of _ _ 0] update_gauge_strtod_wf [of _ _ 1]
        update_gauge_strtod_wf [of _ _ 2])

lemma handle_gauge_wf:
  assumes "daemon_wf d" and "is_cstring key" and "handle_gauge key p d = Inr (p', v, d')"
  shows "daemon_wf d'"
proof (cases p)
  case (Ptr_Live cv)
  with assms(3) have "gauge_update key cv d = Inr d'"
    by (auto simp: handle_gauge_update)
  with assms(1,2) show ?thesis by (rule gauge_update_wf)
qed (use assms(3) in \<open>simp_all add: handle_gauge_def deref_def\<close>)

lemma handle_counter_wf:
  "daemon_wf d \<Longrightarrow> is_cstring key \<Longrightarrow> handle_counter key r p d = Inr (p', v, d') \<Longrightarrow> daemon_wf d'"
  by (auto simp: handle_counter_def Let_def intro: update_counter_wf [OF _ _ fp_ok_strtod])

lemma process_token_wf:
  assumes "daemon_wf d" and "\<And>k. pkey pv = Some k \<Longrightarrow> is_cstring k"
    and "process_token tok pv d = Inr (pv', d')"
  shows "daemon_wf d'"
  using assms by (auto simp: process_token_def Let_def split: option.splits if_splits
      dest: handle_timer_wf handle_gauge_wf handle_counter_wf)

lemma run_values_wf:
  assumes "daemon_wf d" and "\<And>k. pkey pv = Some k \<Longrightarrow> is_cstring k"
    and "run_values toks (pv, d) = Inr (pv', d')"
  shows "daemon_wf d'"
  using assms
proof (induction toks arbitrary: pv d)
  case (Cons tok toks)
  from Cons.prems(3) obtain pv1 d1 where 1: "process_token tok pv d = Inr (pv1, d1)"
    and 2: "run_values toks (pv1, d1) = Inr (pv', d')" by (auto simp: rbind_eq_Inr)
  from process_token_wf [OF Cons.prems(1,2) 1] process_token_key [OF 1] Cons.prems(2) 2
  show ?case by (intro Cons.IH [of d1 pv1]) auto
qed simp

lemma UPDATE_LAST_MSG_SEEN_wf:
  "daemon_wf d \<Longrightarrow> UPDATE_LAST_MSG_SEEN t d = Inr d' \<Longrightarrow> daemon_wf d'"
  by (auto simp: UPDATE_LAST_MSG_SEEN_def elim!: update_stat_wf [rotated 3])

lemma packet_spec_wf:
  assumes "daemon_wf d" and "packet_spec t toks d = Inr d'"
  shows "daemon_wf d'"
proof -
  obtain d1 where d1: "daemon_wf d1" "UPDATE_LAST_MSG_SEEN t d1 = Inr d'"
  proof (cases toks)
    case Nil
    with assms(2) show ?thesis by (simp add: packet_spec_def)
  next
    case (Cons name vals)
    show ?thesis
    proof (cases vals)
      case Nil
      with Cons assms(2) obtain d1
        where *: "update_counter (sanitize_key name) (Fin 1) (Fin 1) d = Inr d1"
          "UPDATE_LAST_MSG_SEEN t d1 = Inr d'" by (auto simp: packet_spec_def)
      from update_counter_wf [OF assms(1) _ _ *(1)] *(2) show ?thesis by (auto intro: that)
    next
      case (Cons v vs)
      let ?pv = "packet_vars_init\<lparr>pkey := Some (sanitize_key name)\<rparr>"
      from Cons \<open>toks = name # vals\<close> assms(2) obtain pv1 d1
        where *: "run_values vals (?pv, d) = Inr (pv1, d1)" "UPDATE_LAST_MSG_SEEN t d1 = Inr d'"
        by (auto simp: packet_spec_def rbind_eq_Inr simp del: run_values_simps)
      from run_values_wf [OF assms(1) _ *(1)] *(2) show ?thesis by (auto intro: that)
    qed
  qed
  then show ?thesis by (rule UPDATE_LAST_MSG_SEEN_wf)
qed

lemma UPDATE_LAST_MSG_SEEN_eq:
  assumes "daemon_wf d" and "is_long t"
  shows "UPDATE_LAST_MSG_SEEN t d = Inr (d\<lparr>stats :=
    hash.upsert sname \<lparr>group_name = ''messages'', key_name = ''last_msg_seen''\<rparr>
      (\<lambda>s. s\<lparr>svalue := t\<rparr>)
      \<lparr>sname = \<lparr>group_name = ''messages'', key_name = ''last_msg_seen''\<rparr>, svalue = t,
       slocked = False\<rparr> (stats d)\<rparr>)"
  using assms length_dec_of_long [OF assms(2)]
  by (simp add: UPDATE_LAST_MSG_SEEN_def update_stat_eq daemon_wf_locks KEY_SIZE_def atol_dec_of_int)

text \<open>Room for \<open>n\<close> more values in every timer.\<close>

definition timer_room :: "nat \<Rightarrow> daemon \<Rightarrow> bool" where
  "timer_room n d \<longleftrightarrow> int n \<le> INT_MAX \<and> (\<forall>t \<in> set (timers d). tcount t + int n \<le> INT_MAX)"

lemma timer_room_mono: "timer_room n d \<Longrightarrow> m \<le> n \<Longrightarrow> timer_room m d"
  by (force simp: timer_room_def)

lemma timer_room_upsert:
  assumes "timer_room (Suc n) d"
  shows "timer_room n (d\<lparr>timers := hash.upsert tkey key
            (\<lambda>t. t\<lparr>tvalues := tvalues t @ [v], tcount := tcount t + 1\<rparr>)
            \<lparr>tkey = key, tcount = 1, tvalues = [v]\<rparr> (timers d)\<rparr>)"
proof (cases "hash_find tkey key (timers d)")
  case None
  with assms show ?thesis by (auto simp: timer_room_def hash.upsert_def)
next
  case (Some i)
  then have "timers d ! i \<in> set (timers d)" by (auto dest: hash_find_Some)
  with Some assms show ?thesis
    using set_hash_put_subset [of i _ "timers d"]
    by (fastforce simp: timer_room_def hash.upsert_def)
qed

lemma value_update_cases:
  assumes "daemon_wf d" and "length key < KEY_SIZE" and "timer_room (Suc n) d" and "token_ok tok"
  shows "\<exists>d'. value_update key tok d = Inr d' \<and> timer_room n d'"
proof -
  from assms(4) obtain v rest where st: "strtok_all (CHR ''|'') tok = v # rest"
    using strtok_all_Nil_iff [of "CHR ''|''" tok] by (cases "strtok_all (CHR ''|'') tok")
      (auto simp: token_ok_def)
  note l = daemon_wf_locks [OF assms(1)]
  have nf: "\<not> timer_full key d"
    using assms(3) by (auto simp: timer_full_def timer_room_def dest!: hash_lookup_SomeD)
  have T: "\<exists>d'. update_timer key w d = Inr d' \<and> timer_room n d'" for w
    using l assms(2,3) nf by (auto simp: update_timer_eq fits_def timer_room_upsert)
  have C: "\<exists>d'. update_counter key w r d = Inr d' \<and> timer_room n d'" for w r
    using l assms(2) timer_room_mono [OF assms(3), of n]
    by (auto simp: update_counter_eq fits_def timer_room_def)
  have G: "\<exists>d'. update_gauge_plusminus key w pm d = Inr d' \<and> timer_room n d'" if "pm < 3" for w pm
    using l assms(2) that timer_room_mono [OF assms(3), of n]
    by (auto simp: update_gauge_plusminus_eq fits_def timer_room_def)
  show ?thesis
    using T C G by (auto simp: value_update_def st Let_def gauge_update_def split: list.splits)
qed

lemma value_update_wf:
  assumes "daemon_wf d" and "is_cstring key" and "value_update key tok d = Inr d'"
  shows "daemon_wf d'"
proof (cases "strtok_all (CHR ''|'') tok")
  case Nil
  with assms(3) show ?thesis by (simp add: value_update_def)
next
  case (Cons v rest)
  with assms(3) consider
      "update_timer key (strtod (sanitize_value v)) d = Inr d'"
    | "gauge_update key (sanitize_gaugevalue v) d = Inr d'"
    | r where "update_counter key (strtod (sanitize_value v)) r d = Inr d'"
    by (auto simp: value_update_def Let_def split: if_splits)
  then show ?thesis
    using assms(1,2)
    by cases (auto intro: gauge_update_wf update_timer_wf [OF _ _ fp_ok_strtod]
      update_counter_wf [OF _ _ fp_ok_strtod])
qed

lemma rfold_value_update_returns:
  assumes "daemon_wf d" and "key_ok key" and "timer_room (length toks) d"
    and "\<forall>tok \<in> set toks. token_ok tok"
  shows "\<exists>d'. rfold (value_update key) toks d = Inr d' \<and> daemon_wf d'"
  using assms
proof (induction toks arbitrary: d)
  case (Cons tok toks)
  then obtain d1 where d1: "value_update key tok d = Inr d1" "timer_room (length toks) d1"
    using value_update_cases [of d key "length toks" tok] by (auto simp: key_ok_def)
  with Cons.prems have "daemon_wf d1" by (auto simp: key_ok_def intro: value_update_wf)
  with Cons d1 show ?case by simp
qed simp


subsection \<open>Packets of the protocol\<close>

text \<open>A name that sanitising keeps and that fits in a key.\<close>

definition name_ok :: "cstring \<Rightarrow> bool" where
  "name_ok key \<longleftrightarrow> key \<noteq> [] \<and> (\<forall>c \<in> set key. key_char c) \<and> length key < KEY_SIZE"

lemma name_okD:
  assumes "name_ok key"
  shows "key \<noteq> []" "CHR '':'' \<notin> set key" "sanitize_key key = key" "key_ok key" "length key < KEY_SIZE"
proof -
  have "\<not> key_char (CHR '':'')" "\<not> key_char (CHR 0x00)" by code_simp+
  with assms show "key \<noteq> []" "CHR '':'' \<notin> set key" "sanitize_key key = key" "key_ok key"
    "length key < KEY_SIZE"
    by (auto simp: name_ok_def key_ok_def is_cstring_def sanitize_key_id)
qed

text \<open>A packet \<open>key:v|type\<close>, with the fields \<open>rest\<close> after it.\<close>

lemma process_one_value:
  assumes "name_ok key" and "tok \<noteq> []" and "CHR '':'' \<notin> set tok" and "token_ok tok"
  shows "process_stats_packet t (key @ CHR '':'' # tok) d =
    rbind (value_update key tok d) (UPDATE_LAST_MSG_SEEN t)"
proof -
  note n = name_okD [OF assms(1)]
  have toks: "strtok_all (CHR '':'') (key @ CHR '':'' # tok) = [key, tok]"
    using n assms by (simp add: strtok_all_append strtok_all_single)
  have "2 \<le> length (key @ CHR '':'' # tok)" using n by (cases key) auto
  with toks show ?thesis
    using packet_spec_ok [of "[tok]" t key d] assms(4) n(3)
    by (cases "value_update key tok d") (simp_all add: process_stats_packet_tokens)
qed

lemma dec_of_int_fields:
  "dec_of_int n \<noteq> []" "CHR '':'' \<notin> set (dec_of_int n)" "CHR ''|'' \<notin> set (dec_of_int n)"
proof -
  have "\<not> value_char (CHR '':'')" "\<not> value_char (CHR ''|'')" by code_simp+
  then show "CHR '':'' \<notin> set (dec_of_int n)" "CHR ''|'' \<notin> set (dec_of_int n)"
    by (blast dest: value_char_dec_of_int)+
  show "dec_of_int n \<noteq> []" by (simp add: dec_of_int_def)
qed

lemma UPDATE_LAST_MSG_SEEN_view:
  assumes "daemon_wf d" and "is_long t"
  shows "\<exists>d'. UPDATE_LAST_MSG_SEEN t d = Inr d' \<and> daemon_wf d' \<and> counter_of d' = counter_of d
    \<and> gauge_of d' = gauge_of d \<and> timer_of d' = timer_of d
    \<and> stat_of d' ''messages'' ''last_msg_seen'' = Some t"
proof -
  from UPDATE_LAST_MSG_SEEN_eq [OF assms] obtain d' where d': "UPDATE_LAST_MSG_SEEN t d = Inr d'" by blast
  with UPDATE_LAST_MSG_SEEN_eq [OF assms] assms(1) UPDATE_LAST_MSG_SEEN_wf [OF assms(1) d'] show ?thesis
    by (auto simp: counter_of_def gauge_of_def timer_of_def stat_of_def
       lookup_upsert [OF daemon_wfD(1) [OF assms(1)]] split: option.splits)
qed

lemma value_update_single:
  assumes "CHR ''|'' \<notin> set v" and "v \<noteq> []" and "CHR ''|'' \<notin> set ty" and "ty \<noteq> []"
  shows "strtok_all (CHR ''|'') (v @ CHR ''|'' # ty) = [v, ty]" "token_ok (v @ CHR ''|'' # ty)"
  using assms by (auto simp: strtok_all_append strtok_all_single token_ok_def neq_Nil_conv)

subsection \<open>Properties of the protocol\<close>

text \<open>
  C1: a packet of two bytes or more all of whose values have a pipe and a field is the sequence
  of the updates its values stand for, on the sanitised name, in order, followed by the update
  of the time of the last message; the pointer variables the loops of
  \<^verbatim>\<open>process_stats_packet\<close> carry from one value to the next have no effect.
\<close>

theorem process_stats_packet_refines:
  assumes "2 \<le> length buf" and "strtok_all (CHR '':'') buf = name # vals" and "vals \<noteq> []"
    and "\<forall>tok \<in> set vals. token_ok tok"
  shows "process_stats_packet t buf d =
    rbind (rfold (value_update (sanitize_key name)) vals d) (UPDATE_LAST_MSG_SEEN t)"
  using assms by (simp add: process_stats_packet_tokens packet_spec_ok)

theorem process_stats_packet_refines_witness:
  "process_stats_packet 5 ''a:1|c:2|g'' daemon_init =
     rbind (rfold (value_update (sanitize_key ''a'')) [''1|c'', ''2|g''] daemon_init)
       (UPDATE_LAST_MSG_SEEN 5)"
proof (rule process_stats_packet_refines)
  show "strtok_all (CHR '':'') ''a:1|c:2|g'' = ''a'' # [''1|c'', ''2|g'']" by code_simp
qed (simp_all add: token_ok_def)

text \<open>
  Whatever bytes a packet holds, when \<^verbatim>\<open>process_stats_packet\<close> returns the
  four tables are still well formed: no key twice, every key a terminated string shorter than
  its array, the count of every timer the number of its values, every value one its C type has,
  and no semaphore lost.
\<close>

theorem process_stats_packet_wf:
  assumes "daemon_wf d" and "process_stats_packet t buf d = Inr d'"
  shows "daemon_wf d'"
  using assms
  by (cases "length buf < 2")
    (auto simp: process_stats_packet_short process_stats_packet_tokens
      dest: UPDATE_LAST_MSG_SEEN_wf packet_spec_wf)

theorem process_stats_packet_wf_witness:
  "\<exists>d'. process_stats_packet 5 ''x'' daemon_init = Inr d' \<and> daemon_wf d'"
proof -
  obtain d' where "process_stats_packet 5 ''x'' daemon_init = Inr d'"
    using UPDATE_LAST_MSG_SEEN_eq [of daemon_init 5]
    by (auto simp: process_stats_packet_short is_long_def LONG_MIN_def LONG_MAX_def)
  with process_stats_packet_wf [OF daemon_wf_init this] show ?thesis by blast
qed

text \<open>
  C13: the text parser cannot fault on a packet whose name is shorter than a key after
  sanitising, whose values each have a pipe and a field, while no timer is within the number of
  values of the largest count.
\<close>

theorem process_stats_packet_returns:
  assumes "daemon_wf d" and "is_long t" and "2 \<le> length buf"
    and "strtok_all (CHR '':'') buf = name # vals"
    and "length (sanitize_key name) < KEY_SIZE"
    and "\<forall>tok \<in> set vals. token_ok tok" and "timer_room (length vals) d"
  shows "\<exists>d'. process_stats_packet t buf d = Inr d' \<and> daemon_wf d'"
proof -
  have key: "key_ok (sanitize_key name)" using assms(5) by (simp add: key_ok_def)
  have "\<exists>d1. (if vals = [] then update_counter (sanitize_key name) (Fin 1) (Fin 1) d
              else rfold (value_update (sanitize_key name)) vals d) = Inr d1 \<and> daemon_wf d1"
  proof (cases vals)
    case Nil
    with key daemon_wf_locks(2) [OF assms(1)] obtain d1
      where "update_counter (sanitize_key name) (Fin 1) (Fin 1) d = Inr d1"
      by (auto simp: update_counter_eq fits_def key_ok_def)
    with Nil update_counter_wf [OF assms(1) _ _ this] show ?thesis by auto
  next
    case (Cons v vs)
    with rfold_value_update_returns [OF assms(1) key assms(7) assms(6)] show ?thesis by auto
  qed
  then obtain d1 where d1: "daemon_wf d1" "(if vals = [] then
      update_counter (sanitize_key name) (Fin 1) (Fin 1) d
      else rfold (value_update (sanitize_key name)) vals d) = Inr d1" by blast
  have "process_stats_packet t buf d = UPDATE_LAST_MSG_SEEN t d1"
    using d1(2) assms packet_spec_ok [OF assms(6), of t name d]
    by (cases "vals = []") (auto simp: process_stats_packet_tokens packet_spec_def)
  with UPDATE_LAST_MSG_SEEN_view [OF d1(1) assms(2)] show ?thesis by auto
qed

theorem process_stats_packet_returns_witness:
  "\<exists>d'. process_stats_packet 5 ''a:1|c'' daemon_init = Inr d' \<and> daemon_wf d'"
proof (rule process_stats_packet_returns [where vals = "[''1|c'']"])
  show "strtok_all (CHR '':'') ''a:1|c'' = [''a'', ''1|c'']" by code_simp
  show "length (sanitize_key ''a'') < KEY_SIZE" by code_simp
  show "timer_room (length [''1|c'']) daemon_init"
    by (simp add: timer_room_def daemon_init_def INT_MAX_def)
qed (simp_all add: token_ok_def is_long_def LONG_MIN_def LONG_MAX_def)

lemma view_frame:
  "counters d' = counters d \<Longrightarrow> counter_of d' = counter_of d"
  "gauges d' = gauges d \<Longrightarrow> gauge_of d' = gauge_of d"
  "timers d' = timers d \<Longrightarrow> timer_of d' = timer_of d"
  by (simp_all add: counter_of_def gauge_of_def timer_of_def fun_eq_iff)

lemma increment_int: "\<bar>n\<bar> \<le> 2 ^ 53 \<Longrightarrow> increment (fp_int n) (Fin 1) = fp_int n"
  using fp_ok_strtod [of "dec_of_int n"]
  by (simp add: increment_def scaled_def fp_eq_def strtod_dec_of_int fp_mul_one)

text \<open>A single value, from the update to the packet.\<close>

lemma packet_value:
  assumes "daemon_wf d" and "is_long t" and "name_ok key" and "CHR '':'' \<notin> set tok" and "token_ok tok"
    and "value_update key tok d = Inr d1"
  shows "\<exists>d'. process_stats_packet t (key @ CHR '':'' # tok) d = Inr d' \<and> daemon_wf d'
    \<and> counter_of d' = counter_of d1 \<and> gauge_of d' = gauge_of d1 \<and> timer_of d' = timer_of d1
    \<and> stat_of d' ''messages'' ''last_msg_seen'' = Some t"
proof -
  have "daemon_wf d1"
    using assms(1,6) name_okD(4) [OF assms(3)] by (auto simp: key_ok_def intro: value_update_wf)
  with UPDATE_LAST_MSG_SEEN_view [OF this assms(2)] assms show ?thesis
    by (cases "tok = []") (auto simp: process_one_value token_ok_def)
qed

lemma value_update_counter:
  assumes "daemon_wf d" and "name_ok key" and "\<bar>n\<bar> \<le> 2 ^ 53"
  shows "\<exists>d'. value_update key (dec_of_int n @ ''|c'') d = Inr d' \<and>
    counter_of d' = (counter_of d)(key \<mapsto> (case counter_of d key of
        None \<Rightarrow> fp_int n | Some c \<Rightarrow> fp_add x87ext c (fp_int n)))
    \<and> gauge_of d' = gauge_of d \<and> timer_of d' = timer_of d"
proof -
  note l = daemon_wf_locks(2) [OF assms(1)]
  have u: "value_update key (dec_of_int n @ ''|c'') d = update_counter key (fp_int n) (Fin 1) d"
    using value_update_single(1) [of "dec_of_int n" "''c''"] dec_of_int_fields [of n] assms(3)
    by (simp add: value_update_def rate_of_def strtod_dec_of_int)
  obtain d' where d': "update_counter key (fp_int n) (Fin 1) d = Inr d'"
    using update_counter_eq [OF l] name_okD(5) [OF assms(2)] by (auto simp: fits_def)
  with update_counter_view [OF assms(1) d'] update_counter_frame [OF d' l] u show ?thesis
    by (intro exI [of _ d']) (simp add: increment_int [OF assms(3)] view_frame [of d' d] cong: option.case_cong)
qed

lemma counter_packet:
  assumes "daemon_wf d" and "is_long t" and "name_ok key" and "\<bar>n\<bar> \<le> 2 ^ 53"
  shows "\<exists>d'. process_stats_packet t (key @ '':'' @ dec_of_int n @ ''|c'') d = Inr d' \<and> daemon_wf d'
    \<and> counter_of d' = (counter_of d)(key \<mapsto> (case counter_of d key of
        None \<Rightarrow> fp_int n | Some c \<Rightarrow> fp_add x87ext c (fp_int n)))
    \<and> gauge_of d' = gauge_of d \<and> timer_of d' = timer_of d
    \<and> stat_of d' ''messages'' ''last_msg_seen'' = Some t"
  using value_update_counter [OF assms(1,3,4)]
    packet_value [OF assms(1,2,3), of "dec_of_int n @ ''|c''"]
    value_update_single(2) [of "dec_of_int n" "''c''"] dec_of_int_fields [of n]
  by auto

lemma views_init:
  "counter_of daemon_init k = None" "gauge_of daemon_init k = None" "timer_of daemon_init k = None"
  by (simp_all add: counter_of_def gauge_of_def timer_of_def daemon_init_def hash_lookup_def)

lemma small_keys: "name_ok ''a''" "name_ok ''b''" "is_long 5"
  by code_simp+

lemma packet_counter_total_lemma:
  assumes "daemon_wf d" and "is_long t" and "name_ok key"
    and "counter_of d key = Some (fp_int m)" and "\<bar>m\<bar> + (\<Sum>n\<leftarrow>ns. \<bar>n\<bar>) \<le> 2 ^ 53"
  shows "\<exists>d'. rfold (\<lambda>n. process_stats_packet t (key @ '':'' @ dec_of_int n @ ''|c'')) ns d = Inr d'
    \<and> counter_of d' key = Some (fp_int (m + sum_list ns))"
  using assms
proof (induction ns arbitrary: d m)
  case (Cons n ns)
  have pos: "0 \<le> (\<Sum>n\<leftarrow>ns. \<bar>n\<bar>)" by (induction ns) auto
  with Cons.prems(5) have b: "\<bar>n\<bar> \<le> 2 ^ 53" "\<bar>m\<bar> \<le> 2 ^ 53" "\<bar>m + n\<bar> \<le> 2 ^ 53" by auto
  obtain d1 where d1: "process_stats_packet t (key @ '':'' @ dec_of_int n @ ''|c'') d = Inr d1"
    "daemon_wf d1" "counter_of d1 key = Some (fp_add x87ext (fp_int m) (fp_int n))"
    using counter_packet [OF Cons.prems(1-3) b(1)] Cons.prems(4) by auto
  have "fp_add x87ext (fp_int m) (fp_int n) = fp_int (m + n)"
    using b by (intro fp_add_int) auto
  with Cons.IH [OF d1(2) Cons.prems(2,3), of "m + n"] d1 Cons.prems(5) show ?case by (auto simp: add.assoc)
qed simp

text \<open>
  C19: a run of counter packets for one name adds up exactly: when the counter holds an integer
  and the absolute values of it and of all the increments sum to at most \<open>2 ^ 53\<close>, it holds
  the sum afterwards, with no rounding along the way.
\<close>

theorem packet_counter_total:
  assumes "daemon_wf d" and "is_long t" and "name_ok key"
    and "counter_of d key = Some (fp_int m)" and "\<bar>m\<bar> + (\<Sum>n\<leftarrow>ns. \<bar>n\<bar>) \<le> 2 ^ 53"
  shows "\<exists>d'. rfold (\<lambda>n. process_stats_packet t (key @ '':'' @ dec_of_int n @ ''|c'')) ns d = Inr d'
    \<and> counter_of d' key = Some (fp_int (m + sum_list ns))"
  using assms by (rule packet_counter_total_lemma)

text \<open>A state to start from: one packet has been processed.\<close>

lemma value_update_init:
  "\<exists>d. value_update ''a'' (dec_of_int 7 @ ''|c'') daemon_init = Inr d \<and> daemon_wf d
     \<and> counter_of d ''a'' = Some (fp_int 7)"
proof -
  obtain d where d: "value_update ''a'' (dec_of_int 7 @ ''|c'') daemon_init = Inr d"
    "counter_of d ''a'' = Some (fp_int 7)"
    using value_update_counter [OF daemon_wf_init small_keys(1), of 7] by (auto simp: views_init)
  with value_update_wf [OF daemon_wf_init _ d(1)] show ?thesis by auto
qed

theorem packet_counter_total_witness:
  "\<exists>d d'. counter_of d ''a'' = Some (fp_int 7)
     \<and> rfold (\<lambda>n. process_stats_packet 5 (''a'' @ '':'' @ dec_of_int n @ ''|c'')) [1, -3, 10] d = Inr d'
     \<and> counter_of d' ''a'' = Some (fp_int (7 + sum_list [1, -3, 10]))"
proof -
  obtain d where d: "daemon_wf d" "counter_of d ''a'' = Some (fp_int 7)"
    using value_update_init by blast
  from packet_counter_total [OF d(1) small_keys(3,1) d(2), of "[1, -3, 10]"] d(2)
  show ?thesis by (auto simp del: rfold.simps)
qed

lemma value_update_timer:
  assumes "daemon_wf d" and "name_ok key" and "\<bar>n\<bar> \<le> 2 ^ 53" and "\<not> timer_full key d"
  shows "\<exists>d'. value_update key (dec_of_int n @ ''|ms'') d = Inr d' \<and>
    timer_of d' = (timer_of d)(key \<mapsto> (case timer_of d key of
        None \<Rightarrow> [fp_int n] | Some vs \<Rightarrow> vs @ [fp_int n]))
    \<and> counter_of d' = counter_of d \<and> gauge_of d' = gauge_of d"
proof -
  note l = daemon_wf_locks(4) [OF assms(1)]
  have u: "value_update key (dec_of_int n @ ''|ms'') d = update_timer key (fp_int n) d"
    using value_update_single(1) [of "dec_of_int n" "''ms''"] dec_of_int_fields [of n] assms(3)
    by (simp add: value_update_def strtod_dec_of_int)
  obtain d' where d': "update_timer key (fp_int n) d = Inr d'"
    using update_timer_eq [OF l] name_okD(5) [OF assms(2)] assms(4) by (auto simp: fits_def)
  with update_timer_view [OF assms(1) d'] update_timer_frame [OF d' l] u show ?thesis
    by (intro exI [of _ d']) (simp add: view_frame [of d' d])
qed

text \<open>
  C20: for a key of 1 to 99 of the characters that sanitising keeps and an integer \<open>n\<close> of at
  most \<open>2 ^ 53\<close> in magnitude, with well-formed tables in which that timer, when it exists, has
  a count below the greatest \<^verbatim>\<open>int\<close>: the packet \<open>key:n|ms\<close> appends \<open>n\<close> to
  the values of the timer \<open>key\<close>, which it creates when there is none, and changes no other
  timer, no counter and no gauge.
\<close>

theorem packet_timer:
  assumes "daemon_wf d" and "is_long t" and "name_ok key" and "\<bar>n\<bar> \<le> 2 ^ 53"
    and "\<not> timer_full key d"
  shows "\<exists>d'. process_stats_packet t (key @ '':'' @ dec_of_int n @ ''|ms'') d = Inr d' \<and> daemon_wf d'
    \<and> timer_of d' = (timer_of d)(key \<mapsto> (case timer_of d key of
        None \<Rightarrow> [fp_int n] | Some vs \<Rightarrow> vs @ [fp_int n]))
    \<and> counter_of d' = counter_of d \<and> gauge_of d' = gauge_of d
    \<and> stat_of d' ''messages'' ''last_msg_seen'' = Some t"
  using value_update_timer [OF assms(1,3,4,5)]
    packet_value [OF assms(1,2,3), of "dec_of_int n @ ''|ms''"]
    value_update_single(2) [of "dec_of_int n" "''ms''"] dec_of_int_fields [of n]
  by auto

theorem packet_timer_witness:
  "\<exists>d'. process_stats_packet 5 (''a'' @ '':'' @ dec_of_int 320 @ ''|ms'') daemon_init = Inr d'
     \<and> timer_of d' ''a'' = Some [fp_int 320]"
proof -
  have "\<not> timer_full ''a'' daemon_init"
    by (simp add: timer_full_def daemon_init_def hash_lookup_def)
  from packet_timer [OF daemon_wf_init small_keys(3,1) _ this, of 320] show ?thesis
    by (auto simp: views_init)
qed

subsection \<open>Gauges\<close>

text \<open>The value of a gauge after a packet \<open>key:sign n|g\<close>: set, lowered or raised.\<close>

datatype gauge_sign = Unsigned | Minus | Plus

fun sign_text :: "gauge_sign \<Rightarrow> string" where
  "sign_text Unsigned = []"
| "sign_text Minus = ''-''"
| "sign_text Plus = ''+''"

fun sign_code :: "gauge_sign \<Rightarrow> int" where
  "sign_code Unsigned = 0"
| "sign_code Minus = 1"
| "sign_code Plus = 2"

fun gauge_result :: "gauge_sign \<Rightarrow> fp option \<Rightarrow> fp \<Rightarrow> fp" where
  "gauge_result Unsigned _ v = v"
| "gauge_result Minus None v = fp_sub binary64 (Fin 0) v"
| "gauge_result Plus None v = fp_add binary64 (Fin 0) v"
| "gauge_result Minus (Some g) v = fp_sub x87ext g v"
| "gauge_result Plus (Some g) v = fp_add x87ext g v"

lemma gauge_update_text:
  assumes "int n \<le> 2 ^ 53"
  shows "gauge_update key (sanitize_gaugevalue (sign_text sg @ dec_of_int (int n))) d =
    update_gauge_plusminus key (fp_int (int n)) (sign_code sg) d"
proof -
  obtain c cs where c: "dec_of_nat n = c # cs" "is_digit c" by (rule dec_of_nat_ConsE)
  then have c': "c \<noteq> CHR ''-''" "c \<noteq> CHR ''+''" by (auto simp: char_class_defs)
  have g: "sanitize_gaugevalue (sign_text sg @ dec_of_int (int n)) = sign_text sg @ dec_of_int (int n)"
    using sanitize_gaugevalue_dec_of_int [of "int n"]
    by (cases sg) (auto simp: sanitize_gaugevalue_filter value_char_def)
  have v: "strtod (dec_of_nat n) = fp_int (int n)"
    using strtod_dec_of_int [of "int n"] assms by (simp add: dec_of_int_def)
  have s: "sanitize_value (dec_of_nat n) = dec_of_nat n"
    using sanitize_value_dec_of_int [of "int n"] by (simp add: dec_of_int_def)
  show ?thesis
    unfolding g using c c' v s by (cases sg) (auto simp: gauge_update_def dec_of_int_def)
qed

lemma value_update_gauge:
  assumes "daemon_wf d" and "name_ok key" and "int n \<le> 2 ^ 53"
  shows "\<exists>d'. value_update key (sign_text sg @ dec_of_int (int n) @ ''|g'') d = Inr d' \<and>
    gauge_of d' = (gauge_of d)(key \<mapsto> gauge_result sg (gauge_of d key) (fp_int (int n)))
    \<and> counter_of d' = counter_of d \<and> timer_of d' = timer_of d"
proof -
  note l = daemon_wf_locks(3) [OF assms(1)]
  let ?pm = "sign_code sg"
  have pm: "?pm < 3" by (cases sg) auto
  have sg: "CHR ''|'' \<notin> set (sign_text sg)" by (cases sg) auto
  have u: "value_update key (sign_text sg @ dec_of_int (int n) @ ''|g'') d =
      update_gauge_plusminus key (fp_int (int n)) ?pm d"
    using value_update_single(1) [of "sign_text sg @ dec_of_int (int n)" "''g''"]
      dec_of_int_fields [of "int n"] sg gauge_update_text [OF assms(3)]
    by (simp add: value_update_def)
  obtain d' where d': "update_gauge_plusminus key (fp_int (int n)) ?pm d = Inr d'"
    using update_gauge_plusminus_eq [OF l pm] name_okD(5) [OF assms(2)] by (auto simp: fits_def)
  have r: "(case gauge_of d key of None \<Rightarrow> gauge_first ?pm v | Some g \<Rightarrow> gauge_step ?pm g v)
      = gauge_result sg (gauge_of d key) v" for v
    by (cases sg; cases "gauge_of d key") (auto simp: gauge_first_def gauge_step_def)
  show ?thesis
    using update_gauge_plusminus_view [OF assms(1) pm d'] update_gauge_plusminus_frame [OF d' l pm] u d' r
    by (simp add: view_frame [of d' d])
qed

text \<open>
  C21: for a key of 1 to 99 of the characters that sanitising keeps and a natural number \<open>n\<close> of
  at most \<open>2 ^ 53\<close>, with well-formed tables: the packet \<open>key:n|g\<close> sets the gauge \<open>key\<close> to \<open>n\<close>, \<open>key:-n|g\<close>
  lowers it by \<open>n\<close> and \<open>key:+n|g\<close> raises it, a gauge that does not exist counting as
  zero; no other gauge, no counter and no timer changes.
\<close>

theorem packet_gauge:
  assumes "daemon_wf d" and "is_long t" and "name_ok key" and "int n \<le> 2 ^ 53"
  shows "\<exists>d'. process_stats_packet t (key @ '':'' @ sign_text sg @ dec_of_int (int n) @ ''|g'') d = Inr d'
    \<and> daemon_wf d'
    \<and> gauge_of d' = (gauge_of d)(key \<mapsto> gauge_result sg (gauge_of d key) (fp_int (int n)))
    \<and> counter_of d' = counter_of d \<and> timer_of d' = timer_of d
    \<and> stat_of d' ''messages'' ''last_msg_seen'' = Some t"
proof -
  let ?tok = "sign_text sg @ dec_of_int (int n) @ ''|g''"
  have "CHR '':'' \<notin> set ?tok" "token_ok ?tok"
    using dec_of_int_fields [of "int n"] by (cases sg; auto simp: token_ok_def neq_Nil_conv)+
  with value_update_gauge [OF assms(1,3,4), of sg] packet_value [OF assms(1,2,3), of ?tok]
  show ?thesis by auto
qed

theorem packet_gauge_witness:
  "\<exists>d'. process_stats_packet 5 (''a'' @ '':'' @ sign_text Unsigned @ dec_of_int (int 9) @ ''|g'')
          daemon_init = Inr d' \<and> gauge_of d' ''a'' = Some (fp_int (int 9))"
  using packet_gauge [OF daemon_wf_init small_keys(3,1), of 9 Unsigned] by (auto simp: views_init)

subsection \<open>Malformed values\<close>

lemma process_two_values:
  assumes "name_ok key" and "CHR '':'' \<notin> set (tok @ tok')" and "tok \<noteq> []" and "tok' \<noteq> []"
  shows "process_stats_packet t (key @ CHR '':'' # tok @ CHR '':'' # tok') d =
    rbind (run_values [tok, tok'] (packet_vars_init\<lparr>pkey := Some key\<rparr>, d))
      (\<lambda>(pv, d'). UPDATE_LAST_MSG_SEEN t d')"
proof -
  note n = name_okD [OF assms(1)]
  have "strtok_all (CHR '':'') (key @ CHR '':'' # tok @ CHR '':'' # tok') = [key, tok, tok']"
    using n assms by (simp add: strtok_all_append strtok_all_single)
  moreover have "2 \<le> length (key @ CHR '':'' # tok @ CHR '':'' # tok')" using n by (cases key) auto
  ultimately show ?thesis using n(3)
    by (simp add: process_stats_packet_tokens packet_spec_def del: run_values_simps)
qed

text \<open>A value without a pipe is read through whatever \<^verbatim>\<open>charvalue\<close> the value
  before it left.\<close>

lemma process_token_no_pipe:
  assumes "CHR ''|'' \<notin> set tok" and "pkey pv = Some key"
  shows "process_token tok pv d = rbind (handle_counter key None (charvalue pv) d)
    (\<lambda>(p, v, d'). Inr (pv\<lparr>charvalue := p, pvalue := v\<rparr>, d'))"
  using assms by (simp add: process_token_def)

lemma handle_counter_faults:
  "handle_counter key r Ptr_Uninit d = Inl Uninitialised"
  "handle_counter key r Ptr_Freed d = Inl Use_After_Free"
  by (simp_all add: handle_counter_def deref_def Let_def)

lemma field_loop_pair:
  assumes "CHR ''|'' \<notin> set (v @ ty)" and "v \<noteq> []" and "ty \<noteq> []"
  shows "field_loop (Suc 0) (v @ CHR ''|'' # ty) f = field_case 2 ty (field_case 1 v f)"
  using assms value_update_single(1) [of v ty] by (simp add: field_loop_fold numeral_2_eq_2)

text \<open>
  C37: malformed packets take \<^verbatim>\<open>process_stats_packet\<close> out of what C defines: a
  packet of colons only reads through the null name; a first value without a pipe reads the
  pointer \<^verbatim>\<open>charvalue\<close> before it is set; one after a gauge reads the copy the gauge
  has freed.
\<close>

theorem packet_malformed:
  assumes "daemon_wf d" and "name_ok key" and "v \<noteq> []" and "CHR '':'' \<notin> set v"
    and "CHR ''|'' \<notin> set v" and "2 \<le> n" and "int m \<le> 2 ^ 53"
  shows "process_stats_packet t (replicate n (CHR '':'')) d = Inl Null_Deref
    \<and> process_stats_packet t (key @ '':'' @ v) d = Inl Uninitialised
    \<and> process_stats_packet t (key @ '':'' @ dec_of_int (int m) @ ''|g:'' @ v) d = Inl Use_After_Free"
proof (intro conjI)
  have "strtok_all (CHR '':'') (replicate n (CHR '':'')) = []" by (auto simp: strtok_all_Nil_iff)
  then show "process_stats_packet t (replicate n (CHR '':'')) d = Inl Null_Deref"
    using assms(6) by (simp add: process_stats_packet_tokens packet_spec_def)
next
  note n = name_okD [OF assms(2)]
  have "strtok_all (CHR '':'') (key @ CHR '':'' # v) = [key, v]"
    using n assms by (simp add: strtok_all_append strtok_all_single)
  moreover have "2 \<le> length (key @ CHR '':'' # v)" using n by (cases key) auto
  ultimately show "process_stats_packet t (key @ '':'' @ v) d = Inl Uninitialised"
    using n assms by (simp add: process_stats_packet_tokens packet_spec_def process_token_no_pipe
        handle_counter_faults packet_vars_init_def)
next
  let ?tok = "dec_of_int (int m) @ ''|g''" and ?pv = "packet_vars_init\<lparr>pkey := Some key\<rparr>"
  note f = dec_of_int_fields [of "int m"]
  have tok: "token_ok ?tok" using value_update_single(2) [of "dec_of_int (int m)" "''g''"] f by simp
  obtain d1 where d1: "value_update key ?tok d = Inr d1"
    using value_update_gauge [OF assms(1,2,7), of Unsigned] by auto
  have "process_token ?tok ?pv d =
      rbind (handle_gauge key (Ptr_Live (sanitize_gaugevalue (dec_of_int (int m)))) d)
        (\<lambda>(p, v, d'). Inr (?pv\<lparr>charvalue := p, pvalue := v\<rparr>, d'))"
    using f by (simp add: process_token_def field_loop_pair field_case_def)
  moreover have "gauge_update key (sanitize_gaugevalue (dec_of_int (int m))) d = Inr d1"
    using d1 value_update_single(1) [of "dec_of_int (int m)" "''g''"] f
    by (simp add: value_update_def)
  ultimately obtain v' where "process_token ?tok ?pv d = Inr (?pv\<lparr>charvalue := Ptr_Freed, pvalue := v'\<rparr>, d1)"
    by (simp add: handle_gauge_update)
  then have "run_values [?tok, v] (?pv, d) = Inl Use_After_Free"
    using assms(5) by (simp add: process_token_no_pipe handle_counter_faults)
  with process_two_values [OF assms(2), of ?tok v t d] assms(3,4) f
  show "process_stats_packet t (key @ '':'' @ dec_of_int (int m) @ ''|g:'' @ v) d = Inl Use_After_Free"
    by simp
qed

theorem packet_malformed_witness:
  "process_stats_packet 5 '':::'' daemon_init = Inl Null_Deref
    \<and> process_stats_packet 5 ''a:1'' daemon_init = Inl Uninitialised
    \<and> process_stats_packet 5 (''a'' @ '':'' @ dec_of_int (int 1) @ ''|g:'' @ ''1'') daemon_init
        = Inl Use_After_Free"
  using packet_malformed [OF daemon_wf_init small_keys(1), of "''1''" 3 1 5]
  by (simp add: numeral_3_eq_3)

text \<open>
  A later value without a pipe, which the protocol has no meaning for, counts the value
  before it a second time: \<^verbatim>\<open>charvalue\<close> still holds that text.
\<close>

theorem packet_stale_value:
  assumes "daemon_wf d" and "name_ok key" and "\<bar>n\<bar> \<le> 2 ^ 53"
    and "v \<noteq> []" and "CHR '':'' \<notin> set v" and "CHR ''|'' \<notin> set v"
  shows "process_stats_packet t (key @ '':'' @ dec_of_int n @ ''|c:'' @ v) d =
    process_stats_packet t (key @ '':'' @ dec_of_int n @ ''|c:'' @ dec_of_int n @ ''|c'') d"
proof -
  let ?tok = "dec_of_int n @ ''|c''" and ?pv = "packet_vars_init\<lparr>pkey := Some key\<rparr>"
  note f = dec_of_int_fields [of n]
  have 1: "process_token ?tok pv e = rbind (update_counter key (strtod (dec_of_int n)) (Fin 1) e)
      (\<lambda>d'. Inr (pv\<lparr>charvalue := Ptr_Live (dec_of_int n), pvalue := strtod (dec_of_int n)\<rparr>, d'))"
    if "pkey pv = Some key" for pv e
    using f that by (simp add: process_token_def field_loop_pair field_case_def handle_counter_def
        deref_def rbind_assoc Let_def)
  have 2: "process_token v pv e = process_token ?tok pv e"
    if "pkey pv = Some key" "charvalue pv = Ptr_Live (dec_of_int n)" for pv e
    using that assms(6) 1 [OF that(1), of e]
    by (simp add: process_token_no_pipe handle_counter_def deref_def rbind_assoc Let_def)
  have "run_values [?tok, v] (?pv, d) = run_values [?tok, ?tok] (?pv, d)"
    using 1 [of ?pv d] by (cases "update_counter key (strtod (dec_of_int n)) (Fin 1) d") (simp_all add: 2)
  then show ?thesis
    using process_two_values [OF assms(2), of ?tok v t d] process_two_values [OF assms(2), of ?tok ?tok t d]
      assms f by simp
qed

theorem packet_stale_value_witness:
  "process_stats_packet 5 (''a'' @ '':'' @ dec_of_int 5 @ ''|c:'' @ ''7'') daemon_init =
   process_stats_packet 5 (''a'' @ '':'' @ dec_of_int 5 @ ''|c:'' @ dec_of_int 5 @ ''|c'') daemon_init"
  using packet_stale_value [OF daemon_wf_init small_keys(1), of 5 "''7''" 5] by simp

text \<open>
  A name that is as long as a key or longer overruns the key of the entry that is created
  for it: nothing checks the length of what a packet brings.
\<close>

theorem packet_long_name:
  assumes "daemon_wf d" and "\<forall>c \<in> set key. key_char c" and "KEY_SIZE \<le> length key"
    and "\<bar>n\<bar> \<le> 2 ^ 53" and "counter_of d key = None"
  shows "process_stats_packet t (key @ '':'' @ dec_of_int n @ ''|c'') d = Inl Buffer_Overflow"
proof -
  have key: "key \<noteq> []" "CHR '':'' \<notin> set key" "sanitize_key key = key"
    using assms(2,3) by (auto simp: KEY_SIZE_def sanitize_key_id key_char_def char_class_defs)
  let ?tok = "dec_of_int n @ ''|c''"
  note f = dec_of_int_fields [of n]
  have tok: "token_ok ?tok" using value_update_single(2) [of "dec_of_int n" "''c''"] f by simp
  have "strtok_all (CHR '':'') (key @ CHR '':'' # ?tok) = [key, ?tok]"
    using key f by (simp add: strtok_all_append strtok_all_single)
  moreover have "2 \<le> length (key @ CHR '':'' # ?tok)" using key by (cases key) auto
  moreover have "value_update key ?tok d = Inl Buffer_Overflow"
    using value_update_single(1) [of "dec_of_int n" "''c''"] f assms(3,5) daemon_wf_locks(2) [OF assms(1)]
    by (simp add: value_update_def rate_of_def update_counter_eq fits_def counter_of_def)
  ultimately show ?thesis
    using packet_spec_ok [of "[?tok]" t key d] tok key by (simp add: process_stats_packet_tokens)
qed

theorem packet_long_name_witness:
  "process_stats_packet 5 (replicate 100 (CHR ''a'') @ '':'' @ dec_of_int 1 @ ''|c'') daemon_init
     = Inl Buffer_Overflow"
  by (rule packet_long_name) (simp_all add: views_init KEY_SIZE_def key_char_def char_class_defs)

end
