(* ===== verification/Queue.thy ===== *)
theory Queue
  imports Prelude
begin

text \<open>
  \<^verbatim>\<open>queue.c\<close>: the ring of packet pointers between the UDP thread, which stores,
  and the queue thread, which pops. The first part has the three functions and shows, through
  the locale \<^verbatim>\<open>fifo_buffer\<close>, that the ring is a first-in first-out buffer of
  \<^verbatim>\<open>MAX_QUEUE_SIZE\<close> packets; a store into a full ring overwrites the oldest packet
  and is then popped first. The second part interleaves the two threads statement by
  statement (the mutex calls are commented out in the source) under sequentially consistent
  memory: as long as no store meets a full ring, the packets popped are a prefix of the
  packets stored.
\<close>

definition MAX_QUEUE_SIZE :: nat where "MAX_QUEUE_SIZE = 1024 * 1024"

lemma MAX_pos [simp]: "0 < MAX_QUEUE_SIZE"
  by (simp add: MAX_QUEUE_SIZE_def)

text \<open>The array of pointers is a function of the index, of which the slots below
  \<^verbatim>\<open>MAX_QUEUE_SIZE\<close> are the array; \<open>None\<close> is the null pointer.\<close>

record packet_queue =
  queue_store_pos :: nat
  queue_retrieve_pos :: nat
  queue :: "nat \<Rightarrow> cstring option"

definition queue_init :: packet_queue where
  "queue_init = \<lparr>queue_store_pos = 0, queue_retrieve_pos = 0, queue = (\<lambda>_. None)\<rparr>"

text \<open>An access of the array, within it or not.\<close>

definition queue_read :: "nat \<Rightarrow> packet_queue \<Rightarrow> cstring option res" where
  "queue_read pos q = (if pos < MAX_QUEUE_SIZE then Inr (queue q pos) else Inl Out_Of_Bounds)"

definition queue_write :: "nat \<Rightarrow> cstring option \<Rightarrow> packet_queue \<Rightarrow> packet_queue res" where
  "queue_write pos p q =
     (if pos < MAX_QUEUE_SIZE then Inr (q\<lparr>queue := (queue q)(pos := p)\<rparr>) else Inl Buffer_Overflow)"

definition queue_store :: "cstring \<Rightarrow> packet_queue \<Rightarrow> packet_queue res" where
  "queue_store ptr q =
     (let q = (if queue_store_pos q = MAX_QUEUE_SIZE then q\<lparr>queue_store_pos := 0\<rparr> else q)
      in rbind (queue_write (queue_store_pos q) (Some ptr) q) (\<lambda>q.
         Inr (q\<lparr>queue_store_pos := queue_store_pos q + 1\<rparr>)))"

definition queue_pop_first :: "packet_queue \<Rightarrow> (cstring option \<times> packet_queue) res" where
  "queue_pop_first q =
     rbind (queue_read (queue_retrieve_pos q) q) (\<lambda>p. case p of
        None \<Rightarrow> Inr (None, q)
      | Some tmpptr \<Rightarrow>
          rbind (queue_write (queue_retrieve_pos q) None q) (\<lambda>q.
          let q = q\<lparr>queue_retrieve_pos := queue_retrieve_pos q + 1\<rparr>
          in Inr (Some tmpptr,
               if queue_retrieve_pos q = MAX_QUEUE_SIZE then q\<lparr>queue_retrieve_pos := 0\<rparr> else q)))"

subsection \<open>The contract of a buffer\<close>

text \<open>What a client does to a buffer, and what a list of the values in it then answers: a store
  yields nothing, a pop the oldest value or \<open>None\<close>.\<close>

datatype 'a buffer_op = Store 'a | Pop

fun fifo_ops :: "'a buffer_op list \<Rightarrow> 'a list \<Rightarrow> 'a option list \<times> 'a list" where
  "fifo_ops [] xs = ([], xs)"
| "fifo_ops (Store x # ops) xs = fifo_ops ops (xs @ [x])"
| "fifo_ops (Pop # ops) xs = (case xs of
       [] \<Rightarrow> (let (out, ys) = fifo_ops ops [] in (None # out, ys))
     | x # xs \<Rightarrow> (let (out, ys) = fifo_ops ops xs in (Some x # out, ys)))"

text \<open>No store meets a buffer of \<open>cap\<close> values.\<close>

fun ops_fit :: "nat \<Rightarrow> 'a buffer_op list \<Rightarrow> 'a list \<Rightarrow> bool" where
  "ops_fit cap [] xs = True"
| "ops_fit cap (Store x # ops) xs = (length xs < cap \<and> ops_fit cap ops (xs @ [x]))"
| "ops_fit cap (Pop # ops) xs = ops_fit cap ops (tl xs)"

locale fifo_buffer =
  fixes cap :: nat
    and init :: "'q"
    and store :: "'a \<Rightarrow> 'q \<Rightarrow> 'q res"
    and pop :: "'q \<Rightarrow> ('a option \<times> 'q) res"
    and rep :: "'q \<Rightarrow> 'a list \<Rightarrow> bool"
  assumes rep_init: "rep init []"
    and rep_store: "rep q xs \<Longrightarrow> length xs < cap \<Longrightarrow> \<exists>q'. store x q = Inr q' \<and> rep q' (xs @ [x])"
    and pop_empty: "rep q [] \<Longrightarrow> pop q = Inr (None, q)"
    and pop_first: "rep q (x # xs) \<Longrightarrow> \<exists>q'. pop q = Inr (Some x, q') \<and> rep q' xs"
begin

fun run_ops :: "'a buffer_op list \<Rightarrow> 'q \<Rightarrow> ('a option list \<times> 'q) res" where
  "run_ops [] q = Inr ([], q)"
| "run_ops (Store x # ops) q = rbind (store x q) (run_ops ops)"
| "run_ops (Pop # ops) q = rbind (pop q) (\<lambda>(x, q). rbind (run_ops ops q) (\<lambda>(out, q). Inr (x # out, q)))"

text \<open>Any sequence of stores and pops answers as a list does.\<close>

lemma run_ops_fifo:
  "rep q xs \<Longrightarrow> ops_fit cap ops xs \<Longrightarrow>
   \<exists>q'. run_ops ops q = Inr (fst (fifo_ops ops xs), q') \<and> rep q' (snd (fifo_ops ops xs))"
proof (induction ops arbitrary: q xs)
  case (Cons op ops)
  show ?case
  proof (cases op)
    case (Store x)
    with Cons.prems obtain q1 where "store x q = Inr q1" "rep q1 (xs @ [x])"
      using rep_store [of q xs x] by auto
    with Cons.IH [of q1 "xs @ [x]"] Cons.prems(2) Store show ?thesis by simp
  next
    case Pop
    show ?thesis
    proof (cases xs)
      case Nil
      with Cons.IH [of q "[]"] Cons.prems Pop pop_empty [of q] show ?thesis by (auto split: prod.split)
    next
      case e: (Cons x ys)
      then obtain q1 where "pop q = Inr (Some x, q1)" "rep q1 ys"
        using pop_first [of q x ys] Cons.prems(1) by auto
      with Cons.IH [of q1 ys] Cons.prems(2) Pop e show ?thesis by (auto split: prod.split)
    qed
  qed
qed simp

lemma rep_stores:
  "rep q xs \<Longrightarrow> length xs + length ys \<le> cap \<Longrightarrow> \<exists>q'. rfold store ys q = Inr q' \<and> rep q' (xs @ ys)"
proof (induction ys arbitrary: q xs)
  case (Cons y ys)
  then obtain q1 where "store y q = Inr q1" "rep q1 (xs @ [y])" using rep_store [of q xs y] by auto
  with Cons.IH [of q1 "xs @ [y]"] Cons.prems show ?case by simp
qed simp

end

subsection \<open>The ring implements it\<close>

definition ring_rep :: "packet_queue \<Rightarrow> cstring list \<Rightarrow> bool" where
  "ring_rep q xs \<longleftrightarrow>
     queue_retrieve_pos q < MAX_QUEUE_SIZE \<and> queue_store_pos q \<le> MAX_QUEUE_SIZE \<and>
     length xs \<le> MAX_QUEUE_SIZE \<and>
     queue_store_pos q mod MAX_QUEUE_SIZE =
       (queue_retrieve_pos q + length xs) mod MAX_QUEUE_SIZE \<and>
     (\<forall>i<MAX_QUEUE_SIZE. queue q ((queue_retrieve_pos q + i) mod MAX_QUEUE_SIZE) =
        (if i < length xs then Some (xs ! i) else None))"

text \<open>Within a window of \<open>m\<close> consecutive numbers, residues are distinct.\<close>

lemma mod_window_inj:
  assumes "a \<le> i" "i < a + m" "a \<le> j" "j < a + m" and "i mod m = j mod (m::nat)"
  shows "i = j"
proof -
  have *: "x = y" if "x \<le> y" "y < x + m" "x mod m = y mod m" for x y
  proof -
    from that(1,3) have "m dvd y - x" using mod_eq_dvd_iff_nat [of x y m] by simp
    with that have "y - x = 0" by (metis add.commute dvd_imp_le less_diff_conv2 not_le not_gr_zero)
    with that show ?thesis by simp
  qed
  show ?thesis using *[of i j] *[of j i] assms by (cases "i \<le> j") auto
qed

lemma mod_offset_inj:
  "i < (m::nat) \<Longrightarrow> j < m \<Longrightarrow> (r + i) mod m = (r + j) mod m \<Longrightarrow> i = j"
  using mod_window_inj [of r "r + i" m "r + j"] by simp

lemma wrap_mod: "n \<le> (m::nat) \<Longrightarrow> (if n = m then 0 else n) = n mod m"
  by simp

lemma ring_rep_init: "ring_rep queue_init []"
  by (simp add: ring_rep_def queue_init_def)

lemma ring_rep_store:
  assumes rep: "ring_rep q xs" and len: "length xs < MAX_QUEUE_SIZE"
  shows "\<exists>q'. queue_store x q = Inr q' \<and> ring_rep q' (xs @ [x])"
proof -
  let ?M = MAX_QUEUE_SIZE and ?r = "queue_retrieve_pos q" and ?p = "(queue_retrieve_pos q + length xs) mod MAX_QUEUE_SIZE"
  have pos: "(if queue_store_pos q = ?M then 0 else queue_store_pos q) = ?p"
    using rep wrap_mod [of "queue_store_pos q" ?M] by (simp add: ring_rep_def)
  define q' where "q' = q\<lparr>queue := (queue q)(?p := Some x), queue_store_pos := ?p + 1\<rparr>"
  have "(if queue_store_pos q = ?M then q\<lparr>queue_store_pos := 0\<rparr> else q) = q\<lparr>queue_store_pos := ?p\<rparr>"
    using pos by (auto split: if_splits)
  then have "queue_store x q = Inr q'"
    by (simp add: queue_store_def queue_write_def q'_def)
  moreover have "queue q' ((?r + i) mod ?M) = (if i < length (xs @ [x]) then Some ((xs @ [x]) ! i) else None)" if "i < ?M" for i
    using that len rep mod_offset_inj [OF that len, of ?r]
    by (auto simp: q'_def ring_rep_def nth_append less_Suc_eq)
  with rep len have "ring_rep q' (xs @ [x])"
    by (simp add: ring_rep_def q'_def Suc_leI mod_Suc_eq)
  ultimately show ?thesis by blast
qed

lemma ring_rep_pop_empty: "ring_rep q [] \<Longrightarrow> queue_pop_first q = Inr (None, q)"
  using MAX_pos by (auto simp: ring_rep_def queue_pop_first_def queue_read_def dest: spec [of _ 0])

lemma ring_rep_pop:
  assumes rep: "ring_rep q (x # xs)"
  shows "\<exists>q'. queue_pop_first q = Inr (Some x, q') \<and> ring_rep q' xs"
proof -
  let ?M = MAX_QUEUE_SIZE and ?r = "queue_retrieve_pos q"
  have r: "?r < ?M" and len: "Suc (length xs) \<le> ?M" using rep by (simp_all add: ring_rep_def)
  have slot: "queue q ((?r + i) mod ?M) =
      (if i < Suc (length xs) then Some ((x # xs) ! i) else None)" if "i < ?M" for i
    using rep that by (simp add: ring_rep_def)
  from slot [of 0] r have 0: "queue q ?r = Some x" by simp
  define q' where "q' = q\<lparr>queue := (queue q)(?r := None), queue_retrieve_pos := (?r + 1) mod ?M\<rparr>"
  have pop: "queue_pop_first q = Inr (Some x, q')"
    using 0 r wrap_mod [of "?r + 1" ?M]
    by (auto simp: q'_def queue_pop_first_def queue_read_def queue_write_def Let_def)
  have "queue q' ((queue_retrieve_pos q' + i) mod ?M) =
      (if i < length xs then Some (xs ! i) else None)" if i: "i < ?M" for i
  proof (cases "Suc i = ?M")
    case True
    then have "(queue_retrieve_pos q' + i) mod ?M = ?r"
      using r by (simp add: q'_def mod_add_left_eq) (metis True add_Suc_right mod_add_self2 mod_less)
    with True len show ?thesis by (simp add: q'_def)
  next
    case False
    with i have i': "Suc i < ?M" by simp
    have eq: "(queue_retrieve_pos q' + i) mod ?M = (?r + Suc i) mod ?M"
      by (simp add: q'_def mod_add_left_eq)
    have "(?r + Suc i) mod ?M \<noteq> ?r"
      using mod_offset_inj [OF i' MAX_pos, of ?r] r by auto
    with eq slot [OF i'] show ?thesis by (simp add: q'_def)
  qed
  moreover have "queue_store_pos q' mod ?M = (queue_retrieve_pos q' + length xs) mod ?M"
    using rep by (simp add: q'_def ring_rep_def mod_add_left_eq)
  ultimately have "ring_rep q' xs" using rep by (simp add: ring_rep_def q'_def)
  with pop show ?thesis by blast
qed

interpretation ring: fifo_buffer MAX_QUEUE_SIZE queue_init queue_store queue_pop_first ring_rep
  by unfold_locales
    (simp_all add: ring_rep_init ring_rep_store ring_rep_pop_empty ring_rep_pop)

text \<open>A full ring: the next store replaces the oldest packet and is popped before the
  packets that were waiting.\<close>

lemma ring_overrun:
  assumes rep: "ring_rep q (y # ys)" and full: "length (y # ys) = MAX_QUEUE_SIZE"
  shows "\<exists>q' q''. queue_store x q = Inr q' \<and> queue_pop_first q' = Inr (Some x, q'')"
proof -
  let ?r = "queue_retrieve_pos q"
  have r: "?r < MAX_QUEUE_SIZE" using rep by (simp add: ring_rep_def)
  have pos: "(if queue_store_pos q = MAX_QUEUE_SIZE then 0 else queue_store_pos q) = ?r"
  proof -
    have "?r + length (y # ys) = ?r + MAX_QUEUE_SIZE" using full by simp
    then show ?thesis
      using rep wrap_mod [of "queue_store_pos q" MAX_QUEUE_SIZE] unfolding ring_rep_def
      by (metis mod_add_self2 mod_less)
  qed
  then have "(if queue_store_pos q = MAX_QUEUE_SIZE then q\<lparr>queue_store_pos := 0\<rparr> else q) = q\<lparr>queue_store_pos := ?r\<rparr>"
    by (auto split: if_splits)
  with r show ?thesis by (simp add: queue_store_def queue_pop_first_def queue_read_def queue_write_def Let_def)
qed

subsection \<open>Properties\<close>

text \<open>
  C16: the ring from its start on, through any sequence of stores and pops, however often the two
  positions wrap, as long as no store meets \<^verbatim>\<open>MAX_QUEUE_SIZE\<close> packets that wait: no
  access is outside the array, and every pop returns the oldest packet that was stored and not yet popped,
  or the null pointer when there is none.
\<close>

theorem queue_first_in_first_out:
  assumes "ops_fit MAX_QUEUE_SIZE ops []"
  shows "\<exists>q. ring.run_ops ops queue_init = Inr (fst (fifo_ops ops []), q) \<and> ring_rep q (snd (fifo_ops ops []))"
  by (rule ring.run_ops_fifo [OF ring_rep_init assms])

theorem queue_first_in_first_out_witness:
  "\<exists>q. ring.run_ops [Store ''a:1|c'', Pop, Pop, Store ''b:2|c'', Store ''d'', Pop] queue_init =
      Inr ([Some ''a:1|c'', None, Some ''b:2|c''], q) \<and> ring_rep q [''d'']"
  using queue_first_in_first_out [of "[Store ''a:1|c'', Pop, Pop, Store ''b:2|c'', Store ''d'', Pop]"]
  by (simp add: MAX_QUEUE_SIZE_def)

text \<open>
  A store into a ring that is full, which nothing prevents or reports to the caller, replaces
  the oldest packet, and the new packet is then popped before all those that were waiting.
\<close>

theorem queue_full_loses_oldest:
  assumes "ring_rep q packets" and "length packets = MAX_QUEUE_SIZE"
  shows "\<exists>q' q''. queue_store p q = Inr q' \<and> queue_pop_first q' = Inr (Some p, q'')"
proof -
  obtain y ys where "packets = y # ys" using assms(2) MAX_pos by (cases packets) auto
  with assms ring_overrun [of q y ys p] show ?thesis by simp
qed

theorem queue_full_loses_oldest_witness:
  "\<exists>q q' q''. rfold queue_store (replicate MAX_QUEUE_SIZE ''old'') queue_init = Inr q
    \<and> queue_store ''new'' q = Inr q' \<and> queue_pop_first q' = Inr (Some ''new'', q'')"
proof -
  obtain q where q: "rfold queue_store (replicate MAX_QUEUE_SIZE ''old'') queue_init = Inr q"
    "ring_rep q (replicate MAX_QUEUE_SIZE ''old'')"
    using ring.rep_stores [OF ring_rep_init, of "replicate MAX_QUEUE_SIZE ''old''"] by auto
  with queue_full_loses_oldest [OF q(2), of "''new''"] show ?thesis by auto
qed

end
