(* ===== verification/QueueThreads.thy ===== *)
theory QueueThreads
  imports Queue
begin

text \<open>
  The UDP thread's \<^verbatim>\<open>queue_store\<close> and the queue thread's
  \<^verbatim>\<open>queue_pop_first\<close> running at the same time, one statement of one thread per
  step (\<^verbatim>\<open>queue.c\<close> has its mutex calls commented out; \<^verbatim>\<open>statsd.c\<close>
  calls the two functions from different threads). Memory is sequentially consistent. The
  fields \<^verbatim>\<open>sent\<close>, \<^verbatim>\<open>got\<close> and \<^verbatim>\<open>overrun\<close> record
  the history for the theorems: the packets written to the ring, those returned by the pops,
  and whether a store met an occupied slot.
\<close>

datatype udp_pc =
    U_Idle                 \<comment> \<open>outside \<^verbatim>\<open>queue_store\<close>\<close>
  | U_Wrap cstring         \<comment> \<open>before the test of \<^verbatim>\<open>queue_store_pos\<close>\<close>
  | U_Write cstring        \<comment> \<open>before \<^verbatim>\<open>queue[queue_store_pos] = ptr\<close>\<close>
  | U_Inc                  \<comment> \<open>before \<^verbatim>\<open>queue_store_pos ++\<close>\<close>

datatype pop_pc =
    P_Idle                 \<comment> \<open>before the test for the null pointer\<close>
  | P_Take                 \<comment> \<open>before \<^verbatim>\<open>tmpptr = queue[queue_retrieve_pos]\<close>\<close>
  | P_Clear "cstring option"  \<comment> \<open>before the slot is set to null\<close>
  | P_Inc "cstring option"    \<comment> \<open>before \<^verbatim>\<open>queue_retrieve_pos ++\<close>\<close>
  | P_Wrap "cstring option"   \<comment> \<open>before the position wraps and the packet is returned\<close>

record ring_state =
  rq :: packet_queue
  upc :: udp_pc
  ppc :: pop_pc
  sent :: "cstring list"
  got :: "cstring list"
  overrun :: bool

definition ring_start :: ring_state where
  "ring_start = \<lparr>rq = queue_init, upc = U_Idle, ppc = P_Idle, sent = [], got = [], overrun = False\<rparr>"

text \<open>One statement of the UDP thread.\<close>

inductive udp_step :: "ring_state \<Rightarrow> ring_state \<Rightarrow> bool" where
  u_call: "upc s = U_Idle \<Longrightarrow> udp_step s (s\<lparr>upc := U_Wrap p\<rparr>)"
| u_wrap: "upc s = U_Wrap p \<Longrightarrow>
    udp_step s (s\<lparr>upc := U_Write p,
      rq := (rq s)\<lparr>queue_store_pos :=
        (if queue_store_pos (rq s) = MAX_QUEUE_SIZE then 0 else queue_store_pos (rq s))\<rparr>\<rparr>)"
| u_write: "upc s = U_Write p \<Longrightarrow>
    udp_step s (s\<lparr>upc := U_Inc,
      rq := (rq s)\<lparr>queue := (queue (rq s))(queue_store_pos (rq s) := Some p)\<rparr>,
      sent := sent s @ [p],
      overrun := (overrun s \<or> queue (rq s) (queue_store_pos (rq s)) \<noteq> None)\<rparr>)"
| u_inc: "upc s = U_Inc \<Longrightarrow>
    udp_step s (s\<lparr>upc := U_Idle, rq := (rq s)\<lparr>queue_store_pos := queue_store_pos (rq s) + 1\<rparr>\<rparr>)"

text \<open>One statement of the queue thread.\<close>

inductive pop_step :: "ring_state \<Rightarrow> ring_state \<Rightarrow> bool" where
  p_empty: "ppc s = P_Idle \<Longrightarrow> queue (rq s) (queue_retrieve_pos (rq s)) = None \<Longrightarrow> pop_step s s"
| p_found: "ppc s = P_Idle \<Longrightarrow> queue (rq s) (queue_retrieve_pos (rq s)) \<noteq> None \<Longrightarrow>
    pop_step s (s\<lparr>ppc := P_Take\<rparr>)"
| p_take: "ppc s = P_Take \<Longrightarrow>
    pop_step s (s\<lparr>ppc := P_Clear (queue (rq s) (queue_retrieve_pos (rq s)))\<rparr>)"
| p_clear: "ppc s = P_Clear t \<Longrightarrow>
    pop_step s (s\<lparr>ppc := P_Inc t,
      rq := (rq s)\<lparr>queue := (queue (rq s))(queue_retrieve_pos (rq s) := None)\<rparr>\<rparr>)"
| p_inc: "ppc s = P_Inc t \<Longrightarrow>
    pop_step s (s\<lparr>ppc := P_Wrap t,
      rq := (rq s)\<lparr>queue_retrieve_pos := queue_retrieve_pos (rq s) + 1\<rparr>\<rparr>)"
| p_wrap: "ppc s = P_Wrap t \<Longrightarrow>
    pop_step s (s\<lparr>ppc := P_Idle,
      rq := (rq s)\<lparr>queue_retrieve_pos :=
        (if queue_retrieve_pos (rq s) = MAX_QUEUE_SIZE then 0 else queue_retrieve_pos (rq s))\<rparr>,
      got := (case t of Some p \<Rightarrow> got s @ [p] | None \<Rightarrow> got s)\<rparr>)"

inductive ring_reach :: "ring_state \<Rightarrow> bool" where
  start: "ring_reach ring_start"
| udp: "ring_reach s \<Longrightarrow> udp_step s t \<Longrightarrow> ring_reach t"
| pop: "ring_reach s \<Longrightarrow> pop_step s t \<Longrightarrow> ring_reach t"

text \<open>
  How many packets have left the ring; where the two positions stand at each point of the two
  functions; what each slot holds: the packets numbered \<open>taken .. length sent\<close>, each in
  the slot of its number modulo the size, and null in the rest of the window.
\<close>

definition taken :: "ring_state \<Rightarrow> nat" where
  "taken s = length (got s) + (case ppc s of P_Inc _ \<Rightarrow> 1 | P_Wrap _ \<Rightarrow> 1 | _ \<Rightarrow> 0)"

definition store_pos_ok :: "ring_state \<Rightarrow> bool" where
  "store_pos_ok s \<longleftrightarrow>
     (let n = length (sent s); p = queue_store_pos (rq s)
      in case upc s of
           U_Idle \<Rightarrow> p \<le> MAX_QUEUE_SIZE \<and> p mod MAX_QUEUE_SIZE = n mod MAX_QUEUE_SIZE
         | U_Wrap _ \<Rightarrow> p \<le> MAX_QUEUE_SIZE \<and> p mod MAX_QUEUE_SIZE = n mod MAX_QUEUE_SIZE
         | U_Write _ \<Rightarrow> p = n mod MAX_QUEUE_SIZE
         | U_Inc \<Rightarrow> p < MAX_QUEUE_SIZE \<and> (p + 1) mod MAX_QUEUE_SIZE = n mod MAX_QUEUE_SIZE)"

definition pop_pos_ok :: "ring_state \<Rightarrow> bool" where
  "pop_pos_ok s \<longleftrightarrow>
     (let n = taken s; p = queue_retrieve_pos (rq s); at = (\<lambda>i. i < length (sent s))
      in case ppc s of
           P_Idle \<Rightarrow> p = n mod MAX_QUEUE_SIZE
         | P_Take \<Rightarrow> p = n mod MAX_QUEUE_SIZE \<and> at n
         | P_Clear t \<Rightarrow> p = n mod MAX_QUEUE_SIZE \<and> at n \<and> t = Some (sent s ! n)
         | P_Inc t \<Rightarrow> p < MAX_QUEUE_SIZE \<and> (p + 1) mod MAX_QUEUE_SIZE = n mod MAX_QUEUE_SIZE
                      \<and> t = Some (sent s ! (n - 1))
         | P_Wrap t \<Rightarrow> p \<le> MAX_QUEUE_SIZE \<and> p mod MAX_QUEUE_SIZE = n mod MAX_QUEUE_SIZE
                      \<and> t = Some (sent s ! (n - 1)))"

definition slots_ok :: "ring_state \<Rightarrow> bool" where
  "slots_ok s \<longleftrightarrow>
     taken s \<le> length (sent s) \<and> length (sent s) \<le> taken s + MAX_QUEUE_SIZE \<and>
     (\<forall>i. taken s \<le> i \<and> i < taken s + MAX_QUEUE_SIZE \<longrightarrow>
        queue (rq s) (i mod MAX_QUEUE_SIZE) =
          (if i < length (sent s) then Some (sent s ! i) else None))"

definition ring_inv :: "ring_state \<Rightarrow> bool" where
  "ring_inv s \<longleftrightarrow> store_pos_ok s \<and> pop_pos_ok s \<and> slots_ok s
                 \<and> take (length (got s)) (sent s) = got s"

lemmas ring_inv_defs = ring_inv_def store_pos_ok_def pop_pos_ok_def slots_ok_def taken_def Let_def

lemma ring_inv_start: "ring_inv ring_start"
  by (simp add: ring_inv_defs ring_start_def queue_init_def)

lemma slot_taken:
  "slots_ok s \<Longrightarrow> taken s < length (sent s) \<Longrightarrow>
   queue (rq s) (taken s mod MAX_QUEUE_SIZE) = Some (sent s ! taken s)"
  by (simp add: slots_ok_def)

lemma slot_empty_iff:
  "slots_ok s \<Longrightarrow> queue (rq s) (taken s mod MAX_QUEUE_SIZE) = None \<longleftrightarrow> taken s = length (sent s)"
  by (auto simp: slots_ok_def)

lemma udp_step_overrun: "udp_step s t \<Longrightarrow> overrun s \<Longrightarrow> overrun t"
  by (induction rule: udp_step.induct) auto

lemma pop_step_overrun: "pop_step s t \<Longrightarrow> overrun t = overrun s"
  by (induction rule: pop_step.induct) auto

text \<open>A write into a free slot appends one packet to the window.\<close>

lemma slots_ok_write:
  assumes s: "slots_ok s" and free: "queue (rq s) (length (sent s) mod MAX_QUEUE_SIZE) = None"
    and t: "queue (rq t) = (queue (rq s))(length (sent s) mod MAX_QUEUE_SIZE := Some p)"
    "sent t = sent s @ [p]" "taken t = taken s"
  shows "slots_ok t"
proof -
  let ?M = MAX_QUEUE_SIZE and ?n = "length (sent s)"
  have le: "taken s \<le> ?n" "?n \<le> taken s + ?M" using s by (simp_all add: slots_ok_def)
  have lt: "?n < taken s + ?M"
  proof (rule ccontr)
    assume "\<not> ?n < taken s + ?M"
    with le have n: "?n = taken s + ?M" by simp
    then have "queue (rq s) (taken s mod ?M) = None" using free by simp
    with slot_empty_iff [OF s] n MAX_pos show False by linarith
  qed
  have "queue (rq t) (i mod ?M) = (if i < Suc ?n then Some ((sent s @ [p]) ! i) else None)"
    if "taken s \<le> i" "i < taken s + ?M" for i
  proof (cases "i = ?n")
    case False
    then have "i mod ?M \<noteq> ?n mod ?M" using mod_window_inj [of "taken s" i ?M ?n] that le lt by blast
    with False that s show ?thesis by (auto simp: t slots_ok_def nth_append)
  qed (simp add: t)
  then show ?thesis using le lt by (simp add: slots_ok_def t)
qed

text \<open>Clearing the oldest slot moves the window by one.\<close>

lemma slots_ok_clear:
  assumes s: "slots_ok s" and lt: "taken s < length (sent s)"
    and t: "queue (rq t) = (queue (rq s))(taken s mod MAX_QUEUE_SIZE := None)"
    "sent t = sent s" "taken t = Suc (taken s)"
  shows "slots_ok t"
proof -
  let ?M = MAX_QUEUE_SIZE
  have "queue (rq t) (i mod ?M) = (if i < length (sent s) then Some (sent s ! i) else None)"
    if i: "Suc (taken s) \<le> i" "i < Suc (taken s) + ?M" for i
  proof (cases "i = taken s + ?M")
    case True
    with s show ?thesis by (simp add: t slots_ok_def)
  next
    case False
    then have "i mod ?M \<noteq> taken s mod ?M"
      using mod_window_inj [of "taken s" i ?M "taken s"] i by auto
    with False i s show ?thesis by (auto simp: t slots_ok_def)
  qed
  with s lt show ?thesis by (simp add: slots_ok_def t)
qed

lemma slots_ok_cong:
  "slots_ok s \<Longrightarrow> queue (rq t) = queue (rq s) \<Longrightarrow> sent t = sent s \<Longrightarrow> taken t = taken s \<Longrightarrow> slots_ok t"
  by (simp add: slots_ok_def)

lemma pop_pos_ok_cong:
  "pop_pos_ok s \<Longrightarrow> ppc t = ppc s \<Longrightarrow> got t = got s \<Longrightarrow> sent t = sent s \<Longrightarrow>
   queue_retrieve_pos (rq t) = queue_retrieve_pos (rq s) \<Longrightarrow> pop_pos_ok t"
  by (cases "ppc s") (simp_all add: pop_pos_ok_def taken_def Let_def)

lemma pop_pos_ok_append:
  "pop_pos_ok s \<Longrightarrow> ppc t = ppc s \<Longrightarrow> got t = got s \<Longrightarrow> sent t = sent s @ [p] \<Longrightarrow>
   queue_retrieve_pos (rq t) = queue_retrieve_pos (rq s) \<Longrightarrow> taken s \<le> length (sent s) \<Longrightarrow>
   pop_pos_ok t"
  by (cases "ppc s") (simp_all add: pop_pos_ok_def taken_def Let_def nth_append)

lemma store_pos_ok_cong:
  "store_pos_ok s \<Longrightarrow> upc t = upc s \<Longrightarrow> sent t = sent s \<Longrightarrow>
   queue_store_pos (rq t) = queue_store_pos (rq s) \<Longrightarrow> store_pos_ok t"
  by (cases "upc s") (simp_all add: store_pos_ok_def Let_def)

subsection \<open>The invariant\<close>

lemma Suc_mod_cong: "a mod m = b mod (m::nat) \<Longrightarrow> Suc a mod m = Suc b mod m"
  by (metis mod_Suc_eq)

lemma udp_step_inv:
  assumes "udp_step s t" and inv: "ring_inv s" and ok: "\<not> overrun t"
  shows "ring_inv t"
  using assms(1)
proof cases
  case (u_call p)
  have "pop_pos_ok t" by (rule pop_pos_ok_cong [of s]) (use inv u_call in \<open>simp_all add: ring_inv_def\<close>)
  moreover have "slots_ok t" by (rule slots_ok_cong [of s])
      (use inv u_call in \<open>simp_all add: ring_inv_def taken_def\<close>)
  ultimately show ?thesis using inv u_call by (simp add: ring_inv_def store_pos_ok_def Let_def)
next
  case (u_wrap p)
  have le: "queue_store_pos (rq s) \<le> MAX_QUEUE_SIZE"
    using inv u_wrap by (simp add: ring_inv_def store_pos_ok_def Let_def)
  have "pop_pos_ok t" by (rule pop_pos_ok_cong [of s]) (use inv u_wrap in \<open>simp_all add: ring_inv_def\<close>)
  moreover have "slots_ok t" by (rule slots_ok_cong [of s])
      (use inv u_wrap in \<open>simp_all add: ring_inv_def taken_def\<close>)
  ultimately show ?thesis using inv u_wrap wrap_mod [OF le]
    by (simp add: ring_inv_def store_pos_ok_def Let_def)
next
  case (u_write p)
  let ?n = "length (sent s)"
  have pos: "queue_store_pos (rq s) = ?n mod MAX_QUEUE_SIZE"
    and le: "taken s \<le> ?n" and sl: "slots_ok s"
    using inv u_write by (simp_all add: ring_inv_defs)
  have free: "queue (rq s) (?n mod MAX_QUEUE_SIZE) = None" using ok u_write pos by simp
  have "slots_ok t"
    by (rule slots_ok_write [OF sl free]) (use u_write pos in \<open>simp_all add: taken_def\<close>)
  moreover have "store_pos_ok t" using u_write pos
    by (simp add: store_pos_ok_def Let_def mod_Suc_eq)
  moreover have "pop_pos_ok t"
    by (rule pop_pos_ok_append [of s _ p]) (use inv u_write le in \<open>simp_all add: ring_inv_def\<close>)
  moreover have "take (length (got t)) (sent t) = got t"
    using inv u_write le by (simp add: ring_inv_def taken_def)
  ultimately show ?thesis by (simp add: ring_inv_def)
next
  case u_inc
  have "pop_pos_ok t" by (rule pop_pos_ok_cong [of s]) (use inv u_inc in \<open>simp_all add: ring_inv_def\<close>)
  moreover have "slots_ok t" by (rule slots_ok_cong [of s])
      (use inv u_inc in \<open>simp_all add: ring_inv_def taken_def\<close>)
  ultimately show ?thesis using inv u_inc by (simp add: ring_inv_def store_pos_ok_def Let_def)
qed

lemma pop_step_inv:
  assumes "pop_step s t" and inv: "ring_inv s"
  shows "ring_inv t"
  using assms(1)
proof cases
  case p_empty
  with inv show ?thesis by simp
next
  case p_found
  have sl: "slots_ok s" and pos: "queue_retrieve_pos (rq s) = taken s mod MAX_QUEUE_SIZE"
    using inv p_found by (simp_all add: ring_inv_def pop_pos_ok_def Let_def)
  with p_found have "taken s < length (sent s)"
    using slot_empty_iff [OF sl] by (simp add: slots_ok_def)
  with inv p_found pos show ?thesis by (simp add: ring_inv_defs)
next
  case p_take
  have sl: "slots_ok s" and pos: "queue_retrieve_pos (rq s) = taken s mod MAX_QUEUE_SIZE"
    and lt: "taken s < length (sent s)"
    using inv p_take by (simp_all add: ring_inv_def pop_pos_ok_def Let_def)
  from slot_taken [OF sl lt] inv p_take pos lt show ?thesis by (simp add: ring_inv_defs)
next
  case (p_clear x)
  have sl: "slots_ok s" and pos: "queue_retrieve_pos (rq s) = taken s mod MAX_QUEUE_SIZE"
    and lt: "taken s < length (sent s)" and x: "x = Some (sent s ! taken s)"
    using inv p_clear by (simp_all add: ring_inv_def pop_pos_ok_def Let_def)
  have "slots_ok t"
    by (rule slots_ok_clear [OF sl lt]) (use p_clear pos in \<open>simp_all add: taken_def\<close>)
  moreover have "store_pos_ok t" by (rule store_pos_ok_cong [of s])
      (use inv p_clear in \<open>simp_all add: ring_inv_def\<close>)
  moreover have "taken s = length (got s)" using p_clear by (simp add: taken_def)
  with pos x have "queue_retrieve_pos (rq s) = length (got s) mod MAX_QUEUE_SIZE"
    and "x = Some (sent s ! length (got s))" by simp_all
  then have "pop_pos_ok t" using p_clear(1)
    by (simp add: pop_pos_ok_def Let_def taken_def mod_Suc_eq)
  moreover have "take (length (got t)) (sent t) = got t"
    using inv p_clear(1) by (simp add: ring_inv_def)
  ultimately show ?thesis by (simp add: ring_inv_def)
next
  case (p_inc x)
  have "slots_ok t" by (rule slots_ok_cong [of s]) (use inv p_inc in \<open>simp_all add: ring_inv_def taken_def\<close>)
  moreover have "store_pos_ok t" by (rule store_pos_ok_cong [of s])
      (use inv p_inc in \<open>simp_all add: ring_inv_def\<close>)
  moreover have "pop_pos_ok t" using inv p_inc
    by (simp add: ring_inv_def pop_pos_ok_def Let_def taken_def)
  ultimately show ?thesis using inv p_inc by (simp add: ring_inv_def)
next
  case (p_wrap x)
  let ?n = "length (got s)"
  have x: "x = Some (sent s ! ?n)" and lt: "?n < length (sent s)"
    and le: "queue_retrieve_pos (rq s) \<le> MAX_QUEUE_SIZE"
    and pos: "queue_retrieve_pos (rq s) mod MAX_QUEUE_SIZE = Suc ?n mod MAX_QUEUE_SIZE"
    using inv p_wrap by (simp_all add: ring_inv_defs)
  have "slots_ok t"
    by (rule slots_ok_cong [of s]) (use inv p_wrap x in \<open>simp_all add: ring_inv_def taken_def\<close>)
  moreover have "take (length (got t)) (sent t) = got t"
    using inv p_wrap x lt by (simp add: ring_inv_def take_Suc_conv_app_nth)
  moreover have "pop_pos_ok t"
    using p_wrap x pos wrap_mod [OF le] by (simp add: pop_pos_ok_def Let_def taken_def)
  moreover have "store_pos_ok t" by (rule store_pos_ok_cong [of s])
      (use inv p_wrap in \<open>simp_all add: ring_inv_def\<close>)
  ultimately show ?thesis by (simp add: ring_inv_def)
qed

lemma ring_reach_inv: "ring_reach s \<Longrightarrow> \<not> overrun s \<Longrightarrow> ring_inv s"
proof (induction rule: ring_reach.induct)
  case start
  show ?case by (rule ring_inv_start)
next
  case (udp s t)
  then show ?case using udp_step_overrun udp_step_inv by blast
next
  case (pop s t)
  then show ?case using pop_step_overrun pop_step_inv by metis
qed

text \<open>One packet through the ring.\<close>

lemma ring_example: "\<exists>s. ring_reach s \<and> \<not> overrun s \<and> sent s = [p] \<and> got s = [p]"
proof -
  let ?q = "queue_init\<lparr>queue := (\<lambda>_. None)(0 := Some p)\<rparr>"
  let ?s1 = "ring_start\<lparr>upc := U_Wrap p\<rparr>"
  let ?s2 = "ring_start\<lparr>upc := U_Write p\<rparr>"
  let ?s3 = "ring_start\<lparr>upc := U_Inc, rq := ?q, sent := [p]\<rparr>"
  let ?s4 = "?s3\<lparr>upc := U_Idle, rq := ?q\<lparr>queue_store_pos := 1\<rparr>\<rparr>"
  let ?s5 = "?s4\<lparr>ppc := P_Take\<rparr>"
  let ?s6 = "?s4\<lparr>ppc := P_Clear (Some p)\<rparr>"
  let ?s7 = "?s4\<lparr>ppc := P_Inc (Some p), rq := queue_init\<lparr>queue_store_pos := 1\<rparr>\<rparr>"
  let ?s8 = "?s4\<lparr>ppc := P_Wrap (Some p), rq := queue_init\<lparr>queue_store_pos := 1, queue_retrieve_pos := 1\<rparr>\<rparr>"
  let ?s9 = "?s8\<lparr>ppc := P_Idle, got := [p]\<rparr>"
  note st = ring_start_def queue_init_def MAX_QUEUE_SIZE_def
  have "ring_reach ?s1" using ring_reach.udp [OF start u_call] by (simp add: st)
  then have "ring_reach ?s2" using ring_reach.udp [of ?s1, OF _ u_wrap [of ?s1 p]] by (simp add: st)
  then have "ring_reach ?s3" using ring_reach.udp [of ?s2, OF _ u_write [of ?s2 p]] by (simp add: st)
  then have "ring_reach ?s4" using ring_reach.udp [of ?s3, OF _ u_inc [of ?s3]] by (simp add: st)
  then have "ring_reach ?s5" using ring_reach.pop [of ?s4, OF _ p_found [of ?s4]] by (simp add: st)
  then have "ring_reach ?s6" using ring_reach.pop [of ?s5, OF _ p_take [of ?s5]] by (simp add: st)
  then have "ring_reach ?s7"
    using ring_reach.pop [of ?s6, OF _ p_clear [of ?s6 "Some p"]] by (simp add: st)
  then have "ring_reach ?s8"
    using ring_reach.pop [of ?s7, OF _ p_inc [of ?s7 "Some p"]] by (simp add: st)
  then have "ring_reach ?s9"
    using ring_reach.pop [of ?s8, OF _ p_wrap [of ?s8 "Some p"]] by (simp add: st)
  then show ?thesis by (intro exI [of _ ?s9]) (simp add: st)
qed



end
