(* ===== verification/FlushRace.thy ===== *)
theory FlushRace
  imports Stats
begin

text \<open>
  The queue thread and the flush thread on one counter, step by step: the write side of
  \<^verbatim>\<open>update_counter\<close> and the body of the counters loop of
  \<^verbatim>\<open>p_thread_flush\<close> (\<^verbatim>\<open>statsd.c\<close>). The updates hold
  \<^verbatim>\<open>counters_lock\<close>, and so does the write of zero, but the two reads of the value
  that is reported (once for the rate, once for the count) do not.

  \<^verbatim>\<open>race_state\<close> has the value, the semaphore and the program counter of each
  thread; the other fields are history: the increments made since the counter was last cleared
  (\<^verbatim>\<open>since\<close>), all of them (\<^verbatim>\<open>added\<close>), and for every report the
  increments cleared with it and how many of them its two reads saw. Reads and writes of the
  value are single steps, as are wait and post.
\<close>

datatype upd_pc =
    U_Idle
  | U_Wait fp          \<comment> \<open>before \<^verbatim>\<open>wait_for_counters_lock\<close>, to add a value\<close>
  | U_Read fp          \<comment> \<open>before the read of \<^verbatim>\<open>c->value\<close>\<close>
  | U_Write fp fp      \<comment> \<open>before the write: the value to add and the one read\<close>
  | U_Post

datatype fl_pc =
    F_Rate             \<comment> \<open>before the read for \<^verbatim>\<open>value = s_counter->value / flush_interval\<close>\<close>
  | F_Count fp         \<comment> \<open>before the read for the text, with the first value\<close>
  | F_Wait fp fp
  | F_Clear fp fp
  | F_Post

record report =
  rate_of_value :: fp
  count_value :: fp
  batch :: "fp list"
  rate_saw :: nat
  count_saw :: nat

record race_state =
  val :: fp
  lock :: nat
  upc :: upd_pc
  fpc :: fl_pc
  since :: "fp list"
  added :: "fp list"
  saw1 :: nat
  saw2 :: nat
  reports :: "report list"

definition race_start :: race_state where
  "race_start = \<lparr>val = Fin 0, lock = 1, upc = U_Idle, fpc = F_Rate, since = [], added = [],
                 saw1 = 0, saw2 = 0, reports = []\<rparr>"

inductive race_step :: "race_state \<Rightarrow> race_state \<Rightarrow> bool" where
  u_begin: "upc s = U_Idle \<Longrightarrow> race_step s (s\<lparr>upc := U_Wait v\<rparr>)"
| u_wait: "upc s = U_Wait v \<Longrightarrow> sem_wait (lock s) = Inr n \<Longrightarrow> race_step s (s\<lparr>lock := n, upc := U_Read v\<rparr>)"
| u_read: "upc s = U_Read v \<Longrightarrow> race_step s (s\<lparr>upc := U_Write v (val s)\<rparr>)"
| u_write: "upc s = U_Write v old \<Longrightarrow>
    race_step s (s\<lparr>val := fp_add x87ext old v, since := since s @ [v], added := added s @ [v], upc := U_Post\<rparr>)"
| u_post: "upc s = U_Post \<Longrightarrow> race_step s (s\<lparr>lock := sem_post (lock s), upc := U_Idle\<rparr>)"
| f_rate: "fpc s = F_Rate \<Longrightarrow> race_step s (s\<lparr>fpc := F_Count (val s), saw1 := length (since s)\<rparr>)"
| f_count: "fpc s = F_Count r \<Longrightarrow> race_step s (s\<lparr>fpc := F_Wait r (val s), saw2 := length (since s)\<rparr>)"
| f_wait: "fpc s = F_Wait r c \<Longrightarrow> sem_wait (lock s) = Inr n \<Longrightarrow> race_step s (s\<lparr>lock := n, fpc := F_Clear r c\<rparr>)"
| f_clear: "fpc s = F_Clear r c \<Longrightarrow>
    race_step s (s\<lparr>val := Fin 0, since := [], fpc := F_Post,
      reports := reports s @ [\<lparr>rate_of_value = r, count_value = c, batch = since s,
                              rate_saw = saw1 s, count_saw = saw2 s\<rparr>]\<rparr>)"
| f_post: "fpc s = F_Post \<Longrightarrow> race_step s (s\<lparr>lock := sem_post (lock s), fpc := F_Rate\<rparr>)"

inductive race_reach :: "race_state \<Rightarrow> bool" where
  race_reach_start: "race_reach race_start"
| race_reach_step: "race_reach s \<Longrightarrow> race_step s t \<Longrightarrow> race_reach t"

inductive_cases race_stepE: "race_step s t"

subsection \<open>Invariant\<close>

definition total :: "fp list \<Rightarrow> fp" where
  "total = foldl (fp_add x87ext) (Fin 0)"

lemma total_simps [simp]: "total [] = Fin 0" "total (vs @ [v]) = fp_add x87ext (total vs) v"
  by (simp_all add: total_def)

fun u_holds :: "upd_pc \<Rightarrow> nat" where
  "u_holds (U_Read v) = 1"
| "u_holds (U_Write v old) = 1"
| "u_holds U_Post = 1"
| "u_holds _ = 0"

fun f_holds :: "fl_pc \<Rightarrow> nat" where
  "f_holds (F_Clear r c) = 1"
| "f_holds F_Post = 1"
| "f_holds _ = 0"

text \<open>A report is right about a prefix of the increments it cleared.\<close>

definition report_ok :: "report \<Rightarrow> bool" where
  "report_ok r \<longleftrightarrow> rate_saw r \<le> count_saw r \<and> count_saw r \<le> length (batch r) \<and>
     rate_of_value r = total (take (rate_saw r) (batch r)) \<and>
     count_value r = total (take (count_saw r) (batch r))"

fun fpc_ok :: "nat \<Rightarrow> nat \<Rightarrow> fp list \<Rightarrow> fl_pc \<Rightarrow> bool" where
  "fpc_ok n1 n2 vs (F_Count r) \<longleftrightarrow> n1 \<le> length vs \<and> r = total (take n1 vs)"
| "fpc_ok n1 n2 vs (F_Wait r c) \<longleftrightarrow> n1 \<le> n2 \<and> n2 \<le> length vs \<and>
     r = total (take n1 vs) \<and> c = total (take n2 vs)"
| "fpc_ok n1 n2 vs (F_Clear r c) \<longleftrightarrow> n1 \<le> n2 \<and> n2 \<le> length vs \<and>
     r = total (take n1 vs) \<and> c = total (take n2 vs)"
| "fpc_ok n1 n2 vs _ \<longleftrightarrow> True"

fun upc_ok :: "fp \<Rightarrow> upd_pc \<Rightarrow> bool" where
  "upc_ok x (U_Write v old) \<longleftrightarrow> old = x"
| "upc_ok x _ \<longleftrightarrow> True"

definition race_inv :: "race_state \<Rightarrow> bool" where
  "race_inv s \<longleftrightarrow> lock s + u_holds (upc s) + f_holds (fpc s) = 1 \<and> val s = total (since s) \<and>
     added s = concat (map batch (reports s)) @ since s \<and> (\<forall>r \<in> set (reports s). report_ok r) \<and>
     fpc_ok (saw1 s) (saw2 s) (since s) (fpc s) \<and> upc_ok (val s) (upc s)"

lemma fpc_ok_append: "fpc_ok n1 n2 vs p \<Longrightarrow> fpc_ok n1 n2 (vs @ ws) p"
  by (cases p) auto

lemma sem_wait_Suc: "sem_wait k = Inr n \<longleftrightarrow> k = Suc n"
  by (cases k) (auto simp: sem_wait_def)

lemma race_step_inv:
  assumes "race_step s t" and "race_inv s"
  shows "race_inv t"
  using assms
proof (induction rule: race_step.induct)
  case (u_write s v old)
  then show ?case by (auto simp: race_inv_def fpc_ok_append)
next
  case (f_clear s r c)
  then have "u_holds (upc s) = 0" by (simp add: race_inv_def)
  then have "upc_ok x (upc s)" for x by (cases "upc s") auto
  with f_clear show ?case by (simp add: race_inv_def report_ok_def)
qed (auto simp: race_inv_def sem_wait_Suc sem_post_def)

lemma race_inv_start: "race_inv race_start"
  by (simp add: race_inv_def race_start_def)

lemma race_reach_inv: "race_reach s \<Longrightarrow> race_inv s"
  by (induction rule: race_reach.induct) (auto simp: race_inv_start intro: race_step_inv)

text \<open>An update between the two reads and the clearing.\<close>

lemma race_example:
  "\<exists>s r. race_reach s \<and> added s = [Fin 1] \<and> reports s = [r] \<and> count_value r = Fin 0 \<and> val s = Fin 0
     \<and> upc s = U_Idle \<and> fpc s = F_Rate"
proof -
  let ?s1 = "race_start\<lparr>fpc := F_Count (Fin 0), saw1 := 0\<rparr>"
  let ?s2 = "?s1\<lparr>fpc := F_Wait (Fin 0) (Fin 0), saw2 := 0\<rparr>"
  let ?s3 = "?s2\<lparr>upc := U_Wait (Fin 1)\<rparr>"
  let ?s4 = "?s3\<lparr>lock := 0, upc := U_Read (Fin 1)\<rparr>"
  let ?s5 = "?s4\<lparr>upc := U_Write (Fin 1) (Fin 0)\<rparr>"
  let ?s6 = "?s5\<lparr>val := fp_add x87ext (Fin 0) (Fin 1), since := [Fin 1], added := [Fin 1], upc := U_Post\<rparr>"
  let ?s7 = "?s6\<lparr>lock := 1, upc := U_Idle\<rparr>"
  let ?s8 = "?s7\<lparr>lock := 0, fpc := F_Clear (Fin 0) (Fin 0)\<rparr>"
  let ?r = "\<lparr>rate_of_value = Fin 0, count_value = Fin 0, batch = [Fin 1], rate_saw = 0, count_saw = 0\<rparr>"
  let ?s9 = "?s8\<lparr>val := Fin 0, since := [], fpc := F_Post, reports := [?r]\<rparr>"
  let ?s10 = "?s9\<lparr>lock := 1, fpc := F_Rate\<rparr>"
  note st = race_start_def sem_wait_def sem_post_def
  have "race_reach ?s1" using race_reach_step [OF race_reach_start f_rate] by (simp add: st)
  then have "race_reach ?s2" using race_reach_step [of ?s1, OF _ f_count [of ?s1]] by (simp add: st)
  then have "race_reach ?s3" using race_reach_step [of ?s2, OF _ u_begin [of ?s2 "Fin 1"]] by (simp add: st)
  then have "race_reach ?s4" using race_reach_step [of ?s3, OF _ u_wait [of ?s3 "Fin 1" 0]] by (simp add: st)
  then have "race_reach ?s5" using race_reach_step [of ?s4, OF _ u_read [of ?s4 "Fin 1"]] by (simp add: st)
  then have "race_reach ?s6" using race_reach_step [of ?s5, OF _ u_write [of ?s5 "Fin 1" "Fin 0"]] by (simp add: st)
  then have "race_reach ?s7" using race_reach_step [of ?s6, OF _ u_post [of ?s6]] by (simp add: st)
  then have "race_reach ?s8" using race_reach_step [of ?s7, OF _ f_wait [of ?s7 "Fin 0" "Fin 0" 0]] by (simp add: st)
  then have "race_reach ?s9" using race_reach_step [of ?s8, OF _ f_clear [of ?s8]] by (simp add: st)
  then have "race_reach ?s10" using race_reach_step [of ?s9, OF _ f_post [of ?s9]] by (simp add: st)
  then show ?thesis by (intro exI [of _ ?s10] exI [of _ ?r]) (simp add: st)
qed

text \<open>
  C18: in every interleaving the updates of a counter and its clearing exclude one another, the
  counter holds the sum of the increments since it was last cleared, every increment belongs to
  exactly one interval, and what is reported of an interval is the sum of the first so many of
  its increments, the rate of no more of them than the count.
\<close>

theorem race_reports:
  assumes "race_reach s"
  shows "u_holds (upc s) + f_holds (fpc s) \<le> 1 \<and> val s = total (since s)
    \<and> added s = concat (map batch (reports s)) @ since s
    \<and> (\<forall>r \<in> set (reports s). report_ok r)"
  using race_reach_inv [OF assms] by (simp add: race_inv_def)

theorem race_reports_witness:
  "\<exists>(s::race_state) r. added s = [Fin 1] \<and> reports s = [r] \<and> batch r @ since s = [Fin 1] \<and> report_ok r"
proof -
  obtain s r where s: "race_reach s" "added s = [Fin 1]" "reports s = [r]" using race_example by blast
  with race_reports [OF s(1)] show ?thesis by (intro exI [of _ s] exI [of _ r]) auto
qed

text \<open>
  An increment made between the read of a counter and the write of zero is lost: the daemon
  can reach a state in which it has counted one, reports zero for the interval, and holds zero.
\<close>

theorem race_loses_increment:
  "\<exists>s r. race_reach s \<and> added s = [Fin 1] \<and> reports s = [r] \<and> count_value r = Fin 0 \<and> val s = Fin 0
     \<and> upc s = U_Idle \<and> fpc s = F_Rate"
  by (rule race_example)

end
