(* ===== verification/Options.thy ===== *)
theory Options
  imports CNum
begin

text \<open>
  The options of the daemon (\<^verbatim>\<open>main\<close> of \<^verbatim>\<open>statsd.c\<close>): the
  globals it sets are the record \<^verbatim>\<open>config\<close>, and the \<^verbatim>\<open>switch\<close>
  over what \<^verbatim>\<open>getopt\<close> returns is \<^verbatim>\<open>main_option\<close>, given the
  letter and the argument. \<^verbatim>\<open>syntax\<close> prints the usage and exits, which is the
  value None. The loop of \<open>-T\<close> starts \<^verbatim>\<open>strtok\<close> anew on its argument at
  every turn.
\<close>

record config =
  debug :: bool
  friendly :: bool
  clear_stats :: bool
  daemonize :: bool
  enable_gmetric :: bool
  enable_graphite :: bool
  port :: int
  mgmt_port :: int
  ganglia_port :: int
  graphite_port :: int
  flush_interval :: int
  serialize_file :: "cstring option"
  ganglia_host :: "cstring option"
  ganglia_spoof :: "cstring option"
  graphite_host :: "cstring option"
  ganglia_metric_prefix :: "cstring option"
  lock_file :: "cstring option"
  percentiles :: "int list"       \<comment> \<open>\<^verbatim>\<open>int percentiles[5]\<close>\<close>
  num_percentiles :: nat

definition config_init :: config where
  "config_init = \<lparr>debug = False, friendly = False, clear_stats = False, daemonize = False,
     enable_gmetric = False, enable_graphite = False, port = 8125, mgmt_port = 8126,
     ganglia_port = 8649, graphite_port = 2003, flush_interval = 10, serialize_file = None,
     ganglia_host = None, ganglia_spoof = None, graphite_host = None,
     ganglia_metric_prefix = None, lock_file = None, percentiles = [0, 0, 0, 0, 0],
     num_percentiles = 0\<rparr>"

subsection \<open>The loop of \<open>-T\<close>\<close>

text \<open>\<^verbatim>\<open>strtok(buf, ",")\<close> with a non-null first argument: the token, and the
  string the buffer holds afterwards, which ends where the token does.\<close>

definition strtok_buf :: "char \<Rightarrow> cstring \<Rightarrow> cstring option \<times> cstring" where
  "strtok_buf dl buf = (case strtok_r dl buf of
       None \<Rightarrow> (None, buf)
     | Some (tok, _) \<Rightarrow> (Some tok, takeWhile (\<lambda>c. c = dl) buf @ tok))"

function percentile_loop :: "cstring \<Rightarrow> cstring option \<Rightarrow> config \<Rightarrow> config res" where
  "percentile_loop p_raw pch cfg = (case pch of
       None \<Rightarrow> Inr cfg
     | Some tok \<Rightarrow>
         if num_percentiles cfg < 5 then
           let cfg = cfg\<lparr>percentiles := (percentiles cfg)[num_percentiles cfg := atoi tok]\<rparr>;
               (pch', p_raw') = strtok_buf (CHR '','') p_raw
           in percentile_loop p_raw' pch' (cfg\<lparr>num_percentiles := num_percentiles cfg + 1\<rparr>)
         else Inl Out_Of_Bounds)"
  by pat_completeness auto
termination
  by (relation "measure (\<lambda>(_, _, cfg). 5 - num_percentiles cfg)") auto

declare percentile_loop.simps [simp del]

subsection \<open>One option\<close>

definition main_option :: "char \<Rightarrow> cstring \<Rightarrow> config \<Rightarrow> config option res" where
  "main_option opt optarg cfg =
     (if opt = CHR ''d'' then Inr (Some (cfg\<lparr>debug := True\<rparr>))
      else if opt = CHR ''D'' then Inr (Some (cfg\<lparr>daemonize := True\<rparr>))
      else if opt = CHR ''f'' then Inr (Some (cfg\<lparr>friendly := True\<rparr>))
      else if opt = CHR ''F'' then Inr (Some (cfg\<lparr>flush_interval := atoi optarg\<rparr>))
      else if opt = CHR ''p'' then Inr (Some (cfg\<lparr>port := atoi optarg\<rparr>))
      else if opt = CHR ''m'' then Inr (Some (cfg\<lparr>mgmt_port := atoi optarg\<rparr>))
      else if opt = CHR ''s'' then Inr (Some (cfg\<lparr>serialize_file := Some optarg\<rparr>))
      else if opt = CHR ''c'' then Inr (Some (cfg\<lparr>clear_stats := True\<rparr>))
      else if opt = CHR ''R'' then
        Inr (Some (cfg\<lparr>graphite_host := Some optarg, enable_graphite := True\<rparr>))
      else if opt = CHR ''r'' then Inr (Some (cfg\<lparr>graphite_port := atoi optarg\<rparr>))
      else if opt = CHR ''G'' then
        Inr (Some (cfg\<lparr>ganglia_host := Some optarg, enable_gmetric := True\<rparr>))
      else if opt = CHR ''g'' then Inr (Some (cfg\<lparr>ganglia_port := atoi optarg\<rparr>))
      else if opt = CHR ''S'' then Inr (Some (cfg\<lparr>ganglia_spoof := Some optarg\<rparr>))
      else if opt = CHR ''P'' then Inr (Some (cfg\<lparr>ganglia_metric_prefix := Some optarg\<rparr>))
      else if opt = CHR ''l'' then Inr (Some (cfg\<lparr>lock_file := Some optarg\<rparr>))
      else if opt = CHR ''T'' then
        (let (pch, p_raw) = strtok_buf (CHR '','') optarg
         in rbind (percentile_loop p_raw pch cfg) (\<lambda>cfg. Inr (Some cfg)))
      else Inr None)"

fun main_options :: "(char \<times> cstring) list \<Rightarrow> config \<Rightarrow> config option res" where
  "main_options [] cfg =
     (let cfg = (if num_percentiles cfg = 0
                 then cfg\<lparr>percentiles := (percentiles cfg)[0 := 90], num_percentiles := 1\<rparr> else cfg);
          cfg = (if ganglia_spoof cfg = None
                 then cfg\<lparr>ganglia_spoof := Some ''statsd:statsd''\<rparr> else cfg)
      in Inr (Some cfg))"
| "main_options ((opt, optarg) # opts) cfg =
     rbind (main_option opt optarg cfg) (\<lambda>r. case r of
       None \<Rightarrow> Inr None
     | Some cfg \<Rightarrow> main_options opts cfg)"

subsection \<open>Lemmas\<close>

lemma strtok_buf_again:
  assumes "strtok_buf dl buf = (Some tok, buf')"
  shows "strtok_buf dl buf' = (Some tok, buf')"
proof -
  from assms obtain r where r: "strtok_r dl buf = Some (tok, r)"
    and b: "buf' = takeWhile (\<lambda>c. c = dl) buf @ tok"
    by (auto simp: strtok_buf_def split: option.splits)
  from strtok_r_token [OF r] obtain c cs where t: "tok = c # cs" "c \<noteq> dl" "dl \<notin> set tok"
    by (cases tok) auto
  let ?p = "takeWhile (\<lambda>c. c = dl) buf"
  have p: "\<forall>c \<in> set ?p. c = dl" by (auto dest: set_takeWhileD)
  have "strtok_r dl (?p @ tok) = strtok_r dl tok"
    using p by (simp add: strtok_r_def)
  moreover have "strtok_r dl tok = Some (tok, [])" using t by (intro strtok_r_all) auto
  moreover have "takeWhile (\<lambda>c. c = dl) (?p @ tok) = ?p" using p t by simp
  ultimately show ?thesis using b by (simp add: strtok_buf_def)
qed

lemma percentile_loop_overruns:
  "strtok_buf (CHR '','') p_raw = (Some tok, p_raw) \<Longrightarrow>
   percentile_loop p_raw (Some tok) cfg = Inl Out_Of_Bounds"
proof (induction "5 - num_percentiles cfg" arbitrary: cfg rule: less_induct)
  case less
  show ?case
  proof (cases "num_percentiles cfg < 5")
    case True
    let ?c = "cfg\<lparr>percentiles := (percentiles cfg)[num_percentiles cfg := atoi tok],
      num_percentiles := Suc (num_percentiles cfg)\<rparr>"
    have "percentile_loop p_raw (Some tok) ?c = Inl Out_Of_Bounds"
      using True by (intro less.hyps less.prems) simp
    with True less.prems show ?thesis
      by (subst percentile_loop.simps) simp
  qed (subst percentile_loop.simps, simp)
qed

text \<open>
  The option \<open>-T\<close> with any percentile at all runs past the array: every turn of its
  loop calls \<^verbatim>\<open>strtok\<close> on the whole argument again, so it reads the first number for
  ever and stores it until the five elements are full.
\<close>

theorem main_option_T_overruns:
  assumes "\<not> set optarg \<subseteq> {CHR '',''}"
  shows "main_option (CHR ''T'') optarg cfg = Inl Out_Of_Bounds"
proof -
  from assms obtain tok r where "strtok_r (CHR '','') optarg = Some (tok, r)"
    using strtok_r_None [of "CHR '',''" optarg] by (cases "strtok_r (CHR '','') optarg") auto
  then obtain p_raw where p: "strtok_buf (CHR '','') optarg = (Some tok, p_raw)"
    by (auto simp: strtok_buf_def)
  from percentile_loop_overruns [OF strtok_buf_again [OF p]] p show ?thesis
    by (simp add: main_option_def)
qed

theorem main_option_T_overruns_witness:
  "main_option (CHR ''T'') ''90'' config_init = Inl Out_Of_Bounds"
  by (rule main_option_T_overruns) simp

lemma main_option_no_T:
  assumes "main_option opt optarg cfg = r" and "opt \<noteq> CHR ''T''"
  shows "case r of Inl _ \<Rightarrow> False | Inr None \<Rightarrow> True
    | Inr (Some cfg') \<Rightarrow> percentiles cfg' = percentiles cfg \<and> num_percentiles cfg' = num_percentiles cfg
        \<and> (enable_graphite cfg' \<longleftrightarrow> enable_graphite cfg \<or> opt = CHR ''R'')
        \<and> (enable_gmetric cfg' \<longleftrightarrow> enable_gmetric cfg \<or> opt = CHR ''G'')"
  using assms(2) unfolding assms(1) [symmetric] main_option_def by auto

lemma main_options_no_T:
  assumes "\<forall>(opt, _) \<in> set opts. opt \<noteq> CHR ''T''"
  shows "case main_options opts cfg of Inl _ \<Rightarrow> False | Inr None \<Rightarrow> True
    | Inr (Some cfg') \<Rightarrow>
        percentiles cfg' = (if num_percentiles cfg = 0 then (percentiles cfg)[0 := 90] else percentiles cfg)
        \<and> num_percentiles cfg' = (if num_percentiles cfg = 0 then 1 else num_percentiles cfg)
        \<and> ganglia_spoof cfg' \<noteq> None
        \<and> (enable_graphite cfg' \<longleftrightarrow> enable_graphite cfg \<or> CHR ''R'' \<in> fst ` set opts)
        \<and> (enable_gmetric cfg' \<longleftrightarrow> enable_gmetric cfg \<or> CHR ''G'' \<in> fst ` set opts)"
  using assms
proof (induction opts arbitrary: cfg)
  case (Cons o' opts)
  obtain opt optarg where o: "o' = (opt, optarg)" by (cases o')
  with Cons.prems have n: "opt \<noteq> CHR ''T''" by auto
  have d: "main_options (o' # opts) cfg = rbind (main_option opt optarg cfg)
      (\<lambda>r. case r of None \<Rightarrow> Inr None | Some cfg \<Rightarrow> main_options opts cfg)" by (simp add: o)
  show ?case
  proof (cases "main_option opt optarg cfg")
    case (Inl e)
    with main_option_no_T [OF Inl n] show ?thesis by simp
  next
    case (Inr r)
    show ?thesis
    proof (cases r)
      case None
      with Inr d show ?thesis by simp
    next
      case (Some cfg')
      have "main_options (o' # opts) cfg = main_options opts cfg'" using Inr Some d by simp
      with main_option_no_T [OF Inr n] Cons.IH [of cfg'] Cons.prems Some o show ?thesis
        by (auto split: sum.splits option.splits)
    qed
  qed
qed (simp add: Let_def)

text \<open>
  Without \<open>-T\<close> the options never fault: the daemon exits with its usage or starts with
  the one percentile 90, a spoof host, and Graphite and Ganglia enabled exactly when their
  options are given.
\<close>

theorem main_options_defaults:
  assumes "\<forall>(opt, _) \<in> set opts. opt \<noteq> CHR ''T''"
  shows "main_options opts config_init = Inr None \<or>
    (\<exists>cfg. main_options opts config_init = Inr (Some cfg) \<and> percentiles cfg = [90, 0, 0, 0, 0]
      \<and> num_percentiles cfg = 1 \<and> ganglia_spoof cfg \<noteq> None
      \<and> (enable_graphite cfg \<longleftrightarrow> CHR ''R'' \<in> fst ` set opts)
      \<and> (enable_gmetric cfg \<longleftrightarrow> CHR ''G'' \<in> fst ` set opts))"
  using main_options_no_T [OF assms, of config_init]
  by (auto simp: config_init_def split: sum.splits option.splits)

theorem main_options_defaults_witness:
  "\<exists>cfg. main_options [(CHR ''R'', ''127.0.0.1''), (CHR ''p'', ''9000'')] config_init = Inr (Some cfg)
    \<and> percentiles cfg = [90, 0, 0, 0, 0] \<and> enable_graphite cfg"
proof -
  have "main_options [(CHR ''R'', ''127.0.0.1''), (CHR ''p'', ''9000'')] config_init \<noteq> Inr None"
    by (simp add: main_option_def Let_def)
  with main_options_defaults [of "[(CHR ''R'', ''127.0.0.1''), (CHR ''p'', ''9000'')]"]
  show ?thesis by auto
qed

end
