(* ===== verification/Mgmt.thy ===== *)
theory Mgmt
  imports Stats Options
begin

text \<open>
  The management port (\<^verbatim>\<open>p_thread_mgmt\<close> of \<^verbatim>\<open>statsd.c\<close>, the
  macros \<^verbatim>\<open>STREAM_SEND\<close> to \<^verbatim>\<open>STREAM_SEND_LONG_DOUBLE\<close> and the
  texts \<^verbatim>\<open>MGMT_END\<close> to \<^verbatim>\<open>MGMT_HELP\<close> of
  \<^verbatim>\<open>statsd.h\<close>). What the \<^verbatim>\<open>select\<close> loop reacts to is an event: a
  connection, data from a client, the end of a connection. The state of the loop is the set of
  sockets it watches and the one buffer into which it receives, which is not cleared between two
  receipts; the record also keeps what was sent. The four commands read the tables and change
  nothing in them.
\<close>

definition MGMT_END :: cstring where "MGMT_END = ''END'' @ [CHR 0x0A, CHR 0x0A]"
definition MGMT_BADCOMMAND :: cstring where "MGMT_BADCOMMAND = ''ERROR'' @ [CHR 0x0A]"
definition MGMT_PROMPT :: cstring where "MGMT_PROMPT = ''statsd> ''"
definition MGMT_HELP :: cstring where
  "MGMT_HELP = ''Commands: stats, counters, timers, quit'' @ [CHR 0x0A, CHR 0x0A]"

subsection \<open>Sending\<close>

text \<open>What has been sent so far to the client is threaded through; the macros print into
  \<^verbatim>\<open>char z[32]\<close>.\<close>

definition STREAM_SEND :: "cstring \<Rightarrow> cstring \<Rightarrow> cstring res" where
  "STREAM_SEND y out = Inr (out @ y)"

definition STREAM_SEND_LONG :: "int \<Rightarrow> cstring \<Rightarrow> cstring res" where
  "STREAM_SEND_LONG y out = rbind (strcpy_buf 32 (dec_of_int y)) (\<lambda>z. Inr (out @ z))"

definition STREAM_SEND_INT :: "int \<Rightarrow> cstring \<Rightarrow> cstring res" where
  "STREAM_SEND_INT y out = rbind (strcpy_buf 32 (dec_of_int y)) (\<lambda>z. Inr (out @ z))"

definition STREAM_SEND_DOUBLE :: "fp \<Rightarrow> cstring \<Rightarrow> cstring res" where
  "STREAM_SEND_DOUBLE y out = rbind (strcpy_buf 32 (fmt_f y)) (\<lambda>z. Inr (out @ z))"

definition STREAM_SEND_LONG_DOUBLE :: "fp \<Rightarrow> cstring \<Rightarrow> cstring res" where
  "STREAM_SEND_LONG_DOUBLE y out = rbind (strcpy_buf 32 (fmt_f y)) (\<lambda>z. Inr (out @ z))"

definition EOL :: cstring where "EOL = [CHR 0x0A]"

definition send_counter :: "statsd_counter_t \<Rightarrow> cstring \<Rightarrow> cstring res" where
  "send_counter c out =
     rbind (STREAM_SEND (ckey c) out) (\<lambda>out.
     rbind (STREAM_SEND '': '' out) (\<lambda>out.
     rbind (STREAM_SEND_LONG_DOUBLE (cvalue c) out) (STREAM_SEND EOL)))"

text \<open>The loop over the values of a timer, with its flag \<^verbatim>\<open>first\<close>.\<close>

fun send_timer_values :: "bool \<Rightarrow> fp list \<Rightarrow> cstring \<Rightarrow> cstring res" where
  "send_timer_values first [] out = Inr out"
| "send_timer_values first (v # vs) out =
     rbind (if first then STREAM_SEND '','' out else Inr out) (\<lambda>out.
     rbind (STREAM_SEND_DOUBLE v out) (send_timer_values False vs))"

definition send_timer :: "statsd_timer_t \<Rightarrow> cstring \<Rightarrow> cstring res" where
  "send_timer t out =
     rbind (STREAM_SEND (tkey t) out) (\<lambda>out.
     rbind (STREAM_SEND '': '' out) (\<lambda>out.
     rbind (STREAM_SEND_INT (tcount t) out) (\<lambda>out.
     rbind (if 0 < tcount t
            then rbind (STREAM_SEND '' ['' out) (\<lambda>out.
                 rbind (send_timer_values True (tvalues t) out) (STREAM_SEND '']''))
            else Inr out) (STREAM_SEND EOL))))"

definition send_stat :: "statsd_stat_t \<Rightarrow> cstring \<Rightarrow> cstring res" where
  "send_stat s out =
     rbind (if 1 < length (group_name (sname s))
            then rbind (STREAM_SEND (group_name (sname s)) out) (STREAM_SEND ''.'')
            else Inr out) (\<lambda>out.
     rbind (STREAM_SEND (key_name (sname s)) out) (\<lambda>out.
     rbind (STREAM_SEND '': '' out) (\<lambda>out.
     rbind (STREAM_SEND_LONG (svalue s) out) (STREAM_SEND EOL))))"

definition send_prompt :: "config \<Rightarrow> cstring \<Rightarrow> cstring res" where
  "send_prompt cfg out = (if friendly cfg then STREAM_SEND MGMT_PROMPT out else Inr out)"

definition send_end :: "config \<Rightarrow> cstring \<Rightarrow> cstring res" where
  "send_end cfg out = rbind (STREAM_SEND MGMT_END out) (send_prompt cfg)"

subsection \<open>A command\<close>

text \<open>The text sent for the command at the start of the buffer, and whether the connection is
  closed.\<close>

definition mgmt_command :: "config \<Rightarrow> daemon \<Rightarrow> char list \<Rightarrow> (cstring \<times> bool) res" where
  "mgmt_command cfg d buf =
     rbind (strncaseeq buf ''help'' 4) (\<lambda>is_help.
     if is_help then
       rbind (rbind (STREAM_SEND MGMT_HELP []) (send_prompt cfg)) (\<lambda>out. Inr (out, False))
     else rbind (strncaseeq buf ''counters'' 8) (\<lambda>is_counters.
     if is_counters then
       rbind (rbind (rfold send_counter (counters d) []) (send_end cfg)) (\<lambda>out. Inr (out, False))
     else rbind (strncaseeq buf ''timers'' 6) (\<lambda>is_timers.
     if is_timers then
       rbind (rbind (rfold send_timer (timers d) []) (send_end cfg)) (\<lambda>out. Inr (out, False))
     else rbind (strncaseeq buf ''stats'' 5) (\<lambda>is_stats.
     if is_stats then
       rbind (rbind (rfold send_stat (stats d) []) (send_end cfg)) (\<lambda>out. Inr (out, False))
     else rbind (strncaseeq buf ''quit'' 4) (\<lambda>is_quit.
     if is_quit then Inr ([], True)
     else rbind (rbind (STREAM_SEND MGMT_BADCOMMAND []) (send_prompt cfg)) (\<lambda>out. Inr (out, False)))))))"

subsection \<open>The loop\<close>

datatype mgmt_event = Connect nat | Data nat "char list" | Hangup nat

record mgmt_state =
  mbuf :: "char list"                   \<comment> \<open>\<^verbatim>\<open>char buf[1024]\<close>\<close>
  master :: "nat list"
  sent :: "(nat \<times> cstring) list"

definition MGMT_BUF :: nat where "MGMT_BUF = 1024"

text \<open>\<^verbatim>\<open>recv\<close> overwrites the start of the buffer.\<close>

definition mgmt_recv :: "char list \<Rightarrow> char list \<Rightarrow> char list" where
  "mgmt_recv data buf = take MGMT_BUF data @ drop (length data) buf"

definition mgmt_event :: "config \<Rightarrow> daemon \<Rightarrow> mgmt_event \<Rightarrow> mgmt_state \<Rightarrow> mgmt_state res" where
  "mgmt_event cfg d ev st = (case ev of
       Connect fd \<Rightarrow>
         rbind (send_prompt cfg []) (\<lambda>out. Inr (st\<lparr>master := fd # master st, sent := sent st @ [(fd, out)]\<rparr>))
     | Hangup fd \<Rightarrow> Inr (st\<lparr>master := removeAll fd (master st)\<rparr>)
     | Data fd data \<Rightarrow>
         let buf = mgmt_recv data (mbuf st)
         in rbind (mgmt_command cfg d buf) (\<lambda>(out, quit).
            Inr (st\<lparr>mbuf := buf, sent := sent st @ [(fd, out)],
                    master := (if quit then removeAll fd (master st) else master st)\<rparr>)))"

subsection \<open>Commands and their prefixes\<close>

lemma strncaseeq_returns:
  "n \<le> length a \<Longrightarrow> n \<le> length b \<Longrightarrow> \<exists>r. strncaseeq a b n = Inr r"
  by (induction a b n rule: strncaseeq.induct) auto

lemma tolower_zero: "tolower y = CHR 0x00 \<longleftrightarrow> y = CHR 0x00"
proof (cases "is_upper y")
  case True
  then have "char_code (tolower y) = char_code y + 32"
    by (simp add: tolower_def is_upper_def char_code_def of_char_of)
  with True show ?thesis by (auto simp: is_upper_def char_code_def)
qed (simp add: tolower_def)

lemma strncaseeq_prefix:
  "n = length b \<Longrightarrow> is_cstring b \<Longrightarrow> n \<le> length a \<Longrightarrow>
   strncaseeq a b n = Inr (map tolower (take n a) = map tolower b)"
proof (induction a b n rule: strncaseeq.induct)
  case (2 x a y b n)
  then show ?case using tolower_zero [of x] tolower_zero [of y] by auto
qed auto

text \<open>The buffer always has its 1024 bytes.\<close>

lemma length_mgmt_recv:
  "length buf = MGMT_BUF \<Longrightarrow> length (mgmt_recv data buf) = MGMT_BUF"
  by (simp add: mgmt_recv_def)

definition command_is :: "char list \<Rightarrow> cstring \<Rightarrow> bool" where
  "command_is buf cmd \<longleftrightarrow> map tolower (take (length cmd) buf) = cmd"

lemma command_test:
  assumes "length buf = MGMT_BUF" and "map tolower cmd = cmd" and "is_cstring cmd" and "length cmd \<le> 8"
  shows "strncaseeq buf cmd (length cmd) = Inr (command_is buf cmd)"
  using assms strncaseeq_prefix [of "length cmd" cmd buf]
  by (simp add: command_is_def MGMT_BUF_def)

lemma tolower_words:
  "map tolower ''help'' = ''help''" "map tolower ''counters'' = ''counters''"
  "map tolower ''timers'' = ''timers''" "map tolower ''stats'' = ''stats''" "map tolower ''quit'' = ''quit''"
  by code_simp+

lemma command_tests:
  assumes "length buf = MGMT_BUF"
  shows "strncaseeq buf ''help'' 4 = Inr (command_is buf ''help'')"
    "strncaseeq buf ''counters'' 8 = Inr (command_is buf ''counters'')"
    "strncaseeq buf ''timers'' 6 = Inr (command_is buf ''timers'')"
    "strncaseeq buf ''stats'' 5 = Inr (command_is buf ''stats'')"
    "strncaseeq buf ''quit'' 4 = Inr (command_is buf ''quit'')"
  using command_test [OF assms tolower_words(1)] command_test [OF assms tolower_words(2)]
    command_test [OF assms tolower_words(3)] command_test [OF assms tolower_words(4)]
    command_test [OF assms tolower_words(5)]
  by (simp_all add: numeral_eq_Suc)

lemma command_is_take:
  "length cmd \<le> length cmd' \<Longrightarrow> take (length cmd) cmd' \<noteq> cmd \<Longrightarrow> command_is buf cmd' \<Longrightarrow> \<not> command_is buf cmd"
  by (metis command_is_def min.absorb1 take_map take_take)

lemma command_disjoint:
  assumes "command_is buf cmd" and "command_is buf cmd'" and "cmd \<noteq> []" and "cmd' \<noteq> []"
  shows "hd cmd = hd cmd'"
proof -
  from assms have "map tolower (take (length cmd) buf) = cmd" "map tolower (take (length cmd') buf) = cmd'"
    by (simp_all add: command_is_def)
  with assms(3,4) show ?thesis
    by (cases buf; cases cmd; cases cmd') auto
qed

subsection \<open>The texts\<close>

definition counter_line :: "statsd_counter_t \<Rightarrow> cstring" where
  "counter_line c = ckey c @ '': '' @ fmt_f (cvalue c) @ EOL"

definition stat_line :: "statsd_stat_t \<Rightarrow> cstring" where
  "stat_line s = (if 1 < length (group_name (sname s)) then group_name (sname s) @ ''.'' else []) @
     key_name (sname s) @ '': '' @ dec_of_int (svalue s) @ EOL"

definition timer_line :: "statsd_timer_t \<Rightarrow> cstring" where
  "timer_line t = tkey t @ '': '' @ dec_of_int (tcount t) @
     (if 0 < tcount t
      then '' ['' @ (if tvalues t = [] then [] else '','') @ concat (map fmt_f (tvalues t)) @ '']''
      else []) @ EOL"

definition printable :: "fp \<Rightarrow> bool" where
  "printable v \<longleftrightarrow> length (fmt_f v) < 32"

lemma rfold_text:
  "(\<And>x out. x \<in> set xs \<Longrightarrow> f x out = Inr (out @ g x)) \<Longrightarrow>
   rfold f xs out = Inr (out @ concat (map g xs))"
  by (induction xs arbitrary: out) auto

lemma send_counter_line: "printable (cvalue c) \<Longrightarrow> send_counter c out = Inr (out @ counter_line c)"
  by (simp add: send_counter_def STREAM_SEND_def STREAM_SEND_LONG_DOUBLE_def counter_line_def printable_def)

lemma send_timer_values_text:
  "\<forall>v \<in> set vs. printable v \<Longrightarrow>
   send_timer_values b vs out = Inr (out @ (if b \<and> vs \<noteq> [] then '','' else []) @ concat (map fmt_f vs))"
  by (induction vs arbitrary: b out) (auto simp: STREAM_SEND_def STREAM_SEND_DOUBLE_def printable_def)

lemma length_dec_long: "is_long k \<Longrightarrow> length (dec_of_int k) < 32"
  using length_dec_of_long [of k] by simp

lemma is_long_int: "0 \<le> k \<Longrightarrow> k \<le> INT_MAX \<Longrightarrow> is_long k"
  by (simp add: is_long_def LONG_MIN_def LONG_MAX_def INT_MAX_def)

lemma send_timer_line:
  assumes "timer_ok t" and "\<forall>v \<in> set (tvalues t). printable v"
  shows "send_timer t out = Inr (out @ timer_line t)"
  using assms length_dec_long [OF is_long_int, of "tcount t"]
  by (auto simp: send_timer_def timer_line_def send_timer_values_text STREAM_SEND_def STREAM_SEND_INT_def
      timer_ok_def)

lemma send_stat_line: "stat_ok s \<Longrightarrow> send_stat s out = Inr (out @ stat_line s)"
  using length_dec_long [of "svalue s"]
  by (auto simp: send_stat_def stat_line_def STREAM_SEND_def STREAM_SEND_LONG_def stat_ok_def)

definition closing :: "config \<Rightarrow> cstring" where
  "closing cfg = MGMT_END @ (if friendly cfg then MGMT_PROMPT else [])"

lemma send_end_closing: "send_end cfg out = Inr (out @ closing cfg)"
  by (simp add: send_end_def send_prompt_def STREAM_SEND_def closing_def)

subsection \<open>Properties\<close>

definition prompt :: "config \<Rightarrow> cstring" where
  "prompt cfg = (if friendly cfg then MGMT_PROMPT else [])"

lemma rfold_overflow:
  assumes "\<And>x out. f x out = Inl Buffer_Overflow \<or> (\<exists>out'. f x out = Inr out')"
    and "x \<in> set xs" and "\<And>out. f x out = Inl Buffer_Overflow"
  shows "rfold f xs out = Inl Buffer_Overflow"
  using assms(2)
proof (induction xs arbitrary: out)
  case (Cons y ys)
  show ?case
  proof (cases "y = x")
    case False
    with assms(1) [of y out] Cons show ?thesis by auto
  qed (simp add: assms(3))
qed simp

lemma mgmt_command_eq:
  assumes "daemon_wf d" and "length buf = MGMT_BUF" and "\<forall>c \<in> set (counters d). printable (cvalue c)"
    and "\<forall>t \<in> set (timers d). \<forall>v \<in> set (tvalues t). printable v"
  shows "mgmt_command cfg d buf = Inr (
      if command_is buf ''help'' then (MGMT_HELP @ prompt cfg, False)
      else if command_is buf ''counters'' then (concat (map counter_line (counters d)) @ closing cfg, False)
      else if command_is buf ''timers'' then (concat (map timer_line (timers d)) @ closing cfg, False)
      else if command_is buf ''stats'' then (concat (map stat_line (stats d)) @ closing cfg, False)
      else if command_is buf ''quit'' then ([], True)
      else (MGMT_BADCOMMAND @ prompt cfg, False))"
proof -
  have "rfold send_counter (counters d) [] = Inr ([] @ concat (map counter_line (counters d)))"
    using assms(3) by (intro rfold_text) (simp add: send_counter_line)
  moreover have "rfold send_timer (timers d) [] = Inr ([] @ concat (map timer_line (timers d)))"
    using assms(4) daemon_wfD(4) [OF assms(1)] by (intro rfold_text send_timer_line) (auto simp: table_ok_def)
  moreover have "rfold send_stat (stats d) [] = Inr ([] @ concat (map stat_line (stats d)))"
    using daemon_wfD(1) [OF assms(1)] by (intro rfold_text send_stat_line) (auto simp: table_ok_def)
  ultimately show ?thesis
    by (simp add: mgmt_command_def command_tests [OF assms(2)] send_end_closing send_prompt_def
        STREAM_SEND_def prompt_def)
qed

text \<open>
  C24: on well-formed tables whose values are printable in 32 bytes, the management port answers
  \<^verbatim>\<open>counters\<close>, \<^verbatim>\<open>timers\<close> and \<^verbatim>\<open>stats\<close>, in
  any case and with anything after the word, with one line per entry in the order of the table
  and the end mark, \<^verbatim>\<open>help\<close> with its text, \<^verbatim>\<open>quit\<close> by closing,
  and anything else with an error; the values of a timer run together after one comma.
\<close>

theorem mgmt_command_answers:
  assumes "daemon_wf d" and "length buf = MGMT_BUF" and "\<forall>c \<in> set (counters d). printable (cvalue c)"
    and "\<forall>t \<in> set (timers d). \<forall>v \<in> set (tvalues t). printable v"
  shows "mgmt_command cfg d buf = Inr (
      if command_is buf ''help'' then (MGMT_HELP @ prompt cfg, False)
      else if command_is buf ''counters'' then (concat (map counter_line (counters d)) @ closing cfg, False)
      else if command_is buf ''timers'' then (concat (map timer_line (timers d)) @ closing cfg, False)
      else if command_is buf ''stats'' then (concat (map stat_line (stats d)) @ closing cfg, False)
      else if command_is buf ''quit'' then ([], True)
      else (MGMT_BADCOMMAND @ prompt cfg, False))"
  using assms by (rule mgmt_command_eq)

definition sample_buf :: "char list \<Rightarrow> char list" where
  "sample_buf data = mgmt_recv data (replicate MGMT_BUF (CHR 0x00))"

lemma sample_buf:
  "length (sample_buf data) = MGMT_BUF"
  "length cmd \<le> length data \<Longrightarrow> length data \<le> MGMT_BUF \<Longrightarrow>
   command_is (sample_buf data) cmd = (map tolower (take (length cmd) data) = cmd)"
  by (simp_all add: sample_buf_def length_mgmt_recv command_is_def mgmt_recv_def)

theorem mgmt_command_answers_witness:
  "mgmt_command config_init daemon_init (sample_buf ''COUNTERSx'') = Inr (MGMT_END, False)"
proof -
  have "\<not> command_is (sample_buf ''COUNTERSx'') ''help''" "command_is (sample_buf ''COUNTERSx'') ''counters''"
    by (subst sample_buf(2), simp, simp add: MGMT_BUF_def, code_simp)+
  with mgmt_command_answers [OF daemon_wf_init sample_buf(1), of config_init "''COUNTERSx''"] show ?thesis
    by (simp add: daemon_init_def closing_def config_init_def)
qed

text \<open>
  A counter of magnitude \<open>10 ^ 24\<close> or more makes the command
  \<^verbatim>\<open>counters\<close> overrun the 32 bytes it prints a value into.
\<close>

theorem mgmt_counters_overruns:
  assumes "length buf = MGMT_BUF" and "command_is buf ''counters''" and "c \<in> set (counters d)"
    and "cvalue c = Fin q" and "10 ^ 24 \<le> \<bar>q\<bar>"
  shows "mgmt_command cfg d buf = Inl Buffer_Overflow"
proof -
  have "\<not> command_is buf ''help''" using command_disjoint [OF _ assms(2), of "''help''"] by auto
  moreover have "\<not> length (fmt_f (cvalue c)) < 32"
    using length_fmt_f_ge [of 24 q] assms(4,5) by (simp del: fmt_f.simps)
  then have "rfold send_counter (counters d) [] = Inl Buffer_Overflow"
    using assms(3) by (intro rfold_overflow [of send_counter c])
      (auto simp: send_counter_def STREAM_SEND_def STREAM_SEND_LONG_DOUBLE_def strcpy_buf_def)
  ultimately show ?thesis
    using assms(2) by (simp add: mgmt_command_def command_tests [OF assms(1)])
qed

theorem mgmt_counters_overruns_witness:
  "mgmt_command config_init (daemon_init\<lparr>counters := [\<lparr>ckey = ''a'', cvalue = Fin (2 ^ 80)\<rparr>]\<rparr>)
     (sample_buf ''counters'') = Inl Buffer_Overflow"
proof (rule mgmt_counters_overruns [OF sample_buf(1), where q = "2 ^ 80"
      and c = "\<lparr>ckey = ''a'', cvalue = Fin (2 ^ 80)\<rparr>"])
  show "command_is (sample_buf ''counters'') ''counters''"
    by (subst sample_buf(2), simp, simp add: MGMT_BUF_def, code_simp)
qed simp_all

text \<open>
  Data that is an initial part of what was received before it is answered as that was: the
  buffer is not terminated or cleared, so what it held decides the command.
\<close>

theorem mgmt_stale_buffer:
  assumes "length (mbuf st) = MGMT_BUF" and "length (data @ rest) \<le> MGMT_BUF"
    and "mgmt_event cfg d (Data fd (data @ rest)) st = Inr st1"
    and "mgmt_event cfg d (Data fd' data) st1 = Inr st2"
  shows "\<exists>out. sent st1 = sent st @ [(fd, out)] \<and> sent st2 = sent st1 @ [(fd', out)] \<and> mbuf st2 = mbuf st1"
proof -
  let ?b = "mgmt_recv (data @ rest) (mbuf st)"
  from assms(3) obtain out q where 1: "mgmt_command cfg d ?b = Inr (out, q)" "mbuf st1 = ?b"
    "sent st1 = sent st @ [(fd, out)]"
    by (auto simp: mgmt_event_def Let_def)
  have "mgmt_recv data ?b = ?b" using assms(2) by (simp add: mgmt_recv_def)
  with assms(4) 1 show ?thesis by (auto simp: mgmt_event_def Let_def)
qed

theorem mgmt_stale_buffer_witness:
  "\<exists>st1 st2 out. mgmt_event config_init daemon_init (Data 7 (''h'' @ ''elp''))
        \<lparr>mbuf = replicate MGMT_BUF (CHR 0x00), master = [7], sent = []\<rparr> = Inr st1
     \<and> mgmt_event config_init daemon_init (Data 7 ''h'') st1 = Inr st2 \<and> sent st2 = [(7, out), (7, out)]"
proof -
  have r: "\<exists>st'. mgmt_event config_init daemon_init (Data fd data) st = Inr st' \<and> length (mbuf st') = MGMT_BUF"
    if "length (mbuf st) = MGMT_BUF" for fd data st
    using mgmt_command_eq [OF daemon_wf_init length_mgmt_recv [OF that], of config_init data]
    by (auto simp: mgmt_event_def Let_def daemon_init_def length_mgmt_recv [OF that] split: prod.splits)
  let ?st = "\<lparr>mbuf = replicate MGMT_BUF (CHR 0x00), master = [7], sent = []\<rparr>"
  obtain st1 where 1: "mgmt_event config_init daemon_init (Data 7 (''h'' @ ''elp'')) ?st = Inr st1"
    "length (mbuf st1) = MGMT_BUF" using r [of ?st] by auto
  obtain st2 where 2: "mgmt_event config_init daemon_init (Data 7 ''h'') st1 = Inr st2"
    using r [OF 1(2)] by blast
  from mgmt_stale_buffer [OF _ _ 1(1) 2] 1(1) 2 show ?thesis by (auto simp: MGMT_BUF_def)
qed

end
