(* ===== verification/Gmetric.thy ===== *)
theory Gmetric
  imports Prelude
begin

text \<open>
  \<^verbatim>\<open>src/embeddedgmetric/embeddedgmetric.c\<close>: the messages sent to Ganglia. The XDR
  routines are those of the system's RPC library, so an encoder is the record
  \<^verbatim>\<open>xdr_codec\<close>, a parameter of the definitions: what \<^verbatim>\<open>xdr_u_int\<close>
  and \<^verbatim>\<open>xdr_string\<close> put in the stream, where the second may refuse a null
  pointer. \<^verbatim>\<open>xdr_laws\<close> states what RFC 4506 documents of them, in the form of the
  decoders that read them back. The memory stream is the list of the bytes written so far; an
  operation that does not fit in what is left of the buffer fails. Sockets are parameters too:
  \<^verbatim>\<open>sendto\<close> is a function of the datagram.

  The lemmas: what each message holds, by decoding it; when it fits in the buffer; how many
  datagrams \<^verbatim>\<open>gmetric_send\<close> sends.
\<close>

datatype gmetric_value_t = GMETRIC_VALUE_UNKNOWN | GMETRIC_VALUE_STRING
  | GMETRIC_VALUE_UNSIGNED_SHORT | GMETRIC_VALUE_SHORT | GMETRIC_VALUE_UNSIGNED_INT
  | GMETRIC_VALUE_INT | GMETRIC_VALUE_FLOAT | GMETRIC_VALUE_DOUBLE

fun gmetric_value_code :: "gmetric_value_t \<Rightarrow> nat" where
  "gmetric_value_code GMETRIC_VALUE_UNKNOWN = 0"
| "gmetric_value_code GMETRIC_VALUE_STRING = 1"
| "gmetric_value_code GMETRIC_VALUE_UNSIGNED_SHORT = 2"
| "gmetric_value_code GMETRIC_VALUE_SHORT = 3"
| "gmetric_value_code GMETRIC_VALUE_UNSIGNED_INT = 4"
| "gmetric_value_code GMETRIC_VALUE_INT = 5"
| "gmetric_value_code GMETRIC_VALUE_FLOAT = 6"
| "gmetric_value_code GMETRIC_VALUE_DOUBLE = 7"

datatype gmetric_slope_t = GMETRIC_SLOPE_ZERO | GMETRIC_SLOPE_POSITIVE | GMETRIC_SLOPE_NEGATIVE
  | GMETRIC_SLOPE_BOTH | GMETRIC_SLOPE_UNSPECIFIED

fun gmetric_slope_code :: "gmetric_slope_t \<Rightarrow> nat" where
  "gmetric_slope_code GMETRIC_SLOPE_ZERO = 0"
| "gmetric_slope_code GMETRIC_SLOPE_POSITIVE = 1"
| "gmetric_slope_code GMETRIC_SLOPE_NEGATIVE = 2"
| "gmetric_slope_code GMETRIC_SLOPE_BOTH = 3"
| "gmetric_slope_code GMETRIC_SLOPE_UNSPECIFIED = 4"

datatype gmetric_format_t = GMETRIC_FORMAT_25 | GMETRIC_FORMAT_31

text \<open>The message. A \<^verbatim>\<open>const char *\<close> may be null; of the union
  \<^verbatim>\<open>value\<close> the code reads \<^verbatim>\<open>v_string\<close> only.\<close>

record gmetric_message_t =
  mtype :: gmetric_value_t
  format :: gmetric_format_t
  hostname :: "cstring option"
  spoof :: nat
  mname :: "cstring option"
  mgroup :: "cstring option"
  units :: "cstring option"
  typestr :: "cstring option"
  slope :: gmetric_slope_t
  tmax :: nat
  dmax :: nat
  v_string :: "cstring option"

definition GMETRIC_MAX_MESSAGE_LEN :: nat where "GMETRIC_MAX_MESSAGE_LEN = 1024"

definition typestrings :: "cstring list" where
  "typestrings = ['''', ''string'', ''uint16'', ''int16'', ''uint32'', ''int32'', ''float'',
                  ''double'', ''timestamp'']"

subsection \<open>XDR streams\<close>

record xdr_codec =
  xdr_u_int :: "nat \<Rightarrow> char list"
  xdr_string :: "cstring option \<Rightarrow> char list option"

text \<open>\<^verbatim>\<open>xdr_bool\<close> puts one of the two values of RFC 4506.\<close>

definition xdr_bool :: "xdr_codec \<Rightarrow> nat \<Rightarrow> char list" where
  "xdr_bool X b = xdr_u_int X (if b = 0 then 0 else 1)"

definition xdr_put :: "nat \<Rightarrow> char list option \<Rightarrow> char list \<Rightarrow> char list option" where
  "xdr_put len chunk buf = (case chunk of
       None \<Rightarrow> None
     | Some c \<Rightarrow> if length buf + length c \<le> len then Some (buf @ c) else None)"

fun xdr_all :: "nat \<Rightarrow> char list option list \<Rightarrow> char list \<Rightarrow> char list option" where
  "xdr_all len [] buf = Some buf"
| "xdr_all len (c # cs) buf = Option.bind (xdr_put len c buf) (xdr_all len cs)"

text \<open>The type string of a message: the one it brings when that is not empty.\<close>

definition message_typestr :: "gmetric_message_t \<Rightarrow> cstring option" where
  "message_typestr msg = (case typestr msg of
       None \<Rightarrow> Some (typestrings ! gmetric_value_code (mtype msg))
     | Some s \<Rightarrow> if s \<noteq> [] then Some s else Some (typestrings ! gmetric_value_code (mtype msg)))"

text \<open>The three encoders: each is a sequence of puts that returns \<^verbatim>\<open>-1\<close>
  (here None) at the first that fails, and the length of the stream otherwise.\<close>

definition gmetric_message_create_xdr ::
    "xdr_codec \<Rightarrow> nat \<Rightarrow> gmetric_message_t \<Rightarrow> char list option" where
  "gmetric_message_create_xdr X len msg =
     xdr_all len [Some (xdr_u_int X 0), xdr_string X (message_typestr msg), xdr_string X (mname msg),
                  xdr_string X (v_string msg), xdr_string X (units msg),
                  Some (xdr_u_int X (gmetric_slope_code (slope msg))),
                  Some (xdr_u_int X (tmax msg)), Some (xdr_u_int X (dmax msg))] []"

definition gmetadata_message_create_xdr ::
    "xdr_codec \<Rightarrow> nat \<Rightarrow> gmetric_message_t \<Rightarrow> char list option" where
  "gmetadata_message_create_xdr X len msg =
     xdr_all len ([Some (xdr_u_int X 128), xdr_string X (hostname msg), xdr_string X (mname msg),
                   Some (xdr_bool X (spoof msg)), xdr_string X (message_typestr msg),
                   xdr_string X (mname msg), xdr_string X (units msg),
                   Some (xdr_u_int X (gmetric_slope_code (slope msg))),
                   Some (xdr_u_int X (tmax msg)), Some (xdr_u_int X (dmax msg))] @
                  (if mgroup msg = None \<or> mgroup msg = Some []
                   then [Some (xdr_u_int X 0)]
                   else [Some (xdr_u_int X 1), xdr_string X (Some ''GROUP''), xdr_string X (mgroup msg)])) []"

definition gmetric31_message_create_xdr ::
    "xdr_codec \<Rightarrow> nat \<Rightarrow> gmetric_message_t \<Rightarrow> char list option" where
  "gmetric31_message_create_xdr X len msg =
     xdr_all len [Some (xdr_u_int X (128 + gmetric_value_code (mtype msg))), xdr_string X (hostname msg),
                  xdr_string X (mname msg), Some (xdr_bool X (spoof msg)),
                  xdr_string X (Some ''%s''), xdr_string X (v_string msg)] []"

subsection \<open>Sending\<close>

text \<open>\<^verbatim>\<open>sendto\<close> is given the datagram, None when the length is
  \<^verbatim>\<open>-1\<close>, and yields its result. \<^verbatim>\<open>gmetric_send\<close> yields its own
  result and the calls it made.\<close>

type_synonym sendto_fn = "char list option \<Rightarrow> int"

definition gmetric_send_xdr :: "sendto_fn \<Rightarrow> char list option \<Rightarrow> int \<times> char list option list" where
  "gmetric_send_xdr sendto buf = (sendto buf, [buf])"

definition gmetric_send ::
    "xdr_codec \<Rightarrow> sendto_fn \<Rightarrow> gmetric_message_t \<Rightarrow> int \<times> char list option list" where
  "gmetric_send X sendto msg =
     (if format msg = GMETRIC_FORMAT_31 then
        let (result1, out1) = gmetric_send_xdr sendto
              (gmetadata_message_create_xdr X GMETRIC_MAX_MESSAGE_LEN msg)
        in if result1 = -1 then (result1, out1)
           else let (result2, out2) = gmetric_send_xdr sendto
                      (gmetric31_message_create_xdr X GMETRIC_MAX_MESSAGE_LEN msg)
                in (result2, out1 @ out2)
      else gmetric_send_xdr sendto (gmetric_message_create_xdr X GMETRIC_MAX_MESSAGE_LEN msg))"

subsection \<open>The socket of a connection\<close>

text \<open>\<^verbatim>\<open>gmetric_t\<close>: the socket (None for \<^verbatim>\<open>-1\<close>) and the address.
  \<^verbatim>\<open>socket()\<close> and \<^verbatim>\<open>gethostbyname_r\<close> are parameters; closing a
  socket records it.\<close>

record gmetric_t =
  gsock :: "nat option"
  gaddr :: "(nat \<times> int) option"   \<comment> \<open>address and port; None when zeroed\<close>
  closed :: "nat list"

definition gmetric_create :: "gmetric_t \<Rightarrow> gmetric_t" where
  "gmetric_create g = g\<lparr>gaddr := None, gsock := None\<rparr>"

definition gmetric_close :: "gmetric_t \<Rightarrow> gmetric_t" where
  "gmetric_close g = (case gsock g of
       Some s \<Rightarrow> g\<lparr>gsock := None, closed := closed g @ [s]\<rparr>
     | None \<Rightarrow> g\<lparr>gsock := None\<rparr>)"

definition gmetric_open_raw :: "nat option \<Rightarrow> gmetric_t \<Rightarrow> nat \<Rightarrow> int \<Rightarrow> bool \<times> gmetric_t" where
  "gmetric_open_raw socket g ip port =
     (let g = (if gsock g = None then gmetric_close g else g);
          g = g\<lparr>gsock := socket\<rparr>
      in if gsock g = None then (False, g) else (True, g\<lparr>gaddr := Some (ip, port)\<rparr>))"

definition gmetric_open ::
    "nat option \<Rightarrow> (cstring \<Rightarrow> nat option) \<Rightarrow> gmetric_t \<Rightarrow> cstring \<Rightarrow> int \<Rightarrow> bool \<times> gmetric_t" where
  "gmetric_open socket resolve g addr port = (case resolve addr of
       None \<Rightarrow> (False, gmetric_close g)
     | Some ip \<Rightarrow> gmetric_open_raw socket g ip port)"

definition gmetric_message_clear :: gmetric_message_t where
  "gmetric_message_clear = \<lparr>mtype = GMETRIC_VALUE_UNKNOWN, format = GMETRIC_FORMAT_31,
     hostname = Some [], spoof = 0, mname = Some [], mgroup = Some [], units = Some [],
     typestr = Some [], slope = GMETRIC_SLOPE_BOTH, tmax = 60, dmax = 0, v_string = None\<rparr>"

definition null_or_empty :: "cstring option \<Rightarrow> bool" where
  "null_or_empty s \<longleftrightarrow> s = None \<or> s = Some []"

definition gmetric_message_validate :: "gmetric_message_t \<Rightarrow> bool" where
  "gmetric_message_validate msg =
     (if format msg = GMETRIC_FORMAT_31 \<and> null_or_empty (hostname msg) then False
      else if mtype msg = GMETRIC_VALUE_UNKNOWN then False
      else if null_or_empty (mname msg) then False
      else if null_or_empty (units msg) then False
      else if mtype msg = GMETRIC_VALUE_STRING \<and> null_or_empty (v_string msg) then False
      else True)"

subsection \<open>Fields\<close>

datatype xdr_field = XInt nat | XStr cstring

fun put_field :: "xdr_codec \<Rightarrow> xdr_field \<Rightarrow> char list option" where
  "put_field X (XInt n) = Some (xdr_u_int X n)"
| "put_field X (XStr s) = xdr_string X (Some s)"

text \<open>A decoder of the shape of a field list, from readers of one integer and one string.\<close>

type_synonym 'a reader = "char list \<Rightarrow> ('a \<times> char list) option"

fun xdr_decode :: "nat reader \<Rightarrow> cstring reader \<Rightarrow> xdr_field list \<Rightarrow> xdr_field list reader" where
  "xdr_decode ri rs [] b = Some ([], b)"
| "xdr_decode ri rs (XInt _ # fs) b = Option.bind (ri b) (\<lambda>(n, b).
     Option.bind (xdr_decode ri rs fs b) (\<lambda>(l, b). Some (XInt n # l, b)))"
| "xdr_decode ri rs (XStr _ # fs) b = Option.bind (rs b) (\<lambda>(s, b).
     Option.bind (xdr_decode ri rs fs b) (\<lambda>(l, b). Some (XStr s # l, b)))"

text \<open>What RFC 4506 says of the two routines.\<close>

definition xdr_laws :: "xdr_codec \<Rightarrow> nat reader \<Rightarrow> cstring reader \<Rightarrow> bool" where
  "xdr_laws X ri rs \<longleftrightarrow>
     (\<forall>n b. n < 2 ^ 32 \<longrightarrow> ri (xdr_u_int X n @ b) = Some (n, b)) \<and>
     (\<forall>n. length (xdr_u_int X n) = 4) \<and>
     (\<forall>s. \<exists>e. xdr_string X (Some s) = Some e \<and> length e = 4 + 4 * ((length s + 3) div 4) \<and>
        (length s < 2 ^ 32 \<longrightarrow> (\<forall>b. rs (e @ b) = Some (s, b))))"

fun field_fits :: "xdr_field \<Rightarrow> bool" where
  "field_fits (XInt n) \<longleftrightarrow> n < 2 ^ 32"
| "field_fits (XStr s) \<longleftrightarrow> length s < 2 ^ 32"

fun field_size :: "xdr_field \<Rightarrow> nat" where
  "field_size (XInt n) = 4"
| "field_size (XStr s) = 4 + 4 * ((length s + 3) div 4)"

lemma put_field_Some:
  assumes "xdr_laws X ri rs"
  shows "\<exists>e. put_field X f = Some e \<and> length e = field_size f"
  using assms by (cases f) (auto simp: xdr_laws_def)

lemma xdr_all_fields:
  assumes "xdr_laws X ri rs"
  shows "length buf \<le> len \<Longrightarrow> (xdr_all len (map (put_field X) fs) buf \<noteq> None) =
    (length buf + (\<Sum>f\<leftarrow>fs. field_size f) \<le> len)"
proof (induction fs arbitrary: buf)
  case (Cons f fs)
  obtain e where e: "put_field X f = Some e" "length e = field_size f"
    using put_field_Some [OF assms] by blast
  show ?case
  proof (cases "length buf + length e \<le> len")
    case True
    with e Cons.IH [of "buf @ e"] show ?thesis by (simp add: xdr_put_def add.assoc)
  next
    case False
    with e show ?thesis by (simp add: xdr_put_def)
  qed
qed simp

lemma xdr_all_decode:
  assumes "xdr_laws X ri rs" and "\<forall>f \<in> set fs. field_fits f"
    and "xdr_all len (map (put_field X) fs) buf = Some out"
  shows "\<exists>e. out = buf @ e \<and> xdr_decode ri rs fs (e @ b) = Some (fs, b)"
  using assms(2,3)
proof (induction fs arbitrary: buf)
  case (Cons f fs)
  obtain e where e: "put_field X f = Some e" using put_field_Some [OF assms(1)] by blast
  with Cons.prems have o: "xdr_all len (map (put_field X) fs) (buf @ e) = Some out"
    by (auto simp: xdr_put_def split: if_splits)
  from Cons.IH [OF _ this] Cons.prems(1) obtain e'
    where e': "out = (buf @ e) @ e'" "xdr_decode ri rs fs (e' @ b) = Some (fs, b)" by auto
  have "xdr_decode ri rs (f # fs) (e @ e' @ b) = Some (f # fs, b)"
    using e e' assms(1) Cons.prems(1) by (cases f) (force simp: xdr_laws_def)+
  with e'(1) show ?case by auto
qed simp

text \<open>A message whose pointers are all set.\<close>

definition message_set :: "gmetric_message_t \<Rightarrow> bool" where
  "message_set msg \<longleftrightarrow> hostname msg \<noteq> None \<and> mname msg \<noteq> None \<and> units msg \<noteq> None \<and> v_string msg \<noteq> None"

definition metadata_fields :: "gmetric_message_t \<Rightarrow> xdr_field list" where
  "metadata_fields msg =
     [XInt 128, XStr (the (hostname msg)), XStr (the (mname msg)), XInt (if spoof msg = 0 then 0 else 1),
      XStr (the (message_typestr msg)), XStr (the (mname msg)), XStr (the (units msg)),
      XInt (gmetric_slope_code (slope msg)), XInt (tmax msg), XInt (dmax msg)] @
     (case mgroup msg of None \<Rightarrow> [XInt 0]
      | Some g \<Rightarrow> if g = [] then [XInt 0] else [XInt 1, XStr ''GROUP'', XStr g])"

definition value_fields :: "gmetric_message_t \<Rightarrow> xdr_field list" where
  "value_fields msg =
     [XInt (128 + gmetric_value_code (mtype msg)), XStr (the (hostname msg)), XStr (the (mname msg)),
      XInt (if spoof msg = 0 then 0 else 1), XStr ''%s'', XStr (the (v_string msg))]"

lemma message_typestr_Some: "\<exists>s. message_typestr msg = Some s"
  by (auto simp: message_typestr_def split: option.splits)

lemma gmetadata_fields:
  "message_set msg \<Longrightarrow>
   gmetadata_message_create_xdr X len msg = xdr_all len (map (put_field X) (metadata_fields msg)) []"
  using message_typestr_Some [of msg]
  by (auto simp: gmetadata_message_create_xdr_def metadata_fields_def message_set_def xdr_bool_def
      split: option.splits)

lemma gmetric31_fields:
  "message_set msg \<Longrightarrow>
   gmetric31_message_create_xdr X len msg = xdr_all len (map (put_field X) (value_fields msg)) []"
  by (auto simp: gmetric31_message_create_xdr_def value_fields_def message_set_def xdr_bool_def)

definition encoded_size :: "xdr_field list \<Rightarrow> nat" where
  "encoded_size fs = (\<Sum>f\<leftarrow>fs. field_size f)"

subsection \<open>RFC 4506\<close>

text \<open>An instance of the parameter: four bytes, the first the most significant; a string is
  its length, its bytes, and zeros up to a multiple of four.\<close>

definition rfc_u_int :: "nat \<Rightarrow> char list" where
  "rfc_u_int n = map (\<lambda>k. char_of (n div 256 ^ k)) [3, 2, 1, 0]"

definition rfc_string :: "cstring option \<Rightarrow> char list option" where
  "rfc_string s = (case s of None \<Rightarrow> None
     | Some s \<Rightarrow> Some (rfc_u_int (length s) @ s @ replicate (4 * ((length s + 3) div 4) - length s) (CHR 0x00)))"

definition rfc_codec :: xdr_codec where
  "rfc_codec = \<lparr>xdr_u_int = rfc_u_int, xdr_string = rfc_string\<rparr>"

definition rfc_read_int :: "nat reader" where
  "rfc_read_int b = (if length b < 4 then None
     else Some (foldl (\<lambda>n c. 256 * n + char_code c) 0 (take 4 b), drop 4 b))"

definition rfc_read_string :: "cstring reader" where
  "rfc_read_string b = Option.bind (rfc_read_int b) (\<lambda>(n, b).
     let k = 4 * ((n + 3) div 4) in if length b < k then None else Some (take n b, drop k b))"

lemma rfc_read_int: "n < 2 ^ 32 \<Longrightarrow> rfc_read_int (rfc_u_int n @ b) = Some (n, b)"
proof -
  assume n: "n < 2 ^ 32"
  let ?a = "n div 256" let ?b = "?a div 256" let ?c = "?b div 256"
  have d: "n div 256 ^ 2 = ?b" "n div 256 ^ 3 = ?c"
    by (simp_all add: div_mult2_eq [symmetric])
  have "?c < 256" using n by (simp add: div_mult2_eq [symmetric] less_mult_imp_div_less)
  then have "256 * (256 * (256 * (?c mod 256) + ?b mod 256) + ?a mod 256) + n mod 256 = n"
    by simp
  then show ?thesis
    using d by (simp add: rfc_read_int_def rfc_u_int_def char_code_def)
qed

lemma length_rfc_u_int: "length (rfc_u_int n) = 4"
  by (simp add: rfc_u_int_def)

lemma rfc_laws: "xdr_laws rfc_codec rfc_read_int rfc_read_string"
proof -
  have p: "length s \<le> 4 * ((length s + 3) div 4)" for s :: cstring by presburger
  have "\<exists>e. rfc_string (Some s) = Some e \<and> length e = 4 + 4 * ((length s + 3) div 4) \<and>
    (length s < 2 ^ 32 \<longrightarrow> (\<forall>b. rfc_read_string (e @ b) = Some (s, b)))" for s
    using p [of s]
    by (intro exI [of _ "rfc_u_int (length s) @ s @
          replicate (4 * ((length s + 3) div 4) - length s) (CHR 0x00)"])
      (auto simp: rfc_string_def rfc_read_string_def rfc_read_int length_rfc_u_int Let_def)
  then show ?thesis
    by (simp add: xdr_laws_def rfc_codec_def rfc_read_int length_rfc_u_int)
qed

subsection \<open>Properties\<close>

text \<open>
  C23: with the documented XDR routines, a message for Ganglia 3.1 whose host, name, unit and value
  are set and whose two parts fit in the buffer of 1024 bytes (every number in it below
  \<open>2 ^ 32\<close>) is sent as two datagrams, in this order, when \<^verbatim>\<open>sendto\<close> does not
  fail: the metadata, from which the host, name, spoof flag, type, unit, slope, lifetimes and group
  are read back, and the value, from which the host, the name, the flag and the text of the value are
  read back; the flag reads back as 0 or 1. The result is that of the second.
\<close>

theorem gmetric_send_roundtrip:
  assumes "xdr_laws X ri rs" and "message_set msg" and "format msg = GMETRIC_FORMAT_31"
    and "\<forall>f \<in> set (metadata_fields msg @ value_fields msg). field_fits f"
    and "encoded_size (metadata_fields msg) \<le> 1024" and "encoded_size (value_fields msg) \<le> 1024"
    and "\<forall>b. sendto (Some b) \<noteq> -1"
  shows "\<exists>m v. gmetric_send X sendto msg = (sendto (Some v), [Some m, Some v])
    \<and> xdr_decode ri rs (metadata_fields msg) m = Some (metadata_fields msg, [])
    \<and> xdr_decode ri rs (value_fields msg) v = Some (value_fields msg, [])"
proof -
  from xdr_all_fields [OF assms(1), of "[]" 1024 "metadata_fields msg"] assms(5)
  obtain m where m: "xdr_all 1024 (map (put_field X) (metadata_fields msg)) [] = Some m"
    by (auto simp: encoded_size_def)
  from xdr_all_fields [OF assms(1), of "[]" 1024 "value_fields msg"] assms(6)
  obtain v where v: "xdr_all 1024 (map (put_field X) (value_fields msg)) [] = Some v"
    by (auto simp: encoded_size_def)
  have "gmetric_send X sendto msg = (sendto (Some v), [Some m, Some v])"
    using assms(2,3,7) m v
    by (simp add: gmetric_send_def gmetric_send_xdr_def gmetadata_fields gmetric31_fields
        GMETRIC_MAX_MESSAGE_LEN_def)
  with xdr_all_decode [OF assms(1) _ m, of "[]"] xdr_all_decode [OF assms(1) _ v, of "[]"] assms(4)
  show ?thesis by auto
qed

definition sample_message :: gmetric_message_t where
  "sample_message = gmetric_message_clear\<lparr>mtype := GMETRIC_VALUE_DOUBLE, hostname := Some ''h'',
     mname := Some ''n'', mgroup := Some ''g'', units := Some ''count'', v_string := Some ''1.000000''\<rparr>"

theorem gmetric_send_roundtrip_witness:
  "\<exists>m v. gmetric_send rfc_codec (\<lambda>b. 8) sample_message = (8, [Some m, Some v])
    \<and> xdr_decode rfc_read_int rfc_read_string (value_fields sample_message) v
        = Some (value_fields sample_message, [])"
  using gmetric_send_roundtrip [OF rfc_laws, of sample_message "\<lambda>b. 8"]
  by (auto simp: sample_message_def gmetric_message_clear_def message_set_def metadata_fields_def
      value_fields_def message_typestr_def encoded_size_def typestrings_def)

text \<open>
  When the metadata does not fit in the buffer, \<^verbatim>\<open>gmetric_send\<close> does not look
  at the \<^verbatim>\<open>-1\<close> of the encoder: it makes one call of \<^verbatim>\<open>sendto\<close>, with
  that as the length, and the value is never sent once that call fails.
\<close>

theorem gmetric_send_too_long:
  assumes "xdr_laws X ri rs" and "message_set msg" and "format msg = GMETRIC_FORMAT_31"
    and "1024 < encoded_size (metadata_fields msg)" and "sendto None = -1"
  shows "gmetric_send X sendto msg = (-1, [None])"
proof -
  have "xdr_all 1024 (map (put_field X) (metadata_fields msg)) [] = None"
    using xdr_all_fields [OF assms(1), of "[]" 1024 "metadata_fields msg"] assms(4)
    by (auto simp: encoded_size_def)
  then show ?thesis
    using assms(2,3,5)
    by (simp add: gmetric_send_def gmetric_send_xdr_def gmetadata_fields GMETRIC_MAX_MESSAGE_LEN_def)
qed

theorem gmetric_send_too_long_witness:
  "gmetric_send rfc_codec (\<lambda>b. -1) (sample_message\<lparr>units := Some (replicate 2000 (CHR ''x''))\<rparr>) = (-1, [None])"
  by (rule gmetric_send_too_long [OF rfc_laws])
    (simp_all add: sample_message_def gmetric_message_clear_def message_set_def metadata_fields_def
      message_typestr_def encoded_size_def typestrings_def)

text \<open>A connection that is open when it is opened again is not closed first: the test of
  \<^verbatim>\<open>gmetric_open_raw\<close> is inverted, and the old socket is lost.\<close>

lemma gmetric_open_raw_leaks:
  "gsock g = Some s \<Longrightarrow> closed (snd (gmetric_open_raw socket g ip port)) = closed g"
  by (simp add: gmetric_open_raw_def Let_def)

end
