(* ===== verification/Flush.thy ===== *)
theory Flush
  imports Stats Sanitize Options Gmetric
begin

text \<open>
  One turn of the flush thread (\<^verbatim>\<open>p_thread_flush\<close> of \<^verbatim>\<open>statsd.c\<close>)
  with the macros \<^verbatim>\<open>SEND_GMETRIC_DOUBLE\<close> and \<^verbatim>\<open>SEND_GMETRIC_INT\<close>
  of \<^verbatim>\<open>statsd.h\<close>: the counters, the timers, the gauges, the totals, then the
  Graphite text. \<^verbatim>\<open>flush_state\<close> holds the daemon, the text
  \<^verbatim>\<open>statString\<close> so far, the messages given to \<^verbatim>\<open>gmetric_send\<close> and
  the number of metrics; \<^verbatim>\<open>flush_env\<close> is what the system calls of the turn
  return: the two readings of the clock, and whether Ganglia and Graphite could be reached.

  The thread runs here without another between its steps; \<^verbatim>\<open>FlushRace\<close> is about
  the interleaving. The lemmas: the statistics of a timer against the list of its values, what
  each loop leaves in the tables, the text it writes, and which values make it fault.
\<close>

record flush_env =
  ts :: int
  gmetric_open_ok :: bool
  graphite_ok :: bool       \<comment> \<open>\<^verbatim>\<open>inet_pton\<close> and \<^verbatim>\<open>socket\<close> succeed\<close>
  flush_ts :: int           \<comment> \<open>\<^verbatim>\<open>time(NULL)\<close> after the text is sent\<close>

record flush_state =
  fdaemon :: daemon
  statString :: cstring
  gmsgs :: "gmetric_message_t list"
  numStats :: int

subsection \<open>Sending to Ganglia\<close>

definition gmetric_lifetime :: "config \<Rightarrow> nat" where
  "gmetric_lifetime cfg = nat ((flush_interval cfg + 10) mod 2 ^ 32)"

definition gmetric_message_of ::
    "config \<Rightarrow> gmetric_value_t \<Rightarrow> cstring \<Rightarrow> cstring \<Rightarrow> cstring \<Rightarrow> cstring \<Rightarrow> gmetric_message_t" where
  "gmetric_message_of cfg ty grp nm val un =
     \<lparr>mtype = ty, format = GMETRIC_FORMAT_31, hostname = ganglia_spoof cfg, spoof = 1,
      mname = Some nm, mgroup = Some grp, units = Some un, typestr = None,
      slope = GMETRIC_SLOPE_BOTH, tmax = gmetric_lifetime cfg, dmax = gmetric_lifetime cfg,
      v_string = Some val\<rparr>"

definition SEND_GMETRIC_DOUBLE ::
    "config \<Rightarrow> cstring \<Rightarrow> cstring \<Rightarrow> fp \<Rightarrow> cstring \<Rightarrow> flush_state \<Rightarrow> flush_state res" where
  "SEND_GMETRIC_DOUBLE cfg grp nm v un s =
     rbind (strcpy_buf 30 (fmt_f v)) (\<lambda>mystringvalue.
     Inr (s\<lparr>gmsgs := gmsgs s @ [gmetric_message_of cfg GMETRIC_VALUE_DOUBLE grp nm mystringvalue un]\<rparr>))"

definition SEND_GMETRIC_INT ::
    "config \<Rightarrow> cstring \<Rightarrow> cstring \<Rightarrow> int \<Rightarrow> cstring \<Rightarrow> flush_state \<Rightarrow> flush_state res" where
  "SEND_GMETRIC_INT cfg grp nm v un s =
     rbind (strcpy_buf 30 (dec_of_int v)) (\<lambda>mystringvalue.
     Inr (s\<lparr>gmsgs := gmsgs s @ [gmetric_message_of cfg GMETRIC_VALUE_INT grp nm mystringvalue un]\<rparr>))"

definition when_enabled :: "bool \<Rightarrow> ('s \<Rightarrow> 's res) \<Rightarrow> 's \<Rightarrow> 's res" where
  "when_enabled b f s = (if b then f s else Inr s)"

definition put_text :: "cstring \<Rightarrow> flush_state \<Rightarrow> flush_state" where
  "put_text t s = s\<lparr>statString := statString s @ t\<rparr>"

definition NL :: string where "NL = [CHR 0x0A]"

definition metric_line :: "cstring \<Rightarrow> cstring \<Rightarrow> int \<Rightarrow> cstring" where
  "metric_line nm val t = nm @ '' '' @ val @ '' '' @ dec_of_int t @ NL"

definition count_stat :: "flush_state \<Rightarrow> flush_state res" where
  "count_stat s = rbind (inc_int (numStats s)) (\<lambda>n. Inr (s\<lparr>numStats := n\<rparr>))"

subsection \<open>Counters\<close>

definition prefixed :: "config \<Rightarrow> cstring \<Rightarrow> cstring" where
  "prefixed cfg k = (case ganglia_metric_prefix cfg of Some p \<Rightarrow> p @ k | None \<Rightarrow> k)"

definition clear_counter :: "nat \<Rightarrow> daemon \<Rightarrow> daemon res" where
  "clear_counter i d =
     rbind (wait_for_counters_lock d) (\<lambda>d.
     Inr (remove_counters_lock
       (d\<lparr>counters := hash_put i ((counters d ! i)\<lparr>cvalue := Fin 0\<rparr>) (counters d)\<rparr>)))"

definition flush_counter :: "config \<Rightarrow> flush_env \<Rightarrow> nat \<Rightarrow> flush_state \<Rightarrow> flush_state res" where
  "flush_counter cfg env i s =
     (let c = counters (fdaemon s) ! i;
          val = fp_div x87ext (cvalue c) (fp_of_int x87ext (flush_interval cfg));
          s = (if enable_graphite cfg
               then put_text (metric_line (''stats.'' @ ckey c) (fmt_f val) (ts env) @
                              metric_line (''stats_counts_'' @ ckey c) (fmt_f (cvalue c)) (ts env)) s
               else s)
      in rbind (when_enabled (enable_gmetric cfg) (\<lambda>s.
            rbind (SEND_GMETRIC_DOUBLE cfg (prefixed cfg (ckey c)) (prefixed cfg (ckey c)) val ''count'' s)
              (SEND_GMETRIC_DOUBLE cfg (ckey c) (ckey c) (cvalue c) ''count'')) s) (\<lambda>s.
         rbind (clear_counter i (fdaemon s)) (\<lambda>d.
         count_stat (s\<lparr>fdaemon := d\<rparr>))))"

definition flush_counters :: "config \<Rightarrow> flush_env \<Rightarrow> flush_state \<Rightarrow> flush_state res" where
  "flush_counters cfg env s = rfold (flush_counter cfg env) [0..<length (counters (fdaemon s))] s"

subsection \<open>Timers\<close>

definition double_sort :: "fp \<Rightarrow> fp \<Rightarrow> int" where
  "double_sort a b = (if fp_eq a b then 0 else if fp_less a b then -1 else 1)"

text \<open>\<^verbatim>\<open>qsort\<close> with a comparison function; equal elements keep their order, as in
  the merge sort of glibc.\<close>

fun insert_by :: "('a \<Rightarrow> 'a \<Rightarrow> int) \<Rightarrow> 'a \<Rightarrow> 'a list \<Rightarrow> 'a list" where
  "insert_by cmp x [] = [x]"
| "insert_by cmp x (y # ys) = (if cmp x y \<le> 0 then x # y # ys else y # insert_by cmp x ys)"

definition qsort :: "('a \<Rightarrow> 'a \<Rightarrow> int) \<Rightarrow> 'a list \<Rightarrow> 'a list" where
  "qsort cmp xs = foldr (insert_by cmp) xs []"

text \<open>The least byte of a \<^verbatim>\<open>double\<close> in memory, which is its first, as a
  \<^verbatim>\<open>char\<close>: the low bits of its significand, which are zero in an infinity, a zero,
  and the NaN that arithmetic produces.\<close>

definition double_first_byte :: "fp \<Rightarrow> int" where
  "double_first_byte a = (case a of
       Fin q \<Rightarrow> (let m = \<lfloor>\<bar>q\<bar> / 2 powi ulp_exp binary64 \<bar>q\<bar>\<rfloor> mod 256
                in if m < 128 then m else m - 256)
     | _ \<Rightarrow> 0)"

text \<open>\<^verbatim>\<open>utarray_eltptr(a, j)\<close> yields a \<^verbatim>\<open>char *\<close>, the null
  pointer when the index, converted to \<^verbatim>\<open>unsigned\<close>, is not below the length;
  the code reads one \<^verbatim>\<open>char\<close> through it.\<close>

definition deref_eltptr :: "fp list \<Rightarrow> int \<Rightarrow> int res" where
  "deref_eltptr vs j =
     (let u = nat (j mod 2 ^ 32)
      in if u < length vs then Inr (double_first_byte (vs ! u)) else Inl Null_Deref)"

definition min_max :: "fp list \<Rightarrow> fp \<times> fp" where
  "min_max vs = (case vs of [] \<Rightarrow> (Fin 0, Fin 0)
     | v # vs \<Rightarrow> fold (\<lambda>x (mn, mx). (if fp_less x mn then x else mn, if fp_less mx x then x else mx))
                   vs (v, v))"

definition threshold_index :: "int \<Rightarrow> int \<Rightarrow> int" where
  "threshold_index pct n =
     fp_to_int (fp_mul binary64 (fp_div binary64 (fp_of_int binary64 pct) (Fin 100)) (fp_of_int binary64 n))"

record timer_stats =
  mean :: fp
  upper :: fp
  upper_pct :: fp
  lower :: fp

definition timer_stats :: "int \<Rightarrow> statsd_timer_t \<Rightarrow> timer_stats res" where
  "timer_stats pct t =
     (let vs = tvalues t; (mn, mx) = min_max vs
      in if 1 < tcount t then
           rbind (deref_eltptr vs (threshold_index pct (tcount t) - 1)) (\<lambda>b.
           let sum = foldl (fp_add binary64) (Fin 0) (take (nat (tcount t - 1)) vs)
           in Inr \<lparr>mean = fp_div binary64 sum (fp_of_int binary64 (tcount t)), upper = mx,
                   upper_pct = fp_of_int binary64 b, lower = mn\<rparr>)
         else Inr \<lparr>mean = mn, upper = mx, upper_pct = mx, lower = mn\<rparr>)"

definition timer_text :: "cstring \<Rightarrow> int \<Rightarrow> timer_stats \<Rightarrow> int \<Rightarrow> int \<Rightarrow> cstring" where
  "timer_text key pct st n t =
     metric_line (''stats.timers.'' @ key @ ''.mean'') (fmt_f (mean st)) t @
     metric_line (''stats.timers.'' @ key @ ''.upper'') (fmt_f (upper st)) t @
     metric_line (''stats.timers.'' @ key @ ''.upper_'' @ dec_of_int pct) (fmt_f (upper_pct st)) t @
     metric_line (''stats.timers.'' @ key @ ''.lower'') (fmt_f (lower st)) t @
     metric_line (''stats.timers.'' @ key @ ''.count'') (dec_of_int n) t"

definition seconds :: "fp \<Rightarrow> fp" where
  "seconds v = fp_div x87ext v (Fin 1000)"

definition flush_timer :: "config \<Rightarrow> flush_env \<Rightarrow> nat \<Rightarrow> flush_state \<Rightarrow> flush_state res" where
  "flush_timer cfg env i s =
     (let t = timers (fdaemon s) ! i; pct = percentiles cfg ! 0; key = tkey t
      in if 0 < tcount t then
           rbind (wait_for_timers_lock (fdaemon s)) (\<lambda>d.
           rbind (timer_stats pct (t\<lparr>tvalues := qsort double_sort (tvalues t)\<rparr>)) (\<lambda>st.
           let t' = t\<lparr>tvalues := [], tcount := 0\<rparr>;
               d = remove_timers_lock (d\<lparr>timers := hash_put i t' (timers d)\<rparr>);
               s = s\<lparr>fdaemon := d\<rparr>;
               s = (if enable_graphite cfg then put_text (timer_text key pct st (tcount t') (ts env)) s else s)
           in rbind (when_enabled (enable_gmetric cfg) (\<lambda>s.
                rbind (SEND_GMETRIC_DOUBLE cfg key (key @ ''_mean'') (seconds (mean st)) ''sec'' s) (\<lambda>s.
                rbind (SEND_GMETRIC_DOUBLE cfg key (key @ ''_upper'') (seconds (upper st)) ''sec'' s) (\<lambda>s.
                rbind (strcpy_buf (length key + 12) (key @ ''_'' @ dec_of_int pct @ ''th_pct'')) (\<lambda>k.
                rbind (SEND_GMETRIC_DOUBLE cfg key k (seconds (upper_pct st)) ''sec'' s) (\<lambda>s.
                rbind (SEND_GMETRIC_DOUBLE cfg key (key @ ''_lower'') (seconds (lower st)) ''sec'' s) (\<lambda>s.
                SEND_GMETRIC_INT cfg key (key @ ''_count'') (tcount t') ''count'' s)))))) s)
              count_stat))
         else count_stat s)"

definition flush_timers :: "config \<Rightarrow> flush_env \<Rightarrow> flush_state \<Rightarrow> flush_state res" where
  "flush_timers cfg env s = rfold (flush_timer cfg env) [0..<length (timers (fdaemon s))] s"

subsection \<open>Gauges\<close>

definition flush_gauge :: "config \<Rightarrow> flush_env \<Rightarrow> nat \<Rightarrow> flush_state \<Rightarrow> flush_state res" where
  "flush_gauge cfg env i s =
     (let g = gauges (fdaemon s) ! i;
          s = (if enable_graphite cfg
               then put_text (metric_line (''stats.'' @ gkey g) (fmt_f (gvalue g)) (ts env) @
                              metric_line (''stats_gauges_'' @ gkey g) (fmt_f (gvalue g)) (ts env)) s
               else s)
      in rbind (when_enabled (enable_gmetric cfg) (\<lambda>s.
            rbind (SEND_GMETRIC_DOUBLE cfg (prefixed cfg (gkey g)) (prefixed cfg (gkey g)) (gvalue g) ''gauge'' s)
              (SEND_GMETRIC_DOUBLE cfg (gkey g) (gkey g) (gvalue g) ''gauge'')) s) count_stat)"

definition flush_gauges :: "config \<Rightarrow> flush_env \<Rightarrow> flush_state \<Rightarrow> flush_state res" where
  "flush_gauges cfg env s = rfold (flush_gauge cfg env) [0..<length (gauges (fdaemon s))] s"

subsection \<open>The turn\<close>

definition flush_totals :: "config \<Rightarrow> flush_env \<Rightarrow> flush_state \<Rightarrow> flush_state res" where
  "flush_totals cfg env s =
     (let s = (if enable_graphite cfg
               then put_text (metric_line ''statsd.numStats'' (dec_of_int (numStats s)) (ts env)) s else s)
      in when_enabled (enable_gmetric cfg)
           (SEND_GMETRIC_INT cfg ''statsd'' ''statsd_numstats_collected'' (numStats s) ''count'') s)"

text \<open>The text that is sent to Graphite is None when the host could not be reached; the time of
  the last flush is noted only when it was.\<close>

definition flush_graphite :: "config \<Rightarrow> flush_env \<Rightarrow> flush_state \<Rightarrow> (cstring option \<times> flush_state) res" where
  "flush_graphite cfg env s =
     (if enable_graphite cfg \<and> graphite_ok env then
        rbind (strcpy_buf 12 (dec_of_int (flush_ts env))) (\<lambda>flush_time.
        rbind (update_stat ''graphite'' ''last_flush'' flush_time (fdaemon s)) (\<lambda>d.
        Inr (Some (statString s), s\<lparr>fdaemon := d\<rparr>)))
      else Inr (None, s))"

definition flush_cycle ::
    "config \<Rightarrow> flush_env \<Rightarrow> daemon \<Rightarrow> (config \<times> cstring option \<times> flush_state) res" where
  "flush_cycle cfg env d =
     (let cfg = (if enable_gmetric cfg \<and> \<not> gmetric_open_ok env then cfg\<lparr>enable_gmetric := False\<rparr> else cfg);
          s = \<lparr>fdaemon = d, statString = [], gmsgs = [], numStats = 0\<rparr>
      in rbind (ltoa (ts env)) (\<lambda>ts_string.
         rbind (flush_counters cfg env s) (\<lambda>s.
         rbind (flush_timers cfg env s) (\<lambda>s.
         rbind (flush_gauges cfg env s) (\<lambda>s.
         rbind (flush_totals cfg env s) (\<lambda>s.
         rbind (flush_graphite cfg env s) (\<lambda>(out, s). Inr (cfg, out, s))))))))"

text \<open>The log lines of \<^verbatim>\<open>dump_stats\<close>, with which a turn starts.\<close>

definition dump_stats :: "config \<Rightarrow> daemon \<Rightarrow> cstring list" where
  "dump_stats cfg d = (if debug cfg then
      [''Stats dump:''] @
      map (\<lambda>s. group_name (sname s) @ ''.'' @ key_name (sname s) @ '': '' @ dec_of_int (svalue s)) (stats d) @
      [''Counters dump:''] @ map (\<lambda>c. ckey c @ '': '' @ fmt_f (cvalue c)) (counters d) @
      [''Gauges dump:''] @ map (\<lambda>g. gkey g @ '': '' @ fmt_f (gvalue g)) (gauges d)
    else [])"

subsection \<open>The counters loop\<close>

definition counter_rate :: "config \<Rightarrow> statsd_counter_t \<Rightarrow> fp" where
  "counter_rate cfg c = fp_div x87ext (cvalue c) (fp_of_int x87ext (flush_interval cfg))"

definition counter_text :: "config \<Rightarrow> int \<Rightarrow> statsd_counter_t \<Rightarrow> cstring" where
  "counter_text cfg t c =
     (if enable_graphite cfg
      then metric_line (''stats.'' @ ckey c) (fmt_f (counter_rate cfg c)) t @
           metric_line (''stats_counts_'' @ ckey c) (fmt_f (cvalue c)) t
      else [])"

definition double_msg :: "config \<Rightarrow> cstring \<Rightarrow> cstring \<Rightarrow> fp \<Rightarrow> cstring \<Rightarrow> gmetric_message_t" where
  "double_msg cfg grp nm v un = gmetric_message_of cfg GMETRIC_VALUE_DOUBLE grp nm (fmt_f v) un"

definition counter_msgs :: "config \<Rightarrow> statsd_counter_t \<Rightarrow> gmetric_message_t list" where
  "counter_msgs cfg c =
     (if enable_gmetric cfg
      then [double_msg cfg (prefixed cfg (ckey c)) (prefixed cfg (ckey c)) (counter_rate cfg c) ''count'',
            double_msg cfg (ckey c) (ckey c) (cvalue c) ''count'']
      else [])"

text \<open>A value whose text fits in the buffer of the macros.\<close>

definition sendable :: "fp \<Rightarrow> bool" where
  "sendable v \<longleftrightarrow> length (fmt_f v) < 30"

definition counter_sendable :: "config \<Rightarrow> statsd_counter_t \<Rightarrow> bool" where
  "counter_sendable cfg c \<longleftrightarrow>
     (enable_gmetric cfg \<longrightarrow> sendable (counter_rate cfg c) \<and> sendable (cvalue c))"

lemma SEND_GMETRIC_DOUBLE_ok:
  "sendable v \<Longrightarrow> SEND_GMETRIC_DOUBLE cfg grp nm v un s = Inr (s\<lparr>gmsgs := gmsgs s @ [double_msg cfg grp nm v un]\<rparr>)"
  by (simp add: SEND_GMETRIC_DOUBLE_def sendable_def double_msg_def)

lemma flush_counter_eq:
  assumes "0 < counters_lock (fdaemon s)" and "counter_sendable cfg (counters (fdaemon s) ! i)"
    and "numStats s < INT_MAX"
  shows "flush_counter cfg env i s =
    (let c = counters (fdaemon s) ! i
     in Inr (s\<lparr>fdaemon := (fdaemon s)\<lparr>counters := (counters (fdaemon s))[i := c\<lparr>cvalue := Fin 0\<rparr>]\<rparr>,
               statString := statString s @ counter_text cfg (ts env) c,
               gmsgs := gmsgs s @ counter_msgs cfg c, numStats := numStats s + 1\<rparr>))"
  using assms
  by (simp add: flush_counter_def when_enabled_def counter_sendable_def counter_text_def counter_msgs_def
      counter_rate_def [symmetric] SEND_GMETRIC_DOUBLE_ok clear_counter_def lock_defs sem_wait_pos
      hash_put_def count_stat_def inc_int_def put_text_def Let_def)

text \<open>The state after the first \<open>n\<close> counters.\<close>

definition counters_done :: "config \<Rightarrow> int \<Rightarrow> flush_state \<Rightarrow> nat \<Rightarrow> flush_state" where
  "counters_done cfg t s n =
     (let d = fdaemon s; cs = take n (counters d)
      in s\<lparr>fdaemon := d\<lparr>counters := map (\<lambda>c. c\<lparr>cvalue := Fin 0\<rparr>) cs @ drop n (counters d)\<rparr>,
           statString := statString s @ concat (map (counter_text cfg t) cs),
           gmsgs := gmsgs s @ concat (map (counter_msgs cfg) cs), numStats := numStats s + int n\<rparr>)"

lemma flush_counter_done:
  assumes "0 < counters_lock (fdaemon s)" and "\<forall>c \<in> set (counters (fdaemon s)). counter_sendable cfg c"
    and "numStats s + int (length (counters (fdaemon s))) \<le> INT_MAX" and "n < length (counters (fdaemon s))"
  shows "flush_counter cfg env n (counters_done cfg (ts env) s n) = Inr (counters_done cfg (ts env) s (Suc n))"
proof -
  let ?cs = "counters (fdaemon s)" and ?s = "counters_done cfg (ts env) s n"
  have c: "counters (fdaemon ?s) ! n = ?cs ! n"
    using assms(4) by (simp add: counters_done_def Let_def nth_append)
  have u: "(counters (fdaemon ?s))[n := (?cs ! n)\<lparr>cvalue := Fin 0\<rparr>] =
      map (\<lambda>c. c\<lparr>cvalue := Fin 0\<rparr>) (take (Suc n) ?cs) @ drop (Suc n) ?cs"
    using list_update_prefix [OF assms(4)] by (simp add: counters_done_def Let_def)
  have "flush_counter cfg env n ?s = (let c = ?cs ! n in
      Inr (?s\<lparr>fdaemon := (fdaemon ?s)\<lparr>counters := (counters (fdaemon ?s))[n := c\<lparr>cvalue := Fin 0\<rparr>]\<rparr>,
               statString := statString ?s @ counter_text cfg (ts env) c,
               gmsgs := gmsgs ?s @ counter_msgs cfg c, numStats := numStats ?s + 1\<rparr>))"
    using assms by (subst flush_counter_eq) (simp_all only: c, auto simp: counters_done_def Let_def)
  also have "\<dots> = Inr (counters_done cfg (ts env) s (Suc n))"
    unfolding Let_def u using assms(4)
    by (simp add: counters_done_def Let_def take_Suc_conv_app_nth)
  finally show ?thesis .
qed

lemma flush_counters_eq:
  assumes "0 < counters_lock (fdaemon s)" and "\<forall>c \<in> set (counters (fdaemon s)). counter_sendable cfg c"
    and "numStats s + int (length (counters (fdaemon s))) \<le> INT_MAX"
  shows "flush_counters cfg env s =
    Inr (s\<lparr>fdaemon := (fdaemon s)\<lparr>counters := map (\<lambda>c. c\<lparr>cvalue := Fin 0\<rparr>) (counters (fdaemon s))\<rparr>,
           statString := statString s @ concat (map (counter_text cfg (ts env)) (counters (fdaemon s))),
           gmsgs := gmsgs s @ concat (map (counter_msgs cfg) (counters (fdaemon s))),
           numStats := numStats s + int (length (counters (fdaemon s)))\<rparr>)"
proof -
  have "rfold (flush_counter cfg env) [0..<length (counters (fdaemon s))] (counters_done cfg (ts env) s 0) =
      Inr (counters_done cfg (ts env) s (length (counters (fdaemon s))))"
    by (rule rfold_upt [where N = "length (counters (fdaemon s))" and S = "counters_done cfg (ts env) s"])
      (simp_all add: flush_counter_done [OF assms])
  then show ?thesis by (simp add: flush_counters_def counters_done_def Let_def)
qed

subsection \<open>The timers loop\<close>

definition sorted_stats :: "int \<Rightarrow> statsd_timer_t \<Rightarrow> timer_stats res" where
  "sorted_stats pct t = timer_stats pct (t\<lparr>tvalues := qsort double_sort (tvalues t)\<rparr>)"

definition cleared :: "statsd_timer_t \<Rightarrow> statsd_timer_t" where
  "cleared t = (if 0 < tcount t then t\<lparr>tvalues := [], tcount := 0\<rparr> else t)"

definition timer_report :: "config \<Rightarrow> int \<Rightarrow> statsd_timer_t \<Rightarrow> cstring" where
  "timer_report cfg tm t =
     (if 0 < tcount t \<and> enable_graphite cfg
      then timer_text (tkey t) (percentiles cfg ! 0) (projr (sorted_stats (percentiles cfg ! 0) t)) 0 tm
      else [])"

definition timer_msgs :: "config \<Rightarrow> statsd_timer_t \<Rightarrow> gmetric_message_t list" where
  "timer_msgs cfg t =
     (if 0 < tcount t \<and> enable_gmetric cfg then
        let pct = percentiles cfg ! 0; st = projr (sorted_stats pct t); k = tkey t
        in [double_msg cfg k (k @ ''_mean'') (seconds (mean st)) ''sec'',
            double_msg cfg k (k @ ''_upper'') (seconds (upper st)) ''sec'',
            double_msg cfg k (k @ ''_'' @ dec_of_int pct @ ''th_pct'') (seconds (upper_pct st)) ''sec'',
            double_msg cfg k (k @ ''_lower'') (seconds (lower st)) ''sec'',
            gmetric_message_of cfg GMETRIC_VALUE_INT k (k @ ''_count'') ''0'' ''count'']
      else [])"

definition timer_ready :: "config \<Rightarrow> statsd_timer_t \<Rightarrow> bool" where
  "timer_ready cfg t \<longleftrightarrow> (0 < tcount t \<longrightarrow>
     (case sorted_stats (percentiles cfg ! 0) t of Inl _ \<Rightarrow> False
      | Inr st \<Rightarrow> enable_gmetric cfg \<longrightarrow>
          sendable (seconds (mean st)) \<and> sendable (seconds (upper st)) \<and>
          sendable (seconds (upper_pct st)) \<and> sendable (seconds (lower st)) \<and>
          length (dec_of_int (percentiles cfg ! 0)) < 5))"

lemma SEND_GMETRIC_INT_0:
  "SEND_GMETRIC_INT cfg grp nm 0 un s =
   Inr (s\<lparr>gmsgs := gmsgs s @ [gmetric_message_of cfg GMETRIC_VALUE_INT grp nm ''0'' un]\<rparr>)"
proof -
  have "dec_of_int 0 = ''0''" by code_simp
  then show ?thesis by (simp add: SEND_GMETRIC_INT_def)
qed

lemma flush_timer_eq:
  assumes "0 < timers_lock (fdaemon s)" and "timer_ready cfg (timers (fdaemon s) ! i)"
    and "numStats s < INT_MAX"
  shows "flush_timer cfg env i s =
    (let t = timers (fdaemon s) ! i
     in Inr (s\<lparr>fdaemon := (fdaemon s)\<lparr>timers := (timers (fdaemon s))[i := cleared t]\<rparr>,
               statString := statString s @ timer_report cfg (ts env) t,
               gmsgs := gmsgs s @ timer_msgs cfg t, numStats := numStats s + 1\<rparr>))"
proof (cases "0 < tcount (timers (fdaemon s) ! i)")
  case False
  then show ?thesis
    using assms(3)
    by (simp add: flush_timer_def cleared_def timer_report_def timer_msgs_def count_stat_def inc_int_def Let_def)
next
  case True
  let ?pct = "percentiles cfg ! 0"
  from assms(2) True obtain st where st: "sorted_stats ?pct (timers (fdaemon s) ! i) = Inr st"
    and g: "enable_gmetric cfg \<longrightarrow> sendable (seconds (mean st)) \<and> sendable (seconds (upper st)) \<and>
          sendable (seconds (upper_pct st)) \<and> sendable (seconds (lower st)) \<and>
          length (dec_of_int ?pct) < 5"
    by (auto simp: timer_ready_def split: sum.splits)
  show ?thesis
    using True st g assms(1,3)
    by (simp add: flush_timer_def cleared_def timer_report_def timer_msgs_def sorted_stats_def
        lock_defs sem_wait_pos hash_put_def count_stat_def inc_int_def put_text_def when_enabled_def
        SEND_GMETRIC_DOUBLE_ok SEND_GMETRIC_INT_0 strcpy_buf_def Let_def)
qed

definition timers_done :: "config \<Rightarrow> int \<Rightarrow> flush_state \<Rightarrow> nat \<Rightarrow> flush_state" where
  "timers_done cfg t s n =
     (let d = fdaemon s; cs = take n (timers d)
      in s\<lparr>fdaemon := d\<lparr>timers := map cleared cs @ drop n (timers d)\<rparr>,
           statString := statString s @ concat (map (timer_report cfg t) cs),
           gmsgs := gmsgs s @ concat (map (timer_msgs cfg) cs), numStats := numStats s + int n\<rparr>)"

lemma flush_timer_done:
  assumes "0 < timers_lock (fdaemon s)" and "\<forall>t \<in> set (timers (fdaemon s)). timer_ready cfg t"
    and "numStats s + int (length (timers (fdaemon s))) \<le> INT_MAX" and "n < length (timers (fdaemon s))"
  shows "flush_timer cfg env n (timers_done cfg (ts env) s n) = Inr (timers_done cfg (ts env) s (Suc n))"
proof -
  let ?ts = "timers (fdaemon s)" and ?s = "timers_done cfg (ts env) s n"
  have c: "timers (fdaemon ?s) ! n = ?ts ! n"
    using assms(4) by (simp add: timers_done_def Let_def nth_append)
  have u: "(timers (fdaemon ?s))[n := cleared (?ts ! n)] =
      map cleared (take (Suc n) ?ts) @ drop (Suc n) ?ts"
    using list_update_prefix [OF assms(4)] by (simp add: timers_done_def Let_def)
  have "flush_timer cfg env n ?s = (let t = ?ts ! n in
      Inr (?s\<lparr>fdaemon := (fdaemon ?s)\<lparr>timers := (timers (fdaemon ?s))[n := cleared t]\<rparr>,
               statString := statString ?s @ timer_report cfg (ts env) t,
               gmsgs := gmsgs ?s @ timer_msgs cfg t, numStats := numStats ?s + 1\<rparr>))"
    using assms by (subst flush_timer_eq) (simp_all only: c, auto simp: timers_done_def Let_def)
  also have "\<dots> = Inr (timers_done cfg (ts env) s (Suc n))"
    unfolding Let_def u using assms(4)
    by (simp add: timers_done_def Let_def take_Suc_conv_app_nth)
  finally show ?thesis .
qed

lemma flush_timers_eq:
  assumes "0 < timers_lock (fdaemon s)" and "\<forall>t \<in> set (timers (fdaemon s)). timer_ready cfg t"
    and "numStats s + int (length (timers (fdaemon s))) \<le> INT_MAX"
  shows "flush_timers cfg env s =
    Inr (s\<lparr>fdaemon := (fdaemon s)\<lparr>timers := map cleared (timers (fdaemon s))\<rparr>,
           statString := statString s @ concat (map (timer_report cfg (ts env)) (timers (fdaemon s))),
           gmsgs := gmsgs s @ concat (map (timer_msgs cfg) (timers (fdaemon s))),
           numStats := numStats s + int (length (timers (fdaemon s)))\<rparr>)"
proof -
  have "rfold (flush_timer cfg env) [0..<length (timers (fdaemon s))] (timers_done cfg (ts env) s 0) =
      Inr (timers_done cfg (ts env) s (length (timers (fdaemon s))))"
    by (rule rfold_upt [where N = "length (timers (fdaemon s))" and S = "timers_done cfg (ts env) s"])
      (simp_all add: flush_timer_done [OF assms])
  then show ?thesis by (simp add: flush_timers_def timers_done_def Let_def)
qed

subsection \<open>The gauges loop\<close>

definition gauge_text :: "config \<Rightarrow> int \<Rightarrow> statsd_gauge_t \<Rightarrow> cstring" where
  "gauge_text cfg t g =
     (if enable_graphite cfg
      then metric_line (''stats.'' @ gkey g) (fmt_f (gvalue g)) t @
           metric_line (''stats_gauges_'' @ gkey g) (fmt_f (gvalue g)) t
      else [])"

definition gauge_msgs :: "config \<Rightarrow> statsd_gauge_t \<Rightarrow> gmetric_message_t list" where
  "gauge_msgs cfg g =
     (if enable_gmetric cfg
      then [double_msg cfg (prefixed cfg (gkey g)) (prefixed cfg (gkey g)) (gvalue g) ''gauge'',
            double_msg cfg (gkey g) (gkey g) (gvalue g) ''gauge'']
      else [])"

definition gauge_sendable :: "config \<Rightarrow> statsd_gauge_t \<Rightarrow> bool" where
  "gauge_sendable cfg g \<longleftrightarrow> (enable_gmetric cfg \<longrightarrow> sendable (gvalue g))"

definition gauges_done :: "config \<Rightarrow> int \<Rightarrow> flush_state \<Rightarrow> nat \<Rightarrow> flush_state" where
  "gauges_done cfg t s n =
     (let gs = take n (gauges (fdaemon s))
      in s\<lparr>statString := statString s @ concat (map (gauge_text cfg t) gs),
           gmsgs := gmsgs s @ concat (map (gauge_msgs cfg) gs), numStats := numStats s + int n\<rparr>)"

lemma flush_gauge_done:
  assumes "\<forall>g \<in> set (gauges (fdaemon s)). gauge_sendable cfg g"
    and "numStats s + int (length (gauges (fdaemon s))) \<le> INT_MAX" and "n < length (gauges (fdaemon s))"
  shows "flush_gauge cfg env n (gauges_done cfg (ts env) s n) = Inr (gauges_done cfg (ts env) s (Suc n))"
proof -
  have "gauge_sendable cfg (gauges (fdaemon s) ! n)" using assms by simp
  then show ?thesis
    using assms(2,3)
    by (simp add: flush_gauge_def gauges_done_def gauge_text_def gauge_msgs_def gauge_sendable_def Let_def
        when_enabled_def SEND_GMETRIC_DOUBLE_ok count_stat_def inc_int_def put_text_def
        take_Suc_conv_app_nth)
qed

lemma flush_gauges_eq:
  assumes "\<forall>g \<in> set (gauges (fdaemon s)). gauge_sendable cfg g"
    and "numStats s + int (length (gauges (fdaemon s))) \<le> INT_MAX"
  shows "flush_gauges cfg env s =
    Inr (s\<lparr>statString := statString s @ concat (map (gauge_text cfg (ts env)) (gauges (fdaemon s))),
           gmsgs := gmsgs s @ concat (map (gauge_msgs cfg) (gauges (fdaemon s))),
           numStats := numStats s + int (length (gauges (fdaemon s)))\<rparr>)"
proof -
  have "rfold (flush_gauge cfg env) [0..<length (gauges (fdaemon s))] (gauges_done cfg (ts env) s 0) =
      Inr (gauges_done cfg (ts env) s (length (gauges (fdaemon s))))"
    by (rule rfold_upt [where N = "length (gauges (fdaemon s))" and S = "gauges_done cfg (ts env) s"])
      (simp_all add: flush_gauge_done [OF assms])
  then show ?thesis by (simp add: flush_gauges_def gauges_done_def Let_def)
qed
subsection \<open>The whole turn\<close>

definition flush_ready :: "config \<Rightarrow> flush_env \<Rightarrow> daemon \<Rightarrow> bool" where
  "flush_ready cfg env d \<longleftrightarrow>
     \<bar>ts env\<bar> < 10 ^ 18 \<and> (enable_graphite cfg \<and> graphite_ok env \<longrightarrow> 0 \<le> flush_ts env \<and> flush_ts env < 10 ^ 11) \<and>
     int (length (counters d) + length (timers d) + length (gauges d)) \<le> INT_MAX \<and>
     (\<forall>c \<in> set (counters d). counter_sendable cfg c) \<and>
     (\<forall>t \<in> set (timers d). timer_ready cfg t) \<and> (\<forall>g \<in> set (gauges d). gauge_sendable cfg g)"

definition flushed :: "daemon \<Rightarrow> daemon" where
  "flushed d = d\<lparr>counters := map (\<lambda>c. c\<lparr>cvalue := Fin 0\<rparr>) (counters d), timers := map cleared (timers d)\<rparr>"

definition flush_count :: "daemon \<Rightarrow> int" where
  "flush_count d = int (length (counters d) + length (timers d) + length (gauges d))"

definition flush_text :: "config \<Rightarrow> int \<Rightarrow> daemon \<Rightarrow> cstring" where
  "flush_text cfg t d =
     concat (map (counter_text cfg t) (counters d)) @ concat (map (timer_report cfg t) (timers d)) @
     concat (map (gauge_text cfg t) (gauges d)) @
     metric_line ''statsd.numStats'' (dec_of_int (flush_count d)) t"

definition flush_msgs :: "config \<Rightarrow> daemon \<Rightarrow> gmetric_message_t list" where
  "flush_msgs cfg d =
     concat (map (counter_msgs cfg) (counters d)) @ concat (map (timer_msgs cfg) (timers d)) @
     concat (map (gauge_msgs cfg) (gauges d)) @
     (if enable_gmetric cfg
      then [gmetric_message_of cfg GMETRIC_VALUE_INT ''statsd'' ''statsd_numstats_collected''
              (dec_of_int (flush_count d)) ''count'']
      else [])"

lemma length_dec_of_small: "0 \<le> k \<Longrightarrow> k < 10 ^ 11 \<Longrightarrow> length (dec_of_int k) < 12"
proof -
  assume k: "0 \<le> k" "k < 10 ^ 11"
  then have "nat k < 10 ^ 11" by simp
  from length_dec_of_nat [OF this] k show ?thesis by (simp add: dec_of_int_def)
qed

lemma table_ok_map:
  assumes "table_ok key ok es" and "\<And>e. e \<in> set es \<Longrightarrow> key (f e) = key e" and "\<And>e. ok e \<Longrightarrow> ok (f e)"
  shows "table_ok key ok (map f es)"
proof -
  have "map key (map f es) = map key es" using assms(2) by simp
  then show ?thesis using assms by (auto simp: table_ok_def hash_wf_def simp del: map_map)
qed

lemma flushed_wf: "daemon_wf d \<Longrightarrow> daemon_wf (flushed d)"
  by (auto simp: daemon_wf_def flushed_def locks_ok_def counter_ok_def timer_ok_def cleared_def INT_MAX_def
      intro!: table_ok_map)

lemma hash_lookup_map:
  assumes "\<And>e. key (f e) = key e"
  shows "hash_lookup key k (map f es) = map_option f (hash_lookup key k es)"
proof -
  have "hash_find key k (map f es) = hash_find key k es"
    using assms by (simp add: hash_find_map [of key k] o_def)
  then show ?thesis
    by (cases "hash_find key k es") (auto simp: hash_lookup_def dest: hash_find_Some)
qed

lemma flushed_views:
  assumes "daemon_wf d"
  shows "counter_of (flushed d) k = map_option (\<lambda>_. Fin 0) (counter_of d k)"
    "timer_of (flushed d) k = map_option (\<lambda>_. []) (timer_of d k)"
    "gauge_of (flushed d) k = gauge_of d k" "stat_of (flushed d) g k = stat_of d g k"
proof -
  have "tvalues (cleared t) = []" if "hash_lookup tkey k (timers d) = Some t" for t
  proof -
    have "timer_ok t" using table_ok_lookup [OF daemon_wfD(4) [OF assms] that] .
    then show ?thesis by (auto simp: timer_ok_def cleared_def)
  qed
  then show "timer_of (flushed d) k = map_option (\<lambda>_. []) (timer_of d k)"
    by (cases "hash_lookup tkey k (timers d)")
      (auto simp: timer_of_def flushed_def hash_lookup_map cleared_def)
qed (auto simp: counter_of_def flushed_def hash_lookup_map gauge_of_def stat_of_def option.map_comp o_def)

lemma flush_totals_eq:
  assumes "0 \<le> numStats s" and "numStats s \<le> INT_MAX"
  shows "flush_totals cfg env s =
    Inr (s\<lparr>statString := statString s @ (if enable_graphite cfg
              then metric_line ''statsd.numStats'' (dec_of_int (numStats s)) (ts env) else []),
           gmsgs := gmsgs s @ (if enable_gmetric cfg
              then [gmetric_message_of cfg GMETRIC_VALUE_INT ''statsd'' ''statsd_numstats_collected''
                      (dec_of_int (numStats s)) ''count''] else [])\<rparr>)"
  using length_dec_of_small [OF assms(1)] assms(2)
  by (simp add: flush_totals_def when_enabled_def SEND_GMETRIC_INT_def put_text_def INT_MAX_def Let_def)

definition effective :: "config \<Rightarrow> flush_env \<Rightarrow> config" where
  "effective cfg env =
     (if enable_gmetric cfg \<and> \<not> gmetric_open_ok env then cfg\<lparr>enable_gmetric := False\<rparr> else cfg)"

lemma flush_cycle_effective:
  "flush_cycle cfg env d = rbind (ltoa (ts env)) (\<lambda>ts_string.
     rbind (flush_counters (effective cfg env) env \<lparr>fdaemon = d, statString = [], gmsgs = [], numStats = 0\<rparr>) (\<lambda>s.
     rbind (flush_timers (effective cfg env) env s) (\<lambda>s.
     rbind (flush_gauges (effective cfg env) env s) (\<lambda>s.
     rbind (flush_totals (effective cfg env) env s) (\<lambda>s.
     rbind (flush_graphite (effective cfg env) env s) (\<lambda>(out, s). Inr (effective cfg env, out, s)))))))"
  unfolding flush_cycle_def effective_def [symmetric] Let_def ..

lemma flush_cycle_eq:
  assumes "daemon_wf d" and "flush_ready (effective cfg env) env d"
  shows "\<exists>s. flush_cycle cfg env d = Inr (effective cfg env,
      (if enable_graphite cfg \<and> graphite_ok env
       then Some (flush_text (effective cfg env) (ts env) d) else None), s)
    \<and> gmsgs s = flush_msgs (effective cfg env) d
    \<and> (if enable_graphite cfg \<and> graphite_ok env
       then update_stat ''graphite'' ''last_flush'' (dec_of_int (flush_ts env)) (flushed d) = Inr (fdaemon s)
       else fdaemon s = flushed d)"
proof -
  let ?c = "effective cfg env" and ?s = "\<lparr>fdaemon = d, statString = [], gmsgs = [], numStats = 0\<rparr>"
  note r = assms(2) [unfolded flush_ready_def]
  have g: "enable_graphite ?c = enable_graphite cfg" by (simp add: effective_def)
  note l = daemon_wf_locks [OF assms(1)]
  obtain s1 where s1: "flush_counters ?c env ?s = Inr s1"
    "fdaemon s1 = d\<lparr>counters := map (\<lambda>c. c\<lparr>cvalue := Fin 0\<rparr>) (counters d)\<rparr>"
    "statString s1 = concat (map (counter_text ?c (ts env)) (counters d))"
    "gmsgs s1 = concat (map (counter_msgs ?c) (counters d))" "numStats s1 = int (length (counters d))"
    by (rule that, rule flush_counters_eq) (use r l in auto)
  obtain s2 where s2: "flush_timers ?c env s1 = Inr s2" "fdaemon s2 = flushed d"
    "statString s2 = statString s1 @ concat (map (timer_report ?c (ts env)) (timers d))"
    "gmsgs s2 = gmsgs s1 @ concat (map (timer_msgs ?c) (timers d))"
    "numStats s2 = numStats s1 + int (length (timers d))"
    by (rule that, rule flush_timers_eq) (use r l s1 in \<open>auto simp: flushed_def\<close>)
  obtain s3 where s3: "flush_gauges ?c env s2 = Inr s3" "fdaemon s3 = flushed d"
    "statString s3 = statString s2 @ concat (map (gauge_text ?c (ts env)) (gauges d))"
    "gmsgs s3 = gmsgs s2 @ concat (map (gauge_msgs ?c) (gauges d))"
    "numStats s3 = flush_count d"
    by (rule that, rule flush_gauges_eq) (use r l s1 s2 in \<open>auto simp: flushed_def flush_count_def\<close>)
  obtain s4 where s4: "flush_totals ?c env s3 = Inr s4" "fdaemon s4 = flushed d"
    "enable_graphite cfg \<Longrightarrow> statString s4 = flush_text ?c (ts env) d" "gmsgs s4 = flush_msgs ?c d"
    by (rule that, rule flush_totals_eq) (use r s1 s2 s3 g in \<open>auto simp: flush_count_def flush_text_def flush_msgs_def\<close>)
  have lt: "ltoa (ts env) = Inr (dec_of_int (ts env))" using r by (intro ltoa_fits) auto
  show ?thesis
  proof (cases "enable_graphite cfg \<and> graphite_ok env")
    case False
    then show ?thesis
      using s1(1) s2(1) s3(1) s4 g lt
      by (auto simp: flush_cycle_effective flush_graphite_def)
  next
    case True
    have "length (dec_of_int (flush_ts env)) < 12" using r g True by (intro length_dec_of_small) auto
    moreover obtain d' where "update_stat ''graphite'' ''last_flush'' (dec_of_int (flush_ts env)) (flushed d) = Inr d'"
      using daemon_wf_locks(1) [OF flushed_wf [OF assms(1)]] by (auto simp: update_stat_eq KEY_SIZE_def)
    ultimately show ?thesis
      using s1(1) s2(1) s3(1) s4 g lt True
      by (auto simp: flush_cycle_effective flush_graphite_def)
  qed
qed
subsection \<open>The statistics of a timer\<close>

text \<open>The order of the comparisons, on values that are numbers.\<close>

definition fp_le :: "fp \<Rightarrow> fp \<Rightarrow> bool" where
  "fp_le a b \<longleftrightarrow> \<not> fp_less b a"

lemma fp_le_trans: "b \<noteq> NaN \<Longrightarrow> fp_le a b \<Longrightarrow> fp_le b c \<Longrightarrow> fp_le a c"
  by (cases a; cases b; cases c) (auto simp: fp_le_def)

lemma fp_less_le: "fp_less a b \<Longrightarrow> fp_le a b"
  by (cases a; cases b) (auto simp: fp_le_def)

lemma fp_le_refl: "fp_le a a"
  by (cases a) (auto simp: fp_le_def)

lemma min_max_fold:
  assumes "mn \<noteq> NaN" and "mx \<noteq> NaN" and "\<forall>v \<in> set vs. v \<noteq> NaN" and "fp_le mn mx"
    and "fold (\<lambda>x (mn, mx). (if fp_less x mn then x else mn, if fp_less mx x then x else mx))
           vs (mn, mx) = (mn', mx')"
  shows "mn' \<in> insert mn (set vs) \<and> mx' \<in> insert mx (set vs) \<and> fp_le mn' mn \<and> fp_le mx mx' \<and>
    (\<forall>v \<in> set vs. fp_le mn' v \<and> fp_le v mx')"
  using assms
proof (induction vs arbitrary: mn mx)
  case (Cons x vs)
  let ?mn = "if fp_less x mn then x else mn" and ?mx = "if fp_less mx x then x else mx"
  have le: "fp_le ?mn mn" "fp_le ?mn x" "fp_le mx ?mx" "fp_le x ?mx"
    using fp_less_le [of x mn] fp_less_le [of mx x] fp_le_refl by (auto simp: fp_le_def)
  have "fp_le ?mn ?mx"
    using le(1,3) Cons.prems(1,2,4) by (meson fp_le_trans)
  with Cons.IH [of ?mn ?mx] Cons.prems have
    "mn' \<in> insert ?mn (set vs) \<and> mx' \<in> insert ?mx (set vs) \<and> fp_le mn' ?mn \<and> fp_le ?mx mx' \<and>
     (\<forall>v \<in> set vs. fp_le mn' v \<and> fp_le v mx')" by auto
  with le Cons.prems(1-3) show ?case
    by (auto split: if_splits intro: fp_le_trans)
qed (auto simp: fp_le_refl)

lemma min_max_bounds:
  assumes "vs \<noteq> []" and "\<forall>v \<in> set vs. v \<noteq> NaN" and "min_max vs = (mn, mx)"
  shows "mn \<in> set vs \<and> mx \<in> set vs \<and> (\<forall>v \<in> set vs. fp_le mn v \<and> fp_le v mx)"
proof (cases vs)
  case (Cons v vs')
  with assms min_max_fold [of v v vs' mn mx] show ?thesis
    by (auto simp: min_max_def fp_le_refl)
qed (use assms in simp)

lemma set_insert_by: "set (insert_by cmp x ys) = insert x (set ys)"
  by (induction ys) auto

lemma set_qsort [simp]: "set (qsort cmp xs) = set xs"
  by (induction xs) (auto simp: qsort_def set_insert_by)

lemma length_insert_by: "length (insert_by cmp x ys) = Suc (length ys)"
  by (induction ys) auto

lemma length_qsort [simp]: "length (qsort cmp xs) = length xs"
  by (induction xs) (auto simp: qsort_def length_insert_by)

lemma sorted_stats_min_max:
  "sorted_stats pct t = Inr st \<Longrightarrow> min_max (qsort double_sort (tvalues t)) = (lower st, upper st)"
  by (auto simp: sorted_stats_def timer_stats_def Let_def split: prod.splits if_splits)

lemma double_sort_int: "double_sort (fp_int a) (fp_int b) \<le> 0 \<longleftrightarrow> a \<le> b"
  by (auto simp: double_sort_def fp_int_def fp_eq_def)

lemma qsort_int: "qsort double_sort (map fp_int ks) = map fp_int (sort ks)"
proof (induction ks)
  case (Cons k ks)
  have "insert_by double_sort (fp_int k) (map fp_int xs) = map fp_int (insort k xs)" for xs
    by (induction xs) (auto simp: double_sort_int)
  with Cons show ?case by (simp add: qsort_def)
qed (simp add: qsort_def)

lemma foldl_add_int:
  "\<bar>a\<bar> + (\<Sum>k\<leftarrow>ks. \<bar>k\<bar>) \<le> 2 ^ 53 \<Longrightarrow>
   foldl (fp_add binary64) (fp_int a) (map fp_int ks) = fp_int (a + sum_list ks)"
proof (induction ks arbitrary: a)
  case (Cons k ks)
  have "0 \<le> (\<Sum>k\<leftarrow>ks. \<bar>k\<bar>)" by (induction ks) auto
  with Cons.prems have "fp_add binary64 (fp_int a) (fp_int k) = fp_int (a + k)"
    by (intro fp_add_int) auto
  with Cons.IH [of "a + k"] Cons.prems show ?case by (simp add: add.assoc)
qed simp

lemma sum_list_sort: "(\<Sum>k\<leftarrow>sort ks. f k) = (\<Sum>k\<leftarrow>ks. f k :: int)" for ks :: "int list"
proof (induction ks)
  case (Cons k ks)
  have "(\<Sum>x\<leftarrow>insort k xs. f x) = f k + (\<Sum>x\<leftarrow>xs. f x)" for xs :: "int list"
    by (induction xs) auto
  with Cons show ?case by simp
qed simp

lemma butlast_sort:
  assumes "ks \<noteq> ([] :: int list)"
  shows "sum_list (butlast (sort ks)) = sum_list ks - Max (set ks)"
proof -
  let ?s = "sort ks"
  have ne: "?s \<noteq> []" using assms by (metis set_empty set_sort)
  have split: "?s = butlast ?s @ [last ?s]" using ne by simp
  have "sorted (butlast ?s @ [last ?s])" unfolding split [symmetric] by simp
  then have "\<forall>x \<in> set (butlast ?s). x \<le> last ?s" by (simp add: sorted_append)
  then have "\<forall>x \<in> set ?s. x \<le> last ?s" by (subst split) simp
  moreover have "last ?s \<in> set ?s" using ne by (rule last_in_set)
  ultimately have "last ?s = Max (set ?s)" by (intro Max_eqI [symmetric]) simp_all
  moreover have "sum_list ?s = sum_list (butlast ?s) + last ?s"
    using ne by (metis append_butlast_last_id sum_list.Cons sum_list.Nil sum_list_append add.right_neutral)
  ultimately show ?thesis using sum_list_sort [of "\<lambda>k. k" ks] by simp
qed

lemma double_first_byte_int:
  assumes "\<bar>k\<bar> < 2 ^ 45"
  shows "double_first_byte (fp_int k) = 0"
proof (cases "k = 0")
  case False
  let ?q = "\<bar>of_int k :: rat\<bar>"
  have q: "0 < ?q" using False by simp
  have "\<not> 45 \<le> ilog2 ?q"
  proof
    assume "45 \<le> ilog2 ?q"
    then have "(2::rat) powi 45 \<le> ?q" by (simp only: powi_le_ilog2 [OF q])
    then have "of_int (2 ^ 45) \<le> (of_int \<bar>k\<bar> :: rat)" by simp
    with assms show False by (simp only: of_int_le_iff)
  qed
  then have e: "ulp_exp binary64 ?q \<le> - 8" by (simp add: ulp_exp_def)
  define n where "n = nat (- ulp_exp binary64 ?q - 8)"
  have u: "ulp_exp binary64 ?q = - int (n + 8)" using e by (simp add: n_def)
  have "?q / 2 powi ulp_exp binary64 ?q = ?q * 2 ^ (n + 8)"
    unfolding u by (simp only: power_int_minus power_int_of_nat divide_inverse inverse_inverse_eq)
  also have "\<dots> = of_int (\<bar>k\<bar> * 2 ^ n * 256)" by (simp add: power_add)
  finally have "\<lfloor>?q / 2 powi ulp_exp binary64 ?q\<rfloor> = \<bar>k\<bar> * 2 ^ n * 256" by (simp only: floor_of_int)
  then show ?thesis by (simp add: double_first_byte_def fp_int_def Let_def)
qed (simp add: double_first_byte_def fp_int_def Let_def)
lemma round_fp_between:
  assumes F: "wf_fmt F" and lo: "representable F lo" "0 < lo" and hi: "representable F hi"
    and q: "lo \<le> q" "q \<le> hi"
  shows "\<exists>r. round_fp F q = Fin r \<and> lo \<le> r \<and> r \<le> hi"
  using round_fp_ge [OF F lo q(1)] round_fp_le [OF F hi _ q(2)] lo q by auto

lemma representable_half: "representable binary64 (1 / 2)"
  unfolding representable_def
  by (intro conjI exI [of _ 1] exI [of _ "- 1 :: int"]) (simp_all add: power_int_minus)

lemma nine_tenths:
  "\<exists>r. fp_div binary64 (fp_of_int binary64 90) (Fin 100) = Fin r \<and> 1 / 2 \<le> r \<and> r \<le> 1"
proof -
  have "fp_of_int binary64 90 = fp_int 90" by (intro fp_of_int_exact) auto
  then have "fp_div binary64 (fp_of_int binary64 90) (Fin 100) = round_fp binary64 (9 / 10)"
    by (simp add: fp_div_def fp_int_def fp_is_inf_def fp_is_zero_def)
  then show ?thesis
    using round_fp_between [of binary64 "1 / 2" 1 "9 / 10"] representable_half by simp
qed

lemma threshold_90:
  assumes "2 \<le> n" and "n \<le> INT_MAX"
  shows "1 \<le> threshold_index 90 n \<and> threshold_index 90 n \<le> n"
proof -
  obtain r where r: "fp_div binary64 (fp_of_int binary64 90) (Fin 100) = Fin r" "1 / 2 \<le> r" "r \<le> 1"
    using nine_tenths by blast
  have n: "fp_of_int binary64 n = fp_int n" using assms by (intro fp_of_int_exact) (auto simp: INT_MAX_def)
  have rn: "(2 :: rat) \<le> of_int n" using assms(1) by simp
  have repn: "representable binary64 (of_int n)"
    using assms by (intro representable_of_int) (auto simp: INT_MAX_def)
  have "1 / 2 * 2 \<le> r * of_int n" using r rn by (intro mult_mono) auto
  then have lo: "1 \<le> r * of_int n" by simp
  have "r * of_int n \<le> 1 * of_int n" using r rn by (intro mult_right_mono) auto
  then have hi: "r * of_int n \<le> of_int n" by simp
  from round_fp_between [OF _ _ _ repn lo hi] obtain q
    where q: "round_fp binary64 (r * of_int n) = Fin q" "1 \<le> q" "q \<le> of_int n" by auto
  have "fp_mul binary64 (Fin r) (fp_int n) = Fin q"
    using r rn q(1) by (simp add: fp_mul_def fp_int_def fp_is_inf_def fp_is_zero_def)
  then have t: "threshold_index 90 n = fp_to_int (Fin q)"
    unfolding threshold_index_def r n by simp
  have f: "1 \<le> \<lfloor>q\<rfloor>" "\<lfloor>q\<rfloor> \<le> n" using q(2,3) by (simp add: le_floor_iff, linarith)
  have "of_int n \<le> (2147483647 :: rat)" using assms(2) by (simp add: INT_MAX_def)
  with q(3) have "q < 2147483648" by linarith
  then have "fp_to_int (Fin q) = \<lfloor>q\<rfloor>"
    using f q(2) assms(2) unfolding fp_to_int_def fp_finite_def rat_trunc_def INT_MAX_def by auto
  with t f show ?thesis by simp
qed

lemma deref_eltptr_ok:
  assumes "0 \<le> j" and "j < int (length vs)" and "int (length vs) \<le> INT_MAX"
  shows "deref_eltptr vs j = Inr (double_first_byte (vs ! nat j))"
  using assms by (simp add: deref_eltptr_def Let_def INT_MAX_def nat_less_iff)

lemma deref_eltptr_null:
  assumes "j < 0" and "- INT_MAX \<le> j" and "int (length vs) \<le> INT_MAX"
  shows "deref_eltptr vs j = Inl Null_Deref"
proof -
  have "j mod 2 ^ 32 = j + 2 ^ 32" using assms mod_pos_pos_trivial [of "j + 2 ^ 32" "2 ^ 32"] by (simp add: INT_MAX_def)
  then show ?thesis using assms by (simp add: deref_eltptr_def Let_def INT_MAX_def)
qed

lemma sorted_stats_90_returns:
  assumes "timer_ok t"
  shows "\<exists>st. sorted_stats 90 t = Inr st"
proof (cases "1 < tcount t")
  case True
  let ?vs = "qsort double_sort (tvalues t)"
  have n: "tcount t = int (length ?vs)" "tcount t \<le> INT_MAX" using assms by (auto simp: timer_ok_def)
  with threshold_90 [of "tcount t"] True
  have "deref_eltptr ?vs (threshold_index 90 (tcount t) - 1) =
      Inr (double_first_byte (?vs ! nat (threshold_index 90 (tcount t) - 1)))"
    by (intro deref_eltptr_ok) auto
  then show ?thesis using True by (simp add: sorted_stats_def timer_stats_def Let_def split: prod.splits)
qed (simp add: sorted_stats_def timer_stats_def Let_def split: prod.splits)

lemma timer_ready_90:
  assumes "timer_ok t" and "percentiles cfg ! 0 = 90" and "\<not> enable_gmetric cfg"
  shows "timer_ready cfg t"
  using sorted_stats_90_returns [OF assms(1)] assms(2,3) by (auto simp: timer_ready_def)

subsection \<open>Properties\<close>

text \<open>
  C14: one turn of the flush thread, when it can be sent, writes the lines of every counter, timer
  and gauge in the order of the tables and then the number of metrics, gives Ganglia the messages
  of the same metrics, sets every counter to zero, empties every timer, leaves the gauges as they
  are, and keeps the tables well formed.
\<close>

theorem flush_cycle_reports:
  assumes "daemon_wf d" and "flush_ready (effective cfg env) env d"
  shows "\<exists>s. flush_cycle cfg env d = Inr (effective cfg env,
      (if enable_graphite cfg \<and> graphite_ok env
       then Some (flush_text (effective cfg env) (ts env) d) else None), s)
    \<and> gmsgs s = flush_msgs (effective cfg env) d \<and> daemon_wf (fdaemon s)
    \<and> (\<forall>k. counter_of (fdaemon s) k = map_option (\<lambda>_. Fin 0) (counter_of d k)
         \<and> timer_of (fdaemon s) k = map_option (\<lambda>_. []) (timer_of d k)
         \<and> gauge_of (fdaemon s) k = gauge_of d k)"
proof -
  from flush_cycle_eq [OF assms] obtain s where s: "flush_cycle cfg env d = Inr (effective cfg env,
      (if enable_graphite cfg \<and> graphite_ok env
       then Some (flush_text (effective cfg env) (ts env) d) else None), s)"
    "gmsgs s = flush_msgs (effective cfg env) d"
    "if enable_graphite cfg \<and> graphite_ok env
     then update_stat ''graphite'' ''last_flush'' (dec_of_int (flush_ts env)) (flushed d) = Inr (fdaemon s)
     else fdaemon s = flushed d" by blast
  note w = flushed_wf [OF assms(1)]
  have f: "counters (fdaemon s) = counters (flushed d) \<and> timers (fdaemon s) = timers (flushed d)
      \<and> gauges (fdaemon s) = gauges (flushed d) \<and> daemon_wf (fdaemon s)"
  proof (cases "enable_graphite cfg \<and> graphite_ok env")
    case True
    with s(3) have u: "update_stat ''graphite'' ''last_flush'' (dec_of_int (flush_ts env)) (flushed d) = Inr (fdaemon s)"
      by simp
    from update_stat_frame [OF u daemon_wf_locks(1) [OF w]] update_stat_wf [OF w _ _ u] show ?thesis by simp
  qed (use s(3) w in auto)
  then have "counter_of (fdaemon s) = counter_of (flushed d)" "timer_of (fdaemon s) = timer_of (flushed d)"
    "gauge_of (fdaemon s) = gauge_of (flushed d)"
    by (simp_all add: counter_of_def timer_of_def gauge_of_def fun_eq_iff)
  with s f flushed_views [OF assms(1)] show ?thesis by auto
qed

definition sample_daemon :: daemon where
  "sample_daemon = daemon_init\<lparr>counters := [\<lparr>ckey = ''a'', cvalue = fp_int 7\<rparr>],
     timers := [\<lparr>tkey = ''t'', tcount = 2, tvalues = [fp_int 3, fp_int 4]\<rparr>]\<rparr>"

definition sample_env :: flush_env where
  "sample_env = \<lparr>ts = 5, gmetric_open_ok = True, graphite_ok = True, flush_ts = 6\<rparr>"

definition sample_config :: config where
  "sample_config = config_init\<lparr>enable_graphite := True, percentiles := [90, 0, 0, 0, 0], num_percentiles := 1\<rparr>"

lemma sample_sel [simp]:
  "enable_graphite sample_config" "\<not> enable_gmetric sample_config" "percentiles sample_config ! 0 = 90"
  "ts sample_env = 5" "graphite_ok sample_env" "flush_ts sample_env = 6" "effective sample_config sample_env = sample_config"
  by (simp_all add: sample_config_def sample_env_def config_init_def effective_def)

lemma fp_ok_int: "wf_fmt F \<Longrightarrow> \<bar>k\<bar> \<le> 2 ^ prec F \<Longrightarrow> fp_ok F (fp_int k)"
  by (simp add: fp_int_def representable_of_int)

lemma sample_daemon_wf: "daemon_wf sample_daemon"
  by (simp add: daemon_wf_def sample_daemon_def daemon_init_def table_ok_def hash_wf_def counter_ok_def
      timer_ok_def key_ok_def KEY_SIZE_def locks_ok_def fp_ok_int INT_MAX_def)

theorem flush_cycle_reports_witness:
  "\<exists>s. flush_cycle sample_config sample_env sample_daemon =
         Inr (sample_config, Some (flush_text sample_config 5 sample_daemon), s)
     \<and> counter_of (fdaemon s) ''a'' = Some (Fin 0)"
proof -
  have "timer_ready sample_config t" if "t \<in> set (timers sample_daemon)" for t
    using that daemon_wfD(4) [OF sample_daemon_wf] by (intro timer_ready_90) (auto simp: table_ok_def)
  then have "flush_ready sample_config sample_env sample_daemon"
    by (simp add: flush_ready_def counter_sendable_def gauge_sendable_def)
      (simp add: sample_daemon_def daemon_init_def INT_MAX_def)
  moreover have "counter_of sample_daemon ''a'' = Some (fp_int 7)"
    by (simp add: sample_daemon_def daemon_init_def counter_of_def hash_lookup_def)
  ultimately show ?thesis
    using flush_cycle_reports [OF sample_daemon_wf, of sample_config sample_env] by auto
qed

text \<open>
  C15: with Ganglia disabled and the default percentile, the flush thread never faults on
  well-formed tables, whatever values they hold.
\<close>

theorem flush_cycle_returns:
  assumes "daemon_wf d" and "\<not> enable_gmetric cfg" and "percentiles cfg ! 0 = 90"
    and "flush_count d \<le> INT_MAX" and "\<bar>ts env\<bar> < 10 ^ 18"
    and "0 \<le> flush_ts env" and "flush_ts env < 10 ^ 11"
  shows "\<exists>out s. flush_cycle cfg env d = Inr (cfg, out, s) \<and> daemon_wf (fdaemon s)"
proof -
  have e: "effective cfg env = cfg" using assms(2) by (simp add: effective_def)
  have "\<forall>t \<in> set (timers d). timer_ready cfg t"
    using daemon_wfD(4) [OF assms(1)] timer_ready_90 assms(2,3) by (auto simp: table_ok_def)
  then have r: "flush_ready (effective cfg env) env d"
    unfolding e flush_ready_def using assms
    by (simp add: flush_count_def counter_sendable_def gauge_sendable_def)
  from flush_cycle_eq [OF assms(1) r] obtain out s where s: "flush_cycle cfg env d = Inr (cfg, out, s)"
    "if enable_graphite cfg \<and> graphite_ok env
     then update_stat ''graphite'' ''last_flush'' (dec_of_int (flush_ts env)) (flushed d) = Inr (fdaemon s)
     else fdaemon s = flushed d" unfolding e by blast
  with flushed_wf [OF assms(1)] update_stat_wf [OF flushed_wf [OF assms(1)], of "''graphite''" "''last_flush''"] show ?thesis
    by (auto split: if_splits)
qed

theorem flush_cycle_returns_witness:
  "\<exists>out s. flush_cycle sample_config sample_env sample_daemon = Inr (sample_config, out, s) \<and> daemon_wf (fdaemon s)"
  by (rule flush_cycle_returns [OF sample_daemon_wf])
    (simp_all add: sample_daemon_def daemon_init_def flush_count_def INT_MAX_def)

text \<open>
  C25: the lower and the upper value reported of a timer are the least and the greatest of the
  values it received in the interval, for any values that are numbers.
\<close>

theorem sorted_stats_bounds:
  assumes "sorted_stats pct t = Inr st" and "tvalues t \<noteq> []" and "\<forall>v \<in> set (tvalues t). v \<noteq> NaN"
  shows "lower st \<in> set (tvalues t) \<and> upper st \<in> set (tvalues t) \<and>
    (\<forall>v \<in> set (tvalues t). \<not> fp_less v (lower st) \<and> \<not> fp_less (upper st) v)"
proof -
  have "qsort double_sort (tvalues t) \<noteq> []"
    using assms(2) by (metis length_0_conv length_qsort)
  with min_max_bounds [OF this _ sorted_stats_min_max [OF assms(1)]] assms(3) show ?thesis
    by (simp add: fp_le_def)
qed

theorem sorted_stats_bounds_witness:
  "\<exists>st. sorted_stats 90 \<lparr>tkey = ''t'', tcount = 2, tvalues = [fp_int 3, fp_int 4]\<rparr> = Inr st
     \<and> lower st \<in> {fp_int 3, fp_int 4} \<and> \<not> fp_less (fp_int 3) (lower st)"
proof -
  let ?t = "\<lparr>tkey = ''t'', tcount = 2, tvalues = [fp_int 3, fp_int 4]\<rparr>"
  have "timer_ok ?t" using daemon_wfD(4) [OF sample_daemon_wf] by (simp add: table_ok_def sample_daemon_def)
  from sorted_stats_90_returns [OF this] obtain st where st: "sorted_stats 90 ?t = Inr st" by blast
  from sorted_stats_bounds [OF st] st show ?thesis by (auto simp: fp_int_def)
qed

lemma sorted_stats_ints:
  assumes "2 \<le> length ks" and "int (length ks) \<le> INT_MAX"
    and "1 \<le> threshold_index pct (int (length ks))" and "threshold_index pct (int (length ks)) \<le> int (length ks)"
    and "tvalues t = map fp_int ks" and "tcount t = int (length ks)"
  shows "\<exists>mn mx. sorted_stats pct t = Inr \<lparr>
      mean = fp_div binary64 (foldl (fp_add binary64) (fp_int 0) (map fp_int (butlast (sort ks))))
               (fp_of_int binary64 (int (length ks))),
      upper = mx,
      upper_pct = fp_of_int binary64 (double_first_byte (fp_int (sort ks ! nat (threshold_index pct (int (length ks)) - 1)))),
      lower = mn\<rparr>"
proof -
  let ?j = "threshold_index pct (int (length ks)) - 1"
  have "?j < int (length ks)" using assms(4) by simp
  then have j: "nat ?j < length ks" using assms(1) by linarith
  have d: "deref_eltptr (map fp_int (sort ks)) ?j = Inr (double_first_byte (map fp_int (sort ks) ! nat ?j))"
    using assms by (intro deref_eltptr_ok) auto
  have n1: "nat (int (length ks) - 1) = length ks - 1" by linarith
  have b: "take (nat (int (length ks) - 1)) (map fp_int (sort ks)) = map fp_int (butlast (sort ks))"
    using n1 by (simp add: butlast_conv_take take_map)
  show ?thesis
    using assms(1,5,6) d b j
    by (auto simp: sorted_stats_def timer_stats_def qsort_int Let_def fp_int_def split: prod.splits)
qed

text \<open>
  The mean reported of a timer with two or more integer values is the sum of all of them but
  the greatest, divided by their number: the loop over the sorted values stops one short.
\<close>

theorem timer_mean_omits_greatest:
  assumes "2 \<le> length ks" and "int (length ks) \<le> INT_MAX" and "(\<Sum>k\<leftarrow>ks. \<bar>k\<bar>) \<le> 2 ^ 53"
    and "tvalues t = map fp_int ks" and "tcount t = int (length ks)"
  shows "\<exists>st. sorted_stats 90 t = Inr st \<and>
    mean st = fp_div binary64 (fp_int (sum_list ks - Max (set ks))) (fp_int (int (length ks)))"
proof -
  have th: "1 \<le> threshold_index 90 (int (length ks)) \<and> threshold_index 90 (int (length ks)) \<le> int (length ks)"
    using assms(1,2) by (intro threshold_90) auto
  have ne: "ks \<noteq> []" using assms(1) by auto
  have last: "sort ks = butlast (sort ks) @ [last (sort ks)]"
    using ne by (metis append_butlast_last_id set_empty set_sort)
  have "(\<Sum>k\<leftarrow>butlast (sort ks). \<bar>k\<bar>) \<le> (\<Sum>k\<leftarrow>butlast (sort ks) @ [last (sort ks)]. \<bar>k\<bar>)"
    by (simp del: append_butlast_last_id)
  also have "\<dots> = (\<Sum>k\<leftarrow>ks. \<bar>k\<bar>)" using sum_list_sort [of abs ks] by (simp only: last [symmetric])
  finally have "(\<Sum>k\<leftarrow>butlast (sort ks). \<bar>k\<bar>) \<le> (\<Sum>k\<leftarrow>ks. \<bar>k\<bar>)" .
  then have "foldl (fp_add binary64) (fp_int 0) (map fp_int (butlast (sort ks))) =
      fp_int (sum_list ks - Max (set ks))"
    using assms(3) foldl_add_int [of 0 "butlast (sort ks)"] butlast_sort [OF ne] by simp
  moreover have "fp_of_int binary64 (int (length ks)) = fp_int (int (length ks))"
    using assms(2) by (intro fp_of_int_exact) (auto simp: INT_MAX_def)
  ultimately show ?thesis
    using sorted_stats_ints [OF assms(1,2) _ _ assms(4,5), of 90] th by auto
qed

theorem timer_mean_omits_greatest_witness:
  "\<exists>st. sorted_stats 90 \<lparr>tkey = ''t'', tcount = 2, tvalues = [fp_int 3, fp_int 4]\<rparr> = Inr st \<and>
     mean st = fp_div binary64 (fp_int 3) (fp_int 2)"
  using timer_mean_omits_greatest [of "[3, 4]" "\<lparr>tkey = ''t'', tcount = 2, tvalues = [fp_int 3, fp_int 4]\<rparr>"]
  by (simp add: INT_MAX_def)

text \<open>
  The percentile reported of a timer with two or more integer values below \<open>2 ^ 45\<close> is
  zero, whatever the values are: the code reads one byte of the element at the threshold, the
  last of its significand.
\<close>

theorem timer_percentile_reads_one_byte:
  assumes "2 \<le> length ks" and "int (length ks) \<le> INT_MAX" and "\<forall>k \<in> set ks. \<bar>k\<bar> < 2 ^ 45"
    and "tvalues t = map fp_int ks" and "tcount t = int (length ks)"
  shows "\<exists>st. sorted_stats 90 t = Inr st \<and> upper_pct st = Fin 0"
proof -
  let ?j = "threshold_index 90 (int (length ks))"
  have th: "1 \<le> ?j \<and> ?j \<le> int (length ks)"
    using assms(1,2) by (intro threshold_90) auto
  then have "?j - 1 < int (length ks)" by simp
  then have "nat (?j - 1) < length (sort ks)" using assms(1) unfolding length_sort by linarith
  then have "sort ks ! nat (?j - 1) \<in> set ks" by (metis nth_mem set_sort)
  with assms(3) have "double_first_byte (fp_int (sort ks ! nat (?j - 1))) = 0"
    by (intro double_first_byte_int) auto
  then show ?thesis
    using sorted_stats_ints [OF assms(1,2) _ _ assms(4,5), of 90] th
    by (auto simp: fp_of_int_def round_fp_def)
qed

theorem timer_percentile_reads_one_byte_witness:
  "\<exists>st. sorted_stats 90 \<lparr>tkey = ''t'', tcount = 2, tvalues = [fp_int 3, fp_int 4]\<rparr> = Inr st \<and>
     upper_pct st = Fin 0"
  using timer_percentile_reads_one_byte [of "[3, 4]" "\<lparr>tkey = ''t'', tcount = 2, tvalues = [fp_int 3, fp_int 4]\<rparr>"]
  by (simp add: INT_MAX_def)

text \<open>
  A percentile so low that the threshold of a timer with two or more values is the position
  before the first makes the flush thread read through the null pointer that
  \<^verbatim>\<open>utarray_eltptr\<close> returns.
\<close>

theorem flush_timer_low_percentile:
  assumes "0 < timers_lock (fdaemon s)" and "timers (fdaemon s) ! i = t" and "timer_ok t" and "1 < tcount t"
    and "threshold_index (percentiles cfg ! 0) (tcount t) = 0"
  shows "flush_timer cfg env i s = Inl Null_Deref"
proof -
  have "deref_eltptr (qsort double_sort (tvalues t)) (threshold_index (percentiles cfg ! 0) (tcount t) - 1)
      = Inl Null_Deref"
    using assms(3,5) by (intro deref_eltptr_null) (auto simp: timer_ok_def INT_MAX_def)
  then have "sorted_stats (percentiles cfg ! 0) t = Inl Null_Deref"
    using assms(4) by (simp add: sorted_stats_def timer_stats_def Let_def split: prod.splits)
  then show ?thesis
    using assms(1,2,4) by (simp add: flush_timer_def sorted_stats_def lock_defs sem_wait_pos Let_def)
qed

lemma threshold_10: "threshold_index 10 2 = 0"
proof -
  have rep: "representable binary64 (1 / 2 ^ k)" if "k < 100" for k
  proof -
    have "\<exists>m e. (1 / 2 ^ k :: rat) = of_int m * 2 powi e \<and> \<bar>m\<bar> < 2 ^ prec binary64 \<and> emin binary64 \<le> e"
      by (rule exI [of _ 1], rule exI [of _ "- int k"]) (use that in \<open>simp add: power_int_minus divide_inverse\<close>)
    moreover have "(2::rat) powi 0 < 2 powi emax binary64" by (simp only: powi_less_iff) simp
    then have "(1::rat) < 2 powi emax binary64" by (simp only: power_int_0_right)
    then have "\<bar>1 / 2 ^ k :: rat\<bar> < 2 powi emax binary64"
      by (rule le_less_trans [rotated]) simp
    ultimately show ?thesis unfolding representable_def by blast
  qed
  have i: "fp_of_int binary64 10 = fp_int 10" "fp_of_int binary64 2 = fp_int 2"
    by (intro fp_of_int_exact; simp)+
  then have "fp_div binary64 (fp_of_int binary64 10) (Fin 100) = round_fp binary64 (1 / 10)"
    by (simp add: fp_div_def fp_int_def fp_is_inf_def fp_is_zero_def)
  moreover obtain r where r: "round_fp binary64 (1 / 10) = Fin r" "1 / 16 \<le> r" "r \<le> 1 / 4"
    using round_fp_between [of binary64 "1 / 16" "1 / 4" "1 / 10"] rep [of 4] rep [of 2] by auto
  moreover obtain q where q: "round_fp binary64 (r * 2) = Fin q" "1 / 8 \<le> q" "q \<le> 1 / 2"
    using round_fp_between [of binary64 "1 / 8" "1 / 2" "r * 2"] rep [of 3] rep [of 1] r by auto
  ultimately have "threshold_index 10 2 = fp_to_int (Fin q)"
    using i by (simp add: threshold_index_def fp_mul_def fp_int_def fp_is_inf_def fp_is_zero_def)
  also have "\<lfloor>q\<rfloor> = 0" using q by (simp add: floor_eq_iff)
  then have "fp_to_int (Fin q) = 0" using q by (simp add: fp_to_int_def fp_finite_def rat_trunc_def)
  finally show ?thesis .
qed

theorem flush_timer_low_percentile_witness:
  "flush_timer (sample_config\<lparr>percentiles := [10, 0, 0, 0, 0]\<rparr>) sample_env 0
     \<lparr>fdaemon = sample_daemon, statString = [], gmsgs = [], numStats = 0\<rparr> = Inl Null_Deref"
proof (rule flush_timer_low_percentile [where t = "\<lparr>tkey = ''t'', tcount = 2, tvalues = [fp_int 3, fp_int 4]\<rparr>"])
  show "timer_ok \<lparr>tkey = ''t'', tcount = 2, tvalues = [fp_int 3, fp_int 4]\<rparr>"
    using daemon_wfD(4) [OF sample_daemon_wf] by (simp add: table_ok_def sample_daemon_def)
qed (simp_all add: threshold_10 sample_daemon_def daemon_init_def)

text \<open>
  The count reported of a timer, to Graphite and to Ganglia, is always zero: it is read
  after the timer has been cleared.
\<close>

theorem timer_count_reported_zero:
  assumes "0 < tcount t" and "enable_graphite cfg" and "enable_gmetric cfg"
  shows "(\<exists>before. timer_report cfg tm t = before @ metric_line (''stats.timers.'' @ tkey t @ ''.count'') ''0'' tm)
    \<and> v_string (last (timer_msgs cfg t)) = Some ''0''"
proof -
  have "dec_of_int 0 = ''0''" by code_simp
  then show ?thesis
    using assms
    by (simp add: timer_report_def timer_text_def timer_msgs_def Let_def gmetric_message_of_def)
qed

theorem timer_count_reported_zero_witness:
  "v_string (last (timer_msgs (sample_config\<lparr>enable_gmetric := True\<rparr>)
     \<lparr>tkey = ''t'', tcount = 2, tvalues = [fp_int 3, fp_int 4]\<rparr>)) = Some ''0''"
  using timer_count_reported_zero [of "\<lparr>tkey = ''t'', tcount = 2, tvalues = [fp_int 3, fp_int 4]\<rparr>"
      "sample_config\<lparr>enable_gmetric := True\<rparr>" 5]
  by simp

text \<open>
  A counter of magnitude \<open>10 ^ 22\<close> or more, which a single packet can set, overruns the
  thirty bytes into which \<^verbatim>\<open>SEND_GMETRIC_DOUBLE\<close> prints it.
\<close>

theorem flush_counter_overruns:
  assumes "enable_gmetric cfg" and "flush_interval cfg = 1" and "cvalue (counters (fdaemon s) ! i) = Fin q"
    and "10 ^ 22 \<le> \<bar>q\<bar>" and "fp_ok x87ext (Fin q)"
  shows "flush_counter cfg env i s = Inl Buffer_Overflow"
proof -
  have "fp_div x87ext (Fin q) (fp_of_int x87ext 1) = Fin q"
    using assms(4,5) by (auto simp: fp_of_int_def round_fp_exact fp_div_def fp_is_inf_def fp_is_zero_def)
  moreover have "\<not> length (fmt_f (Fin q)) < 30" using length_fmt_f_ge [of 22 q] assms(4) by (simp del: fmt_f.simps)
  ultimately show ?thesis
    using assms(1-3)
    by (auto simp: flush_counter_def when_enabled_def SEND_GMETRIC_DOUBLE_def Let_def put_text_def simp del: fmt_f.simps)
qed

theorem flush_counter_overruns_witness:
  "flush_counter (sample_config\<lparr>enable_gmetric := True, flush_interval := 1\<rparr>) sample_env 0
     \<lparr>fdaemon = daemon_init\<lparr>counters := [\<lparr>ckey = ''a'', cvalue = Fin (of_int (2 ^ 80))\<rparr>]\<rparr>,
      statString = [], gmsgs = [], numStats = 0\<rparr> = Inl Buffer_Overflow"
proof (rule flush_counter_overruns [where q = "of_int (2 ^ 80)"])
  have "(of_int (2 ^ 80) :: rat) = of_int 1 * 2 powi 80" by simp
  then have "representable x87ext (of_int (2 ^ 80))"
    unfolding representable_def
    by (intro conjI exI [of _ 1] exI [of _ 80]) (simp_all add: power_int_def)
  then show "fp_ok x87ext (Fin (of_int (2 ^ 80)))" by simp
qed simp_all

end
