(* ===== verification/Json.thy ===== *)
theory Json
  imports CText
begin

text \<open>
  JSON values of the copy of json-c under \<^verbatim>\<open>src/json-c\<close>
  (\<^verbatim>\<open>json_object.c\<close>): constructors, getters, the two containers and the
  printer.

  A \<^verbatim>\<open>struct json_object *\<close> is a value of the datatype
  \<^verbatim>\<open>json\<close>; \<^verbatim>\<open>JNull\<close> is the null pointer, which is also how the
  library represents the JSON literal \<^verbatim>\<open>null\<close>. Every object of the program has one
  owner, so a tree of values stands for a tree of objects and the reference counts carry no
  information. An object's members are the list its hash table threads through its entries, in
  insertion order (the table itself is the subject of \<^verbatim>\<open>LinkHash\<close>); an array's
  elements are the list of its slots below \<^verbatim>\<open>length\<close> (\<^verbatim>\<open>ArrayList\<close>).
  The operations read a member of a union without looking at the tag, which is
  \<^verbatim>\<open>Type_Confusion\<close> on an object of another type, or through the null pointer.
\<close>

named_theorems json_simps \<open>evaluation of the JSON library\<close>

datatype json =
    JNull
  | JBool bool
  | JDouble fp
  | JInt int
  | JObject "(cstring \<times> json) list"
  | JArray "json list"
  | JString cstring

datatype json_type = json_type_boolean | json_type_double | json_type_int | json_type_object
  | json_type_array | json_type_string

fun json_object_get_type :: "json \<Rightarrow> json_type res" where
  "json_object_get_type JNull = Inl Null_Deref"
| "json_object_get_type (JBool _) = Inr json_type_boolean"
| "json_object_get_type (JDouble _) = Inr json_type_double"
| "json_object_get_type (JInt _) = Inr json_type_int"
| "json_object_get_type (JObject _) = Inr json_type_object"
| "json_object_get_type (JArray _) = Inr json_type_array"
| "json_object_get_type (JString _) = Inr json_type_string"

definition json_object_is_type :: "json \<Rightarrow> json_type \<Rightarrow> bool res" where
  "json_object_is_type jso t = rbind (json_object_get_type jso) (\<lambda>t'. Inr (t' = t))"

subsection \<open>Printing\<close>

text \<open>A print buffer is the text in it; \<^verbatim>\<open>sprintbuf\<close> and
  \<^verbatim>\<open>printbuf_memappend\<close> append (\<^verbatim>\<open>PrintBuf\<close> has the buffer behind
  it).\<close>

definition sprintbuf :: "string \<Rightarrow> string \<Rightarrow> string" where
  "sprintbuf pb s = pb @ s"

definition json_hex_chars :: string where
  "json_hex_chars = ''0123456789abcdef''"

definition escape_of :: "char \<Rightarrow> string option" where
  "escape_of c =
     (if c = CHR 0x08 then Some [CHR 0x5C, CHR ''b'']
      else if c = CHR 0x0A then Some [CHR 0x5C, CHR ''n'']
      else if c = CHR 0x0D then Some [CHR 0x5C, CHR ''r'']
      else if c = CHR 0x09 then Some [CHR 0x5C, CHR ''t'']
      else if c = CHR 0x22 then Some [CHR 0x5C, CHR 0x22]
      else if c = CHR 0x5C then Some [CHR 0x5C, CHR 0x5C]
      else if c = CHR ''/'' then Some [CHR 0x5C, CHR ''/'']
      else if char_code c < 32
      then Some ([CHR 0x5C, CHR ''u'', CHR ''0'', CHR ''0'',
                  json_hex_chars ! (char_code c div 16), json_hex_chars ! (char_code c mod 16)])
      else None)"

text \<open>The loop keeps a run of characters that need no escape (from
  \<^verbatim>\<open>start_offset\<close> to \<^verbatim>\<open>pos\<close>) and appends it before an escape and
  at the end.\<close>

fun json_escape_loop :: "string \<Rightarrow> string \<Rightarrow> cstring \<Rightarrow> string" where
  "json_escape_loop pb run [] = pb @ run"
| "json_escape_loop pb run (c # str) = (case escape_of c of
       Some e \<Rightarrow> json_escape_loop (pb @ run @ e) [] str
     | None \<Rightarrow> json_escape_loop pb (run @ [c]) str)"

definition json_escape_str :: "string \<Rightarrow> cstring \<Rightarrow> string" where
  "json_escape_str pb str = json_escape_loop pb [] str"

definition json_object_boolean_to_json_string :: "bool \<Rightarrow> string \<Rightarrow> string" where
  "json_object_boolean_to_json_string b pb = sprintbuf pb (if b then ''true'' else ''false'')"

definition json_object_int_to_json_string :: "int \<Rightarrow> string \<Rightarrow> string" where
  "json_object_int_to_json_string i pb = sprintbuf pb (dec_of_int i)"

definition json_object_double_to_json_string :: "fp \<Rightarrow> string \<Rightarrow> string" where
  "json_object_double_to_json_string d pb = sprintbuf pb (fmt_f d)"

definition json_object_string_to_json_string :: "cstring \<Rightarrow> string \<Rightarrow> string" where
  "json_object_string_to_json_string s pb =
     sprintbuf (json_escape_str (sprintbuf pb [CHR 0x22]) s) [CHR 0x22]"

text \<open>The virtual \<^verbatim>\<open>_to_json_string\<close> of each type; the member loop of an object and
  the element loop of an array carry the index \<^verbatim>\<open>i\<close> that tells the first turn.\<close>

fun to_json_string :: "json \<Rightarrow> string \<Rightarrow> string"
  and object_members_to_json :: "(cstring \<times> json) list \<Rightarrow> nat \<Rightarrow> string \<Rightarrow> string"
  and array_elements_to_json :: "json list \<Rightarrow> nat \<Rightarrow> string \<Rightarrow> string" where
  "to_json_string JNull pb = sprintbuf pb ''null''"
| "to_json_string (JBool b) pb = json_object_boolean_to_json_string b pb"
| "to_json_string (JDouble d) pb = json_object_double_to_json_string d pb"
| "to_json_string (JInt i) pb = json_object_int_to_json_string i pb"
| "to_json_string (JString s) pb = json_object_string_to_json_string s pb"
| "to_json_string (JObject kvs) pb = sprintbuf (object_members_to_json kvs 0 (sprintbuf pb ''{'')) '' }''"
| "to_json_string (JArray vs) pb = sprintbuf (array_elements_to_json vs 0 (sprintbuf pb ''['')) '' ]''"
| "object_members_to_json [] i pb = pb"
| "object_members_to_json ((key, val) # kvs) i pb =
     object_members_to_json kvs (Suc i)
       (to_json_string val
         (sprintbuf (json_escape_str (sprintbuf (if i = 0 then pb else sprintbuf pb '','')
                                                [CHR '' '', CHR 0x22]) key)
                    [CHR 0x22, CHR '':'', CHR '' '']))"
| "array_elements_to_json [] i pb = pb"
| "array_elements_to_json (val # vs) i pb =
     array_elements_to_json vs (Suc i)
       (to_json_string val (sprintbuf pb (if i = 0 then '' '' else '', '')))"

definition json_object_object_to_json_string :: "(cstring \<times> json) list \<Rightarrow> string \<Rightarrow> string" where
  "json_object_object_to_json_string kvs pb = sprintbuf (object_members_to_json kvs 0 (sprintbuf pb ''{'')) '' }''"

definition json_object_array_to_json_string :: "json list \<Rightarrow> string \<Rightarrow> string" where
  "json_object_array_to_json_string vs pb = sprintbuf (array_elements_to_json vs 0 (sprintbuf pb ''['')) '' ]''"

lemma to_json_string_containers:
  "to_json_string (JObject kvs) = json_object_object_to_json_string kvs"
  "to_json_string (JArray vs) = json_object_array_to_json_string vs"
  by (simp_all add: fun_eq_iff json_object_object_to_json_string_def json_object_array_to_json_string_def)

definition json_object_to_json_string :: "json \<Rightarrow> cstring" where
  "json_object_to_json_string jso = to_json_string jso []"

subsection \<open>Getters\<close>

text \<open>\<^verbatim>\<open>sscanf(s, "%d", &i)\<close>: it needs a digit, and keeps the low 32 bits of the
  \<^verbatim>\<open>long\<close> it reads.\<close>

definition scans_int :: "cstring \<Rightarrow> bool" where
  "scans_int s = (case snd (read_sign (dropWhile isspace s)) of [] \<Rightarrow> False | c # _ \<Rightarrow> is_digit c)"

definition sscanf_d :: "cstring \<Rightarrow> int option" where
  "sscanf_d s = (if scans_int s then Some (atoi s) else None)"

text \<open>\<^verbatim>\<open>sscanf(s, "%lf", &d)\<close> reads what \<^verbatim>\<open>strtod\<close> does, but does not
  step back from a half-read \<^verbatim>\<open>infinity\<close> or a bare \<^verbatim>\<open>0x\<close>.\<close>

definition sscanf_lf :: "cstring \<Rightarrow> fp option" where
  "sscanf_lf s =
     (let r = snd (read_sign (dropWhile isspace s))
      in if has_prefix_ci ''infi'' r \<and> \<not> has_prefix_ci ''infinity'' r then None
         else if has_prefix_ci ''0x'' r
                 \<and> (case drop 2 r of [] \<Rightarrow> True | c # _ \<Rightarrow> \<not> is_xdigit c \<and> c \<noteq> CHR ''.'') then None
         else map_option fst (strtod_full s))"

fun json_object_get_boolean :: "json \<Rightarrow> bool" where
  "json_object_get_boolean (JBool b) = b"
| "json_object_get_boolean (JInt i) = (i \<noteq> 0)"
| "json_object_get_boolean (JDouble d) = (\<not> fp_eq d (Fin 0))"
| "json_object_get_boolean (JString s) = (length s \<noteq> 0)"
| "json_object_get_boolean _ = False"

fun json_object_get_int :: "json \<Rightarrow> int" where
  "json_object_get_int (JInt i) = i"
| "json_object_get_int (JDouble d) = fp_to_int d"
| "json_object_get_int (JBool b) = (if b then 1 else 0)"
| "json_object_get_int (JString s) = (case sscanf_d s of Some cint \<Rightarrow> cint | None \<Rightarrow> 0)"
| "json_object_get_int _ = 0"

fun json_object_get_double :: "json \<Rightarrow> fp" where
  "json_object_get_double (JDouble d) = d"
| "json_object_get_double (JInt i) = fp_of_int binary64 i"
| "json_object_get_double (JBool b) = (if b then Fin 1 else Fin 0)"
| "json_object_get_double (JString s) = (case sscanf_lf s of Some cdouble \<Rightarrow> cdouble | None \<Rightarrow> Fin 0)"
| "json_object_get_double _ = Fin 0"

text \<open>The result is the null pointer only for the null pointer.\<close>

fun json_object_get_string :: "json \<Rightarrow> cstring option" where
  "json_object_get_string JNull = None"
| "json_object_get_string (JString s) = Some s"
| "json_object_get_string jso = Some (json_object_to_json_string jso)"

subsection \<open>Objects and arrays\<close>

text \<open>The members \<^verbatim>\<open>o.c_object\<close> and \<^verbatim>\<open>o.c_array\<close> of the
  union, as the operations read them.\<close>

fun c_object :: "json \<Rightarrow> (cstring \<times> json) list res" where
  "c_object (JObject kvs) = Inr kvs"
| "c_object JNull = Inl Null_Deref"
| "c_object _ = Inl Type_Confusion"

fun c_array :: "json \<Rightarrow> json list res" where
  "c_array (JArray vs) = Inr vs"
| "c_array JNull = Inl Null_Deref"
| "c_array _ = Inl Type_Confusion"

fun json_object_get_object :: "json \<Rightarrow> (cstring \<times> json) list option" where
  "json_object_get_object (JObject kvs) = Some kvs"
| "json_object_get_object _ = None"

fun json_object_get_array :: "json \<Rightarrow> json list option" where
  "json_object_get_array (JArray vs) = Some vs"
| "json_object_get_array _ = None"

text \<open>\<^verbatim>\<open>json_object_object_foreach\<close> visits the members in order, through the null
  pointer where there is no object.\<close>

definition json_object_object_foreach :: "json \<Rightarrow> (cstring \<times> json) list res" where
  "json_object_object_foreach obj =
     (case json_object_get_object obj of Some kvs \<Rightarrow> Inr kvs | None \<Rightarrow> Inl Null_Deref)"

definition members_lookup :: "cstring \<Rightarrow> (cstring \<times> json) list \<Rightarrow> json" where
  "members_lookup key kvs = (case map_of kvs key of Some v \<Rightarrow> v | None \<Rightarrow> JNull)"

definition members_delete :: "cstring \<Rightarrow> (cstring \<times> json) list \<Rightarrow> (cstring \<times> json) list" where
  "members_delete key kvs = filter (\<lambda>(k, _). k \<noteq> key) kvs"

definition json_object_object_add :: "json \<Rightarrow> cstring \<Rightarrow> json \<Rightarrow> json res" where
  "json_object_object_add jso key val =
     rbind (c_object jso) (\<lambda>kvs. Inr (JObject (members_delete key kvs @ [(key, val)])))"

definition json_object_object_get :: "json \<Rightarrow> cstring \<Rightarrow> json res" where
  "json_object_object_get jso key =
     rbind (c_object jso) (\<lambda>kvs. Inr (members_lookup key kvs))"

definition json_object_array_length :: "json \<Rightarrow> nat res" where
  "json_object_array_length jso = rbind (c_array jso) (\<lambda>vs. Inr (length vs))"

definition json_object_array_add :: "json \<Rightarrow> json \<Rightarrow> json res" where
  "json_object_array_add jso val = rbind (c_array jso) (\<lambda>vs. Inr (JArray (vs @ [val])))"

text \<open>An index past the end gives the null pointer.\<close>

definition json_object_array_get_idx :: "json \<Rightarrow> nat \<Rightarrow> json res" where
  "json_object_array_get_idx jso idx =
     rbind (c_array jso) (\<lambda>vs. Inr (if length vs \<le> idx then JNull else vs ! idx))"

subsection \<open>What is printed\<close>

text \<open>The text of a value, without the buffer.\<close>

definition escape_text :: "cstring \<Rightarrow> string" where
  "escape_text s = concat (map (\<lambda>c. case escape_of c of Some e \<Rightarrow> e | None \<Rightarrow> [c]) s)"

lemma escape_text_simps [json_simps]:
  "escape_text [] = []"
  "escape_text (c # s) = (case escape_of c of Some e \<Rightarrow> e | None \<Rightarrow> [c]) @ escape_text s"
  by (simp_all add: escape_text_def)

lemma json_escape_loop_eq: "json_escape_loop pb run s = pb @ run @ escape_text s"
  by (induction pb run s rule: json_escape_loop.induct)
    (auto simp: escape_text_simps split: option.splits)

lemma json_escape_str_eq: "json_escape_str pb s = pb @ escape_text s"
  by (simp add: json_escape_str_def json_escape_loop_eq)

definition quoted :: "cstring \<Rightarrow> string" where
  "quoted s = CHR 0x22 # escape_text s @ [CHR 0x22]"

fun json_text :: "json \<Rightarrow> string"
  and members_text :: "(cstring \<times> json) list \<Rightarrow> string"
  and elements_text :: "json list \<Rightarrow> string" where
  "json_text JNull = ''null''"
| "json_text (JBool b) = (if b then ''true'' else ''false'')"
| "json_text (JDouble d) = fmt_f d"
| "json_text (JInt i) = dec_of_int i"
| "json_text (JString s) = quoted s"
| "json_text (JObject kvs) =
     CHR ''{'' # (case kvs of [] \<Rightarrow> [] | (k, v) # r \<Rightarrow> CHR '' '' # quoted k @ '': '' @ json_text v @ members_text r)
     @ '' }''"
| "json_text (JArray vs) =
     CHR ''['' # (case vs of [] \<Rightarrow> [] | v # r \<Rightarrow> CHR '' '' # json_text v @ elements_text r) @ '' ]''"
| "members_text [] = []"
| "members_text ((k, v) # kvs) = '', '' @ quoted k @ '': '' @ json_text v @ members_text kvs"
| "elements_text [] = []"
| "elements_text (v # vs) = '', '' @ json_text v @ elements_text vs"

lemmas pb_simps = sprintbuf_def json_escape_str_eq quoted_def
  json_object_boolean_to_json_string_def json_object_int_to_json_string_def
  json_object_double_to_json_string_def json_object_string_to_json_string_def

lemma to_json_string_eq:
  "to_json_string j pb = pb @ json_text j"
  "object_members_to_json kvs i pb =
     pb @ (if i = 0 then drop 1 (members_text kvs) else members_text kvs)"
  "array_elements_to_json vs i pb =
     pb @ (if i = 0 then drop 1 (elements_text vs) else elements_text vs)"
proof (induction j pb and kvs i pb and vs i pb
    rule: to_json_string_object_members_to_json_array_elements_to_json.induct)
  case (6 kvs pb)
  then show ?case by (cases kvs) (auto simp: pb_simps)
next
  case (7 vs pb)
  then show ?case by (cases vs) (auto simp: pb_simps)
qed (auto simp: pb_simps)

lemma json_object_to_json_string_eq [json_simps]: "json_object_to_json_string j = json_text j"
  by (simp add: json_object_to_json_string_def to_json_string_eq)

subsection \<open>Members\<close>

lemma members_lookup_add [json_simps]:
  "members_lookup k (members_delete key kvs @ [(key, v)]) =
     (if k = key then v else members_lookup k kvs)"
proof -
  have "map_of (members_delete key kvs) k = (if k = key then None else map_of kvs k)"
    unfolding members_delete_def by (induction kvs) auto
  then show ?thesis by (auto simp: members_lookup_def map_add_def split: option.splits)
qed

lemma members_delete_fresh: "key \<notin> fst ` set kvs \<Longrightarrow> members_delete key kvs = kvs"
  unfolding members_delete_def by (induction kvs) auto

lemma distinct_members_add:
  assumes "distinct (map fst kvs)"
  shows "distinct (map fst (members_delete key kvs @ [(key, v)]))"
proof -
  have "distinct (map fst (members_delete key kvs)) \<and> key \<notin> fst ` set (members_delete key kvs)"
    using assms unfolding members_delete_def
    by (auto simp: distinct_map_filter)
  then show ?thesis by simp
qed

end
