(* ===== verification/Tokener.thy ===== *)
theory Tokener
  imports Json
begin

text \<open>
  The JSON parser (\<^verbatim>\<open>json-c/json_tokener.c\<close>): a state machine over the
  characters of a terminated string, with a stack of 32 levels, one for each open container.

  \<^verbatim>\<open>json_tokener_parse_ex\<close> is a loop around a switch over the states. Here each
  case of the switch is a definition, which says whether the loop goes on with the next
  character (\<^verbatim>\<open>Next\<close>), runs the switch again on the same character
  (\<^verbatim>\<open>Redo\<close>, the code's \<^verbatim>\<open>goto redo_char\<close>) or leaves
  (\<^verbatim>\<open>Leave\<close>, \<^verbatim>\<open>goto out\<close>). The tight loops inside the cases
  (white space, comments, strings, numbers) take one character a turn under the same conditions
  as the outer loop, so a turn of one is a \<^verbatim>\<open>Next\<close> that keeps the state; what
  they collect is appended to the buffer turn by turn. The string is read with length
  \<open>-1\<close>, so \<^verbatim>\<open>POP_CHAR\<close> never stops it, \<^verbatim>\<open>char_offset\<close> is
  only written, and its end is the terminator: the switch sees the zero byte as a character and
  \<^verbatim>\<open>ADVANCE_CHAR\<close> then stops the loop.

  The buffer is the list of the bytes in it here, and an offset is not counted; \<open>TokenerBuf\<close> has
  the machine with the allocated buffer, the offset and the bounds of the stack, and shows that it
  agrees with this one.

  The lemmas show that the machine returns on every string, without a fault, and with a result
  that is an error code or a value (the invariant of the levels, and the rank that falls with
  every \<^verbatim>\<open>Redo\<close>).
\<close>

datatype json_tokener_error =
    json_tokener_success | json_tokener_continue | json_tokener_error_depth
  | json_tokener_error_parse_eof | json_tokener_error_parse_unexpected
  | json_tokener_error_parse_null | json_tokener_error_parse_boolean
  | json_tokener_error_parse_number | json_tokener_error_parse_array
  | json_tokener_error_parse_object_key_name | json_tokener_error_parse_object_key_sep
  | json_tokener_error_parse_object_value_sep | json_tokener_error_parse_string
  | json_tokener_error_parse_comment

datatype json_tokener_state =
    Eatws | Start | Finish | Null | Comment_Start | Comment | Comment_Eol | Comment_End
  | Str | String_Escape | Escape_Unicode | Boolean | Number | Array | Array_Add | Array_Sep
  | Object_Field_Start | Object_Field | Object_Field_End | Object_Value | Object_Value_Add
  | Object_Sep

record srec =
  state :: json_tokener_state
  saved_state :: json_tokener_state
  current :: json
  obj_field_name :: "cstring option"

record 'p tokst =
  pb :: 'p
  depth :: nat
  is_double :: bool
  st_pos :: nat
  err :: json_tokener_error
  ucs_char :: "32 word"
  quote_char :: char
  stack :: "srec list"

text \<open>The type of the buffer is a parameter of the record, as both machines share it.\<close>

type_synonym tokener = "string tokst"

definition MAX_DEPTH :: nat where "MAX_DEPTH = 32"

definition srec_zero :: srec where
  "srec_zero = \<lparr>state = Eatws, saved_state = Eatws, current = JNull, obj_field_name = None\<rparr>"

definition srec_reset :: srec where
  "srec_reset = \<lparr>state = Eatws, saved_state = Start, current = JNull, obj_field_name = None\<rparr>"

definition json_tokener_reset_level :: "nat \<Rightarrow> 'p tokst \<Rightarrow> 'p tokst" where
  "json_tokener_reset_level d tok = tok\<lparr>stack := (stack tok)[d := srec_reset]\<rparr>"

text \<open>The loop runs from \<^verbatim>\<open>depth\<close> down to 0.\<close>

definition json_tokener_reset :: "'p tokst \<Rightarrow> 'p tokst" where
  "json_tokener_reset tok =
     (fold json_tokener_reset_level (rev [0..<Suc (depth tok)]) tok)
       \<lparr>depth := 0, err := json_tokener_success\<rparr>"

definition json_tokener_new :: tokener where
  "json_tokener_new = json_tokener_reset
     \<lparr>pb = [], depth = 0, is_double = False, st_pos = 0, err = json_tokener_success, ucs_char = 0,
      quote_char = CHR 0x00, stack = replicate MAX_DEPTH srec_zero\<rparr>"

subsection \<open>The current level\<close>

text \<open>The macros \<^verbatim>\<open>state\<close>, \<^verbatim>\<open>saved_state\<close>,
  \<^verbatim>\<open>current\<close> and \<^verbatim>\<open>obj_field_name\<close> of the code stand for the
  fields of the level at \<^verbatim>\<open>depth\<close>.\<close>

definition level :: "'p tokst \<Rightarrow> srec" where
  "level tok = stack tok ! depth tok"

definition set_level :: "(srec \<Rightarrow> srec) \<Rightarrow> 'p tokst \<Rightarrow> 'p tokst" where
  "set_level f tok = tok\<lparr>stack := (stack tok)[depth tok := f (level tok)]\<rparr>"

definition set_state :: "json_tokener_state \<Rightarrow> 'p tokst \<Rightarrow> 'p tokst" where
  "set_state s = set_level (state_update (\<lambda>_. s))"

definition set_saved_state :: "json_tokener_state \<Rightarrow> 'p tokst \<Rightarrow> 'p tokst" where
  "set_saved_state s = set_level (saved_state_update (\<lambda>_. s))"

definition set_current :: "json \<Rightarrow> 'p tokst \<Rightarrow> 'p tokst" where
  "set_current j = set_level (current_update (\<lambda>_. j))"

definition set_obj_field_name :: "cstring option \<Rightarrow> 'p tokst \<Rightarrow> 'p tokst" where
  "set_obj_field_name k = set_level (obj_field_name_update (\<lambda>_. k))"

text \<open>\<^verbatim>\<open>state = eatws\<close> with the state to go to afterwards.\<close>

definition eatws_then :: "json_tokener_state \<Rightarrow> 'p tokst \<Rightarrow> 'p tokst" where
  "eatws_then s tok = set_state Eatws (set_saved_state s tok)"

definition memappend :: "string \<Rightarrow> tokener \<Rightarrow> tokener" where
  "memappend s tok = tok\<lparr>pb := pb tok @ s\<rparr>"

definition pb_reset :: "tokener \<Rightarrow> tokener" where
  "pb_reset tok = tok\<lparr>pb := []\<rparr>"

subsection \<open>The cases of the switch\<close>

datatype 'p tok_outcome = Next "'p tokst" json | Redo "'p tokst" json | Leave "'p tokst" json

type_synonym outcome = "string tok_outcome"

definition fail :: "json_tokener_error \<Rightarrow> 'p tokst \<Rightarrow> json \<Rightarrow> 'p tok_outcome res" where
  "fail e tok obj = Inr (Leave (tok\<lparr>err := e\<rparr>) obj)"

definition case_eatws :: "char \<Rightarrow> tokener \<Rightarrow> json \<Rightarrow> outcome res" where
  "case_eatws c tok obj =
     (if isspace c then Inr (Next tok obj)
      else if c = CHR ''/'' then Inr (Next (set_state Comment_Start (memappend [c] (pb_reset tok))) obj)
      else Inr (Redo (set_state (saved_state (level tok)) tok) obj))"

definition case_start :: "char \<Rightarrow> tokener \<Rightarrow> json \<Rightarrow> outcome res" where
  "case_start c tok obj =
     (if c = CHR ''{''
      then Inr (Next (set_current (JObject []) (eatws_then Object_Field_Start tok)) obj)
      else if c = CHR ''[''
      then Inr (Next (set_current (JArray []) (eatws_then Array tok)) obj)
      else if c = CHR ''N'' \<or> c = CHR ''n''
      then Inr (Redo ((pb_reset (set_state Null tok))\<lparr>st_pos := 0\<rparr>) obj)
      else if c = CHR 0x22 \<or> c = CHR 0x27
      then Inr (Next ((pb_reset (set_state Str tok))\<lparr>quote_char := c\<rparr>) obj)
      else if c = CHR ''T'' \<or> c = CHR ''t'' \<or> c = CHR ''F'' \<or> c = CHR ''f''
      then Inr (Redo ((pb_reset (set_state Boolean tok))\<lparr>st_pos := 0\<rparr>) obj)
      else if is_digit c \<or> c = CHR ''-''
      then Inr (Redo ((pb_reset (set_state Number tok))\<lparr>is_double := False\<rparr>) obj)
      else fail json_tokener_error_parse_unexpected tok obj)"

definition case_finish :: "char \<Rightarrow> 'p tokst \<Rightarrow> json \<Rightarrow> 'p tok_outcome res" where
  "case_finish c tok obj =
     (if depth tok = 0 then Inr (Leave tok obj)
      else Inr (Redo ((json_tokener_reset_level (depth tok) tok)\<lparr>depth := depth tok - 1\<rparr>)
                  (current (level tok))))"

definition json_null_str :: string where "json_null_str = ''null''"
definition json_true_str :: string where "json_true_str = ''true''"
definition json_false_str :: string where "json_false_str = ''false''"

definition case_null :: "char \<Rightarrow> tokener \<Rightarrow> json \<Rightarrow> outcome res" where
  "case_null c tok0 obj =
     (let tok = memappend [c] tok0
      in rbind (strncaseeq json_null_str (pb tok) (min (st_pos tok + 1) (length json_null_str))) (\<lambda>eq.
         if eq
         then if st_pos tok = length json_null_str
              then Inr (Redo (eatws_then Finish (set_current JNull tok)) obj)
              else Inr (Next (tok\<lparr>st_pos := st_pos tok + 1\<rparr>) obj)
         else fail json_tokener_error_parse_null tok obj))"

definition case_comment_start :: "char \<Rightarrow> tokener \<Rightarrow> json \<Rightarrow> outcome res" where
  "case_comment_start c tok obj =
     (if c = CHR ''*'' then Inr (Next (memappend [c] (set_state Comment tok)) obj)
      else if c = CHR ''/'' then Inr (Next (memappend [c] (set_state Comment_Eol tok)) obj)
      else fail json_tokener_error_parse_comment tok obj)"

definition case_comment :: "char \<Rightarrow> tokener \<Rightarrow> json \<Rightarrow> outcome res" where
  "case_comment c tok obj =
     (if c \<noteq> CHR ''*'' then Inr (Next (memappend [c] tok) obj)
      else Inr (Next (set_state Comment_End (memappend [c] tok)) obj))"

definition case_comment_eol :: "char \<Rightarrow> tokener \<Rightarrow> json \<Rightarrow> outcome res" where
  "case_comment_eol c tok obj =
     (if c \<noteq> CHR 0x0A then Inr (Next (memappend [c] tok) obj)
      else Inr (Next (set_state Eatws tok) obj))"

definition case_comment_end :: "char \<Rightarrow> tokener \<Rightarrow> json \<Rightarrow> outcome res" where
  "case_comment_end c tok obj =
     (if c = CHR ''/'' then Inr (Next (set_state Eatws (memappend [c] tok)) obj)
      else Inr (Next (set_state Comment (memappend [c] tok)) obj))"

text \<open>The new string is a copy of the buffer up to its first zero byte.\<close>

definition case_string :: "char \<Rightarrow> tokener \<Rightarrow> json \<Rightarrow> outcome res" where
  "case_string c tok obj =
     (if c = quote_char tok
      then Inr (Next (eatws_then Finish (set_current (JString (cstr_of (pb tok))) tok)) obj)
      else if c = CHR 0x5C
      then Inr (Next (set_state String_Escape (set_saved_state Str tok)) obj)
      else Inr (Next (memappend [c] tok) obj))"

definition case_string_escape :: "char \<Rightarrow> tokener \<Rightarrow> json \<Rightarrow> outcome res" where
  "case_string_escape c tok obj =
     (if c = CHR 0x22 \<or> c = CHR 0x5C \<or> c = CHR ''/''
      then Inr (Next (set_state (saved_state (level tok)) (memappend [c] tok)) obj)
      else if c = CHR ''b'' \<or> c = CHR ''n'' \<or> c = CHR ''r'' \<or> c = CHR ''t''
      then Inr (Next (set_state (saved_state (level tok))
                  (memappend [if c = CHR ''b'' then CHR 0x08 else if c = CHR ''n'' then CHR 0x0A
                              else if c = CHR ''r'' then CHR 0x0D else CHR 0x09] tok)) obj)
      else if c = CHR ''u''
      then Inr (Next (set_state Escape_Unicode (tok\<lparr>ucs_char := 0, st_pos := 0\<rparr>)) obj)
      else fail json_tokener_error_parse_string tok obj)"

text \<open>\<^verbatim>\<open>hexdigit\<close> of \<^verbatim>\<open>bits.h\<close>, and
  \<^verbatim>\<open>strchr(json_hex_chars, c)\<close>, which finds the terminator for the zero
  byte.\<close>

definition hexdigit :: "char \<Rightarrow> 32 word" where
  "hexdigit c = (if char_code c \<le> 57 then word_of_int (int (char_code c) - 48)
                 else word_of_nat (char_code c mod 8 + 9))"

definition is_hex :: "char \<Rightarrow> bool" where
  "is_hex c \<longleftrightarrow> c \<in> set json_hex_chars \<or> c = CHR 0x00"

definition byte :: "32 word \<Rightarrow> char" where
  "byte w = char_of (unat w mod 256)"

definition utf8 :: "32 word \<Rightarrow> string" where
  "utf8 w =
     (if w < 0x80 then [byte w]
      else if w < 0x800 then [byte (or 0xc0 (drop_bit 6 w)), byte (or 0x80 (and w 0x3f))]
      else [byte (or 0xe0 (drop_bit 12 w)), byte (or 0x80 (and (drop_bit 6 w) 0x3f)),
            byte (or 0x80 (and w 0x3f))])"

definition case_escape_unicode :: "char \<Rightarrow> tokener \<Rightarrow> json \<Rightarrow> outcome res" where
  "case_escape_unicode c tok0 obj =
     (if is_hex c
      then let tok = tok0\<lparr>ucs_char := ucs_char tok0 + push_bit ((3 - st_pos tok0) * 4) (hexdigit c),
                          st_pos := st_pos tok0 + 1\<rparr>
           in if st_pos tok = 4
              then Inr (Next (set_state (saved_state (level tok)) (memappend (utf8 (ucs_char tok)) tok)) obj)
              else Inr (Next tok obj)
      else fail json_tokener_error_parse_string tok0 obj)"

definition case_boolean :: "char \<Rightarrow> tokener \<Rightarrow> json \<Rightarrow> outcome res" where
  "case_boolean c tok0 obj =
     (let tok = memappend [c] tok0
      in rbind (strncaseeq json_true_str (pb tok) (min (st_pos tok + 1) (length json_true_str))) (\<lambda>eq.
         if eq
         then if st_pos tok = length json_true_str
              then Inr (Redo (eatws_then Finish (set_current (JBool True) tok)) obj)
              else Inr (Next (tok\<lparr>st_pos := st_pos tok + 1\<rparr>) obj)
         else rbind (strncaseeq json_false_str (pb tok) (min (st_pos tok + 1) (length json_false_str))) (\<lambda>eq.
           if eq
           then if st_pos tok = length json_false_str
                then Inr (Redo (eatws_then Finish (set_current (JBool False) tok)) obj)
                else Inr (Next (tok\<lparr>st_pos := st_pos tok + 1\<rparr>) obj)
           else fail json_tokener_error_parse_boolean tok obj)))"

definition json_number_chars :: string where
  "json_number_chars = ''0123456789.+-eE''"

definition case_number :: "char \<Rightarrow> tokener \<Rightarrow> json \<Rightarrow> outcome res" where
  "case_number c tok obj =
     (if c \<in> set json_number_chars
      then Inr (Next ((memappend [c] tok)
             \<lparr>is_double := is_double tok \<or> c = CHR ''.'' \<or> c = CHR ''e''\<rparr>) obj)
      else case (if is_double tok then map_option JDouble (sscanf_lf (cstr_of (pb tok)))
                 else map_option JInt (sscanf_d (cstr_of (pb tok)))) of
             Some num \<Rightarrow> Inr (Redo (eatws_then Finish (set_current num tok)) obj)
           | None \<Rightarrow> fail json_tokener_error_parse_number tok obj)"

text \<open>A level is opened for an element of an array or the value of a member.\<close>

definition push_level :: "json_tokener_state \<Rightarrow> 'p tokst \<Rightarrow> json \<Rightarrow> 'p tok_outcome res" where
  "push_level s tok obj =
     (if MAX_DEPTH - 1 \<le> depth tok then fail json_tokener_error_depth tok obj
      else let tok = (set_state s tok)\<lparr>depth := depth tok + 1\<rparr>
           in Inr (Redo (json_tokener_reset_level (depth tok) tok) obj))"

definition case_array :: "char \<Rightarrow> 'p tokst \<Rightarrow> json \<Rightarrow> 'p tok_outcome res" where
  "case_array c tok obj =
     (if c = CHR '']'' then Inr (Next (eatws_then Finish tok) obj)
      else push_level Array_Add tok obj)"

definition case_array_add :: "char \<Rightarrow> 'p tokst \<Rightarrow> json \<Rightarrow> 'p tok_outcome res" where
  "case_array_add c tok obj =
     rbind (json_object_array_add (current (level tok)) obj) (\<lambda>a.
       Inr (Redo (eatws_then Array_Sep (set_current a tok)) obj))"

definition case_array_sep :: "char \<Rightarrow> 'p tokst \<Rightarrow> json \<Rightarrow> 'p tok_outcome res" where
  "case_array_sep c tok obj =
     (if c = CHR '']'' then Inr (Next (eatws_then Finish tok) obj)
      else if c = CHR '','' then Inr (Next (eatws_then Array tok) obj)
      else fail json_tokener_error_parse_array tok obj)"

definition case_object_field_start :: "char \<Rightarrow> tokener \<Rightarrow> json \<Rightarrow> outcome res" where
  "case_object_field_start c tok obj =
     (if c = CHR ''}'' then Inr (Next (eatws_then Finish tok) obj)
      else if c = CHR 0x22 \<or> c = CHR 0x27
      then Inr (Next (set_state Object_Field (pb_reset (tok\<lparr>quote_char := c\<rparr>))) obj)
      else fail json_tokener_error_parse_object_key_name tok obj)"

definition case_object_field :: "char \<Rightarrow> tokener \<Rightarrow> json \<Rightarrow> outcome res" where
  "case_object_field c tok obj =
     (if c = quote_char tok
      then Inr (Next (eatws_then Object_Field_End (set_obj_field_name (Some (cstr_of (pb tok))) tok)) obj)
      else if c = CHR 0x5C
      then Inr (Next (set_state String_Escape (set_saved_state Object_Field tok)) obj)
      else Inr (Next (memappend [c] tok) obj))"

definition case_object_field_end :: "char \<Rightarrow> 'p tokst \<Rightarrow> json \<Rightarrow> 'p tok_outcome res" where
  "case_object_field_end c tok obj =
     (if c = CHR '':'' then Inr (Next (eatws_then Object_Value tok) obj)
      else fail json_tokener_error_parse_object_key_sep tok obj)"

definition case_object_value :: "char \<Rightarrow> 'p tokst \<Rightarrow> json \<Rightarrow> 'p tok_outcome res" where
  "case_object_value c tok obj = push_level Object_Value_Add tok obj"

definition case_object_value_add :: "char \<Rightarrow> 'p tokst \<Rightarrow> json \<Rightarrow> 'p tok_outcome res" where
  "case_object_value_add c tok obj = (case obj_field_name (level tok) of
       None \<Rightarrow> Inl Null_Deref
     | Some k \<Rightarrow> rbind (json_object_object_add (current (level tok)) k obj) (\<lambda>ob.
         Inr (Redo (eatws_then Object_Sep (set_obj_field_name None (set_current ob tok))) obj)))"

definition case_object_sep :: "char \<Rightarrow> 'p tokst \<Rightarrow> json \<Rightarrow> 'p tok_outcome res" where
  "case_object_sep c tok obj =
     (if c = CHR ''}'' then Inr (Next (eatws_then Finish tok) obj)
      else if c = CHR '','' then Inr (Next (eatws_then Object_Field_Start tok) obj)
      else fail json_tokener_error_parse_object_value_sep tok obj)"

definition tok_case :: "char \<Rightarrow> tokener \<Rightarrow> json \<Rightarrow> outcome res" where
  "tok_case c tok obj = (case state (level tok) of
       Eatws \<Rightarrow> case_eatws c tok obj
     | Start \<Rightarrow> case_start c tok obj
     | Finish \<Rightarrow> case_finish c tok obj
     | Null \<Rightarrow> case_null c tok obj
     | Comment_Start \<Rightarrow> case_comment_start c tok obj
     | Comment \<Rightarrow> case_comment c tok obj
     | Comment_Eol \<Rightarrow> case_comment_eol c tok obj
     | Comment_End \<Rightarrow> case_comment_end c tok obj
     | Str \<Rightarrow> case_string c tok obj
     | String_Escape \<Rightarrow> case_string_escape c tok obj
     | Escape_Unicode \<Rightarrow> case_escape_unicode c tok obj
     | Boolean \<Rightarrow> case_boolean c tok obj
     | Number \<Rightarrow> case_number c tok obj
     | Array \<Rightarrow> case_array c tok obj
     | Array_Add \<Rightarrow> case_array_add c tok obj
     | Array_Sep \<Rightarrow> case_array_sep c tok obj
     | Object_Field_Start \<Rightarrow> case_object_field_start c tok obj
     | Object_Field \<Rightarrow> case_object_field c tok obj
     | Object_Field_End \<Rightarrow> case_object_field_end c tok obj
     | Object_Value \<Rightarrow> case_object_value c tok obj
     | Object_Value_Add \<Rightarrow> case_object_value_add c tok obj
     | Object_Sep \<Rightarrow> case_object_sep c tok obj)"

subsection \<open>The loop\<close>

text \<open>The turns on one character: \<^verbatim>\<open>Endless_Loop\<close> stands for more than
  \<open>n\<close> of them, which the parser never takes (\<^verbatim>\<open>tok_char_ok\<close>).\<close>

fun tok_char :: "nat \<Rightarrow> char \<Rightarrow> tokener \<Rightarrow> json \<Rightarrow> outcome res" where
  "tok_char 0 c tok obj = Inl Endless_Loop"
| "tok_char (Suc n) c tok obj =
     rbind (tok_case c tok obj) (\<lambda>r. case r of Redo tok' obj' \<Rightarrow> tok_char n c tok' obj' | _ \<Rightarrow> Inr r)"

lemma tok_char_code [code]:
  "tok_char n c tok obj =
     (if n = 0 then Inl Endless_Loop
      else rbind (tok_case c tok obj) (\<lambda>r.
        case r of Redo tok' obj' \<Rightarrow> tok_char (n - 1) c tok' obj' | _ \<Rightarrow> Inr r))"
  by (cases n) (simp_all cong: tok_outcome.case_cong)

definition MAX_TURNS :: nat where "MAX_TURNS = 10"

text \<open>The loop over the string; the result is the tokener and the last character read.\<close>

fun tok_loop :: "cstring \<Rightarrow> tokener \<Rightarrow> json \<Rightarrow> (tokener \<times> char) res" where
  "tok_loop [] tok obj =
     rbind (tok_char MAX_TURNS (CHR 0x00) tok obj) (\<lambda>r. case r of
       Next tok' obj' \<Rightarrow> Inr (tok', CHR 0x00)
     | Leave tok' obj' \<Rightarrow> Inr (tok', CHR 0x00)
     | Redo _ _ \<Rightarrow> Inl Endless_Loop)"
| "tok_loop (c # str) tok obj =
     rbind (tok_char MAX_TURNS c tok obj) (\<lambda>r. case r of
       Next tok' obj' \<Rightarrow> tok_loop str tok' obj'
     | Leave tok' obj' \<Rightarrow> Inr (tok', c)
     | Redo _ _ \<Rightarrow> Inl Endless_Loop)"

definition json_tokener_parse_ex :: "tokener \<Rightarrow> char list \<Rightarrow> (tokener \<times> json) res" where
  "json_tokener_parse_ex tok str =
     rbind (tok_loop (cstr_of str) (tok\<lparr>err := json_tokener_success\<rparr>) JNull) (\<lambda>(tok, c).
       let tok = (if c = CHR 0x00 \<and> state (level tok) \<noteq> Finish \<and> saved_state (level tok) \<noteq> Finish
                  then tok\<lparr>err := json_tokener_error_parse_eof\<rparr> else tok)
       in Inr (tok, if err tok = json_tokener_success then current (level tok) else JNull))"

text \<open>The result of \<^verbatim>\<open>json_tokener_parse\<close>: \<^verbatim>\<open>error_ptr(-err)\<close>, a
  pointer that is neither null nor an object's, or the value.\<close>

definition json_tokener_parse :: "char list \<Rightarrow> (json_tokener_error + json) res" where
  "json_tokener_parse str =
     rbind (json_tokener_parse_ex json_tokener_new str) (\<lambda>(tok, obj).
       Inr (if err tok \<noteq> json_tokener_success then Inl (err tok) else Inr obj))"

subsection \<open>The invariant of the levels\<close>

named_theorems tok_simps \<open>the levels of the tokener after an assignment\<close>

definition is_array :: "json \<Rightarrow> bool" where
  "is_array j = (case j of JArray _ \<Rightarrow> True | _ \<Rightarrow> False)"

definition is_object :: "json \<Rightarrow> bool" where
  "is_object j = (case j of JObject _ \<Rightarrow> True | _ \<Rightarrow> False)"

lemma is_array_simps [simp]: "is_array (JArray vs)" "is_array j \<longleftrightarrow> (\<exists>vs. j = JArray vs)"
  by (auto simp: is_array_def split: json.splits)

lemma is_object_simps [simp]: "is_object (JObject kvs)" "is_object j \<longleftrightarrow> (\<exists>kvs. j = JObject kvs)"
  by (auto simp: is_object_def split: json.splits)

text \<open>A level below the current one waits for the value of an element or a member.\<close>

definition lower_ok :: "srec \<Rightarrow> bool" where
  "lower_ok l \<longleftrightarrow> (state l = Array_Add \<and> is_array (current l)) \<or>
     (state l = Object_Value_Add \<and> is_object (current l) \<and> obj_field_name l \<noteq> None)"

text \<open>A state that white space or an escape may be followed by.\<close>

definition ready :: "json_tokener_state \<Rightarrow> srec \<Rightarrow> bool" where
  "ready s l \<longleftrightarrow> (case s of
       Start \<Rightarrow> True | Finish \<Rightarrow> True
     | Array \<Rightarrow> is_array (current l) | Array_Sep \<Rightarrow> is_array (current l)
     | Object_Field_Start \<Rightarrow> is_object (current l) | Object_Sep \<Rightarrow> is_object (current l)
     | Object_Field_End \<Rightarrow> is_object (current l) \<and> obj_field_name l \<noteq> None
     | Object_Value \<Rightarrow> is_object (current l) \<and> obj_field_name l \<noteq> None
     | _ \<Rightarrow> False)"

definition in_string :: "srec \<Rightarrow> bool" where
  "in_string l \<longleftrightarrow> saved_state l = Str \<or> (saved_state l = Object_Field \<and> is_object (current l))"

definition top_ok :: "tokener \<Rightarrow> srec \<Rightarrow> bool" where
  "top_ok tok l \<longleftrightarrow> (case state l of
       Eatws \<Rightarrow> ready (saved_state l) l
     | Comment_Start \<Rightarrow> ready (saved_state l) l | Comment \<Rightarrow> ready (saved_state l) l
     | Comment_Eol \<Rightarrow> ready (saved_state l) l | Comment_End \<Rightarrow> ready (saved_state l) l
     | Str \<Rightarrow> True | Number \<Rightarrow> True
     | Object_Field \<Rightarrow> is_object (current l)
     | String_Escape \<Rightarrow> in_string l
     | Escape_Unicode \<Rightarrow> in_string l \<and> st_pos tok < 4
     | Null \<Rightarrow> length (pb tok) = st_pos tok
     | Boolean \<Rightarrow> length (pb tok) = st_pos tok
     | Array_Add \<Rightarrow> is_array (current l)
     | Object_Value_Add \<Rightarrow> is_object (current l) \<and> obj_field_name l \<noteq> None
     | s \<Rightarrow> ready s l)"

definition levels_ok :: "tokener \<Rightarrow> bool" where
  "levels_ok tok \<longleftrightarrow> length (stack tok) = MAX_DEPTH \<and> depth tok < MAX_DEPTH
     \<and> (\<forall>i < depth tok. lower_ok (stack tok ! i))"

definition tok_inv :: "tokener \<Rightarrow> bool" where
  "tok_inv tok \<longleftrightarrow> levels_ok tok \<and> top_ok tok (level tok)"

lemma levels_okD: "levels_ok tok \<Longrightarrow> depth tok < length (stack tok)"
  by (simp add: levels_ok_def)

lemma level_set_level [simp, tok_simps]:
  "depth tok < length (stack tok) \<Longrightarrow> level (set_level f tok) = f (level tok)"
  by (simp add: level_def set_level_def)

lemma set_level_sel [simp, tok_simps]:
  "depth (set_level f tok) = depth tok" "length (stack (set_level f tok)) = length (stack tok)"
  "pb (set_level f tok) = pb tok" "st_pos (set_level f tok) = st_pos tok"
  "is_double (set_level f tok) = is_double tok" "err (set_level f tok) = err tok"
  "quote_char (set_level f tok) = quote_char tok" "ucs_char (set_level f tok) = ucs_char tok"
  by (simp_all add: set_level_def)

lemma level_update [simp, tok_simps]:
  "level (tok\<lparr>pb := x\<rparr>) = level tok" "level (tok\<lparr>st_pos := n\<rparr>) = level tok"
  "level (tok\<lparr>is_double := b\<rparr>) = level tok" "level (tok\<lparr>ucs_char := w\<rparr>) = level tok"
  "level (tok\<lparr>quote_char := c\<rparr>) = level tok" "level (tok\<lparr>err := e\<rparr>) = level tok"
  by (simp_all add: level_def)

lemma levels_ok_update [simp, tok_simps]:
  "levels_ok (tok\<lparr>pb := x\<rparr>) = levels_ok tok" "levels_ok (tok\<lparr>st_pos := n\<rparr>) = levels_ok tok"
  "levels_ok (tok\<lparr>is_double := b\<rparr>) = levels_ok tok"
  "levels_ok (tok\<lparr>ucs_char := w\<rparr>) = levels_ok tok"
  "levels_ok (tok\<lparr>quote_char := c\<rparr>) = levels_ok tok"
  "levels_ok (tok\<lparr>err := e\<rparr>) = levels_ok tok"
  by (simp_all add: levels_ok_def)

lemma levels_ok_set_level [simp, tok_simps]: "levels_ok (set_level f tok) = levels_ok tok"
  by (auto simp: levels_ok_def set_level_def)

lemmas set_defs = set_state_def set_saved_state_def set_current_def set_obj_field_name_def
  eatws_then_def memappend_def pb_reset_def

text \<open>How many turns a character may still take.\<close>

definition turns :: "json_tokener_state \<Rightarrow> nat" where
  "turns s = (case s of Array_Add \<Rightarrow> 2 | Object_Value_Add \<Rightarrow> 2 | Finish \<Rightarrow> 3
     | Null \<Rightarrow> 5 | Boolean \<Rightarrow> 5 | Number \<Rightarrow> 5 | Start \<Rightarrow> 6 | Array \<Rightarrow> 8 | Object_Value \<Rightarrow> 8
     | _ \<Rightarrow> 0)"

definition rank :: "tokener \<Rightarrow> nat" where
  "rank tok = (case state (level tok) of Eatws \<Rightarrow> Suc (turns (saved_state (level tok))) | s \<Rightarrow> turns s)"

definition step_ok :: "tokener \<Rightarrow> outcome res \<Rightarrow> bool" where
  "step_ok tok r \<longleftrightarrow> (case r of
       Inl _ \<Rightarrow> False
     | Inr (Next tok' _) \<Rightarrow> tok_inv tok'
     | Inr (Redo tok' _) \<Rightarrow> tok_inv tok' \<and> rank tok' < rank tok
     | Inr (Leave tok' _) \<Rightarrow> True)"

lemma ready_update [simp]:
  "ready s (l\<lparr>state := x\<rparr>) = ready s l" "ready s (l\<lparr>saved_state := x\<rparr>) = ready s l"
  by (simp_all add: ready_def split: json_tokener_state.split)

lemmas ready_simps [simp] = ready_def [of Start] ready_def [of Finish] ready_def [of Array]
  ready_def [of Array_Sep] ready_def [of Object_Field_Start] ready_def [of Object_Sep]
  ready_def [of Object_Field_End] ready_def [of Object_Value]

lemmas step_defs = step_ok_def tok_inv_def top_ok_def in_string_def rank_def turns_def
  fail_def levels_okD

lemma strncaseeq_total: "n \<le> length a \<Longrightarrow> n \<le> length b \<Longrightarrow> \<exists>r. strncaseeq a b n = Inr r"
  by (induction a b n rule: strncaseeq.induct) auto

lemma step_eatws: "tok_inv tok \<Longrightarrow> state (level tok) = Eatws \<Longrightarrow> step_ok tok (case_eatws c tok obj)"
  by (simp add: step_defs case_eatws_def set_defs ready_def split: json_tokener_state.splits)

lemma step_start: "tok_inv tok \<Longrightarrow> state (level tok) = Start \<Longrightarrow> step_ok tok (case_start c tok obj)"
  by (auto simp: step_defs case_start_def set_defs split: option.splits)

lemma step_comment_start: "tok_inv tok \<Longrightarrow> state (level tok) = Comment_Start \<Longrightarrow> step_ok tok (case_comment_start c tok obj)"
  by (auto simp: step_defs case_comment_start_def set_defs split: option.splits)

lemma step_comment: "tok_inv tok \<Longrightarrow> state (level tok) = Comment \<Longrightarrow> step_ok tok (case_comment c tok obj)"
  by (auto simp: step_defs case_comment_def set_defs split: option.splits)

lemma step_comment_eol: "tok_inv tok \<Longrightarrow> state (level tok) = Comment_Eol \<Longrightarrow> step_ok tok (case_comment_eol c tok obj)"
  by (auto simp: step_defs case_comment_eol_def set_defs split: option.splits)

lemma step_comment_end: "tok_inv tok \<Longrightarrow> state (level tok) = Comment_End \<Longrightarrow> step_ok tok (case_comment_end c tok obj)"
  by (auto simp: step_defs case_comment_end_def set_defs split: option.splits)

lemma step_string: "tok_inv tok \<Longrightarrow> state (level tok) = Str \<Longrightarrow> step_ok tok (case_string c tok obj)"
  by (auto simp: step_defs case_string_def set_defs split: option.splits)

lemma resume_string:
  assumes "levels_ok tok" and "in_string (level tok)"
  shows "tok_inv (set_state (saved_state (level tok)) (memappend s tok))"
  using assms by (auto simp: step_defs set_defs)

lemma step_string_escape:
  assumes "tok_inv tok" and "state (level tok) = String_Escape"
  shows "step_ok tok (case_string_escape c tok obj)"
proof -
  have "levels_ok tok" "in_string (level tok)"
    using assms by (auto simp: tok_inv_def top_ok_def)
  then have "tok_inv (set_state Escape_Unicode (tok\<lparr>ucs_char := 0, st_pos := 0\<rparr>))"
    by (auto simp: step_defs set_state_def)
  moreover have "\<And>s. tok_inv (set_state (saved_state (level tok)) (memappend s tok))"
    using \<open>levels_ok tok\<close> \<open>in_string (level tok)\<close> by (rule resume_string)
  ultimately show ?thesis by (simp add: case_string_escape_def step_ok_def fail_def)
qed

lemma step_escape_unicode:
  assumes "tok_inv tok" and "state (level tok) = Escape_Unicode"
  shows "step_ok tok (case_escape_unicode c tok obj)"
proof -
  define w where "w = ucs_char tok + push_bit ((3 - st_pos tok) * 4) (hexdigit c)"
  define u where "u = utf8 w"
  show ?thesis
    using assms unfolding case_escape_unicode_def w_def [symmetric]
    by (auto simp: step_defs set_defs Let_def u_def [symmetric])
qed

lemma step_number: "tok_inv tok \<Longrightarrow> state (level tok) = Number \<Longrightarrow> step_ok tok (case_number c tok obj)"
  by (auto simp: step_defs case_number_def set_defs split: option.splits)

lemma step_array_sep: "tok_inv tok \<Longrightarrow> state (level tok) = Array_Sep \<Longrightarrow> step_ok tok (case_array_sep c tok obj)"
  by (auto simp: step_defs case_array_sep_def set_defs split: option.splits)

lemma step_object_field_start: "tok_inv tok \<Longrightarrow> state (level tok) = Object_Field_Start \<Longrightarrow> step_ok tok (case_object_field_start c tok obj)"
  by (auto simp: step_defs case_object_field_start_def set_defs split: option.splits)

lemma step_object_field: "tok_inv tok \<Longrightarrow> state (level tok) = Object_Field \<Longrightarrow> step_ok tok (case_object_field c tok obj)"
  by (auto simp: step_defs case_object_field_def set_defs split: option.splits)

lemma step_object_field_end: "tok_inv tok \<Longrightarrow> state (level tok) = Object_Field_End \<Longrightarrow> step_ok tok (case_object_field_end c tok obj)"
  by (auto simp: step_defs case_object_field_end_def set_defs split: option.splits)

lemma step_object_sep: "tok_inv tok \<Longrightarrow> state (level tok) = Object_Sep \<Longrightarrow> step_ok tok (case_object_sep c tok obj)"
  by (auto simp: step_defs case_object_sep_def set_defs split: option.splits)

lemma step_array_add: "tok_inv tok \<Longrightarrow> state (level tok) = Array_Add \<Longrightarrow> step_ok tok (case_array_add c tok obj)"
  by (auto simp: step_defs case_array_add_def set_defs json_object_array_add_def split: option.splits)

lemma step_object_value_add: "tok_inv tok \<Longrightarrow> state (level tok) = Object_Value_Add \<Longrightarrow> step_ok tok (case_object_value_add c tok obj)"
  by (auto simp: step_defs case_object_value_add_def set_defs json_object_object_add_def split: option.splits)

lemma step_null: "tok_inv tok \<Longrightarrow> state (level tok) = Null \<Longrightarrow> step_ok tok (case_null c tok obj)"
  using strncaseeq_total [of "min (st_pos tok + 1) (length json_null_str)" json_null_str "pb tok @ [c]"]
  by (auto simp: step_defs case_null_def set_defs Let_def)

lemma step_boolean:
  "tok_inv tok \<Longrightarrow> state (level tok) = Boolean \<Longrightarrow> step_ok tok (case_boolean c tok obj)"
  using strncaseeq_total [of "min (st_pos tok + 1) (length json_true_str)" json_true_str "pb tok @ [c]"]
    strncaseeq_total [of "min (st_pos tok + 1) (length json_false_str)" json_false_str "pb tok @ [c]"]
  by (auto simp: step_defs case_boolean_def set_defs Let_def)

text \<open>Opening and closing a level.\<close>

lemma levels_ok_push:
  assumes "levels_ok tok" and "lower_ok (level tok)" and "Suc (depth tok) < MAX_DEPTH"
  shows "levels_ok (tok\<lparr>depth := Suc (depth tok)\<rparr>)"
  using assms by (auto simp: levels_ok_def level_def less_Suc_eq)

lemma levels_ok_reset_level:
  "levels_ok tok \<Longrightarrow> depth tok \<le> d \<Longrightarrow> levels_ok (json_tokener_reset_level d tok)"
  by (auto simp: levels_ok_def json_tokener_reset_level_def)

lemma level_reset_level [tok_simps]:
  "levels_ok tok \<Longrightarrow> level (json_tokener_reset_level (depth tok) tok) = srec_reset"
  by (simp add: level_def json_tokener_reset_level_def levels_ok_def)

lemma levels_ok_pop:
  assumes "levels_ok tok" and "0 < depth tok"
  shows "levels_ok (tok\<lparr>depth := depth tok - 1\<rparr>)" "lower_ok (level (tok\<lparr>depth := depth tok - 1\<rparr>))"
  using assms by (auto simp: levels_ok_def level_def)

lemma set_level_push [simp]:
  "set_level f tok\<lparr>depth := n\<rparr> = (tok\<lparr>depth := n\<rparr>)\<lparr>stack := (stack tok)[depth tok := f (level tok)]\<rparr>"
  by (simp add: set_level_def)

lemma step_push_level:
  assumes "tok_inv tok" and "lower_ok ((level tok)\<lparr>state := s\<rparr>)" and "rank tok = 8"
  shows "step_ok tok (push_level s tok obj)"
proof (cases "MAX_DEPTH - 1 \<le> depth tok")
  case False
  let ?t = "(set_state s tok)\<lparr>depth := Suc (depth tok)\<rparr>"
  have ok: "levels_ok tok" using assms(1) by (simp add: tok_inv_def)
  then have "levels_ok (set_state s tok)" by (simp add: set_state_def)
  moreover have "lower_ok (level (set_state s tok))" 
    using assms(2) ok by (simp add: set_state_def levels_okD)
  moreover have "Suc (depth (set_state s tok)) < MAX_DEPTH" using False by (simp add: set_state_def)
  ultimately have "levels_ok ((set_state s tok)\<lparr>depth := Suc (depth (set_state s tok))\<rparr>)"
    by (rule levels_ok_push)
  then have t: "levels_ok ?t" by (simp add: set_state_def)
  have "level (json_tokener_reset_level (depth ?t) ?t) = srec_reset"
    using t by (rule level_reset_level)
  moreover have "levels_ok (json_tokener_reset_level (depth ?t) ?t)"
    using t by (simp add: levels_ok_reset_level)
  ultimately show ?thesis using False assms(3)
    by (simp add: push_level_def step_ok_def Let_def tok_inv_def top_ok_def ready_def rank_def
        srec_reset_def turns_def)
qed (simp add: push_level_def step_ok_def fail_def)

lemma step_array: "tok_inv tok \<Longrightarrow> state (level tok) = Array \<Longrightarrow> step_ok tok (case_array c tok obj)"
  using step_push_level [of tok Array_Add obj]
  by (auto simp: case_array_def step_defs set_defs lower_ok_def)

lemma step_object_value:
  "tok_inv tok \<Longrightarrow> state (level tok) = Object_Value \<Longrightarrow> step_ok tok (case_object_value c tok obj)"
  using step_push_level [of tok Object_Value_Add obj]
  by (auto simp: case_object_value_def step_defs lower_ok_def)

lemma step_finish:
  assumes "tok_inv tok" and "state (level tok) = Finish"
  shows "step_ok tok (case_finish c tok obj)"
proof (cases "depth tok = 0")
  case False
  let ?t = "json_tokener_reset_level (depth tok) tok"
  have "levels_ok ?t" using assms(1) by (simp add: tok_inv_def levels_ok_reset_level)
  then have "levels_ok (?t\<lparr>depth := depth ?t - 1\<rparr>)" "lower_ok (level (?t\<lparr>depth := depth ?t - 1\<rparr>))"
    using False levels_ok_pop [of ?t] by (auto simp: json_tokener_reset_level_def)
  then have "tok_inv (?t\<lparr>depth := depth ?t - 1\<rparr>) \<and> rank (?t\<lparr>depth := depth ?t - 1\<rparr>) \<le> 2"
    by (auto simp: tok_inv_def top_ok_def lower_ok_def rank_def turns_def)
  moreover have "rank tok = 3" using assms(2) by (simp add: rank_def turns_def)
  moreover have "depth ?t = depth tok" by (simp add: json_tokener_reset_level_def)
  ultimately show ?thesis using False by (simp add: case_finish_def step_ok_def)
qed (simp add: case_finish_def step_ok_def)

lemma step_tok_case: "tok_inv tok \<Longrightarrow> step_ok tok (tok_case c tok obj)"
  unfolding tok_case_def
  by (cases "state (level tok)")
    (simp_all add: step_eatws step_start step_finish step_null step_comment_start step_comment
      step_comment_eol step_comment_end step_string step_string_escape step_escape_unicode
      step_boolean step_number step_array step_array_add step_array_sep step_object_field_start
      step_object_field step_object_field_end step_object_value step_object_value_add
      step_object_sep)

subsection \<open>The parser returns\<close>

lemma rank_less_MAX_TURNS: "rank tok < MAX_TURNS"
proof -
  have "turns s \<le> 8" for s by (simp add: turns_def split: json_tokener_state.splits)
  then have "turns s \<le> 9" "Suc (turns s) \<le> 9" for s
    by (metis le_SucI eval_nat_numeral(3), metis Suc_le_mono eval_nat_numeral(3))
  then have "rank tok \<le> 9" by (simp add: rank_def split: json_tokener_state.splits)
  then show ?thesis by (simp add: MAX_TURNS_def)
qed

definition char_ok :: "outcome res \<Rightarrow> bool" where
  "char_ok r \<longleftrightarrow> (case r of Inr (Next tok' _) \<Rightarrow> tok_inv tok' | Inr (Leave _ _) \<Rightarrow> True | _ \<Rightarrow> False)"

lemma tok_char_ok: "tok_inv tok \<Longrightarrow> rank tok < n \<Longrightarrow> char_ok (tok_char n c tok obj)"
proof (induction n c tok obj rule: tok_char.induct)
  case (2 n c tok obj)
  then show ?case using step_tok_case [OF 2(2), of c obj]
    by (auto simp: step_ok_def char_ok_def split: sum.splits tok_outcome.splits)
qed simp

lemma tok_loop_ok: "tok_inv tok \<Longrightarrow> returns (tok_loop str tok obj)"
proof (induction str tok obj rule: tok_loop.induct)
  case (1 tok obj)
  then show ?case using tok_char_ok [OF 1(1) rank_less_MAX_TURNS, of "CHR 0x00" obj]
    by (auto simp: char_ok_def split: sum.splits tok_outcome.splits)
next
  case (2 c str tok obj)
  then show ?case using tok_char_ok [OF 2(2) rank_less_MAX_TURNS, of c obj]
    by (auto simp: char_ok_def split: sum.splits tok_outcome.splits)
qed

lemma tok_inv_new [simp]: "tok_inv json_tokener_new" "tok_inv (json_tokener_new\<lparr>err := e\<rparr>)"
  by (simp_all add: json_tokener_new_def json_tokener_reset_def json_tokener_reset_level_def
      tok_inv_def levels_ok_def level_def top_ok_def srec_reset_def MAX_DEPTH_def)

text \<open>
  On every string the machine returns, without using a level as a container it is not, and
  without a loop on one character: its result is an error code or a value. \<open>TokenerBuf\<close> adds the
  sizes of the buffer, the offset and the bounds of the stack.
\<close>

theorem json_tokener_parse_total:
  "\<exists>r. json_tokener_parse str = Inr r"
  using tok_loop_ok [OF tok_inv_new(2), of "cstr_of str" json_tokener_success JNull]
  by (auto simp: json_tokener_parse_def json_tokener_parse_ex_def returns_iff Let_def)

end
