(* ===== verification/JsonRoundtrip.thy ===== *)
theory JsonRoundtrip
  imports Tokener
begin

text \<open>
  The parser reads back what the printer writes (\<^verbatim>\<open>json_tokener.c\<close> against
  \<^verbatim>\<open>json_object.c\<close>).

  The parser's loop as a step relation: a configuration is the rest of the text, its terminator
  included, the tokener, and the local variable \<^verbatim>\<open>obj\<close>; a step is a turn of the
  switch. The lemmas follow the parser through the text of a string, a number, a literal, an
  array and an object; a value ends in the state \<^verbatim>\<open>Eatws\<close> before
  \<^verbatim>\<open>Finish\<close>, at the character that follows it.
\<close>

type_synonym conf = "char list \<times> tokener \<times> json"

inductive step :: "conf \<Rightarrow> conf \<Rightarrow> bool" where
  redo: "tok_case c tok obj = Inr (Redo tok' obj') \<Longrightarrow> step (c # s, tok, obj) (c # s, tok', obj')"
| next_char: "tok_case c tok obj = Inr (Next tok' obj') \<Longrightarrow> step (c # s, tok, obj) (s, tok', obj')"

inductive_cases step_ConsE [elim!]: "step (s, tok, obj) q"

abbreviation steps :: "conf \<Rightarrow> conf \<Rightarrow> bool" where
  "steps \<equiv> step\<^sup>*\<^sup>*"

subsection \<open>Steps and the loop\<close>

lemma tok_char_fuel:
  "tok_inv tok \<Longrightarrow> rank tok < n \<Longrightarrow> rank tok < m \<Longrightarrow> tok_char n c tok obj = tok_char m c tok obj"
proof (induction n c tok obj arbitrary: m rule: tok_char.induct)
  case (2 n c tok obj)
  then obtain m' where "m = Suc m'" by (cases m) auto
  with 2 show ?case using step_tok_case [OF 2(2), of c obj]
    by (auto simp: step_ok_def rbind_def split: sum.splits tok_outcome.splits)
qed simp

lemma tok_char_redo:
  assumes "tok_inv tok" and "tok_case c tok obj = Inr (Redo tok' obj')"
  shows "tok_char MAX_TURNS c tok obj = tok_char MAX_TURNS c tok' obj'" "tok_inv tok'"
proof -
  from step_tok_case [OF assms(1), of c obj] assms(2) have *: "tok_inv tok'" "rank tok' < rank tok"
    by (simp_all add: step_ok_def)
  obtain n where n: "MAX_TURNS = Suc n" by (cases MAX_TURNS) (auto simp: MAX_TURNS_def)
  have "tok_char MAX_TURNS c tok obj = tok_char n c tok' obj'" unfolding n using assms(2) by simp
  also have "\<dots> = tok_char MAX_TURNS c tok' obj'"
    using *(1) by (rule tok_char_fuel) (use * rank_less_MAX_TURNS [of tok] n in auto)
  finally show "tok_char MAX_TURNS c tok obj = tok_char MAX_TURNS c tok' obj'" .
  show "tok_inv tok'" by (rule *(1))
qed

lemma tok_char_next:
  assumes "tok_inv tok" and "tok_case c tok obj = Inr (Next tok' obj')"
  shows "tok_char MAX_TURNS c tok obj = Inr (Next tok' obj')" "tok_inv tok'"
proof -
  obtain n where n: "MAX_TURNS = Suc n" by (cases MAX_TURNS) (auto simp: MAX_TURNS_def)
  show "tok_char MAX_TURNS c tok obj = Inr (Next tok' obj')" unfolding n using assms(2) by simp
  from step_tok_case [OF assms(1), of c obj] assms(2) show "tok_inv tok'" by (simp add: step_ok_def)
qed

lemma step_loop:
  assumes "step (s @ [CHR 0x00], tok, obj) q" and "tok_inv tok" and "is_cstring s"
  shows "fst q = [] \<or> (\<exists>s' tok' obj'. q = (s' @ [CHR 0x00], tok', obj') \<and> tok_inv tok' \<and> is_cstring s'
    \<and> tok_loop s tok obj = tok_loop s' tok' obj')"
proof (cases s)
  case Nil
  with assms show ?thesis using tok_char_redo [OF assms(2), of "CHR 0x00" obj]
    by (auto intro!: exI [of _ "[]"])
next
  case (Cons c r)
  with assms(1) consider u ob where "tok_case c tok obj = Inr (Redo u ob)" "q = (s @ [CHR 0x00], u, ob)"
    | u ob where "tok_case c tok obj = Inr (Next u ob)" "q = (r @ [CHR 0x00], u, ob)"
    by (auto elim: step.cases)
  then show ?thesis
  proof cases
    case 1
    with Cons assms(3) tok_char_redo [OF assms(2) 1(1)] show ?thesis by auto
  next
    case 2
    with Cons assms(3) tok_char_next [OF assms(2) 2(1)] show ?thesis by auto
  qed
qed

lemma steps_Nil: "steps q p \<Longrightarrow> fst q = [] \<Longrightarrow> fst p = []"
  by (induction rule: converse_rtranclp_induct) auto

lemma steps_loop:
  assumes "steps q p" and "q = (s @ [CHR 0x00], tok, obj)" and "p = (s' @ [CHR 0x00], tok', obj')"
    and "tok_inv tok" and "is_cstring s"
  shows "tok_loop s tok obj = tok_loop s' tok' obj'"
  using assms
proof (induction arbitrary: s tok obj rule: converse_rtranclp_induct)
  case (step q q')
  then have "fst q' \<noteq> []" using steps_Nil by fastforce
  with step_loop [of s tok obj q'] step show ?case by force
qed auto

subsection \<open>The current level and those below\<close>

definition at_lvl :: "srec list \<Rightarrow> srec \<Rightarrow> tokener \<Rightarrow> bool" where
  "at_lvl low l tok \<longleftrightarrow> length (stack tok) = MAX_DEPTH \<and> length low < MAX_DEPTH
     \<and> depth tok = length low \<and> take (length low) (stack tok) = low \<and> level tok = l"

lemma at_level: "at_lvl low l tok \<Longrightarrow> level tok = l"
  by (simp add: at_lvl_def)

lemma at_depth: "at_lvl low l tok \<Longrightarrow> depth tok = length low"
  by (simp add: at_lvl_def)

lemma at_set_level: "at_lvl low l tok \<Longrightarrow> at_lvl low (f l) (set_level f tok)"
  by (auto simp: at_lvl_def set_level_def level_def)

lemma at_set [intro]:
  assumes "at_lvl low l tok"
  shows "at_lvl low (l\<lparr>state := x\<rparr>) (set_state x tok)"
    "at_lvl low (l\<lparr>saved_state := x\<rparr>) (set_saved_state x tok)"
    "at_lvl low (l\<lparr>current := j\<rparr>) (set_current j tok)"
    "at_lvl low (l\<lparr>obj_field_name := k\<rparr>) (set_obj_field_name k tok)"
    "at_lvl low (l\<lparr>state := Eatws, saved_state := x\<rparr>) (eatws_then x tok)"
proof -
  have "at_lvl low (l\<lparr>saved_state := x, state := Eatws\<rparr>) (eatws_then x tok)"
    unfolding eatws_then_def set_state_def set_saved_state_def by (intro at_set_level assms)
  then show "at_lvl low (l\<lparr>state := Eatws, saved_state := x\<rparr>) (eatws_then x tok)" by (cases l) simp
qed (simp_all add: set_state_def set_saved_state_def set_current_def set_obj_field_name_def
      at_set_level [OF assms])

lemma at_update [simp]:
  "at_lvl low l (tok\<lparr>pb := x\<rparr>) = at_lvl low l tok" "at_lvl low l (tok\<lparr>st_pos := n\<rparr>) = at_lvl low l tok"
  "at_lvl low l (tok\<lparr>is_double := b\<rparr>) = at_lvl low l tok" "at_lvl low l (tok\<lparr>ucs_char := w\<rparr>) = at_lvl low l tok"
  "at_lvl low l (tok\<lparr>quote_char := c\<rparr>) = at_lvl low l tok" "at_lvl low l (memappend x tok) = at_lvl low l tok"
  "at_lvl low l (pb_reset tok) = at_lvl low l tok"
  by (simp_all add: at_lvl_def memappend_def pb_reset_def)

lemma at_push:
  assumes "at_lvl low l tok" and "Suc (length low) < MAX_DEPTH"
  shows "at_lvl (low @ [l]) srec_reset
    (json_tokener_reset_level (Suc (depth tok)) (tok\<lparr>depth := Suc (depth tok)\<rparr>))"
proof -
  have "take (Suc (length low)) (stack tok) = low @ [l]"
    using assms by (auto simp: at_lvl_def take_Suc_conv_app_nth level_def)
  with assms show ?thesis by (simp add: at_lvl_def json_tokener_reset_level_def level_def)
qed

lemma at_pop:
  assumes "at_lvl (low @ [l']) l tok"
  shows "at_lvl low l' ((json_tokener_reset_level (depth tok) tok)\<lparr>depth := depth tok - 1\<rparr>)"
proof -
  have t: "take (Suc (length low)) (stack tok) = low @ [l']" using assms by (simp add: at_lvl_def)
  have "take (length low) (stack tok) = low" using arg_cong [OF t, of "take (length low)"] by simp
  moreover have "stack tok ! length low = l'" using arg_cong [OF t, of "\<lambda>xs. xs ! length low"] by simp
  ultimately show ?thesis
    using assms by (simp add: at_lvl_def json_tokener_reset_level_def level_def)
qed

text \<open>A level whose value is complete: it is delivered at the next character that is not white
  space.\<close>

definition done_with :: "json \<Rightarrow> srec \<Rightarrow> bool" where
  "done_with j l \<longleftrightarrow> state l = Eatws \<and> saved_state l = Finish \<and> current l = j"

definition graphic :: "char \<Rightarrow> bool" where
  "graphic c \<longleftrightarrow> \<not> isspace c \<and> c \<noteq> CHR ''/''"

lemma steps_trans [trans]: "steps a b \<Longrightarrow> steps b c \<Longrightarrow> steps a c"
  by (rule rtranclp_trans)

lemma redoI: "tok_case c tok obj = Inr (Redo tok' obj') \<Longrightarrow> steps (c # s, tok', obj') q \<Longrightarrow>
    steps (c # s, tok, obj) q"
  by (rule converse_rtranclp_into_rtranclp) (rule step.redo)

lemma nextI: "tok_case c tok obj = Inr (Next tok' obj') \<Longrightarrow> steps (s, tok', obj') q \<Longrightarrow>
    steps (c # s, tok, obj) q"
  by (rule converse_rtranclp_into_rtranclp) (rule step.next_char)

lemma eatws_space:
  "at_lvl low l tok \<Longrightarrow> state l = Eatws \<Longrightarrow> steps (CHR '' '' # s, tok, obj) (s, tok, obj)"
  by (rule nextI) (auto simp: tok_case_def at_level case_eatws_def char_class_defs)

lemma eatws_redo:
  "at_lvl low l tok \<Longrightarrow> state l = Eatws \<Longrightarrow> graphic c \<Longrightarrow>
   steps (c # s, tok, obj) (c # s, set_state (saved_state l) tok, obj)"
  by (rule redoI) (auto simp: tok_case_def at_level case_eatws_def graphic_def)

text \<open>Delivery of a value to the level below.\<close>

lemma finish_redo:
  assumes "at_lvl (low @ [l']) l tok" and "done_with j l" and "graphic c"
  obtains tok' where "steps (c # s, tok, obj) (c # s, tok', j)" and "at_lvl low l' tok'"
proof -
  let ?t = "set_state Finish tok"
  have t: "at_lvl (low @ [l']) (l\<lparr>state := Finish\<rparr>) ?t" using assms(1) by (rule at_set)
  have "steps (c # s, tok, obj) (c # s, ?t, obj)"
    using eatws_redo [OF assms(1), of c s obj] assms(2,3) by (simp add: done_with_def)
  also have "steps \<dots> (c # s, (json_tokener_reset_level (depth ?t) ?t)\<lparr>depth := depth ?t - 1\<rparr>, j)"
    using at_level [OF t] at_depth [OF t] assms(2)
    by (intro redoI [OF _ rtranclp.rtrancl_refl]) (simp add: tok_case_def case_finish_def done_with_def)
  finally show thesis using at_pop [OF t] by (rule that)
qed

lemma deliver_element:
  assumes "at_lvl (low @ [la]) l tok" and "done_with j l" and "graphic c"
    and "state la = Array_Add" and "current la = JArray vs"
  obtains tok' l' where "steps (c # s, tok, obj) (c # s, tok', j)" and "at_lvl low l' tok'"
    and "state l' = Array_Sep" and "current l' = JArray (vs @ [j])"
proof -
  obtain u where u: "steps (c # s, tok, obj) (c # s, u, j)" "at_lvl low la u"
    using finish_redo [OF assms(1-3)] .
  let ?v = "eatws_then Array_Sep (set_current (JArray (vs @ [j])) u)"
  let ?l = "la\<lparr>current := JArray (vs @ [j])\<rparr>\<lparr>state := Eatws, saved_state := Array_Sep\<rparr>"
  have v: "at_lvl low ?l ?v" using u(2) by (intro at_set)
  note u(1)
  also have "steps (c # s, u, j) (c # s, ?v, j)"
    using at_level [OF u(2)] assms(4,5)
    by (intro redoI [OF _ rtranclp.rtrancl_refl])
      (simp add: tok_case_def case_array_add_def json_object_array_add_def)
  also have "steps \<dots> (c # s, set_state Array_Sep ?v, j)"
    using eatws_redo [OF v, of c s j] assms(3) by simp
  finally show thesis using at_set(1) [OF v, of Array_Sep] by (rule that) simp_all
qed

lemma deliver_member:
  assumes "at_lvl (low @ [la]) l tok" and "done_with j l" and "graphic c"
    and "state la = Object_Value_Add" and "current la = JObject kvs" and "obj_field_name la = Some k"
    and "k \<notin> fst ` set kvs"
  obtains tok' l' where "steps (c # s, tok, obj) (c # s, tok', j)" and "at_lvl low l' tok'"
    and "state l' = Object_Sep" and "current l' = JObject (kvs @ [(k, j)])"
proof -
  obtain u where u: "steps (c # s, tok, obj) (c # s, u, j)" "at_lvl low la u"
    using finish_redo [OF assms(1-3)] .
  let ?v = "eatws_then Object_Sep (set_obj_field_name None (set_current (JObject (kvs @ [(k, j)])) u))"
  let ?l = "la\<lparr>current := JObject (kvs @ [(k, j)])\<rparr>\<lparr>obj_field_name := None\<rparr>
      \<lparr>state := Eatws, saved_state := Object_Sep\<rparr>"
  have v: "at_lvl low ?l ?v" using u(2) by (intro at_set)
  note u(1)
  also have "steps (c # s, u, j) (c # s, ?v, j)"
    using at_level [OF u(2)] assms(4-7)
    by (intro redoI [OF _ rtranclp.rtrancl_refl])
      (simp add: tok_case_def case_object_value_add_def json_object_object_add_def members_delete_fresh)
  also have "steps \<dots> (c # s, set_state Object_Sep ?v, j)"
    using eatws_redo [OF v, of c s j] assms(3) by simp
  finally show thesis using at_set(1) [OF v, of Object_Sep] by (rule that) simp_all
qed

text \<open>A level is opened at the first character of a value.\<close>

lemma push_redo:
  assumes "at_lvl low l tok" and "Suc (length low) < MAX_DEPTH"
    and "tok_case c tok obj = push_level x tok obj"
  obtains tok' where "steps (c # s, tok, obj) (c # s, tok', obj)"
    and "at_lvl (low @ [l\<lparr>state := x\<rparr>]) srec_reset tok'"
proof -
  let ?t = "set_state x tok"
  have t: "at_lvl low (l\<lparr>state := x\<rparr>) ?t" using assms(1) by (rule at_set)
  have "\<not> MAX_DEPTH - 1 \<le> depth tok" using assms(1,2) by (simp add: at_lvl_def)
  then have "steps (c # s, tok, obj)
      (c # s, json_tokener_reset_level (Suc (depth ?t)) (?t\<lparr>depth := Suc (depth ?t)\<rparr>), obj)"
    using assms(3)
    by (intro redoI [OF _ rtranclp.rtrancl_refl]) (simp add: push_level_def Let_def set_state_def)
  then show thesis using at_push [OF t assms(2)] by (rule that)
qed

lemma open_element:
  assumes "at_lvl low l tok" and "state l = Eatws" and "saved_state l = Array"
    and "graphic c" and "c \<noteq> CHR '']''" and "Suc (length low) < MAX_DEPTH"
  obtains tok' where "steps (c # s, tok, obj) (c # s, tok', obj)"
    and "at_lvl (low @ [l\<lparr>state := Array_Add\<rparr>]) srec_reset tok'"
proof -
  have t: "at_lvl low (l\<lparr>state := Array\<rparr>) (set_state Array tok)" using assms(1) by (rule at_set)
  have tc: "tok_case c (set_state Array tok) obj = push_level Array_Add (set_state Array tok) obj"
    using at_level [OF t] assms(5) by (simp add: tok_case_def case_array_def)
  obtain tok' where *: "steps (c # s, set_state Array tok, obj) (c # s, tok', obj)"
    "at_lvl (low @ [l\<lparr>state := Array\<rparr>\<lparr>state := Array_Add\<rparr>]) srec_reset tok'"
    using push_redo [OF t assms(6) tc] .
  have "steps (c # s, tok, obj) (c # s, set_state Array tok, obj)"
    using eatws_redo [OF assms(1,2,4), of s obj] assms(3) by simp
  also note *(1)
  finally show thesis using *(2) by (intro that) simp_all
qed

lemma open_member:
  assumes "at_lvl low l tok" and "state l = Eatws" and "saved_state l = Object_Value"
    and "graphic c" and "Suc (length low) < MAX_DEPTH"
  obtains tok' where "steps (c # s, tok, obj) (c # s, tok', obj)"
    and "at_lvl (low @ [l\<lparr>state := Object_Value_Add\<rparr>]) srec_reset tok'"
proof -
  have t: "at_lvl low (l\<lparr>state := Object_Value\<rparr>) (set_state Object_Value tok)"
    using assms(1) by (rule at_set)
  obtain tok' where *: "steps (c # s, set_state Object_Value tok, obj) (c # s, tok', obj)"
    "at_lvl (low @ [l\<lparr>state := Object_Value\<rparr>\<lparr>state := Object_Value_Add\<rparr>]) srec_reset tok'"
    by (rule push_redo [OF t assms(5)]) (use at_level [OF t] in \<open>simp add: tok_case_def case_object_value_def\<close>)
  have "steps (c # s, tok, obj) (c # s, set_state Object_Value tok, obj)"
    using eatws_redo [OF assms(1,2,4), of s obj] assms(3) by simp
  also note *(1)
  finally show thesis using *(2) by (intro that) simp_all
qed

subsection \<open>Strings\<close>

text \<open>The states that collect the characters of a string: a value, or the name of a
  member.\<close>

definition in_text :: "json_tokener_state \<Rightarrow> bool" where
  "in_text x \<longleftrightarrow> x = Str \<or> x = Object_Field"

definition collecting :: "srec list \<Rightarrow> srec \<Rightarrow> json_tokener_state \<Rightarrow> string \<Rightarrow> tokener \<Rightarrow> bool" where
  "collecting low l x p tok \<longleftrightarrow>
     (\<exists>y. at_lvl low (l\<lparr>state := x, saved_state := y\<rparr>) tok) \<and> pb tok = p \<and> quote_char tok = CHR 0x22"

lemma collectingI:
  assumes "at_lvl low (l\<lparr>state := x\<rparr>) tok" and "pb tok = p" and "quote_char tok = CHR 0x22"
  shows "collecting low l x p tok"
proof -
  have "l\<lparr>state := x\<rparr> = l\<lparr>state := x, saved_state := saved_state l\<rparr>" by (cases l) simp
  with assms show ?thesis unfolding collecting_def by metis
qed

lemma set_state_sel [simp]:
  "pb (set_state x tok) = pb tok" "quote_char (set_state x tok) = quote_char tok"
  "pb (set_saved_state x tok) = pb tok" "quote_char (set_saved_state x tok) = quote_char tok"
  "st_pos (set_state x tok) = st_pos tok" "ucs_char (set_state x tok) = ucs_char tok"
  "pb (memappend y tok) = pb tok @ y" "quote_char (memappend y tok) = quote_char tok"
  by (simp_all add: set_state_def set_saved_state_def memappend_def)

lemma collect_char:
  assumes "collecting low l x p tok" and "in_text x" and "c \<noteq> CHR 0x22" and "c \<noteq> CHR 0x5C"
  obtains tok' where "steps (c # s, tok, obj) (s, tok', obj)" and "collecting low l x (p @ [c]) tok'"
proof -
  from assms(1) obtain y where t: "at_lvl low (l\<lparr>state := x, saved_state := y\<rparr>) tok"
    and p: "pb tok = p" "quote_char tok = CHR 0x22" by (auto simp: collecting_def)
  have "steps (c # s, tok, obj) (s, memappend [c] tok, obj)"
    using at_level [OF t] p assms(2-4)
    by (intro nextI [OF _ rtranclp.rtrancl_refl])
      (auto simp: tok_case_def in_text_def case_string_def case_object_field_def)
  moreover have "collecting low l x (p @ [c]) (memappend [c] tok)"
    using t p by (auto simp: collecting_def)
  ultimately show thesis by (rule that)
qed

text \<open>The backslash: the escape is read in a state that goes back to the collecting one.\<close>

definition escaping :: "srec list \<Rightarrow> srec \<Rightarrow> json_tokener_state \<Rightarrow> json_tokener_state \<Rightarrow> string \<Rightarrow> tokener \<Rightarrow> bool" where
  "escaping low l e x p tok \<longleftrightarrow>
     at_lvl low (l\<lparr>state := e, saved_state := x\<rparr>) tok \<and> pb tok = p \<and> quote_char tok = CHR 0x22"

lemma escaping_level: "escaping low l e x p tok \<Longrightarrow> level tok = l\<lparr>state := e, saved_state := x\<rparr>"
  unfolding escaping_def using at_level by blast

lemma escaping_resume:
  assumes "escaping low l e x p tok"
  shows "collecting low l x (p @ q) (set_state x (memappend q tok))"
proof -
  have "at_lvl low (l\<lparr>state := e, saved_state := x\<rparr>\<lparr>state := x\<rparr>) (set_state x (memappend q tok))"
    using assms by (intro at_set) (simp add: escaping_def)
  then have "at_lvl low (l\<lparr>state := x, saved_state := x\<rparr>) (set_state x (memappend q tok))"
    by (cases l) simp
  with assms show ?thesis by (auto simp: collecting_def escaping_def)
qed

lemma collect_backslash:
  assumes "collecting low l x p tok" and "in_text x"
  obtains tok' where "steps (CHR 0x5C # s, tok, obj) (s, tok', obj)" and "escaping low l String_Escape x p tok'"
proof -
  from assms(1) obtain y where t: "at_lvl low (l\<lparr>state := x, saved_state := y\<rparr>) tok"
    and p: "pb tok = p" "quote_char tok = CHR 0x22" by (auto simp: collecting_def)
  let ?t = "set_state String_Escape (set_saved_state x tok)"
  have "steps (CHR 0x5C # s, tok, obj) (s, ?t, obj)"
    using at_level [OF t] p assms(2)
    by (intro nextI [OF _ rtranclp.rtrancl_refl])
      (auto simp: tok_case_def in_text_def case_string_def case_object_field_def)
  moreover have "at_lvl low (l\<lparr>state := x, saved_state := y\<rparr>\<lparr>saved_state := x\<rparr>\<lparr>state := String_Escape\<rparr>) ?t"
    using t by (intro at_set)
  then have "escaping low l String_Escape x p ?t" using p by (cases l) (simp add: escaping_def)
  ultimately show thesis by (rule that)
qed

definition simple_escape :: "char \<Rightarrow> char \<Rightarrow> bool" where
  "simple_escape e c \<longleftrightarrow>
     (e, c) \<in> {(CHR 0x22, CHR 0x22), (CHR 0x5C, CHR 0x5C), (CHR ''/'', CHR ''/''), (CHR ''b'', CHR 0x08),
              (CHR ''n'', CHR 0x0A), (CHR ''r'', CHR 0x0D), (CHR ''t'', CHR 0x09)}"

lemma collect_simple_escape:
  assumes "collecting low l x p tok" and "in_text x" and "simple_escape e c"
  obtains tok' where "steps (CHR 0x5C # e # s, tok, obj) (s, tok', obj)"
    and "collecting low l x (p @ [c]) tok'"
proof -
  obtain u where u: "steps (CHR 0x5C # e # s, tok, obj) (e # s, u, obj)" "escaping low l String_Escape x p u"
    using collect_backslash [OF assms(1,2)] .
  have "case_string_escape e u obj = Inr (Next (set_state x (memappend [c] u)) obj)"
    using assms(3) escaping_level [OF u(2)]
    by (auto simp: simple_escape_def case_string_escape_def)
  then have "steps (e # s, u, obj) (s, set_state x (memappend [c] u), obj)"
    using escaping_level [OF u(2)]
    by (intro nextI [OF _ rtranclp.rtrancl_refl]) (simp add: tok_case_def)
  with u(1) have "steps (CHR 0x5C # e # s, tok, obj) (s, set_state x (memappend [c] u), obj)"
    by (rule steps_trans)
  then show thesis using escaping_resume [OF u(2)] by (rule that)
qed

text \<open>\<open>\u00XY\<close>: each hexadecimal digit is added at its place.\<close>

definition hex_at :: "nat \<Rightarrow> char" where
  "hex_at k = json_hex_chars ! k"

lemma hexdigit_hex_at: "k < 16 \<Longrightarrow> is_hex (hex_at k) \<and> hexdigit (hex_at k) = word_of_nat k"
  using less_16 [of k]
  by (auto simp: hex_at_def json_hex_chars_def is_hex_def hexdigit_def char_code_def)

lemma unicode_digit:
  assumes "escaping low l Escape_Unicode x p tok" and "st_pos tok = n" and "ucs_char tok = w"
    and "n < 3" and "k < 16"
  shows "\<exists>tok'. steps (hex_at k # s, tok, obj) (s, tok', obj) \<and> escaping low l Escape_Unicode x p tok'
    \<and> st_pos tok' = Suc n \<and> ucs_char tok' = w + push_bit ((3 - n) * 4) (word_of_nat k)"
proof -
  define v :: "32 word" where "v = w + push_bit ((3 - n) * 4) (word_of_nat k)"
  have "case_escape_unicode (hex_at k) tok obj = Inr (Next (tok\<lparr>ucs_char := v, st_pos := Suc n\<rparr>) obj)"
    using hexdigit_hex_at [OF assms(5)] assms(2-4) by (simp add: case_escape_unicode_def v_def)
  then have "steps (hex_at k # s, tok, obj) (s, tok\<lparr>ucs_char := v, st_pos := Suc n\<rparr>, obj)"
    using escaping_level [OF assms(1)]
    by (intro nextI [OF _ rtranclp.rtrancl_refl]) (simp add: tok_case_def)
  moreover have "escaping low l Escape_Unicode x p (tok\<lparr>ucs_char := v, st_pos := Suc n\<rparr>)"
    using assms(1) by (simp add: escaping_def)
  ultimately show ?thesis by (force simp: v_def)
qed

lemma escaping_unicode:
  assumes "collecting low l x p tok" and "in_text x"
  obtains tok' where "steps (CHR 0x5C # CHR ''u'' # s, tok, obj) (s, tok', obj)"
    and "escaping low l Escape_Unicode x p tok'" and "st_pos tok' = 0" and "ucs_char tok' = 0"
proof -
  obtain u where u: "steps (CHR 0x5C # CHR ''u'' # s, tok, obj) (CHR ''u'' # s, u, obj)"
    "escaping low l String_Escape x p u"
    using collect_backslash [OF assms] .
  let ?v = "set_state Escape_Unicode (u\<lparr>ucs_char := 0, st_pos := 0\<rparr>)"
  have "steps (CHR ''u'' # s, u, obj) (s, ?v, obj)"
    using escaping_level [OF u(2)]
    by (intro nextI [OF _ rtranclp.rtrancl_refl]) (simp add: tok_case_def case_string_escape_def)
  with u(1) have "steps (CHR 0x5C # CHR ''u'' # s, tok, obj) (s, ?v, obj)" by (rule steps_trans)
  moreover have "at_lvl low (l\<lparr>state := String_Escape, saved_state := x\<rparr>\<lparr>state := Escape_Unicode\<rparr>) ?v"
    using u(2) by (intro at_set) (simp add: escaping_def)
  then have "escaping low l Escape_Unicode x p ?v"
    using u(2) by (cases l) (simp add: escaping_def)
  ultimately show thesis by (rule that) simp_all
qed

lemma unicode_last:
  assumes "escaping low l Escape_Unicode x p tok" and "st_pos tok = 3" and "k < 16"
  obtains tok' where "steps (hex_at k # s, tok, obj) (s, tok', obj)"
    and "collecting low l x (p @ utf8 (ucs_char tok + word_of_nat k)) tok'"
proof -
  let ?u = "tok\<lparr>ucs_char := ucs_char tok + word_of_nat k, st_pos := 4\<rparr>"
  let ?t = "set_state x (memappend (utf8 (ucs_char ?u)) ?u)"
  have "case_escape_unicode (hex_at k) tok obj = Inr (Next ?t obj)"
    using hexdigit_hex_at [OF assms(3)] assms(2) escaping_level [OF assms(1)]
    by (simp add: case_escape_unicode_def Let_def)
  then have "steps (hex_at k # s, tok, obj) (s, ?t, obj)"
    using escaping_level [OF assms(1)]
    by (intro nextI [OF _ rtranclp.rtrancl_refl]) (simp add: tok_case_def)
  moreover have "escaping low l Escape_Unicode x p ?u" using assms(1) by (simp add: escaping_def)
  then have "collecting low l x (p @ utf8 (ucs_char ?u)) ?t" by (rule escaping_resume)
  ultimately show thesis by (intro that) simp_all
qed

lemma utf8_ascii:
  assumes "k1 < 16" and "k2 < 16" and "16 * k1 + k2 < 128"
  shows "utf8 (push_bit 4 (word_of_nat k1) + word_of_nat k2) = [char_of (16 * k1 + k2)]"
proof -
  have w: "push_bit 4 (word_of_nat k1) + word_of_nat k2 = (word_of_nat (16 * k1 + k2) :: 32 word)"
    by (simp add: push_bit_eq_mult)
  have "unat (word_of_nat n :: 32 word) = n" if "n < 128" for n
    using that by (simp add: unat_of_nat take_bit_nat_eq_self)
  from this [OF assms(3)] have u: "unat (word_of_nat (16 * k1 + k2) :: 32 word) = 16 * k1 + k2" .
  show ?thesis using assms(3) unfolding w utf8_def byte_def word_less_nat_alt u by simp
qed

lemma collect_unicode:
  assumes "collecting low l x p tok" and "in_text x" and "k1 < 16" and "k2 < 16" and "16 * k1 + k2 < 128"
  obtains tok' where
    "steps (CHR 0x5C # CHR ''u'' # CHR ''0'' # CHR ''0'' # hex_at k1 # hex_at k2 # s, tok, obj) (s, tok', obj)"
    and "collecting low l x (p @ [char_of (16 * k1 + k2)]) tok'"
proof -
  let ?s = "CHR ''0'' # CHR ''0'' # hex_at k1 # hex_at k2 # s"
  have z: "hex_at 0 = CHR ''0''" by (simp add: hex_at_def json_hex_chars_def)
  obtain t0 where t0: "steps (CHR 0x5C # CHR ''u'' # ?s, tok, obj) (?s, t0, obj)"
    "escaping low l Escape_Unicode x p t0" "st_pos t0 = 0" "ucs_char t0 = 0"
    using escaping_unicode [OF assms(1,2)] .
  obtain t1 where t1: "steps (?s, t0, obj) (CHR ''0'' # hex_at k1 # hex_at k2 # s, t1, obj)"
    "escaping low l Escape_Unicode x p t1" "st_pos t1 = Suc 0" "ucs_char t1 = 0"
    using unicode_digit [OF t0(2-4), of 0 "CHR ''0'' # hex_at k1 # hex_at k2 # s" obj] by (auto simp: z)
  obtain t2 where t2: "steps (CHR ''0'' # hex_at k1 # hex_at k2 # s, t1, obj) (hex_at k1 # hex_at k2 # s, t2, obj)"
    "escaping low l Escape_Unicode x p t2" "st_pos t2 = 2" "ucs_char t2 = 0"
    using unicode_digit [OF t1(2-4), of 0 "hex_at k1 # hex_at k2 # s" obj] by (auto simp: z)
  obtain t3 where t3: "steps (hex_at k1 # hex_at k2 # s, t2, obj) (hex_at k2 # s, t3, obj)"
    "escaping low l Escape_Unicode x p t3" "st_pos t3 = 3" "ucs_char t3 = push_bit 4 (word_of_nat k1)"
    using unicode_digit [OF t2(2-4), of k1 "hex_at k2 # s" obj] assms(3) by auto
  obtain t4 where t4: "steps (hex_at k2 # s, t3, obj) (s, t4, obj)"
    "collecting low l x (p @ utf8 (ucs_char t3 + word_of_nat k2)) t4"
    using unicode_last [OF t3(2,3) assms(4)] .
  show thesis
  proof (rule that)
    show "steps (CHR 0x5C # CHR ''u'' # ?s, tok, obj) (s, t4, obj)"
      using t0(1) t1(1) t2(1) t3(1) t4(1) by (meson steps_trans)
    show "collecting low l x (p @ [char_of (16 * k1 + k2)]) t4"
      using t4(2) t3(4) utf8_ascii [OF assms(3-5)] by simp
  qed
qed

text \<open>The text of any string is collected as the string.\<close>

lemma escape_of_cases:
  obtains (plain) "escape_of c = None" "c \<noteq> CHR 0x22" "c \<noteq> CHR 0x5C"
  | (simple) e where "escape_of c = Some [CHR 0x5C, e]" "simple_escape e c"
  | (unicode) k1 k2 where
      "escape_of c = Some [CHR 0x5C, CHR ''u'', CHR ''0'', CHR ''0'', hex_at k1, hex_at k2]"
      "k1 < 16" "k2 < 16" "16 * k1 + k2 < 128" "c = char_of (16 * k1 + k2)"
proof (cases "\<exists>e. simple_escape e c")
  case True
  then show thesis by (auto simp: simple_escape_def escape_of_def intro: simple)
next
  case False
  then have n: "c \<noteq> CHR 0x08" "c \<noteq> CHR 0x0A" "c \<noteq> CHR 0x0D" "c \<noteq> CHR 0x09" "c \<noteq> CHR 0x22" "c \<noteq> CHR 0x5C"
    "c \<noteq> CHR ''/''" by (auto simp: simple_escape_def)
  show thesis
  proof (cases "char_code c < 32")
    case True
    moreover have "16 * (char_code c div 16) + char_code c mod 16 = char_code c" by simp
    moreover have "char_of (char_code c) = c" by (simp add: char_code_def)
    ultimately show thesis using n
      by (intro unicode [of "char_code c div 16" "char_code c mod 16"]) (simp_all add: escape_of_def hex_at_def)
  qed (use n in \<open>simp add: escape_of_def plain\<close>)
qed

lemma collect_text:
  assumes "collecting low l x p tok" and "in_text x"
  shows "\<exists>tok'. steps (escape_text q @ s, tok, obj) (s, tok', obj) \<and> collecting low l x (p @ q) tok'"
  using assms(1)
proof (induction q arbitrary: p tok)
  case Nil
  then show ?case by (auto simp: escape_text_simps)
next
  case (Cons c q)
  obtain u where u: "steps (escape_text [c] @ escape_text q @ s, tok, obj) (escape_text q @ s, u, obj)"
    "collecting low l x (p @ [c]) u"
  proof (cases c rule: escape_of_cases)
    case plain
    from collect_char [OF Cons.prems assms(2) plain(2,3), of "escape_text q @ s" obj] plain(1) that
    show thesis by (auto simp: escape_text_simps)
  next
    case (simple e)
    from collect_simple_escape [OF Cons.prems assms(2) simple(2), of "escape_text q @ s" obj] simple(1) that
    show thesis by (auto simp: escape_text_simps)
  next
    case (unicode k1 k2)
    from collect_unicode [OF Cons.prems assms(2) unicode(2-4), of "escape_text q @ s" obj] unicode(1,5) that
    show thesis by (auto simp: escape_text_simps)
  qed
  from Cons.IH [OF u(2)] obtain v where
    "steps (escape_text q @ s, u, obj) (s, v, obj)" "collecting low l x (p @ c # q) v" by auto
  with u(1) show ?case by (auto simp: escape_text_simps intro: steps_trans)
qed

subsection \<open>Values without parts\<close>

lemma start_redo:
  assumes "at_lvl low srec_reset tok" and "graphic c"
  shows "steps (c # s, tok, obj) (c # s, set_state Start tok, obj)"
    "level (set_state Start tok) = srec_reset\<lparr>state := Start\<rparr>"
    "at_lvl low (srec_reset\<lparr>state := Start\<rparr>) (set_state Start tok)"
proof -
  show "steps (c # s, tok, obj) (c # s, set_state Start tok, obj)"
    using eatws_redo [OF assms(1) _ assms(2), of s obj] by (simp add: srec_reset_def)
  show *: "at_lvl low (srec_reset\<lparr>state := Start\<rparr>) (set_state Start tok)" using assms(1) by (rule at_set)
  from at_level [OF *] show "level (set_state Start tok) = srec_reset\<lparr>state := Start\<rparr>" .
qed

lemma done_withI [intro]:
  assumes "at_lvl low l tok"
  shows "at_lvl low (l\<lparr>current := j\<rparr>\<lparr>state := Eatws, saved_state := Finish\<rparr>) (eatws_then Finish (set_current j tok))"
    "done_with j (l\<lparr>current := j\<rparr>\<lparr>state := Eatws, saved_state := Finish\<rparr>)"
  using assms by (auto simp: done_with_def)

lemma value_string:
  assumes "at_lvl low srec_reset tok" and "is_cstring q"
  shows "\<exists>tok' l'. steps (quoted q @ s, tok, obj) (s, tok', obj) \<and> at_lvl low l' tok' \<and> done_with (JString q) l'"
proof -
  let ?t = "set_state Start tok"
  let ?u = "(pb_reset (set_state Str ?t))\<lparr>quote_char := CHR 0x22\<rparr>"
  let ?r = "escape_text q @ CHR 0x22 # s"
  have g: "graphic (CHR 0x22)" by (simp add: graphic_def char_class_defs)
  note t = start_redo [OF assms(1) g]
  have "steps (CHR 0x22 # ?r, tok, obj) (CHR 0x22 # ?r, ?t, obj)" by (rule t(1))
  also have "steps \<dots> (?r, ?u, obj)"
    by (intro nextI [OF _ rtranclp.rtrancl_refl]) (simp add: tok_case_def t(2) case_start_def)
  finally have 1: "steps (CHR 0x22 # ?r, tok, obj) (?r, ?u, obj)" .
  have "at_lvl low (srec_reset\<lparr>state := Start\<rparr>\<lparr>state := Str\<rparr>) (set_state Str ?t)" using t(3) by (rule at_set)
  then have "at_lvl low (srec_reset\<lparr>state := Str, saved_state := Start\<rparr>) (set_state Str ?t)"
    by (simp add: srec_reset_def)
  then have "collecting low srec_reset Str [] ?u"
    by (auto simp: collecting_def pb_reset_def)
  then obtain v where v: "steps (?r, ?u, obj) (CHR 0x22 # s, v, obj)" "collecting low srec_reset Str q v"
    using collect_text [of low srec_reset Str "[]" ?u q "CHR 0x22 # s" obj] by (auto simp: in_text_def)
  then obtain y where y: "at_lvl low (srec_reset\<lparr>state := Str, saved_state := y\<rparr>) v"
    "pb v = q" "quote_char v = CHR 0x22" by (auto simp: collecting_def)
  have "steps (CHR 0x22 # s, v, obj) (s, eatws_then Finish (set_current (JString q) v), obj)"
    using at_level [OF y(1)] y(2,3) assms(2)
    by (intro nextI [OF _ rtranclp.rtrancl_refl]) (simp add: tok_case_def case_string_def)
  with 1 v(1) have "steps (CHR 0x22 # ?r, tok, obj) (s, eatws_then Finish (set_current (JString q) v), obj)"
    by (meson steps_trans)
  with done_withI [OF y(1), of "JString q"] show ?thesis unfolding quoted_def by auto
qed

lemma collect_number:
  assumes "at_lvl low l tok" and "state l = Number" and "set ds \<subseteq> set json_number_chars"
  shows "\<exists>tok'. steps (ds @ s, tok, obj) (s, tok', obj) \<and> at_lvl low l tok' \<and> pb tok' = pb tok @ ds
    \<and> is_double tok' = (is_double tok \<or> CHR ''.'' \<in> set ds \<or> CHR ''e'' \<in> set ds)"
  using assms
proof (induction ds arbitrary: tok)
  case (Cons c ds)
  let ?u = "(memappend [c] tok)\<lparr>is_double := is_double tok \<or> c = CHR ''.'' \<or> c = CHR ''e''\<rparr>"
  have "steps (c # ds @ s, tok, obj) (ds @ s, ?u, obj)"
    using at_level [OF Cons.prems(1)] Cons.prems(2,3)
    by (intro nextI [OF _ rtranclp.rtrancl_refl]) (simp add: tok_case_def case_number_def)
  moreover have "at_lvl low l ?u" using Cons.prems(1) by simp
  ultimately show ?case using Cons.IH [of ?u] Cons.prems(2,3)
    by (auto intro: steps_trans simp: eq_commute [of "CHR ''.''"] eq_commute [of "CHR ''e''"])
qed auto

definition read_number :: "string \<Rightarrow> json option" where
  "read_number n = (if CHR ''.'' \<in> set n \<or> CHR ''e'' \<in> set n then map_option JDouble (sscanf_lf n)
     else map_option JInt (sscanf_d n))"

lemma value_number:
  assumes "at_lvl low srec_reset tok" and "n = c # ds" and "is_digit c \<or> c = CHR ''-''"
    and "set n \<subseteq> set json_number_chars" and "is_cstring n" and "read_number n = Some j"
    and "d \<notin> set json_number_chars"
  shows "\<exists>tok' l'. steps (n @ d # s, tok, obj) (d # s, tok', obj) \<and> at_lvl low l' tok' \<and> done_with j l'"
proof -
  let ?t = "set_state Start tok"
  let ?u = "(pb_reset (set_state Number ?t))\<lparr>is_double := False\<rparr>"
  have g: "graphic c" using assms(3) by (auto simp: graphic_def char_class_defs)
  have c: "c \<noteq> CHR ''{''" "c \<noteq> CHR ''[''" "c \<noteq> CHR ''N''" "c \<noteq> CHR ''n''" "c \<noteq> CHR 0x22" "c \<noteq> CHR 0x27"
    "c \<noteq> CHR ''T''" "c \<noteq> CHR ''t''" "c \<noteq> CHR ''F''" "c \<noteq> CHR ''f''"
    using assms(3) by (auto simp: char_class_defs)
  note t = start_redo [OF assms(1) g]
  have "steps (n @ d # s, tok, obj) (n @ d # s, ?t, obj)" using t(1) assms(2) by simp
  also have "steps \<dots> (n @ d # s, ?u, obj)"
    unfolding assms(2) append_Cons
    by (rule redoI [OF _ rtranclp.rtrancl_refl]) (simp add: tok_case_def t(2) case_start_def c assms(3))
  finally have 1: "steps (n @ d # s, tok, obj) (n @ d # s, ?u, obj)" .
  have u: "at_lvl low (srec_reset\<lparr>state := Start\<rparr>\<lparr>state := Number\<rparr>) ?u" using at_set(1) [OF t(3)] by simp
  obtain v where v: "steps (n @ d # s, ?u, obj) (d # s, v, obj)"
    "at_lvl low (srec_reset\<lparr>state := Start\<rparr>\<lparr>state := Number\<rparr>) v" "pb v = n"
    "is_double v = (CHR ''.'' \<in> set n \<or> CHR ''e'' \<in> set n)"
    using collect_number [OF u _ assms(4), of "d # s" obj] by (auto simp: pb_reset_def)
  have "steps (d # s, v, obj) (d # s, eatws_then Finish (set_current j v), obj)"
    using at_level [OF v(2)] v(3,4) assms(5-7)
    by (intro redoI [OF _ rtranclp.rtrancl_refl]) (auto simp: tok_case_def case_number_def read_number_def)
  with 1 v(1) have "steps (n @ d # s, tok, obj) (d # s, eatws_then Finish (set_current j v), obj)"
    by (meson steps_trans)
  with done_withI [OF v(2), of j] show ?thesis by blast
qed

text \<open>The literals.\<close>

definition literal :: "string \<Rightarrow> json_tokener_state \<Rightarrow> json \<Rightarrow> bool" where
  "literal n x j \<longleftrightarrow> (n, x, j) \<in> {(''null'', Null, JNull), (''true'', Boolean, JBool True),
     (''false'', Boolean, JBool False)}"

lemmas literal_defs = literal_def case_null_def case_boolean_def Let_def memappend_def
  json_null_str_def json_true_str_def json_false_str_def

lemma literal_next:
  assumes "literal n x j" and "k < length n" and "state (level tok) = x" and "pb tok = take k n" and "st_pos tok = k"
  shows "tok_case (n ! k) tok obj = Inr (Next (tok\<lparr>pb := take (Suc k) n, st_pos := Suc k\<rparr>) obj)"
proof -
  have "k = 0 \<or> k = 1 \<or> k = 2 \<or> k = 3 \<or> k = 4" using assms(1,2) by (auto simp: literal_def)
  then show ?thesis using assms
    by (elim disjE) (auto simp: tok_case_def literal_defs tolower_def is_upper_def char_code_def)
qed

lemma literal_last:
  assumes "literal n x j" and "state (level tok) = x" and "pb tok = n" and "st_pos tok = length n"
  shows "tok_case d tok obj = Inr (Redo (eatws_then Finish (set_current j (memappend [d] tok))) obj)"
  using assms
  by (auto simp: tok_case_def literal_defs tolower_def is_upper_def char_code_def)

lemma collect_literal:
  assumes "literal n x j" and "at_lvl low l tok" and "state l = x" and "pb tok = []" and "st_pos tok = 0"
  shows "k \<le> length n \<Longrightarrow> \<exists>tok'. steps (take k n @ s, tok, obj) (s, tok', obj)
    \<and> at_lvl low l tok' \<and> pb tok' = take k n \<and> st_pos tok' = k"
proof (induction k arbitrary: s)
  case (Suc k)
  then obtain u where u: "steps (take k n @ n ! k # s, tok, obj) (n ! k # s, u, obj)"
    "at_lvl low l u" "pb u = take k n" "st_pos u = k" using Suc.IH [OF Suc_leD [OF Suc.prems], of "n ! k # s"] by blast
  have "tok_case (n ! k) u obj = Inr (Next (u\<lparr>pb := take (Suc k) n, st_pos := Suc k\<rparr>) obj)"
    using literal_next [OF assms(1)] Suc.prems at_level [OF u(2)] assms(3) u(3,4) by auto
  then have "steps (n ! k # s, u, obj) (s, u\<lparr>pb := take (Suc k) n, st_pos := Suc k\<rparr>, obj)"
    by (rule nextI) simp
  moreover have "take (Suc k) n @ s = take k n @ n ! k # s"
    using Suc.prems by (simp add: take_Suc_conv_app_nth)
  ultimately have "steps (take (Suc k) n @ s, tok, obj) (s, u\<lparr>pb := take (Suc k) n, st_pos := Suc k\<rparr>, obj)"
    using u(1) by (auto intro: steps_trans)
  then show ?case using u(2) by (intro exI [of _ "u\<lparr>pb := take (Suc k) n, st_pos := Suc k\<rparr>"]) simp
qed (use assms in auto)

lemma value_literal:
  assumes "at_lvl low srec_reset tok" and "literal n x j"
  shows "\<exists>tok' l'. steps (n @ d # s, tok, obj) (d # s, tok', obj) \<and> at_lvl low l' tok' \<and> done_with j l'"
proof -
  let ?t = "set_state Start tok"
  let ?u = "(pb_reset (set_state x ?t))\<lparr>st_pos := 0\<rparr>"
  obtain c r where n: "n = c # r" using assms(2) by (cases n) (auto simp: literal_def)
  have c: "c \<in> {CHR ''n'', CHR ''t'', CHR ''f''}" and x: "x = (if c = CHR ''n'' then Null else Boolean)"
    using assms(2) unfolding n by (auto simp: literal_def)
  then have g: "graphic c" by (auto simp: graphic_def char_class_defs)
  note t = start_redo [OF assms(1) g]
  have "steps (n @ d # s, tok, obj) (n @ d # s, ?t, obj)" using t(1) n by simp
  also have "steps \<dots> (n @ d # s, ?u, obj)"
    unfolding n append_Cons x using c
    by (intro redoI [OF _ rtranclp.rtrancl_refl]) (auto simp: tok_case_def t(2) case_start_def)
  finally have 1: "steps (n @ d # s, tok, obj) (n @ d # s, ?u, obj)" .
  have u: "at_lvl low (srec_reset\<lparr>state := Start\<rparr>\<lparr>state := x\<rparr>) ?u" using at_set(1) [OF t(3)] by simp
  obtain v where v: "steps (n @ d # s, ?u, obj) (d # s, v, obj)"
    "at_lvl low (srec_reset\<lparr>state := Start\<rparr>\<lparr>state := x\<rparr>) v" "pb v = n" "st_pos v = length n"
    using collect_literal [OF assms(2) u, of "length n" "d # s" obj] by (auto simp: pb_reset_def)
  let ?w = "memappend [d] v"
  have "steps (d # s, v, obj) (d # s, eatws_then Finish (set_current j ?w), obj)"
    using literal_last [OF assms(2) _ v(3,4)] at_level [OF v(2)]
    by (intro redoI [OF _ rtranclp.rtrancl_refl]) simp
  with 1 v(1) have 2: "steps (n @ d # s, tok, obj) (d # s, eatws_then Finish (set_current j ?w), obj)"
    by (meson steps_trans)
  have "at_lvl low (srec_reset\<lparr>state := Start\<rparr>\<lparr>state := x\<rparr>) ?w" using v(2) by simp
  from done_withI [OF this, of j] 2 show ?thesis by blast
qed

subsection \<open>Numbers as printed\<close>

definition plain_digit :: "char \<Rightarrow> bool" where
  "plain_digit c \<longleftrightarrow> c \<in> set json_number_chars \<and> c \<noteq> CHR ''.'' \<and> c \<noteq> CHR ''e''"

lemma less_10: "k < (10::nat) \<Longrightarrow> k \<in> {0, 1, 2, 3, 4, 5, 6, 7, 8, 9}"
  by (simp, presburger)

lemma digit_plain:
  assumes "is_digit c"
  shows "plain_digit c"
proof -
  obtain k where k: "char_code c = 48 + k" "k < 10"
    using assms that [of "char_code c - 48"] by (auto simp: is_digit_def)
  have "48 + k \<in> char_code ` set ''0123456789''"
    using less_10 [OF k(2)] by (auto simp: char_code_def)
  moreover have "inj char_code" by (simp add: inj_def char_code_def)
  ultimately have "c \<in> set ''0123456789''" unfolding k(1) [symmetric] by (simp only: inj_image_mem_iff)
  then show ?thesis by (auto simp: plain_digit_def json_number_chars_def)
qed

lemma minus_plain: "plain_digit (CHR ''-'')"
  by (simp add: plain_digit_def json_number_chars_def)

lemma plain_decimal:
  "c \<in> set (dec_of_nat n) \<Longrightarrow> plain_digit c" "c \<in> set (dec_of_int i) \<Longrightarrow> plain_digit c"
  using dec_of_nat_digits digit_plain minus_plain by (auto simp: dec_of_int_def split: if_splits)

lemma head_decimal: "\<exists>c r. dec_of_int i = c # r \<and> (is_digit c \<or> c = CHR ''-'')"
proof (cases "i < 0")
  case False
  then show ?thesis using dec_of_nat_ConsE [of "nat i"] by (metis dec_of_int_def)
qed (simp add: dec_of_int_def)

lemma scans_int_dec_of_int: "scans_int (dec_of_int i)"
proof (cases "i < 0")
  case True
  obtain c r where "dec_of_nat (nat (- i)) = c # r" "is_digit c" by (rule dec_of_nat_ConsE)
  moreover have "\<not> isspace (CHR ''-'')" by (simp add: char_class_defs)
  ultimately show ?thesis using True by (simp add: scans_int_def dec_of_int_def read_sign_def)
next
  case False
  obtain c r where "dec_of_nat (nat i) = c # r" "is_digit c" by (rule dec_of_nat_ConsE)
  with False show ?thesis using read_sign_digits [of "nat i" "[]"] dropWhile_isspace_digits [of "nat i" "[]"]
    by (simp add: scans_int_def dec_of_int_def)
qed

definition is_int32 :: "int \<Rightarrow> bool" where
  "is_int32 i \<longleftrightarrow> - 2147483648 \<le> i \<and> i < 2147483648"

lemma read_number_int: "is_int32 i \<Longrightarrow> read_number (dec_of_int i) = Some (JInt i)"
  using plain_decimal(2) [of _ i]
  by (auto simp: read_number_def sscanf_d_def scans_int_dec_of_int plain_digit_def is_int32_def
      atoi_def atol_dec_of_int is_long_def LONG_MIN_def LONG_MAX_def to_int32_id)

text \<open>A finite double is printed with a point.\<close>

lemma fmt_f_form:
  assumes "fp_finite d"
  obtains i n where "fmt_f d = i @ CHR ''.'' # n" and "\<And>c. c \<in> set (i @ n) \<Longrightarrow> plain_digit c"
    and "\<exists>c r. i = c # r \<and> (is_digit c \<or> c = CHR ''-'')"
proof -
  have mag: "\<exists>i n. fmt_mag q = i @ CHR ''.'' # n \<and> (\<forall>c \<in> set (i @ n). plain_digit c)
      \<and> (\<exists>c r. i = c # r \<and> is_digit c)" for q
  proof -
    let ?m = "nat (round_even (q * 1000000))"
    let ?i = "dec_of_nat (?m div 1000000)" and ?n = "pad_left 6 (dec_of_nat (?m mod 1000000))"
    have z: "plain_digit (CHR ''0'')" by (simp add: plain_digit_def json_number_chars_def)
    have "fmt_mag q = ?i @ CHR ''.'' # ?n" by (simp add: fmt_mag_def Let_def)
    moreover have "\<forall>c \<in> set (?i @ ?n). plain_digit c"
      using plain_decimal(1) z by (auto simp: pad_left_def)
    moreover have "\<exists>c r. ?i = c # r \<and> is_digit c" by (rule dec_of_nat_ConsE) auto
    ultimately show ?thesis by blast
  qed
  have "\<exists>i n. fmt_f d = i @ CHR ''.'' # n \<and> (\<forall>c \<in> set (i @ n). plain_digit c)
      \<and> (\<exists>c r. i = c # r \<and> (is_digit c \<or> c = CHR ''-''))"
  proof (cases "\<exists>q. fmt_f d = fmt_mag q")
    case True
    with mag show ?thesis by metis
  next
    case False
    with assms have "\<exists>q. fmt_f d = CHR ''-'' # fmt_mag q" by (cases d) (auto simp: fp_finite_def)
    with mag obtain q i n where "fmt_f d = CHR ''-'' # i @ CHR ''.'' # n"
      "\<forall>c \<in> set (i @ n). plain_digit c" by metis
    then show ?thesis using minus_plain
      by (intro exI [of _ "CHR ''-'' # i"] exI [of _ n]) auto
  qed
  then show thesis using that by blast
qed

lemma read_number_double:
  "fp_finite d \<Longrightarrow> sscanf_lf (fmt_f d) = Some d \<Longrightarrow> read_number (fmt_f d) = Some (JDouble d)"
  by (erule fmt_f_form) (simp add: read_number_def)

text \<open>Among the doubles that six decimals determine are the integers up to \<open>2 ^ 53\<close>.\<close>

lemma sscanf_lf_fixed:
  fixes n :: nat
  defines "s \<equiv> dec_of_nat n @ ''.000000''"
  shows "sscanf_lf s = Some (round_fp binary64 (of_nat n))"
    and "sscanf_lf (CHR ''-'' # s) = Some (fp_neg (round_fp binary64 (of_nat n)))"
proof -
  obtain c cs where c: "dec_of_nat n = c # cs" "is_digit c" by (rule dec_of_nat_ConsE)
  have sgn: "read_sign (dropWhile isspace s) = (False, s)"
    "read_sign (dropWhile isspace (CHR ''-'' # s)) = (True, s)"
    using read_sign_digits [of n "''.000000''"] dropWhile_isspace_digits [of n "''.000000''"]
    by (simp_all add: s_def read_sign_def char_class_defs)
  have p: "\<not> has_prefix_ci ''infinity'' s" "\<not> has_prefix_ci ''inf'' s" "\<not> has_prefix_ci ''nan'' s"
    "\<not> has_prefix_ci ''infi'' s"
    using c has_prefix_ci_digit by (auto simp: s_def)
  obtain x t where x: "s = c # x # t" "is_digit x \<or> x = CHR ''.''"
    using c dec_of_nat_digits [of _ n] by (cases cs) (auto simp: s_def)
  then have "tolower x \<noteq> CHR ''x''" by (auto simp: tolower_digit char_class_defs tolower_def)
  with x have h: "read_hex s = None" "\<not> has_prefix_ci ''0x'' s"
    by (simp_all add: read_hex_def has_prefix_ci_def)
  have "digits_val (dec_of_nat n @ ''000000'') = 1000000 * digits_val (dec_of_nat n)"
    by (simp add: digits_val_def digit_val_def char_code_def)
  then have d: "read_dec s = Some (of_nat n, [])"
    unfolding s_def read_dec_def read_mant_def
    by (simp add: takeWhile_dec_of_nat_append read_exp_def is_digit_def char_code_def power_int_minus)
  show "sscanf_lf s = Some (round_fp binary64 (of_nat n))"
    "sscanf_lf (CHR ''-'' # s) = Some (fp_neg (round_fp binary64 (of_nat n)))"
    unfolding sscanf_lf_def strtod_full_def sgn using p h d by simp_all
qed

lemma sscanf_lf_fmt_int:
  assumes "\<bar>k\<bar> \<le> 2 ^ 53"
  shows "sscanf_lf (fmt_f (fp_int k)) = Some (fp_int k)"
proof -
  have n: "round_fp binary64 (of_nat (nat \<bar>k\<bar>)) = fp_int \<bar>k\<bar>"
    using fp_of_int_exact [of binary64 "\<bar>k\<bar>"] assms by (simp add: fp_of_int_def)
  show ?thesis
    using sscanf_lf_fixed [of "nat \<bar>k\<bar>"] n fp_neg_int [of "\<bar>k\<bar>"]
    by (cases "k < 0") (simp_all add: fmt_f_int dec_of_int_def)
qed

subsection \<open>Every printable value\<close>

text \<open>A value whose text determines it: strings and keys without zero byte, the keys of an
  object distinct, integers of 32 bits, and doubles that six decimals determine.\<close>

fun printable :: "json \<Rightarrow> bool"
  and members_printable :: "(cstring \<times> json) list \<Rightarrow> bool"
  and elements_printable :: "json list \<Rightarrow> bool" where
  "printable JNull \<longleftrightarrow> True"
| "printable (JBool b) \<longleftrightarrow> True"
| "printable (JDouble d) \<longleftrightarrow> fp_finite d \<and> sscanf_lf (fmt_f d) = Some d"
| "printable (JInt i) \<longleftrightarrow> is_int32 i"
| "printable (JString s) \<longleftrightarrow> is_cstring s"
| "printable (JObject kvs) \<longleftrightarrow> distinct (map fst kvs) \<and> members_printable kvs"
| "printable (JArray vs) \<longleftrightarrow> elements_printable vs"
| "members_printable [] \<longleftrightarrow> True"
| "members_printable ((k, v) # kvs) \<longleftrightarrow> is_cstring k \<and> printable v \<and> members_printable kvs"
| "elements_printable [] \<longleftrightarrow> True"
| "elements_printable (v # vs) \<longleftrightarrow> printable v \<and> elements_printable vs"

text \<open>How many levels the parser opens for a value.\<close>

fun nest :: "json \<Rightarrow> nat"
  and members_nest :: "(cstring \<times> json) list \<Rightarrow> nat"
  and elements_nest :: "json list \<Rightarrow> nat" where
  "nest (JObject kvs) = members_nest kvs"
| "nest (JArray vs) = elements_nest vs"
| "nest _ = 0"
| "members_nest [] = 0"
| "members_nest ((k, v) # kvs) = max (Suc (nest v)) (members_nest kvs)"
| "elements_nest [] = 0"
| "elements_nest (v # vs) = max (Suc (nest v)) (elements_nest vs)"

lemma printable_int: "\<bar>k\<bar> \<le> 2 ^ 53 \<Longrightarrow> printable (JDouble (fp_int k))"
  using sscanf_lf_fmt_int [of k] by (simp add: fp_finite_def fp_int_def)

lemma json_text_head:
  assumes "printable j"
  obtains c r where "json_text j = c # r" and "graphic c" and "c \<noteq> CHR '']''"
proof -
  have num: "graphic c \<and> c \<noteq> CHR '']''" if "is_digit c \<or> c = CHR ''-''" for c
    using that by (auto simp: graphic_def char_class_defs)
  show thesis
  proof (cases j)
    case (JInt i)
    with that num head_decimal [of i] show thesis by auto
  next
    case (JDouble d)
    with assms obtain i n c r where "fmt_f d = i @ n" "i = c # r" "is_digit c \<or> c = CHR ''-''"
      by (auto elim: fmt_f_form)
    with JDouble that num show thesis by auto
  next
    case (JBool b)
    with that show thesis by (cases b) (auto simp: graphic_def char_class_defs)
  qed (use that in \<open>auto simp: quoted_def graphic_def char_class_defs split: if_splits\<close>)
qed

lemma completeI:
  "steps p (s, tok', obj') \<Longrightarrow> at_lvl low l' tok' \<Longrightarrow> done_with j l' \<Longrightarrow>
   \<exists>tok' obj' l'. steps p (s, tok', obj') \<and> at_lvl low l' tok' \<and> done_with j l'"
  by blast

definition delim :: "char \<Rightarrow> bool" where
  "delim d \<longleftrightarrow> d = CHR '' '' \<or> d = CHR '','' \<or> d = CHR 0x00"

lemma delim_not_number: "delim d \<Longrightarrow> d \<notin> set json_number_chars"
  by (auto simp: delim_def json_number_chars_def)

definition parses :: "srec list \<Rightarrow> string \<Rightarrow> json \<Rightarrow> bool" where
  "parses low text j \<longleftrightarrow> (\<forall>tok obj d s. at_lvl low srec_reset tok \<longrightarrow> delim d \<longrightarrow>
     (\<exists>tok' obj' l'. steps (text @ d # s, tok, obj) (d # s, tok', obj') \<and> at_lvl low l' tok' \<and> done_with j l'))"

lemma parsesD:
  assumes "parses low text j" and "at_lvl low srec_reset tok" and "delim d"
  obtains tok' obj' l' where "steps (text @ d # s, tok, obj) (d # s, tok', obj')"
    and "at_lvl low l' tok'" and "done_with j l'"
  using assms unfolding parses_def by blast

text \<open>The rest of an array or an object, when the value before it is complete.\<close>

definition parses_elements :: "srec list \<Rightarrow> string \<Rightarrow> json list \<Rightarrow> bool" where
  "parses_elements low text vs \<longleftrightarrow> (\<forall>la l ws v tok obj s.
     at_lvl (low @ [la]) l tok \<longrightarrow> done_with v l \<longrightarrow> state la = Array_Add \<longrightarrow> current la = JArray ws \<longrightarrow>
     (\<exists>tok' obj' l'. steps (text @ '' ]'' @ s, tok, obj) (s, tok', obj') \<and> at_lvl low l' tok'
        \<and> done_with (JArray (ws @ v # vs)) l'))"

definition parses_members :: "srec list \<Rightarrow> string \<Rightarrow> (cstring \<times> json) list \<Rightarrow> bool" where
  "parses_members low text kvs \<longleftrightarrow> (\<forall>la l ws k v tok obj s.
     at_lvl (low @ [la]) l tok \<longrightarrow> done_with v l \<longrightarrow> state la = Object_Value_Add \<longrightarrow> current la = JObject ws \<longrightarrow>
     obj_field_name la = Some k \<longrightarrow> distinct (map fst ws @ k # map fst kvs) \<longrightarrow>
     (\<exists>tok' obj' l'. steps (text @ '' }'' @ s, tok, obj) (s, tok', obj') \<and> at_lvl low l' tok'
        \<and> done_with (JObject (ws @ (k, v) # kvs)) l'))"

lemma parses_elementsD:
  "parses_elements low text vs \<Longrightarrow> at_lvl (low @ [la]) l tok \<Longrightarrow> done_with v l \<Longrightarrow> state la = Array_Add \<Longrightarrow>
   current la = JArray ws \<Longrightarrow>
   \<exists>tok' obj' l'. steps (text @ '' ]'' @ s, tok, obj) (s, tok', obj') \<and> at_lvl low l' tok'
     \<and> done_with (JArray (ws @ v # vs)) l'"
  unfolding parses_elements_def by blast

lemma parses_membersD:
  "parses_members low text kvs \<Longrightarrow> at_lvl (low @ [la]) l tok \<Longrightarrow> done_with v l \<Longrightarrow>
   state la = Object_Value_Add \<Longrightarrow> current la = JObject ws \<Longrightarrow> obj_field_name la = Some k \<Longrightarrow>
   distinct (map fst ws @ k # map fst kvs) \<Longrightarrow>
   \<exists>tok' obj' l'. steps (text @ '' }'' @ s, tok, obj) (s, tok', obj') \<and> at_lvl low l' tok'
     \<and> done_with (JObject (ws @ (k, v) # kvs)) l'"
  unfolding parses_members_def by blast

lemma graphic_simps [simp]:
  "graphic (CHR '']'')" "graphic (CHR ''}'')" "graphic (CHR '','')" "graphic (CHR 0x22)"
  "graphic (CHR ''['')" "graphic (CHR ''{'')" "graphic (CHR '':'')"
  by (simp_all add: graphic_def char_class_defs)

text \<open>One character in a state that goes on to white space.\<close>

lemma go_on:
  assumes "at_lvl low l tok" and "tok_case c tok obj = Inr (Next (eatws_then x tok) obj)"
  shows "steps (c # s, tok, obj) (s, eatws_then x tok, obj)"
    and "at_lvl low (l\<lparr>state := Eatws, saved_state := x\<rparr>) (eatws_then x tok)"
  using nextI [OF assms(2) rtranclp.rtrancl_refl] at_set(5) [OF assms(1)] by auto

lemma elements_end: "parses_elements low [] []"
  unfolding parses_elements_def
proof (intro allI impI)
  fix la l ws v tok obj s
  assume a: "at_lvl (low @ [la]) l tok" "done_with v l" "state la = Array_Add" "current la = JArray ws"
  have "steps ('' ]'' @ s, tok, obj) (CHR '']'' # s, tok, obj)"
    using eatws_space [OF a(1)] a(2) by (simp add: done_with_def)
  moreover obtain u l' where u: "steps (CHR '']'' # s, tok, obj) (CHR '']'' # s, u, v)" "at_lvl low l' u"
    "state l' = Array_Sep" "current l' = JArray (ws @ [v])"
    using deliver_element [OF a(1,2) _ a(3,4), of "CHR '']''" s obj] by auto
  moreover have "tok_case (CHR '']'') u v = Inr (Next (eatws_then Finish u) v)"
    using at_level [OF u(2)] u(3) by (simp add: tok_case_def case_array_sep_def)
  note g = go_on [OF u(2) this]
  ultimately have "steps ('' ]'' @ s, tok, obj) (s, eatws_then Finish u, v)"
    using g(1) by (meson steps_trans)
  then show "\<exists>tok' obj' l'. steps ([] @ '' ]'' @ s, tok, obj) (s, tok', obj') \<and> at_lvl low l' tok'
        \<and> done_with (JArray (ws @ v # [])) l'"
    using g(2) u(4) by (intro completeI [OF _ g(2)]) (simp_all add: done_with_def)
qed

lemma members_end: "parses_members low [] []"
  unfolding parses_members_def
proof (intro allI impI)
  fix la l ws k v tok obj s
  assume a: "at_lvl (low @ [la]) l tok" "done_with v l" "state la = Object_Value_Add"
    "current la = JObject ws" "obj_field_name la = Some k"
    and k: "distinct (map fst ws @ k # map fst ([] :: (cstring \<times> json) list))"
  have "steps ('' }'' @ s, tok, obj) (CHR ''}'' # s, tok, obj)"
    using eatws_space [OF a(1)] a(2) by (simp add: done_with_def)
  moreover have kf: "k \<notin> fst ` set ws" using k by simp
  obtain u l' where u: "steps (CHR ''}'' # s, tok, obj) (CHR ''}'' # s, u, v)" "at_lvl low l' u"
    "state l' = Object_Sep" "current l' = JObject (ws @ [(k, v)])"
    using deliver_member [OF a(1,2) _ a(3,4,5) kf, of "CHR ''}''" s obj] by auto
  moreover have "tok_case (CHR ''}'') u v = Inr (Next (eatws_then Finish u) v)"
    using at_level [OF u(2)] u(3) by (simp add: tok_case_def case_object_sep_def)
  note g = go_on [OF u(2) this]
  ultimately have "steps ('' }'' @ s, tok, obj) (s, eatws_then Finish u, v)"
    using u(1) g(1) by (meson steps_trans)
  then show "\<exists>tok' obj' l'. steps ([] @ '' }'' @ s, tok, obj) (s, tok', obj') \<and> at_lvl low l' tok'
        \<and> done_with (JObject (ws @ (k, v) # [])) l'"
    using g(2) u(4) by (intro completeI [OF _ g(2)]) (simp_all add: done_with_def)
qed

text \<open>An element of an array that is open, and the elements after it.\<close>

lemma element_then:
  assumes "at_lvl low l tok" and "state l = Eatws" and "saved_state l = Array" and "current l = JArray ws"
    and "Suc (length low) < MAX_DEPTH" and "printable v"
    and "\<And>la. parses (low @ [la]) (json_text v) v" and "parses_elements low (elements_text vs) vs"
  shows "\<exists>tok' obj' l'. steps (json_text v @ elements_text vs @ '' ]'' @ s, tok, obj) (s, tok', obj')
    \<and> at_lvl low l' tok' \<and> done_with (JArray (ws @ v # vs)) l'"
proof -
  let ?la = "l\<lparr>state := Array_Add\<rparr>"
  obtain c r where c: "json_text v = c # r" "graphic c" "c \<noteq> CHR '']''" using json_text_head [OF assms(6)] .
  obtain u where u: "steps (json_text v @ elements_text vs @ '' ]'' @ s, tok, obj)
      (json_text v @ elements_text vs @ '' ]'' @ s, u, obj)" "at_lvl (low @ [?la]) srec_reset u"
    using open_element [OF assms(1-3) c(2,3) assms(5)] unfolding c(1) append_Cons by blast
  obtain d s' where d: "elements_text vs @ '' ]'' @ s = d # s'" "delim d"
    by (cases vs) (auto simp: delim_def)
  obtain w obj' l' where w: "steps (json_text v @ d # s', u, obj) (d # s', w, obj')"
    "at_lvl (low @ [?la]) l' w" "done_with v l'"
    using parsesD [OF assms(7) u(2) d(2)] .
  have "\<exists>tok' obj'' l''. steps (elements_text vs @ '' ]'' @ s, w, obj') (s, tok', obj'')
      \<and> at_lvl low l'' tok' \<and> done_with (JArray (ws @ v # vs)) l''"
    by (rule parses_elementsD [OF assms(8) w(2,3)]) (simp_all add: assms(4))
  with u(1) w(1) show ?thesis unfolding d(1) by (meson steps_trans)
qed

lemma elements_step:
  assumes "Suc (length low) < MAX_DEPTH" and "printable e"
    and "\<And>la. parses (low @ [la]) (json_text e) e" and "parses_elements low (elements_text es) es"
  shows "parses_elements low (elements_text (e # es)) (e # es)"
  unfolding parses_elements_def
proof (intro allI impI)
  fix la l ws v tok obj s
  let ?r = "json_text e @ elements_text es @ '' ]'' @ s"
  assume a: "at_lvl (low @ [la]) l tok" "done_with v l" "state la = Array_Add" "current la = JArray ws"
  obtain u l' where u: "steps ('', '' @ ?r, tok, obj) ('', '' @ ?r, u, v)" "at_lvl low l' u"
    "state l' = Array_Sep" "current l' = JArray (ws @ [v])"
    using deliver_element [OF a(1,2) _ a(3,4), of "CHR '',''" "CHR '' '' # ?r" obj] by auto
  have "tok_case (CHR '','') u v = Inr (Next (eatws_then Array u) v)"
    using at_level [OF u(2)] u(3) by (simp add: tok_case_def case_array_sep_def)
  note g = go_on [OF u(2) this]
  have "steps (CHR '' '' # ?r, eatws_then Array u, v) (?r, eatws_then Array u, v)"
    by (rule eatws_space [OF g(2)]) simp
  moreover have "steps ('', '' @ ?r, u, v) (CHR '' '' # ?r, eatws_then Array u, v)"
    using g(1) [of "CHR '' '' # ?r"] by simp
  ultimately have 1: "steps ('', '' @ ?r, tok, obj) (?r, eatws_then Array u, v)"
    using u(1) by (meson steps_trans)
  have "\<exists>tok' obj' l''. steps (?r, eatws_then Array u, v) (s, tok', obj')
      \<and> at_lvl low l'' tok' \<and> done_with (JArray ((ws @ [v]) @ e # es)) l''"
    by (rule element_then [OF g(2) _ _ _ assms]) (simp_all add: u(4))
  with 1 show "\<exists>tok' obj' l'. steps (elements_text (e # es) @ '' ]'' @ s, tok, obj) (s, tok', obj')
      \<and> at_lvl low l' tok' \<and> done_with (JArray (ws @ v # e # es)) l'"
    by simp (meson steps_trans)
qed

text \<open>The same for a member: its name, the colon, its value, and the members after it.\<close>

lemma member_then:
  assumes "at_lvl low l tok" and "state l = Eatws" and "saved_state l = Object_Field_Start"
    and "current l = JObject ws" and "Suc (length low) < MAX_DEPTH" and "printable v" and "is_cstring k"
    and "\<And>la. parses (low @ [la]) (json_text v) v" and "parses_members low (members_text kvs) kvs"
    and "distinct (map fst ws @ k # map fst kvs)"
  shows "\<exists>tok' obj' l'. steps (quoted k @ '': '' @ json_text v @ members_text kvs @ '' }'' @ s, tok, obj)
    (s, tok', obj') \<and> at_lvl low l' tok' \<and> done_with (JObject (ws @ (k, v) # kvs)) l'"
proof -
  let ?r = "json_text v @ members_text kvs @ '' }'' @ s"
  let ?q = "CHR 0x22 # CHR '':'' # CHR '' '' # ?r"
  let ?t = "set_state Object_Field_Start tok"
  have t: "at_lvl low (l\<lparr>state := Object_Field_Start\<rparr>) ?t" using assms(1) by (rule at_set)
  let ?u = "set_state Object_Field (pb_reset (?t\<lparr>quote_char := CHR 0x22\<rparr>))"
  have "steps (CHR 0x22 # escape_text k @ ?q, tok, obj) (CHR 0x22 # escape_text k @ ?q, ?t, obj)"
    using eatws_redo [OF assms(1,2), of "CHR 0x22" "escape_text k @ ?q" obj] assms(3) by simp
  also have "steps \<dots> (escape_text k @ ?q, ?u, obj)"
    using at_level [OF t] by (intro nextI [OF _ rtranclp.rtrancl_refl])
      (simp add: tok_case_def case_object_field_start_def)
  finally have 1: "steps (CHR 0x22 # escape_text k @ ?q, tok, obj) (escape_text k @ ?q, ?u, obj)" .
  have "at_lvl low (l\<lparr>state := Object_Field_Start\<rparr>) (pb_reset (?t\<lparr>quote_char := CHR 0x22\<rparr>))"
    using t by simp
  from at_set(1) [OF this, of Object_Field]
  have "at_lvl low (l\<lparr>state := Object_Field\<rparr>) ?u" by simp
  then have "collecting low l Object_Field [] ?u" by (rule collectingI) (simp_all add: pb_reset_def)
  then obtain w where w: "steps (escape_text k @ ?q, ?u, obj) (?q, w, obj)" "collecting low l Object_Field k w"
    using collect_text [of low l Object_Field "[]" ?u k ?q obj] by (auto simp: in_text_def)
  then obtain y where y: "at_lvl low (l\<lparr>state := Object_Field, saved_state := y\<rparr>) w" "pb w = k"
    "quote_char w = CHR 0x22" by (auto simp: collecting_def)
  let ?w = "set_obj_field_name (Some k) w"
  let ?lw = "l\<lparr>state := Object_Field, saved_state := y\<rparr>\<lparr>obj_field_name := Some k\<rparr>"
  have w': "at_lvl low ?lw ?w" using y(1) by (rule at_set)
  have "steps (?q, w, obj) (CHR '':'' # CHR '' '' # ?r, eatws_then Object_Field_End ?w, obj)"
    using at_level [OF y(1)] y(2,3) assms(7)
    by (intro nextI [OF _ rtranclp.rtrancl_refl]) (simp add: tok_case_def case_object_field_def)
  with 1 w(1) have 2: "steps (CHR 0x22 # escape_text k @ ?q, tok, obj)
      (CHR '':'' # CHR '' '' # ?r, eatws_then Object_Field_End ?w, obj)" by (meson steps_trans)
  let ?x = "eatws_then Object_Field_End ?w"
  have x: "at_lvl low (?lw\<lparr>state := Eatws, saved_state := Object_Field_End\<rparr>) ?x" using w' by (rule at_set)
  let ?y = "set_state Object_Field_End ?x"
  have y': "at_lvl low (?lw\<lparr>state := Eatws, saved_state := Object_Field_End\<rparr>\<lparr>state := Object_Field_End\<rparr>) ?y"
    using x by (rule at_set)
  have "tok_case (CHR '':'') ?y obj = Inr (Next (eatws_then Object_Value ?y) obj)"
    using at_level [OF y'] by (simp add: tok_case_def case_object_field_end_def)
  note g = go_on [OF y' this]
  have "steps (CHR '':'' # CHR '' '' # ?r, ?x, obj) (CHR '':'' # CHR '' '' # ?r, ?y, obj)"
    using eatws_redo [OF x, of "CHR '':''" "CHR '' '' # ?r" obj] by simp
  also note g(1)
  also have "steps (CHR '' '' # ?r, eatws_then Object_Value ?y, obj) (?r, eatws_then Object_Value ?y, obj)"
    by (rule eatws_space [OF g(2)]) simp
  finally have 3: "steps (CHR '':'' # CHR '' '' # ?r, ?x, obj) (?r, eatws_then Object_Value ?y, obj)" .
  let ?lz = "?lw\<lparr>state := Eatws, saved_state := Object_Field_End\<rparr>\<lparr>state := Object_Field_End\<rparr>
      \<lparr>state := Eatws, saved_state := Object_Value\<rparr>"
  obtain c r where c: "json_text v = c # r" "graphic c" using json_text_head [OF assms(6)] .
  obtain z where z: "steps (?r, eatws_then Object_Value ?y, obj) (?r, z, obj)"
    "at_lvl (low @ [?lz\<lparr>state := Object_Value_Add\<rparr>]) srec_reset z"
    using open_member [OF g(2) _ _ c(2) assms(5)] unfolding c(1) append_Cons by auto
  obtain d s' where d: "members_text kvs @ '' }'' @ s = d # s'" "delim d"
    by (cases kvs) (auto simp: delim_def)
  obtain e obj' l' where e: "steps (json_text v @ d # s', z, obj) (d # s', e, obj')"
    "at_lvl (low @ [?lz\<lparr>state := Object_Value_Add\<rparr>]) l' e" "done_with v l'"
    using parsesD [OF assms(8) z(2) d(2)] .
  have "\<exists>tok' obj'' l''. steps (members_text kvs @ '' }'' @ s, e, obj') (s, tok', obj'')
      \<and> at_lvl low l'' tok' \<and> done_with (JObject (ws @ (k, v) # kvs)) l''"
    by (rule parses_membersD [OF assms(9) e(2,3)]) (use assms(4,10) in simp_all)
  moreover have "quoted k @ '': '' @ ?r = CHR 0x22 # escape_text k @ ?q" by (simp add: quoted_def)
  ultimately show ?thesis using 2 3 z(1) e(1) unfolding d(1) by (metis steps_trans)
qed

lemma members_step:
  assumes "Suc (length low) < MAX_DEPTH" and "printable e" and "is_cstring n"
    and "\<And>la. parses (low @ [la]) (json_text e) e" and "parses_members low (members_text es) es"
  shows "parses_members low (members_text ((n, e) # es)) ((n, e) # es)"
  unfolding parses_members_def
proof (intro allI impI)
  fix la l ws k v tok obj s
  let ?r = "quoted n @ '': '' @ json_text e @ members_text es @ '' }'' @ s"
  assume a: "at_lvl (low @ [la]) l tok" "done_with v l" "state la = Object_Value_Add"
    "current la = JObject ws" "obj_field_name la = Some k"
    and d: "distinct (map fst ws @ k # map fst ((n, e) # es))"
  then have kf: "k \<notin> fst ` set ws" by simp
  obtain u l' where u: "steps ('', '' @ ?r, tok, obj) ('', '' @ ?r, u, v)" "at_lvl low l' u"
    "state l' = Object_Sep" "current l' = JObject (ws @ [(k, v)])"
    using deliver_member [OF a(1,2) _ a(3-5) kf, of "CHR '',''" "CHR '' '' # ?r" obj] by auto
  have "tok_case (CHR '','') u v = Inr (Next (eatws_then Object_Field_Start u) v)"
    using at_level [OF u(2)] u(3) by (simp add: tok_case_def case_object_sep_def)
  note g = go_on [OF u(2) this]
  have "steps (CHR '' '' # ?r, eatws_then Object_Field_Start u, v) (?r, eatws_then Object_Field_Start u, v)"
    by (rule eatws_space [OF g(2)]) simp
  moreover have "steps ('', '' @ ?r, u, v) (CHR '' '' # ?r, eatws_then Object_Field_Start u, v)"
    using g(1) [of "CHR '' '' # ?r"] by simp
  ultimately have 1: "steps ('', '' @ ?r, tok, obj) (?r, eatws_then Object_Field_Start u, v)"
    using u(1) by (meson steps_trans)
  have "\<exists>tok' obj' l''. steps (?r, eatws_then Object_Field_Start u, v) (s, tok', obj')
      \<and> at_lvl low l'' tok' \<and> done_with (JObject ((ws @ [(k, v)]) @ (n, e) # es)) l''"
    by (rule member_then [OF g(2) _ _ _ assms(1,2,3,4,5)]) (use d u(4) in simp_all)
  with 1 show "\<exists>tok' obj' l'. steps (members_text ((n, e) # es) @ '' }'' @ s, tok, obj) (s, tok', obj')
      \<and> at_lvl low l' tok' \<and> done_with (JObject (ws @ (k, v) # (n, e) # es)) l'"
    by simp (meson steps_trans)
qed

text \<open>The opening bracket.\<close>

lemma open_container:
  assumes "at_lvl low srec_reset tok"
    and "(c, x, j) = (CHR ''['', Array, JArray []) \<or> (c, x, j) = (CHR ''{'', Object_Field_Start, JObject [])"
  obtains tok' where "steps (c # CHR '' '' # s, tok, obj) (s, tok', obj)"
    and "at_lvl low (srec_reset\<lparr>state := Eatws, saved_state := x, current := j\<rparr>) tok'"
proof -
  have c: "graphic c" using assms(2) by auto
  note t = start_redo [OF assms(1) c]
  let ?u = "set_current j (eatws_then x (set_state Start tok))"
  have "at_lvl low (srec_reset\<lparr>state := Start\<rparr>\<lparr>state := Eatws, saved_state := x\<rparr>\<lparr>current := j\<rparr>) ?u"
    by (intro at_set t(3))
  then have u: "at_lvl low (srec_reset\<lparr>state := Eatws, saved_state := x, current := j\<rparr>) ?u" by simp
  have "tok_case c (set_state Start tok) obj = Inr (Next ?u obj)"
    using assms(2) by (elim disjE) (simp_all add: tok_case_def t(2) case_start_def)
  then have "steps (c # CHR '' '' # s, set_state Start tok, obj) (CHR '' '' # s, ?u, obj)"
    by (rule nextI) simp
  moreover have "steps (CHR '' '' # s, ?u, obj) (s, ?u, obj)" by (rule eatws_space [OF u]) simp
  ultimately have "steps (c # CHR '' '' # s, tok, obj) (s, ?u, obj)" using t(1) by (meson steps_trans)
  then show thesis using u by (rule that)
qed

text \<open>The closing bracket of an empty container.\<close>

lemma close_empty:
  assumes "at_lvl low (srec_reset\<lparr>state := Eatws, saved_state := x, current := j\<rparr>) tok"
    and "(c, x, j) = (CHR '']'', Array, JArray []) \<or> (c, x, j) = (CHR ''}'', Object_Field_Start, JObject [])"
  shows "\<exists>tok' obj' l'. steps (c # s, tok, obj) (s, tok', obj') \<and> at_lvl low l' tok' \<and> done_with j l'"
proof -
  have t: "at_lvl low (srec_reset\<lparr>state := Eatws, saved_state := x, current := j\<rparr>\<lparr>state := x\<rparr>) (set_state x tok)"
    using assms(1) by (rule at_set)
  have "steps (c # s, tok, obj) (c # s, set_state x tok, obj)"
    using eatws_redo [OF assms(1), of c s obj] assms(2) by auto
  moreover have "tok_case c (set_state x tok) obj = Inr (Next (eatws_then Finish (set_state x tok)) obj)"
    using at_level [OF t] assms(2) by (auto simp: tok_case_def case_array_def case_object_field_start_def)
  note g = go_on [OF t this]
  ultimately have "steps (c # s, tok, obj) (s, eatws_then Finish (set_state x tok), obj)"
    using g(1) by (meson steps_trans)
  then show ?thesis by (rule completeI [OF _ g(2)]) (simp add: done_with_def)
qed

lemma parses_array:
  assumes "\<And>v r. vs = v # r \<Longrightarrow> Suc (length low) < MAX_DEPTH \<and> printable v
      \<and> (\<forall>la. parses (low @ [la]) (json_text v) v) \<and> parses_elements low (elements_text r) r"
  shows "parses low (json_text (JArray vs)) (JArray vs)"
  unfolding parses_def
proof (intro allI impI)
  fix tok obj d s
  assume t: "at_lvl low srec_reset tok" and "delim d"
  show "\<exists>tok' obj' l'. steps (json_text (JArray vs) @ d # s, tok, obj) (d # s, tok', obj')
    \<and> at_lvl low l' tok' \<and> done_with (JArray vs) l'"
  proof (cases vs)
    case Nil
    obtain u where u: "steps (''[ '' @ CHR '']'' # d # s, tok, obj) (CHR '']'' # d # s, u, obj)"
      "at_lvl low (srec_reset\<lparr>state := Eatws, saved_state := Array, current := JArray []\<rparr>) u"
      using open_container [OF t, of "CHR ''[''" Array "JArray []" "CHR '']'' # d # s" obj] by auto
    from close_empty [OF u(2), of "CHR '']''" "d # s" obj] u(1) Nil show ?thesis
      by simp (meson steps_trans)
  next
    case (Cons v r)
    let ?r = "json_text v @ elements_text r @ '' ]'' @ d # s"
    obtain u where u: "steps (''[ '' @ ?r, tok, obj) (?r, u, obj)"
      "at_lvl low (srec_reset\<lparr>state := Eatws, saved_state := Array, current := JArray []\<rparr>) u"
      using open_container [OF t, of "CHR ''[''" Array "JArray []" ?r obj] by auto
    have "\<exists>tok' obj' l'. steps (?r, u, obj) (d # s, tok', obj') \<and> at_lvl low l' tok'
        \<and> done_with (JArray ([] @ v # r)) l'"
      by (rule element_then [OF u(2)]) (use assms [OF Cons] in simp_all)
    with u(1) Cons show ?thesis by simp (meson steps_trans)
  qed
qed

lemma parses_object:
  assumes "\<And>k v r. kvs = (k, v) # r \<Longrightarrow> Suc (length low) < MAX_DEPTH \<and> printable v \<and> is_cstring k
      \<and> (\<forall>la. parses (low @ [la]) (json_text v) v) \<and> parses_members low (members_text r) r"
    and "distinct (map fst kvs)"
  shows "parses low (json_text (JObject kvs)) (JObject kvs)"
  unfolding parses_def
proof (intro allI impI)
  fix tok obj d s
  assume t: "at_lvl low srec_reset tok" and "delim d"
  show "\<exists>tok' obj' l'. steps (json_text (JObject kvs) @ d # s, tok, obj) (d # s, tok', obj')
    \<and> at_lvl low l' tok' \<and> done_with (JObject kvs) l'"
  proof (cases kvs)
    case Nil
    obtain u where u: "steps (''{ '' @ CHR ''}'' # d # s, tok, obj) (CHR ''}'' # d # s, u, obj)"
      "at_lvl low (srec_reset\<lparr>state := Eatws, saved_state := Object_Field_Start, current := JObject []\<rparr>) u"
      using open_container [OF t, of "CHR ''{''" Object_Field_Start "JObject []" "CHR ''}'' # d # s" obj]
      by auto
    from close_empty [OF u(2), of "CHR ''}''" "d # s" obj] u(1) Nil show ?thesis
      by simp (meson steps_trans)
  next
    case (Cons kv r)
    obtain k v where kv: "kv = (k, v)" by (cases kv)
    let ?r = "quoted k @ '': '' @ json_text v @ members_text r @ '' }'' @ d # s"
    obtain u where u: "steps (''{ '' @ ?r, tok, obj) (?r, u, obj)"
      "at_lvl low (srec_reset\<lparr>state := Eatws, saved_state := Object_Field_Start, current := JObject []\<rparr>) u"
      using open_container [OF t, of "CHR ''{''" Object_Field_Start "JObject []" ?r obj] by auto
    have "\<exists>tok' obj' l'. steps (?r, u, obj) (d # s, tok', obj') \<and> at_lvl low l' tok'
        \<and> done_with (JObject ([] @ (k, v) # r)) l'"
      by (rule member_then [OF u(2)]) (use assms(1) [OF Cons [unfolded kv]] assms(2) Cons kv in simp_all)
    with u(1) Cons kv show ?thesis by simp (meson steps_trans)
  qed
qed

lemma parses_leaf:
  "is_cstring s \<Longrightarrow> parses low (json_text (JString s)) (JString s)"
  "literal n x j \<Longrightarrow> parses low n j"
  "read_number n = Some j \<Longrightarrow> n = c # ds \<Longrightarrow> is_digit c \<or> c = CHR ''-'' \<Longrightarrow> set n \<subseteq> set json_number_chars \<Longrightarrow>
   is_cstring n \<Longrightarrow> parses low n j"
  unfolding parses_def
  using value_string value_literal value_number [of low _ n c ds j] delim_not_number
  by (simp_all, meson+)

lemma parses_printable:
  "printable j \<Longrightarrow> length low + nest j < MAX_DEPTH \<Longrightarrow> parses low (json_text j) j"
  "members_printable kvs \<Longrightarrow> length low + members_nest kvs < MAX_DEPTH \<Longrightarrow>
   parses_members low (members_text kvs) kvs"
  "elements_printable vs \<Longrightarrow> length low + elements_nest vs < MAX_DEPTH \<Longrightarrow>
   parses_elements low (elements_text vs) vs"
proof (induction j and kvs and vs arbitrary: low and low and low
    rule: json_text_members_text_elements_text.induct)
  case 1
  show ?case by (rule parses_leaf(2) [of _ Null]) (simp add: literal_def)
next
  case (2 b)
  show ?case by (rule parses_leaf(2) [of _ Boolean]) (simp add: literal_def)
next
  case (3 d)
  then have d: "fp_finite d" "sscanf_lf (fmt_f d) = Some d" by simp_all
  obtain i n where n: "fmt_f d = i @ CHR ''.'' # n" "\<And>c. c \<in> set (i @ n) \<Longrightarrow> plain_digit c"
    and "\<exists>c r. i = c # r \<and> (is_digit c \<or> c = CHR ''-'')"
    using fmt_f_form [OF d(1)] by blast
  then obtain c r where i: "i = c # r" "is_digit c \<or> c = CHR ''-''" by blast
  have "\<And>c. c \<in> set (i @ n) \<Longrightarrow> c \<in> set json_number_chars" using n(2) plain_digit_def by blast
  moreover have "CHR ''.'' \<in> set json_number_chars" by (simp add: json_number_chars_def)
  ultimately have "set (fmt_f d) \<subseteq> set json_number_chars" using n(1) by auto
  with i n(1) is_cstring_fmt_f [of d] show ?case unfolding json_text.simps
    by (intro parses_leaf(3) [OF read_number_double [OF d], of c "r @ CHR ''.'' # n"]) simp_all
next
  case (4 i)
  then have r: "read_number (dec_of_int i) = Some (JInt i)" by (simp add: read_number_int)
  obtain c ds where c: "dec_of_int i = c # ds" "is_digit c \<or> c = CHR ''-''" using head_decimal by blast
  have "set (dec_of_int i) \<subseteq> set json_number_chars"
    using plain_decimal(2) [of _ i] unfolding plain_digit_def by blast
  with c show ?case unfolding json_text.simps
    by (intro parses_leaf(3) [OF r c(1)] is_cstring_dec_of_int)
next
  case (5 s)
  then show ?case by (simp only: printable.simps parses_leaf(1))
next
  case (6 kvs)
  show ?case
    by (rule parses_object) (use 6 in \<open>auto simp del: json_text.simps\<close>)
next
  case (7 vs)
  show ?case
    by (rule parses_array) (use 7 in \<open>auto simp del: json_text.simps\<close>)
next
  case 8
  show ?case using members_end by simp
next
  case (9 k v kvs)
  show ?case by (rule members_step) (use 9 in auto)
next
  case 10
  show ?case using elements_end by simp
next
  case (11 v vs)
  show ?case by (rule elements_step) (use 11 in auto)
qed

lemma hex_at_graphic: "k < 16 \<Longrightarrow> hex_at k \<noteq> CHR 0x00"
  using less_16 [of k] by (auto simp: hex_at_def json_hex_chars_def)

lemma is_cstring_json_text:
  "printable j \<Longrightarrow> is_cstring (json_text j)"
  "members_printable kvs \<Longrightarrow> is_cstring (members_text kvs)"
  "elements_printable vs \<Longrightarrow> is_cstring (elements_text vs)"
proof -
  have e: "is_cstring s \<Longrightarrow> is_cstring (escape_text s)" for s
  proof (induction s)
    case (Cons c s)
    then show ?case
      by (cases c rule: escape_of_cases)
        (auto simp: escape_text_simps simple_escape_def hex_at_graphic)
  qed (simp add: escape_text_simps)
  show "printable j \<Longrightarrow> is_cstring (json_text j)"
    "members_printable kvs \<Longrightarrow> is_cstring (members_text kvs)"
    "elements_printable vs \<Longrightarrow> is_cstring (elements_text vs)"
    by (induction j and kvs and vs rule: json_text_members_text_elements_text.induct)
      (auto simp: quoted_def e split: list.split)
qed

text \<open>A turn that does not leave keeps the error code.\<close>

lemma err_set [simp]:
  "err (set_state x tok) = err tok" "err (set_saved_state x tok) = err tok"
  "err (set_current j tok) = err tok" "err (set_obj_field_name k tok) = err tok"
  "err (eatws_then x tok) = err tok" "err (memappend q tok) = err tok" "err (pb_reset tok) = err tok"
  "err (json_tokener_reset_level n tok) = err tok"
  by (simp_all add: set_defs json_tokener_reset_level_def)

definition keeps_err :: "tokener \<Rightarrow> outcome res \<Rightarrow> bool" where
  "keeps_err tok r \<longleftrightarrow> (case r of Inr (Next tok' _) \<Rightarrow> err tok' = err tok
     | Inr (Redo tok' _) \<Rightarrow> err tok' = err tok | _ \<Rightarrow> True)"

lemma keeps_err_simps [simp]:
  "keeps_err tok (Inr (Next tok' ob)) \<longleftrightarrow> err tok' = err tok"
  "keeps_err tok (Inr (Redo tok' ob)) \<longleftrightarrow> err tok' = err tok"
  "keeps_err tok (Inr (Leave tok' ob))" "keeps_err tok (Inl e)" "keeps_err tok (fail x tok' ob)"
  by (simp_all add: keeps_err_def fail_def)

lemma keeps_err_rbind: "(\<And>x. keeps_err tok (f x)) \<Longrightarrow> keeps_err tok (rbind m f)"
  by (cases m) simp_all

lemma keeps_err_cases:
  "keeps_err tok (case_eatws c tok obj)"
  "keeps_err tok (case_start c tok obj)"
  "keeps_err tok (case_finish c tok obj)"
  "keeps_err tok (case_null c tok obj)"
  "keeps_err tok (case_comment_start c tok obj)"
  "keeps_err tok (case_comment c tok obj)"
  "keeps_err tok (case_comment_eol c tok obj)"
  "keeps_err tok (case_comment_end c tok obj)"
  "keeps_err tok (case_string c tok obj)"
  "keeps_err tok (case_string_escape c tok obj)"
  "keeps_err tok (case_escape_unicode c tok obj)"
  "keeps_err tok (case_boolean c tok obj)"
  "keeps_err tok (case_number c tok obj)"
  "keeps_err tok (case_array c tok obj)"
  "keeps_err tok (case_array_add c tok obj)"
  "keeps_err tok (case_array_sep c tok obj)"
  "keeps_err tok (case_object_field_start c tok obj)"
  "keeps_err tok (case_object_field c tok obj)"
  "keeps_err tok (case_object_field_end c tok obj)"
  "keeps_err tok (case_object_value c tok obj)"
  "keeps_err tok (case_object_value_add c tok obj)"
  "keeps_err tok (case_object_sep c tok obj)"
  by (simp_all add: case_eatws_def case_start_def case_finish_def case_null_def case_comment_start_def case_comment_def case_comment_eol_def case_comment_end_def case_string_def case_string_escape_def case_escape_unicode_def case_boolean_def case_number_def case_array_def case_array_add_def case_array_sep_def case_object_field_start_def case_object_field_def case_object_field_end_def case_object_value_def case_object_value_add_def case_object_sep_def push_level_def
      keeps_err_rbind Let_def split: option.split)

lemma tok_case_err: "keeps_err tok (tok_case c tok obj)"
  unfolding tok_case_def by (cases "state (level tok)") (simp_all add: keeps_err_cases)

lemma steps_err: "steps p q \<Longrightarrow> err (fst (snd q)) = err (fst (snd p))"
proof (induction rule: rtranclp_induct)
  case (step q r)
  from step(2) have "err (fst (snd r)) = err (fst (snd q))"
    using tok_case_err by (cases rule: step.cases) (metis fst_conv snd_conv keeps_err_simps(1,2))+
  with step show ?case by simp
qed simp

lemma json_roundtrip_text:
  assumes "printable j" and "nest j < MAX_DEPTH"
  shows "json_tokener_parse (json_object_to_json_string j) = Inr (Inr j)"
proof -
  let ?tok = "json_tokener_new\<lparr>err := json_tokener_success\<rparr>"
  have tok: "at_lvl [] srec_reset ?tok" 
    by (simp add: at_lvl_def level_def json_tokener_new_def json_tokener_reset_def
        json_tokener_reset_level_def MAX_DEPTH_def)
  obtain tok' obj' l' where *: "steps (json_text j @ [CHR 0x00], ?tok, JNull) ([CHR 0x00], tok', obj')"
    "at_lvl [] l' tok'" "done_with j l'"
    by (rule parsesD [OF parses_printable(1) tok, of j "CHR 0x00" "[]" JNull])
      (use assms in \<open>simp_all add: delim_def\<close>)
  have cs: "is_cstring (json_text j)" using assms(1) by (rule is_cstring_json_text)
  have "tok_loop (json_text j) ?tok JNull = tok_loop [] tok' obj'"
    by (rule steps_loop [OF *(1) refl]) (simp_all add: cs)
  also have "\<dots> = Inr (set_state Finish tok', CHR 0x00)"
  proof -
    let ?t = "set_state Finish tok'"
    have l: "level tok' = l'" "level ?t = l'\<lparr>state := Finish\<rparr>" "depth ?t = 0"
      using at_level [OF *(2)] at_set(1) [OF *(2), of Finish] at_level at_depth by auto
    have "tok_case (CHR 0x00) tok' obj' = Inr (Redo ?t obj')"
      using l *(3) by (simp add: tok_case_def case_eatws_def done_with_def char_class_defs)
    moreover have "tok_case (CHR 0x00) ?t obj' = Inr (Leave ?t obj')"
      using l by (simp add: tok_case_def case_finish_def)
    ultimately show ?thesis by (simp add: MAX_TURNS_def eval_nat_numeral)
  qed
  finally have "tok_loop (json_text j) ?tok JNull = Inr (set_state Finish tok', CHR 0x00)" .
  moreover have "err tok' = json_tokener_success" using steps_err [OF *(1)] by simp
  moreover have "level (set_state Finish tok') = l'\<lparr>state := Finish\<rparr>"
    using at_set(1) [OF *(2)] by (rule at_level)
  ultimately show ?thesis
    using cs *(3)
    by (simp add: json_object_to_json_string_eq json_tokener_parse_def json_tokener_parse_ex_def done_with_def)
qed

text \<open>
  C3: What the JSON printer writes for a printable value (integers of 32 bits, doubles that six
  decimals determine, strings without zero byte, distinct keys), nested at most 31 levels deep,
  the JSON parser reads back as that value.
\<close>
theorem json_roundtrip:
  assumes "printable j" and "nest j < MAX_DEPTH"
  shows "json_tokener_parse (json_object_to_json_string j) = Inr (Inr j)"
  using assms by (rule json_roundtrip_text)

definition sample_value :: json where
  "sample_value = JObject [(''stats'', JObject [(''a.b'', JInt (- 5))]),
     (''timers'', JObject [([CHR 0x22, CHR 0x0A, CHR 0x01], JArray [JDouble (fp_int 3), JNull, JBool True])])]"

lemma json_roundtrip_witness:
  "json_tokener_parse (json_object_to_json_string sample_value) = Inr (Inr sample_value)"
  by (rule json_roundtrip) (simp_all add: sample_value_def is_int32_def printable_int MAX_DEPTH_def del: printable.simps(3))

text \<open>
  The parser accepts an array that ends inside a comment: when the text stops there, the
  level of the element is the current one, its next state is \<^verbatim>\<open>finish\<close>, so no error
  is set, and the element is returned in place of the array.
\<close>

theorem json_open_comment_accepted:
  assumes "printable j" and "Suc (nest j) < MAX_DEPTH"
  shows "json_tokener_parse (''[ '' @ json_text j @ '' /*'') = Inr (Inr j)"
proof -
  let ?tok = "json_tokener_new\<lparr>err := json_tokener_success\<rparr>"
  let ?e = "CHR ''/'' # CHR ''*'' # [CHR 0x00]"
  let ?s = "json_text j @ CHR '' '' # ?e"
  obtain c s where c: "json_text j = c # s" "graphic c" "c \<noteq> CHR '']''" using json_text_head [OF assms(1)] .
  have t: "at_lvl [] srec_reset ?tok"
    by (simp add: at_lvl_def level_def json_tokener_new_def json_tokener_reset_def
        json_tokener_reset_level_def MAX_DEPTH_def)
  obtain u where u: "steps (''[ '' @ ?s, ?tok, JNull) (?s, u, JNull)"
    "at_lvl [] (srec_reset\<lparr>state := Eatws, saved_state := Array, current := JArray []\<rparr>) u"
    using open_container [OF t, of "CHR ''[''" Array "JArray []" ?s JNull] by auto
  have "\<exists>la v. steps (?s, u, JNull) (?s, v, JNull) \<and> at_lvl [la] srec_reset v"
    unfolding c(1) append_Cons
    by (rule open_element [OF u(2) _ _ c(2,3), of "s @ CHR '' '' # ?e" JNull]) (auto simp: MAX_DEPTH_def)
  then obtain la v where v: "steps (?s, u, JNull) (?s, v, JNull)" "at_lvl [la] srec_reset v" by blast
  have "parses [la] (json_text j) j" by (rule parses_printable(1)) (use assms in auto)
  moreover have d: "delim (CHR '' '')" by (simp add: delim_def)
  ultimately obtain w obj l where w: "steps (?s, v, JNull) (CHR '' '' # ?e, w, obj)" "at_lvl [la] l w" "done_with j l"
    by (rule parsesD [OF _ v(2)])
  let ?x = "set_state Comment_Start (memappend ''/'' (pb_reset w))"
  let ?y = "memappend ''*'' (set_state Comment ?x)"
  have x: "at_lvl [la] (l\<lparr>state := Comment_Start\<rparr>) ?x" using w(2) by (intro at_set) simp
  have y: "at_lvl [la] (l\<lparr>state := Comment\<rparr>) ?y" using at_set(1) [OF x, of Comment] by simp
  have "steps (CHR '' '' # ?e, w, obj) (?e, w, obj)"
    by (rule eatws_space [OF w(2)]) (use w(3) in \<open>simp add: done_with_def\<close>)
  also have "steps \<dots> (CHR ''*'' # [CHR 0x00], ?x, obj)"
    using at_level [OF w(2)] w(3)
    by (intro nextI [OF _ rtranclp.rtrancl_refl])
      (simp add: tok_case_def case_eatws_def done_with_def char_class_defs)
  also have "steps \<dots> ([CHR 0x00], ?y, obj)"
    using at_level [OF x]
    by (intro nextI [OF _ rtranclp.rtrancl_refl]) (simp add: tok_case_def case_comment_start_def)
  finally have "steps (CHR '' '' # ?e, w, obj) ([CHR 0x00], ?y, obj)" .
  with u(1) v(1) w(1) have "steps (''[ '' @ ?s, ?tok, JNull) ([CHR 0x00], ?y, obj)"
    by (meson steps_trans)
  then have *: "steps ((''[ '' @ json_text j @ '' /*'') @ [CHR 0x00], ?tok, JNull) ([CHR 0x00], ?y, obj)"
    by simp
  have cs: "is_cstring (''[ '' @ json_text j @ '' /*'')" using is_cstring_json_text(1) [OF assms(1)] by simp
  have "tok_loop (''[ '' @ json_text j @ '' /*'') ?tok JNull = tok_loop [] ?y obj"
    by (rule steps_loop [OF * refl]) (use cs in simp_all)
  also have "\<dots> = Inr (memappend [CHR 0x00] ?y, CHR 0x00)"
    using at_level [OF y] by (simp add: MAX_TURNS_def eval_nat_numeral tok_case_def case_comment_def)
  finally have "tok_loop (''[ '' @ json_text j @ '' /*'') ?tok JNull = Inr (memappend [CHR 0x00] ?y, CHR 0x00)" .
  moreover have "level (memappend [CHR 0x00] ?y) = l\<lparr>state := Comment\<rparr>"
    using y by (intro at_level) simp
  moreover have "err ?y = json_tokener_success" using steps_err [OF *] by simp
  ultimately show ?thesis using w(3) cstr_of_id [OF cs]
    by (simp add: json_tokener_parse_def json_tokener_parse_ex_def done_with_def)
qed

theorem json_open_comment_accepted_witness: "json_tokener_parse ''[ true /*'' = Inr (Inr (JBool True))"
  using json_open_comment_accepted [of "JBool True"] by (simp add: MAX_DEPTH_def)

end
