(* ===== verification/JsonPacket.thy ===== *)
theory JsonPacket
  imports Packet JsonRoundtrip
begin

text \<open>
  Packets in JSON (\<^verbatim>\<open>process_json_stats_packet\<close> and
  \<^verbatim>\<open>process_json_stats_object\<close> of \<^verbatim>\<open>statsd.c\<close>): an object, or an
  array of objects, with a member \<open>timer\<close> or \<open>counter\<close> that names the metric, a member
  \<open>value\<close> and, for a counter, a member \<open>sample_rate\<close>. The lemmas give the effect of
  every shape of packet, the faults included: the parser's error pointer is not null, so the
  check for a bad packet lets it through to be read as an object.
\<close>

text \<open>\<^verbatim>\<open>syslog\<close> prints the object first, which has no effect on it. A missing member
  and a member that is \<open>null\<close> are both the null pointer.\<close>

definition process_json_stats_object :: "json \<Rightarrow> daemon \<Rightarrow> daemon res" where
  "process_json_stats_object sobj d =
     rbind (json_object_object_get sobj ''timer'') (\<lambda>timer_obj.
     rbind (json_object_object_get sobj ''counter'') (\<lambda>counter_obj.
     if timer_obj \<noteq> JNull \<and> counter_obj \<noteq> JNull then Inr d
     else if timer_obj \<noteq> JNull then
       rbind (json_object_object_get sobj ''value'') (\<lambda>value_obj.
       if timer_obj = JNull \<or> value_obj = JNull then Inr d
       else case json_object_get_string timer_obj of
              None \<Rightarrow> Inl Null_Deref
            | Some name \<Rightarrow>
                update_timer (sanitize_key name) (json_object_get_double value_obj) d)
     else if counter_obj \<noteq> JNull then
       rbind (json_object_object_get sobj ''value'') (\<lambda>value_obj.
       rbind (json_object_object_get sobj ''sample_rate'') (\<lambda>sample_rate_obj.
       if counter_obj = JNull \<or> value_obj = JNull then Inr d
       else case json_object_get_string counter_obj of
              None \<Rightarrow> Inl Null_Deref
            | Some name \<Rightarrow>
                let sample_rate = (if sample_rate_obj \<noteq> JNull
                                   then json_object_get_double sample_rate_obj else Fin 0)
                in update_counter (sanitize_key name) (json_object_get_double value_obj)
                     sample_rate d))
     else Inr d))"

text \<open>The loop over an array asks for its length on every turn.\<close>

definition json_array_turn :: "json \<Rightarrow> nat \<Rightarrow> daemon \<Rightarrow> daemon res" where
  "json_array_turn obj i d =
     rbind (json_object_array_get_idx obj i) (\<lambda>sobj. process_json_stats_object sobj d)"

definition process_json_stats_packet :: "int \<Rightarrow> cstring \<Rightarrow> daemon \<Rightarrow> daemon res" where
  "process_json_stats_packet t buf_in d =
     (if length buf_in < 2 then UPDATE_LAST_MSG_SEEN t d
      else rbind (json_tokener_parse buf_in) (\<lambda>r. case r of
          Inl e \<Rightarrow> Inl Wild_Deref
        | Inr obj \<Rightarrow>
            if obj = JNull then Inr d
            else rbind (json_object_get_type obj) (\<lambda>o_type.
              if o_type = json_type_object then process_json_stats_object obj d
              else if o_type = json_type_array then
                rbind (json_object_array_length obj) (\<lambda>n. rfold (json_array_turn obj) [0..<n] d)
              else Inr d)))"

subsection \<open>What an object says\<close>

datatype json_event = Count cstring fp fp | Time cstring fp | Ignore

text \<open>The name of a metric is the text of its member, whatever its type.\<close>

definition text_of :: "json \<Rightarrow> cstring" where
  "text_of j = (case json_object_get_string j of Some s \<Rightarrow> s | None \<Rightarrow> [])"

definition event_of :: "(cstring \<times> json) list \<Rightarrow> json_event" where
  "event_of kvs =
     (let timer = members_lookup ''timer'' kvs; counter = members_lookup ''counter'' kvs;
          val = members_lookup ''value'' kvs; rate = members_lookup ''sample_rate'' kvs
      in if timer \<noteq> JNull \<and> counter \<noteq> JNull \<or> val = JNull then Ignore
         else if timer \<noteq> JNull then Time (sanitize_key (text_of timer)) (json_object_get_double val)
         else if counter \<noteq> JNull
         then Count (sanitize_key (text_of counter)) (json_object_get_double val)
                (if rate \<noteq> JNull then json_object_get_double rate else Fin 0)
         else Ignore)"

definition apply_event :: "json_event \<Rightarrow> daemon \<Rightarrow> daemon res" where
  "apply_event e d = (case e of
       Count k v r \<Rightarrow> update_counter k v r d | Time k v \<Rightarrow> update_timer k v d | Ignore \<Rightarrow> Inr d)"

lemma get_string_Some: "j \<noteq> JNull \<Longrightarrow> json_object_get_string j = Some (text_of j)"
  by (cases j) (simp_all add: text_of_def)

lemma process_json_stats_object_eq:
  "process_json_stats_object (JObject kvs) d = apply_event (event_of kvs) d"
  by (simp add: process_json_stats_object_def json_object_object_get_def event_of_def apply_event_def
      get_string_Some Let_def)

text \<open>The abstract state a packet changes: the counters and the timers as maps.\<close>

type_synonym view = "(cstring \<rightharpoonup> fp) \<times> (cstring \<rightharpoonup> fp list)"

definition view :: "daemon \<Rightarrow> view" where
  "view d = (counter_of d, timer_of d)"

fun event_step :: "json_event \<Rightarrow> view \<Rightarrow> view" where
  "event_step (Count k v r) (cs, ts) =
     (cs(k \<mapsto> (case cs k of None \<Rightarrow> increment v r | Some c \<Rightarrow> fp_add x87ext c (increment v r))), ts)"
| "event_step (Time k v) (cs, ts) = (cs, ts(k \<mapsto> (case ts k of None \<Rightarrow> [v] | Some vs \<Rightarrow> vs @ [v])))"
| "event_step Ignore w = w"

fun event_ok :: "json_event \<Rightarrow> bool" where
  "event_ok (Count k v r) \<longleftrightarrow> key_ok k \<and> fp_ok binary64 v"
| "event_ok (Time k v) \<longleftrightarrow> key_ok k \<and> fp_ok binary64 v"
| "event_ok Ignore \<longleftrightarrow> True"

lemma apply_event_ok:
  assumes "daemon_wf d" and "event_ok e" and "timer_room (Suc n) d"
  shows "\<exists>d'. apply_event e d = Inr d' \<and> daemon_wf d' \<and> timer_room n d' \<and> view d' = event_step e (view d)
    \<and> gauges d' = gauges d \<and> stats d' = stats d"
proof (cases e)
  case (Count k v r)
  note l = daemon_wf_locks [OF assms(1)]
  from Count assms(2) l obtain d' where d': "update_counter k v r d = Inr d'"
    by (auto simp: update_counter_eq fits_def key_ok_def)
  note f = update_counter_frame [OF d' l(2)]
  have "timer_room n d'" using timer_room_mono [OF assms(3), of n] f(3) by (simp add: timer_room_def)
  moreover have "daemon_wf d'"
    using update_counter_wf [OF assms(1) _ _ d'] Count assms(2) by (simp add: key_ok_def)
  ultimately show ?thesis
    using Count d' f update_counter_view [OF assms(1) d'] view_frame(3) [OF f(3)]
    by (simp add: apply_event_def view_def)
next
  case (Time k v)
  note l = daemon_wf_locks [OF assms(1)]
  have "\<not> timer_full k d"
    using assms(3) by (auto simp: timer_full_def timer_room_def dest!: hash_lookup_SomeD)
  with Time assms(2,3) l obtain d' where d': "update_timer k v d = Inr d'" "timer_room n d'"
    by (auto simp: update_timer_eq fits_def key_ok_def timer_room_upsert)
  note f = update_timer_frame [OF d'(1) l(4)]
  have "daemon_wf d'"
    using update_timer_wf [OF assms(1) _ _ d'(1)] Time assms(2) by (simp add: key_ok_def)
  then show ?thesis
    using Time d' f update_timer_view [OF assms(1) d'(1)] view_frame(1) [OF f(2)]
    by (simp add: apply_event_def view_def)
next
  case Ignore
  with assms timer_room_mono [OF assms(3), of n] show ?thesis by (simp add: apply_event_def)
qed

lemma apply_events_ok:
  assumes "daemon_wf d" and "\<forall>e \<in> set es. event_ok e" and "timer_room (length es) d"
  shows "\<exists>d'. rfold apply_event es d = Inr d' \<and> daemon_wf d' \<and> view d' = fold event_step es (view d)
    \<and> gauges d' = gauges d \<and> stats d' = stats d"
  using assms
proof (induction es arbitrary: d)
  case (Cons e es)
  then obtain d1 where d1: "apply_event e d = Inr d1" "daemon_wf d1" "timer_room (length es) d1"
    "view d1 = event_step e (view d)" "gauges d1 = gauges d" "stats d1 = stats d"
    using apply_event_ok [of d e "length es"] by auto
  from Cons.IH [OF d1(2) _ d1(3)] Cons.prems(2) d1 show ?case by auto
qed simp

subsection \<open>The packet\<close>

text \<open>The objects of a packet: itself, or the elements of the array.\<close>

fun members_of :: "json \<Rightarrow> (cstring \<times> json) list" where
  "members_of (JObject kvs) = kvs"
| "members_of _ = []"

fun objects :: "json \<Rightarrow> json list" where
  "objects (JObject kvs) = [JObject kvs]"
| "objects (JArray vs) = vs"
| "objects _ = []"

definition batch :: "json \<Rightarrow> bool" where
  "batch j \<longleftrightarrow> (case j of JObject _ \<Rightarrow> True | JArray _ \<Rightarrow> True | _ \<Rightarrow> False) \<and> (\<forall>v \<in> set (objects j). is_object v)"

lemma json_array_loop:
  assumes "\<forall>v \<in> set (take n vs). is_object v" and "n \<le> length vs"
  shows "rfold (json_array_turn (JArray vs)) [0..<n] d =
    rfold apply_event (map (event_of \<circ> members_of) (take n vs)) d"
  using assms
proof (induction n)
  case (Suc n)
  have t: "take (Suc n) vs = take n vs @ [vs ! n]" using Suc.prems(2) by (simp add: take_Suc_conv_app_nth)
  with Suc.prems(1) obtain kvs where k: "vs ! n = JObject kvs" by auto
  have "json_array_turn (JArray vs) n = apply_event (event_of kvs)"
    using Suc.prems(2) k
    by (intro ext) (simp add: json_array_turn_def json_object_array_get_idx_def process_json_stats_object_eq)
  with Suc t k show ?case by (simp add: rfold_append rfold_single)
qed simp

lemma length_json_text_batch: "batch j \<Longrightarrow> 2 \<le> length (json_text j)"
  by (cases j) (auto simp: batch_def)

lemma process_json_stats_packet_events:
  assumes "printable j" and "nest j < MAX_DEPTH" and "batch j"
  shows "process_json_stats_packet t (json_object_to_json_string j) d =
    rfold apply_event (map (event_of \<circ> members_of) (objects j)) d"
proof -
  note p = json_roundtrip_text [OF assms(1,2)]
  have len: "\<not> length (json_object_to_json_string j) < 2"
    using length_json_text_batch [OF assms(3)] by (simp add: json_object_to_json_string_eq)
  show ?thesis
  proof (cases j)
    case (JObject kvs)
    with len p show ?thesis
      by (simp add: process_json_stats_packet_def process_json_stats_object_eq rfold_single rbind_return)
  next
    case (JArray vs)
    with assms(3) have "\<forall>v \<in> set (take (length vs) vs). is_object v" by (simp add: batch_def)
    from json_array_loop [OF this order_refl, of d] JArray len p show ?thesis
      by (simp add: process_json_stats_packet_def json_object_array_length_def)
  qed (use assms(3) in \<open>simp_all add: batch_def\<close>)
qed

lemma fp_ok_get_double: "printable j \<Longrightarrow> fp_ok binary64 (json_object_get_double j)"
proof -
  have l: "sscanf_lf s = Some d \<Longrightarrow> fp_ok binary64 d" for s d
    by (auto simp: sscanf_lf_def Let_def dest: fp_ok_strtod_full split: if_splits)
  show "printable j \<Longrightarrow> fp_ok binary64 (json_object_get_double j)"
    by (cases j) (auto simp: fp_of_int_def dest: l split: option.split)
qed

lemma printable_lookup: "members_printable kvs \<Longrightarrow> printable (members_lookup k kvs)"
  by (induction kvs) (auto simp: members_lookup_def split: option.splits)

lemma printable_objects: "printable j \<Longrightarrow> v \<in> set (objects j) \<Longrightarrow> printable v"
proof -
  have "elements_printable vs \<Longrightarrow> v \<in> set vs \<Longrightarrow> printable v" for vs by (induction vs) auto
  then show "printable j \<Longrightarrow> v \<in> set (objects j) \<Longrightarrow> printable v" by (cases j) auto
qed

fun name_fits :: "json_event \<Rightarrow> bool" where
  "name_fits (Count k v r) \<longleftrightarrow> length k < KEY_SIZE"
| "name_fits (Time k v) \<longleftrightarrow> length k < KEY_SIZE"
| "name_fits Ignore \<longleftrightarrow> True"

lemma event_ok_of:
  assumes "printable (JObject kvs)" and "name_fits (event_of kvs)"
  shows "event_ok (event_of kvs)"
  using assms by (auto simp: event_of_def Let_def key_ok_def fp_ok_get_double printable_lookup split: if_splits)

text \<open>
  C11: a JSON packet with an object or an array of objects (as the JSON printer writes them)
  records every object in order: a counter is incremented by the value over the sample rate, a
  timer gets the value, an object with neither, with both or without a value changes nothing;
  gauges and statistics stay as they are. The names must be shorter than a key after sanitising
  and no timer within the number of objects of the largest count.
\<close>

theorem json_packet_reports:
  assumes "daemon_wf d" and "printable j" and "nest j < MAX_DEPTH" and "batch j"
    and "\<forall>v \<in> set (objects j). name_fits (event_of (members_of v))"
    and "timer_room (length (objects j)) d"
  shows "\<exists>d'. process_json_stats_packet t (json_object_to_json_string j) d = Inr d' \<and> daemon_wf d'
    \<and> view d' = fold event_step (map (event_of \<circ> members_of) (objects j)) (view d)
    \<and> gauges d' = gauges d \<and> stats d' = stats d"
proof -
  have "event_ok (event_of (members_of v))" if v: "v \<in> set (objects j)" for v
  proof -
    from assms(4) v obtain kvs where "v = JObject kvs" by (auto simp: batch_def)
    with event_ok_of [of kvs] printable_objects [OF assms(2) v] assms(5) v show ?thesis by auto
  qed
  then have "\<forall>e \<in> set (map (event_of \<circ> members_of) (objects j)). event_ok e" by auto
  from apply_events_ok [OF assms(1) this] assms(6) show ?thesis
    by (simp add: process_json_stats_packet_events [OF assms(2-4)])
qed

definition sample_batch :: json where
  "sample_batch = JArray [JObject [(''counter'', JString ''a.b''), (''value'', JInt 300)],
     JObject [(''timer'', JString ''t''), (''value'', JDouble (fp_int 12))]]"

theorem json_packet_reports_witness:
  "\<exists>d'. process_json_stats_packet 5 (json_object_to_json_string sample_batch) daemon_init = Inr d' \<and> daemon_wf d'
    \<and> view d' = fold event_step (map (event_of \<circ> members_of) (objects sample_batch)) (view daemon_init)
    \<and> gauges d' = gauges daemon_init \<and> stats d' = stats daemon_init"
proof (rule json_packet_reports [OF daemon_wf_init])
  show "printable sample_batch"
    by (simp add: sample_batch_def is_int32_def printable_int del: printable.simps(3))
  show "timer_room (length (objects sample_batch)) daemon_init"
    by (simp add: timer_room_def daemon_init_def INT_MAX_def sample_batch_def)
qed (auto simp: sample_batch_def MAX_DEPTH_def batch_def event_of_def members_lookup_def text_of_def
    KEY_SIZE_def)

text \<open>What is wrong with a packet: the parser's error, or a value that is no object after objects
  \<open>gs\<close>; and the fault it leads to.\<close>

definition malformed :: "json_tokener_error + json \<Rightarrow> json list \<Rightarrow> fault \<Rightarrow> bool" where
  "malformed r gs f \<longleftrightarrow> (case r of
       Inl e \<Rightarrow> gs = [] \<and> f = Wild_Deref
     | Inr j \<Rightarrow> \<exists>v vs. j = JArray (gs @ v # vs) \<and> (\<forall>g \<in> set gs. is_object g) \<and> \<not> is_object v
         \<and> f = (if v = JNull then Null_Deref else Type_Confusion))"

text \<open>
  C39: a packet the JSON parser rejects is not rejected by the daemon: the error is a pointer
  that is not null, and its type is read through it. In an array, the objects before the first
  value that is not an object are recorded; then a null is read through the null pointer, and any
  other value is taken for an object. (The packet has two characters or more; an object before it
  may fault first, as when its name is too long.)
\<close>

theorem json_packet_malformed:
  assumes "2 \<le> length buf" and "json_tokener_parse buf = Inr r" and "malformed r gs f"
  shows "process_json_stats_packet t buf d =
    rbind (rfold apply_event (map (event_of \<circ> members_of) gs) d) (\<lambda>d'. Inl f)"
proof (cases r)
  case (Inl e)
  with assms show ?thesis by (simp add: process_json_stats_packet_def malformed_def)
next
  case (Inr j)
  with assms(3) obtain v vs where j: "j = JArray (gs @ v # vs)" and gs: "\<forall>g \<in> set gs. is_object g"
    and f: "\<not> is_object v" "f = (if v = JNull then Null_Deref else Type_Confusion)"
    by (auto simp: malformed_def)
  then have "json_array_turn j (length gs) e = Inl f" for e
    by (cases v) (simp_all add: json_array_turn_def json_object_array_get_idx_def nth_append
        process_json_stats_object_def json_object_object_get_def)
  moreover have "[0..<length (gs @ v # vs)] = [0..<length gs] @ length gs # [Suc (length gs)..<length (gs @ v # vs)]"
    using upt_add_eq_append [of 0 "length gs" "Suc (length vs)"] by (simp add: upt_conv_Cons del: upt_Suc)
  moreover have "rfold (json_array_turn j) [0..<length gs] d =
      rfold apply_event (map (event_of \<circ> members_of) gs) d"
    using json_array_loop [of "length gs" "gs @ v # vs" d] gs by (simp add: j)
  ultimately show ?thesis
    using assms(1,2) Inr j
    by (cases "rfold apply_event (map (event_of \<circ> members_of) gs) d")
      (simp_all add: process_json_stats_packet_def json_object_array_length_def rfold_append del: upt_Suc)
qed

theorem json_packet_malformed_witness:
  "process_json_stats_packet 5 ''[{}, 5]'' daemon_init = Inl Type_Confusion"
proof -
  have "json_tokener_parse ''[{}, 5]'' = Inr (Inr (JArray [JObject [], JInt 5]))" by code_simp
  then have "process_json_stats_packet 5 ''[{}, 5]'' daemon_init =
      rbind (rfold apply_event (map (event_of \<circ> members_of) [JObject []]) daemon_init) (\<lambda>d'. Inl Type_Confusion)"
    by (intro json_packet_malformed) (auto simp: malformed_def)
  then show ?thesis by (simp add: event_of_def members_lookup_def apply_event_def)
qed

end
