(* ===== verification/Threads.thy ===== *)
theory Threads
  imports Queue JsonPacket
begin

text \<open>
  The two threads at the ends of the ring (\<^verbatim>\<open>statsd.c\<close>):
  \<^verbatim>\<open>p_thread_udp\<close>, which turns datagrams into strings and stores them, and
  \<^verbatim>\<open>p_thread_queue\<close>, which pops the strings and hands each to the JSON parser or
  to the text parser by its first character. What \<^verbatim>\<open>select\<close> and
  \<^verbatim>\<open>read\<close> return is the input of the first, the time of each packet an input of
  the second. Opening the socket is in \<open>Shutdown\<close>.
\<close>

definition BUFLEN :: nat where "BUFLEN = 65536"

lemma BUFLEN_pos: "0 < BUFLEN"
  by (simp add: BUFLEN_def)

subsection \<open>The UDP thread\<close>

text \<open>What one turn of the loop meets: \<^verbatim>\<open>select\<close> fails, or times out with nothing to
  read, or a datagram is there (\<^verbatim>\<open>read\<close> yields its first
  \<^verbatim>\<open>BUFLEN\<close> bytes), or \<^verbatim>\<open>read\<close> fails.\<close>

datatype udp_input = Select_Fails | Idle | Datagram "char list" | Read_Fails

text \<open>\<^verbatim>\<open>buf_in\<close> after \<^verbatim>\<open>memset\<close>, \<^verbatim>\<open>read\<close> and the
  zero byte put at its end.\<close>

definition udp_buffer :: "char list \<Rightarrow> char list" where
  "udp_buffer bs = (take BUFLEN bs @ replicate (BUFLEN - length bs) (CHR 0x00))[BUFLEN - 1 := CHR 0x00]"

text \<open>One turn: the queue after it, and whether the thread goes on. A result of zero from
  \<^verbatim>\<open>read\<close>, which is what an empty datagram gives, ends the loop like a failure.\<close>

definition udp_turn :: "udp_input \<Rightarrow> packet_queue \<Rightarrow> (packet_queue \<times> bool) res" where
  "udp_turn i q = (case i of
       Select_Fails \<Rightarrow> Inr (q, True)
     | Idle \<Rightarrow> Inr (q, True)
     | Read_Fails \<Rightarrow> Inr (q, False)
     | Datagram bs \<Rightarrow>
         if length (take BUFLEN bs) \<le> 0 then Inr (q, False)
         else rbind (queue_store (cstr_of (udp_buffer bs)) q) (\<lambda>q. Inr (q, True)))"

fun p_thread_udp :: "udp_input list \<Rightarrow> packet_queue \<Rightarrow> (packet_queue \<times> bool) res" where
  "p_thread_udp [] q = Inr (q, True)"
| "p_thread_udp (i # is) q = rbind (udp_turn i q) (\<lambda>(q, go).
     if go then p_thread_udp is q else Inr (q, False))"

subsection \<open>The queue thread\<close>

text \<open>One packet, at the time \<open>t\<close>: it is copied into a buffer of
  \<^verbatim>\<open>BUFLEN\<close> bytes, and its first character decides.\<close>

definition process_packet :: "int \<Rightarrow> cstring \<Rightarrow> daemon \<Rightarrow> daemon res" where
  "process_packet t packet d =
     rbind (strcpy_buf BUFLEN packet) (\<lambda>buf_in.
     if take 1 buf_in = ''{'' \<or> take 1 buf_in = ''['' then process_json_stats_packet t buf_in d
     else process_stats_packet t buf_in d)"

text \<open>The inner loop of \<^verbatim>\<open>p_thread_queue\<close>, until the ring is empty;
  \<open>clk n\<close> is the time of the packet with \<open>n\<close> turns left.\<close>

fun queue_pass :: "nat \<Rightarrow> (nat \<Rightarrow> int) \<Rightarrow> packet_queue \<Rightarrow> daemon \<Rightarrow> (packet_queue \<times> daemon) res" where
  "queue_pass 0 clk q d = Inl Endless_Loop"
| "queue_pass (Suc n) clk q d = rbind (queue_pop_first q) (\<lambda>(p, q'). case p of
       None \<Rightarrow> Inr (q', d)
     | Some packet \<Rightarrow> rbind (process_packet (clk n) packet d) (queue_pass n clk q'))"

subsection \<open>From the socket to the tables\<close>

lemma cstr_of_udp_buffer:
  assumes "length bs < BUFLEN"
  shows "cstr_of (udp_buffer bs) = cstr_of bs"
proof -
  have "replicate (BUFLEN - length bs) (CHR 0x00) = CHR 0x00 # replicate (BUFLEN - length bs - 1) (CHR 0x00)"
    using assms by (metis Suc_diff_1 replicate_Suc zero_less_diff)
  moreover have "BUFLEN - 1 = length bs + (BUFLEN - length bs - 1)" using assms by simp
  then have "udp_buffer bs = bs @ replicate (BUFLEN - length bs) (CHR 0x00)"
    using assms unfolding udp_buffer_def
    by (auto simp: list_update_append list_update_same_conv nth_append)
  ultimately show ?thesis by (simp add: cstr_of_append_zero)
qed

lemma length_cstr_of: "length (cstr_of bs) \<le> length bs"
  by (simp add: cstr_of_def length_takeWhile_le)

definition datagram_ok :: "char list \<Rightarrow> bool" where
  "datagram_ok bs \<longleftrightarrow> bs \<noteq> [] \<and> length bs < BUFLEN"

lemma p_thread_udp_stores:
  "\<forall>bs \<in> set bss. datagram_ok bs \<Longrightarrow>
   p_thread_udp (map Datagram bss) q = rbind (rfold queue_store (map cstr_of bss) q) (\<lambda>q. Inr (q, True))"
proof (induction bss arbitrary: q)
  case (Cons bs bss)
  then have "udp_turn (Datagram bs) q = rbind (queue_store (cstr_of bs) q) (\<lambda>q. Inr (q, True))"
    using BUFLEN_pos by (simp add: udp_turn_def datagram_ok_def cstr_of_udp_buffer)
  with Cons show ?case by (cases "queue_store (cstr_of bs) q") auto
qed simp

text \<open>The packets one after the other, without the ring.\<close>

fun process_packets :: "(nat \<Rightarrow> int) \<Rightarrow> cstring list \<Rightarrow> daemon \<Rightarrow> daemon res" where
  "process_packets clk [] d = Inr d"
| "process_packets clk (p # ps) d = rbind (process_packet (clk (length (p # ps))) p d) (process_packets clk ps)"

lemma queue_pass_packets:
  assumes "ring_rep q ps"
  shows "\<exists>q'. queue_pass (Suc (length ps)) clk q d =
      rbind (process_packets clk ps d) (\<lambda>d'. Inr (q', d')) \<and> ring_rep q' []"
  using assms
proof (induction ps arbitrary: q d)
  case Nil
  then show ?case by (auto simp: ring_rep_pop_empty)
next
  case (Cons p ps)
  obtain q1 where q1: "queue_pop_first q = Inr (Some p, q1)" "ring_rep q1 ps"
    using ring_rep_pop [OF Cons.prems] by blast
  show ?case
  proof (cases "process_packet (clk (length (p # ps))) p d")
    case (Inl e)
    with q1(1) show ?thesis using ring_rep_init by auto
  next
    case (Inr d1)
    with Cons.IH [OF q1(2), of d1] q1(1) show ?thesis by auto
  qed
qed



text \<open>
  An empty datagram ends the UDP thread: what arrives after it is never stored.
\<close>

theorem empty_datagram_stops_listener:
  "p_thread_udp (is @ Datagram [] # is') q = rbind (p_thread_udp is q) (\<lambda>(q, go). Inr (q, False))"
proof (induction "is" arbitrary: q)
  case (Cons i "is")
  then show ?case by (cases "udp_turn i q") auto
qed (simp add: udp_turn_def)

end
