(* ===== verification/Client.thy ===== *)
theory Client
  imports Threads
begin

text \<open>
  The command-line client (\<^verbatim>\<open>statsd_client.c\<close>): the options, the message and the
  datagrams it hands to \<^verbatim>\<open>sendto\<close>, with their destination; what
  \<^verbatim>\<open>sendto\<close> returns is a parameter (\<open>sent\<close>), the resolver and the clock of
  the performance test are not modelled. The address is put in a block of the size of a pointer,
  and \<^verbatim>\<open>sendto\<close> reads a whole \<^verbatim>\<open>struct sockaddr_in\<close> of it, so
  every send faults. The properties say so, and what the daemon makes of the message.
\<close>

record client =
  cl_host :: cstring
  cl_port :: int
  cl_counter :: "cstring option"
  cl_timer :: "cstring option"
  cl_value :: "int option"       \<comment> \<open>\<^verbatim>\<open>long value\<close> is not initialised\<close>
  cl_sample_rate :: int
  cl_performance_test :: bool
  cl_iterations :: int

definition client_init :: client where
  "client_init = \<lparr>cl_host = ''127.0.0.1'', cl_port = 8125, cl_counter = None, cl_timer = None, cl_value = None,
     cl_sample_rate = 1, cl_performance_test = False, cl_iterations = 10000\<rparr>"

text \<open>One turn of the \<^verbatim>\<open>getopt\<close> loop; None is the usage and the exit. An unknown
  option is ignored.\<close>

definition client_option :: "char \<Rightarrow> cstring \<Rightarrow> client \<Rightarrow> client option" where
  "client_option opt optarg c =
     (if opt = CHR ''h'' then None
      else if opt = CHR ''c'' then Some (c\<lparr>cl_counter := Some optarg\<rparr>)
      else if opt = CHR ''t'' then Some (c\<lparr>cl_timer := Some optarg\<rparr>)
      else if opt = CHR ''p'' then Some (c\<lparr>cl_port := atoi optarg\<rparr>)
      else if opt = CHR ''s'' then Some (c\<lparr>cl_sample_rate := atoi optarg\<rparr>)
      else if opt = CHR ''H'' then Some (c\<lparr>cl_host := optarg\<rparr>)
      else if opt = CHR ''v'' then Some (c\<lparr>cl_value := Some (atol optarg)\<rparr>)
      else if opt = CHR ''P'' then Some (c\<lparr>cl_performance_test := True\<rparr>)
      else if opt = CHR ''i'' then Some (c\<lparr>cl_iterations := atoi optarg\<rparr>)
      else Some c)"

fun client_options :: "(char \<times> cstring) list \<Rightarrow> client \<Rightarrow> client option" where
  "client_options [] c = Some c"
| "client_options ((opt, optarg) # opts) c = (case client_option opt optarg c of
       None \<Rightarrow> None
     | Some c' \<Rightarrow> client_options opts c')"

text \<open>The message, in \<^verbatim>\<open>char buf[1024]\<close>.\<close>

definition client_message :: "client \<Rightarrow> cstring res" where
  "client_message c = (case cl_value c of
       None \<Rightarrow> Inl Uninitialised
     | Some v \<Rightarrow> (case (cl_timer c, cl_counter c) of
           (Some t, _) \<Rightarrow> strcpy_buf 1024 (t @ '':'' @ dec_of_int v @ ''||'' @ dec_of_int (cl_sample_rate c))
         | (None, Some k) \<Rightarrow> strcpy_buf 1024 (k @ '':'' @ dec_of_int v @ ''|c'')
         | (None, None) \<Rightarrow> Inr []))"

text \<open>The sizes of the block that is allocated for the address and of the address, on a 64-bit
  machine.\<close>

definition SIZEOF_POINTER :: nat where "SIZEOF_POINTER = 8"
definition SIZEOF_SOCKADDR_IN :: nat where "SIZEOF_SOCKADDR_IN = 16"

definition client_sendto :: "(cstring \<Rightarrow> int) \<Rightarrow> cstring \<Rightarrow> int res" where
  "client_sendto sent buf =
     (if SIZEOF_SOCKADDR_IN \<le> SIZEOF_POINTER then Inr (sent buf) else Inl Out_Of_Bounds)"

definition client_main :: "(cstring \<Rightarrow> int) \<Rightarrow> (char \<times> cstring) list \<Rightarrow> ((cstring \<times> int \<times> cstring) list \<times> int) res" where
  "client_main sent opts = (case client_options opts client_init of
       None \<Rightarrow> Inr ([], 1)
     | Some c \<Rightarrow>
         if (cl_timer c \<noteq> None \<and> cl_counter c \<noteq> None) \<or> (cl_counter c = None \<and> cl_timer c = None)
         then Inr ([], 1)
         else rbind (client_message c) (\<lambda>buf.
           if cl_performance_test c
           then rbind (rfold (\<lambda>iter out. rbind (client_sendto sent buf) (\<lambda>r.
                    Inr (out @ [(cl_host c, cl_port c, buf)]))) [0..<nat (cl_iterations c)] []) (\<lambda>out.
                Inr (out, 0))
           else rbind (client_sendto sent buf) (\<lambda>r.
                Inr ([(cl_host c, cl_port c, buf)], if r = 0 then 1 else 0))))"

text \<open>Only a performance test of no iterations gets by without a send.\<close>

lemma client_main_send:
  assumes "client_options opts client_init = Some c" and "(cl_timer c = None) \<noteq> (cl_counter c = None)"
    and "client_message c = Inr buf" and "cl_performance_test c \<Longrightarrow> 0 < cl_iterations c"
  shows "client_main sent opts = Inl Out_Of_Bounds"
proof -
  have "client_sendto sent buf = Inl Out_Of_Bounds"
    by (simp add: client_sendto_def SIZEOF_SOCKADDR_IN_def SIZEOF_POINTER_def)
  with assms show ?thesis
    by (cases "nat (cl_iterations c)") (auto simp: client_main_def upt_rec)
qed

subsection \<open>A message of the client at the daemon\<close>

lemma key_first:
  assumes "name_ok key"
  shows "take 1 (key @ s) \<noteq> ''{''" "take 1 (key @ s) \<noteq> ''[''"
proof -
  have "\<not> key_char (CHR ''{'')" "\<not> key_char (CHR ''['')" by code_simp+
  with assms show "take 1 (key @ s) \<noteq> ''{''" "take 1 (key @ s) \<noteq> ''[''"
    by (cases key; auto simp: name_ok_def)+
qed

text \<open>A value with a second field that is neither \<open>ms\<close> nor \<open>g\<close> counts.\<close>

lemma value_update_other_type:
  assumes "ty \<noteq> []" and "CHR ''|'' \<notin> set ty" and "take 2 ty \<noteq> ''ms''" and "ty \<noteq> ''g''"
    and "seps \<noteq> []" and "set seps = {CHR ''|''}"
  shows "value_update key (dec_of_int n @ seps @ ty) d = value_update key (dec_of_int n @ ''|c'') d"
proof -
  obtain r where r: "seps = CHR ''|'' # r" "set r \<subseteq> {CHR ''|''}"
    using assms(5,6) by (cases seps) auto
  have "strtok_r (CHR ''|'') (r @ ty) = strtok_r (CHR ''|'') ty" using r(2) by (induction r) auto
  then have "strtok_all (CHR ''|'') (r @ ty) = [ty]"
    using assms(1,2) by (simp add: strtok_all_Some strtok_r_all)
  then have "strtok_all (CHR ''|'') (dec_of_int n @ seps @ ty) = [dec_of_int n, ty]"
    using r(1) dec_of_int_fields [of n] by (simp add: strtok_all_append)
  moreover have "strtok_all (CHR ''|'') (dec_of_int n @ ''|c'') = [dec_of_int n, ''c'']"
    using value_update_single(1) [of "dec_of_int n" "''c''"] dec_of_int_fields [of n] by simp
  ultimately show ?thesis using assms(3,4) by (simp add: value_update_def)
qed

lemma client_packet:
  assumes "daemon_wf d" and "is_long t" and "name_ok key" and "\<bar>n\<bar> \<le> 2 ^ 53"
    and "ty \<noteq> []" "CHR ''|'' \<notin> set ty" "CHR '':'' \<notin> set ty" "take 2 ty \<noteq> ''ms''" "ty \<noteq> ''g''"
    and "seps \<noteq> []" "set seps = {CHR ''|''}"
    and "length (key @ CHR '':'' # dec_of_int n @ seps @ ty) < BUFLEN"
  shows "\<exists>d'. process_packet t (key @ CHR '':'' # dec_of_int n @ seps @ ty) d = Inr d' \<and> daemon_wf d'
    \<and> counter_of d' = (counter_of d)(key \<mapsto> (case counter_of d key of
        None \<Rightarrow> fp_int n | Some c \<Rightarrow> fp_add x87ext c (fp_int n)))
    \<and> gauge_of d' = gauge_of d \<and> timer_of d' = timer_of d"
proof -
  obtain d1 where d1: "value_update key (dec_of_int n @ seps @ ty) d = Inr d1"
    "counter_of d1 = (counter_of d)(key \<mapsto> (case counter_of d key of
        None \<Rightarrow> fp_int n | Some c \<Rightarrow> fp_add x87ext c (fp_int n)))" "gauge_of d1 = gauge_of d" "timer_of d1 = timer_of d"
    using value_update_counter [OF assms(1,3,4)] value_update_other_type [OF assms(5,6,8-11)] by auto
  have "token_ok (dec_of_int n @ seps @ ty)"
    using assms(5,6,11) by (cases ty) (auto simp: token_ok_def)
  moreover have "CHR '':'' \<notin> set (dec_of_int n @ seps @ ty)"
    using assms(7,11) dec_of_int_fields(2) [of n] by auto
  ultimately obtain d' where "process_stats_packet t (key @ CHR '':'' # dec_of_int n @ seps @ ty) d = Inr d'"
    "daemon_wf d'" "counter_of d' = counter_of d1" "gauge_of d' = gauge_of d1" "timer_of d' = timer_of d1"
    using packet_value [OF assms(1-3) _ _ d1(1)] by blast
  with d1(2-4) assms(12) key_first [OF assms(3)] show ?thesis
    by (intro exI [of _ d']) (simp add: process_packet_def)
qed

lemma int32_digits: "length (dec_of_int (to_int32 k)) \<le> 11"
proof -
  have "0 \<le> k mod 4294967296" "k mod 4294967296 < 4294967296" by simp_all
  then have "\<bar>to_int32 k\<bar> < 10 ^ 10" by (auto simp: to_int32_def Let_def)
  from length_dec_of_int [OF this] show ?thesis by simp
qed

text \<open>The message of a line of options, and where it is to go.\<close>

definition client_sends :: "(char \<times> cstring) list \<Rightarrow> cstring \<Rightarrow> bool" where
  "client_sends opts msg \<longleftrightarrow> (\<exists>c. client_options opts client_init = Some c \<and> client_message c = Inr msg
     \<and> cl_host c = ''127.0.0.1'' \<and> cl_port c = 8125)"

text \<open>
  C22: the counter of the client: \<open>-c key -v n\<close> (a key of 1 to 99 of the characters a key may
  have, and \<open>n\<close> of at most \<open>2 ^ 53\<close> in magnitude) makes a message that a daemon with
  well-formed tables takes as \<open>n\<close> to add to the counter, and as no change of a gauge or a timer.
  But the client never gets past sending it to the default host and port: it has put the address in
  a block of eight bytes, and \<^verbatim>\<open>sendto\<close> is told to read sixteen.
\<close>

theorem client_counter_sends:
  assumes "daemon_wf d" and "is_long t" and "name_ok key" and "\<bar>n\<bar> \<le> 2 ^ 53"
  shows "\<exists>msg d'. client_sends [(CHR ''c'', key), (CHR ''v'', dec_of_int n)] msg
    \<and> client_main sent [(CHR ''c'', key), (CHR ''v'', dec_of_int n)] = Inl Out_Of_Bounds
    \<and> process_packet t msg d = Inr d' \<and> daemon_wf d'
    \<and> counter_of d' = (counter_of d)(key \<mapsto> (case counter_of d key of
        None \<Rightarrow> fp_int n | Some c \<Rightarrow> fp_add x87ext c (fp_int n)))
    \<and> gauge_of d' = gauge_of d \<and> timer_of d' = timer_of d"
proof -
  let ?msg = "key @ CHR '':'' # dec_of_int n @ ''|'' @ ''c''"
  let ?c = "client_init\<lparr>cl_counter := Some key, cl_value := Some n\<rparr>"
  have "is_long n" using assms(4) by (auto simp: is_long_def LONG_MIN_def LONG_MAX_def)
  then have n: "atol (dec_of_int n) = n" by (rule atol_dec_of_int)
  have len: "length ?msg < 1024" "length ?msg < BUFLEN"
    using length_dec_of_int [of n 18] assms(3,4) by (auto simp: name_ok_def KEY_SIZE_def BUFLEN_def)
  have c: "client_options [(CHR ''c'', key), (CHR ''v'', dec_of_int n)] client_init = Some ?c"
    "client_message ?c = Inr ?msg"
    using len(1) by (simp_all add: client_init_def client_option_def client_message_def n)
  moreover have "client_main sent [(CHR ''c'', key), (CHR ''v'', dec_of_int n)] = Inl Out_Of_Bounds"
    by (rule client_main_send [OF c(1) _ c(2)]) (simp_all add: client_init_def)
  moreover obtain d' where "process_packet t ?msg d = Inr d'" "daemon_wf d'"
    "counter_of d' = (counter_of d)(key \<mapsto> (case counter_of d key of
        None \<Rightarrow> fp_int n | Some c \<Rightarrow> fp_add x87ext c (fp_int n)))" "gauge_of d' = gauge_of d" "timer_of d' = timer_of d"
    using client_packet [OF assms, of "''c''" "''|''"] len(2) by auto
  ultimately show ?thesis
    by (intro exI [of _ ?msg] exI [of _ d']) (simp add: client_sends_def client_init_def)
qed

lemma client_counter_sends_witness:
  "\<exists>msg d'. client_sends [(CHR ''c'', ''a''), (CHR ''v'', dec_of_int 7)] msg
    \<and> client_main (\<lambda>_. 7) [(CHR ''c'', ''a''), (CHR ''v'', dec_of_int 7)] = Inl Out_Of_Bounds
    \<and> process_packet 5 msg daemon_init = Inr d' \<and> daemon_wf d'
    \<and> counter_of d' = (counter_of daemon_init)(''a'' \<mapsto> (case counter_of daemon_init ''a'' of
        None \<Rightarrow> fp_int 7 | Some c \<Rightarrow> fp_add x87ext c (fp_int 7)))
    \<and> gauge_of d' = gauge_of daemon_init \<and> timer_of d' = timer_of daemon_init"
  by (rule client_counter_sends [OF daemon_wf_init small_keys(3,1), of 7 "\<lambda>_. 7"]) simp

text \<open>
  A timer of the client would never reach a timer of the daemon: its message has two pipes
  where the type should stand, which \<^verbatim>\<open>strtok_r\<close> takes for one, and the sample rate
  in the place of the type is neither \<open>ms\<close> nor \<open>g\<close>, so that the message of
  \<open>-t key -v n\<close> adds \<open>n\<close> to the counter of that name, whatever the sample rate.
\<close>

theorem client_timer_counted:
  assumes "daemon_wf d" and "is_long t" and "name_ok key" and "\<bar>n\<bar> \<le> 2 ^ 53"
  shows "\<exists>msg d'. client_sends [(CHR ''t'', key), (CHR ''v'', dec_of_int n), (CHR ''s'', rate)] msg
    \<and> process_packet t msg d = Inr d'
    \<and> counter_of d' = (counter_of d)(key \<mapsto> (case counter_of d key of
        None \<Rightarrow> fp_int n | Some c \<Rightarrow> fp_add x87ext c (fp_int n)))
    \<and> timer_of d' = timer_of d"
proof -
  let ?r = "dec_of_int (atoi rate)"
  let ?msg = "key @ CHR '':'' # dec_of_int n @ ''||'' @ ?r"
  have "is_long n" using assms(4) by (auto simp: is_long_def LONG_MIN_def LONG_MAX_def)
  then have n: "atol (dec_of_int n) = n" by (rule atol_dec_of_int)
  have "length ?r \<le> 11" by (simp add: atoi_def int32_digits)
  then have len: "length ?msg < 1024" "length ?msg < BUFLEN"
    using length_dec_of_int [of n 18] assms(3,4) by (auto simp: name_ok_def KEY_SIZE_def BUFLEN_def)
  have "client_sends [(CHR ''t'', key), (CHR ''v'', dec_of_int n), (CHR ''s'', rate)] ?msg"
    using len(1) by (simp add: client_sends_def client_init_def client_option_def client_message_def n)
  moreover have "take 2 ?r \<noteq> ''ms'' \<and> ?r \<noteq> ''g''"
  proof -
    have "\<not> value_char (CHR ''m'')" "\<not> value_char (CHR ''g'')" by code_simp+
    then have "CHR ''m'' \<notin> set ?r" "CHR ''g'' \<notin> set ?r" by (blast dest: value_char_dec_of_int)+
    then show ?thesis by (cases ?r) auto
  qed
  then obtain d' where "process_packet t ?msg d = Inr d'"
    "counter_of d' = (counter_of d)(key \<mapsto> (case counter_of d key of
        None \<Rightarrow> fp_int n | Some c \<Rightarrow> fp_add x87ext c (fp_int n)))" "timer_of d' = timer_of d"
    using client_packet [OF assms, of ?r "''||''"] len(2) dec_of_int_fields [of "atoi rate"] by auto
  ultimately show ?thesis by blast
qed

lemma client_timer_counted_witness:
  "\<exists>msg d'. client_sends [(CHR ''t'', ''a''), (CHR ''v'', dec_of_int 320), (CHR ''s'', ''1'')] msg
    \<and> process_packet 5 msg daemon_init = Inr d'
    \<and> counter_of d' = (counter_of daemon_init)(''a'' \<mapsto> (case counter_of daemon_init ''a'' of
        None \<Rightarrow> fp_int 320 | Some c \<Rightarrow> fp_add x87ext c (fp_int 320)))
    \<and> timer_of d' = timer_of daemon_init"
  by (rule client_timer_counted [OF daemon_wf_init small_keys(3,1), of 320]) simp

end
