(* ===== verification/Serialize.thy ===== *)
theory Serialize
  imports Stats JsonRoundtrip
begin

text \<open>
  Saving and restoring the tables (\<^verbatim>\<open>serialize.c\<close>) and
  \<^verbatim>\<open>init_stats\<close> of \<^verbatim>\<open>statsd.c\<close>, which restores them at the
  start. A file is what reading it gives. \<^verbatim>\<open>statsd_serialize\<close> asks for
  \<^verbatim>\<open>sizeof\<close> of the length of a name, which is the size of a
  \<^verbatim>\<open>size_t\<close>, and then writes the whole name into the block.
\<close>

subsection \<open>\<^verbatim>\<open>statsd_serialize\<close>\<close>

text \<open>\<^verbatim>\<open>group_name\<close> is an array, so it is never the null pointer and the name is
  always \<open>group.key\<close>; the value becomes an \<^verbatim>\<open>int\<close>. The block has the
  eight bytes of a \<^verbatim>\<open>size_t\<close> on a 64-bit machine.\<close>

definition SIZEOF_SIZE_T :: nat where "SIZEOF_SIZE_T = 8"

definition serialize_stat :: "statsd_stat_t \<Rightarrow> json \<Rightarrow> json res" where
  "serialize_stat s obj_stats =
     rbind (strcpy_buf SIZEOF_SIZE_T (group_name (sname s) @ ''.'' @ key_name (sname s))) (\<lambda>tmpkey.
     json_object_object_add obj_stats tmpkey (JInt (to_int32 (svalue s))))"

definition serialize_stats :: "daemon \<Rightarrow> (json \<times> daemon) res" where
  "serialize_stats d =
     rbind (wait_for_stats_lock d) (\<lambda>d.
     rbind (rfold (serialize_stat) (stats d) (JObject [])) (\<lambda>obj_stats.
     Inr (obj_stats, remove_stats_lock d)))"

definition serialize_timer :: "statsd_timer_t \<Rightarrow> json \<Rightarrow> json res" where
  "serialize_timer s obj_timers =
     rbind (rfold (\<lambda>v array. json_object_array_add array (JDouble v)) (tvalues s) (JArray [])) (\<lambda>array.
     json_object_object_add obj_timers (tkey s) array)"

definition serialize_timers :: "daemon \<Rightarrow> (json \<times> daemon) res" where
  "serialize_timers d =
     rbind (wait_for_timers_lock d) (\<lambda>d.
     rbind (rfold serialize_timer (timers d) (JObject [])) (\<lambda>obj_timers.
     Inr (obj_timers, remove_timers_lock d)))"

definition serialize_counters :: "daemon \<Rightarrow> (json \<times> daemon) res" where
  "serialize_counters d =
     rbind (wait_for_counters_lock d) (\<lambda>d.
     rbind (rfold (\<lambda>s obj. json_object_object_add obj (ckey s) (JDouble (fp_conv binary64 (cvalue s))))
              (counters d) (JObject [])) (\<lambda>obj_counters.
     Inr (obj_counters, remove_counters_lock d)))"

definition serialize_gauges :: "daemon \<Rightarrow> (json \<times> daemon) res" where
  "serialize_gauges d =
     rbind (wait_for_gauges_lock d) (\<lambda>d.
     rbind (rfold (\<lambda>g obj. json_object_object_add obj (gkey g) (JDouble (fp_conv binary64 (gvalue g))))
              (gauges d) (JObject [])) (\<lambda>obj_gauges.
     Inr (obj_gauges, remove_gauges_lock d)))"

text \<open>What is written to the file, when it can be opened, and the state.\<close>

definition statsd_serialize :: "bool \<Rightarrow> daemon \<Rightarrow> (cstring option \<times> daemon) res" where
  "statsd_serialize can_open d =
     rbind (serialize_stats d) (\<lambda>(obj_stats, d).
     rbind (serialize_timers d) (\<lambda>(obj_timers, d).
     rbind (serialize_counters d) (\<lambda>(obj_counters, d).
     rbind (serialize_gauges d) (\<lambda>(obj_gauges, d).
     rbind (json_object_object_add (JObject []) ''stats'' obj_stats) (\<lambda>obj.
     rbind (json_object_object_add obj ''timers'' obj_timers) (\<lambda>obj.
     rbind (json_object_object_add obj ''gauges'' obj_gauges) (\<lambda>obj.
     rbind (json_object_object_add obj ''counters'' obj_counters) (\<lambda>obj.
     if can_open then Inr (Some (json_object_to_json_string obj), d) else Inr (None, d)))))))))"

subsection \<open>\<^verbatim>\<open>statsd_deserialize\<close>\<close>

datatype stats_file = No_File | Read_Error "char list" | Contents "char list"

text \<open>The bytes of the file, when it opens.\<close>

fun opened :: "stats_file \<Rightarrow> char list option" where
  "opened No_File = None"
| "opened (Read_Error bs) = Some bs"
| "opened (Contents bs) = Some bs"

text \<open>\<^verbatim>\<open>strncpy(dst, s, n)\<close> into an array of \<open>room\<close> zero bytes writes \<open>n\<close>
  bytes, with zeros after a shorter string. A copy that fills the array without a terminator is
  counted as a fault here, though the code faults only when it reads the name.\<close>

definition strncpy_buf :: "nat \<Rightarrow> cstring \<Rightarrow> nat \<Rightarrow> cstring res" where
  "strncpy_buf room s n =
     (if room < n \<or> (room \<le> n \<and> room \<le> length s) then Inl Buffer_Overflow else Inr (take n s))"

text \<open>\<^verbatim>\<open>strchr(key, '.')\<close>: the position of the first dot.\<close>

definition period_of :: "cstring \<Rightarrow> nat option" where
  "period_of key = (if CHR ''.'' \<in> set key then Some (length (takeWhile (\<lambda>c. c \<noteq> CHR ''.'') key)) else None)"

definition deserialize_stat_name :: "cstring \<Rightarrow> statsd_stat_name_t res" where
  "deserialize_stat_name key = (case period_of key of
       None \<Rightarrow> rbind (strcpy_buf KEY_SIZE key) (\<lambda>k. Inr \<lparr>group_name = [], key_name = k\<rparr>)
     | Some period_pos \<Rightarrow>
         rbind (strncpy_buf KEY_SIZE key period_pos) (\<lambda>g.
         rbind (strncpy_buf KEY_SIZE (drop (period_pos + 1) key) (length key - period_pos + 1)) (\<lambda>k.
         Inr \<lparr>group_name = g, key_name = k\<rparr>)))"

definition deserialize_stat :: "cstring \<times> json \<Rightarrow> daemon \<Rightarrow> daemon res" where
  "deserialize_stat = (\<lambda>(key, val) d.
     rbind (deserialize_stat_name key) (\<lambda>name.
     let s = \<lparr>sname = name, svalue = json_object_get_int val, slocked = False\<rparr>
     in rbind (wait_for_stats_lock d) (\<lambda>d.
        Inr (remove_stats_lock (d\<lparr>stats := hash_add s (stats d)\<rparr>)))))"

definition deserialize_timer :: "cstring \<times> json \<Rightarrow> daemon \<Rightarrow> daemon res" where
  "deserialize_timer = (\<lambda>(key, val) d.
     rbind (strcpy_buf KEY_SIZE key) (\<lambda>k.
     rbind (json_object_array_length val) (\<lambda>count.
     rbind (rfold (\<lambda>i vs. rbind (json_object_array_get_idx val i) (\<lambda>v.
              Inr (vs @ [json_object_get_double v]))) [0..<count] []) (\<lambda>vs.
     rbind (wait_for_timers_lock d) (\<lambda>d.
     Inr (remove_timers_lock (d\<lparr>timers := hash_add \<lparr>tkey = k, tcount = int count, tvalues = vs\<rparr>
                                           (timers d)\<rparr>)))))))"

definition deserialize_gauge :: "cstring \<times> json \<Rightarrow> daemon \<Rightarrow> daemon res" where
  "deserialize_gauge = (\<lambda>(key, val) d.
     rbind (strcpy_buf KEY_SIZE key) (\<lambda>k.
     rbind (wait_for_gauges_lock d) (\<lambda>d.
     Inr (remove_gauges_lock (d\<lparr>gauges := hash_add \<lparr>gkey = k, gvalue = json_object_get_double val\<rparr>
                                           (gauges d)\<rparr>)))))"

definition deserialize_counter :: "cstring \<times> json \<Rightarrow> daemon \<Rightarrow> daemon res" where
  "deserialize_counter = (\<lambda>(key, val) d.
     rbind (strcpy_buf KEY_SIZE key) (\<lambda>k.
     rbind (wait_for_counters_lock d) (\<lambda>d.
     Inr (remove_counters_lock (d\<lparr>counters := hash_add \<lparr>ckey = k, cvalue = json_object_get_double val\<rparr>
                                               (counters d)\<rparr>)))))"

definition deserialize_section :: "json \<Rightarrow> cstring \<Rightarrow> (cstring \<times> json \<Rightarrow> daemon \<Rightarrow> daemon res) \<Rightarrow> daemon \<Rightarrow> daemon res" where
  "deserialize_section obj name f d =
     rbind (json_object_object_get obj name) (\<lambda>sec.
     rbind (json_object_object_foreach sec) (\<lambda>kvs. rfold f kvs d))"

definition deserialize_text :: "char list \<Rightarrow> daemon \<Rightarrow> daemon res" where
  "deserialize_text data d =
     rbind (json_tokener_parse data) (\<lambda>r. case r of
         Inl e \<Rightarrow> Inl Wild_Deref
       | Inr obj \<Rightarrow>
           rbind (deserialize_section obj ''stats'' deserialize_stat d) (\<lambda>d.
           rbind (deserialize_section obj ''timers'' deserialize_timer d) (\<lambda>d.
           rbind (deserialize_section obj ''gauges'' deserialize_gauge d) (\<lambda>d.
           deserialize_section obj ''counters'' deserialize_counter d))))"

text \<open>The size is an \<^verbatim>\<open>int\<close>: the result of \<^verbatim>\<open>ftell\<close> is
  cut to 32 bits, and adding 20 to it overflows near the end of the range.\<close>

definition statsd_deserialize :: "stats_file \<Rightarrow> daemon \<Rightarrow> (bool \<times> daemon) res" where
  "statsd_deserialize f d = (case opened f of
       None \<Rightarrow> Inr (False, d)
     | Some bs \<Rightarrow>
         let filesize = to_int32 (int (length bs))
         in if filesize < 10 then Inr (False, d)
            else if INT_MAX < filesize + 20 then Inl Signed_Overflow
            else case f of
                Contents data \<Rightarrow>
                  rbind (deserialize_text (take (nat filesize) data @ replicate 20 (CHR 0x00)) d) (\<lambda>d.
                  Inr (True, d))
              | _ \<Rightarrow> Inr (False, d))"

subsection \<open>\<^verbatim>\<open>init_stats\<close>\<close>

text \<open>\<open>sfile\<close> is the file named by \<^verbatim>\<open>serialize_file\<close>, if one is;
  \<open>t\<close> is what \<^verbatim>\<open>time(NULL)\<close> returns.\<close>

definition init_stats :: "int \<Rightarrow> stats_file option \<Rightarrow> bool \<Rightarrow> daemon \<Rightarrow> daemon res" where
  "init_stats t sfile clear_stats d =
     rbind (strcpy_buf 12 (dec_of_int t)) (\<lambda>startup_time.
     rbind (case sfile of
              Some f \<Rightarrow> if \<not> clear_stats then rbind (statsd_deserialize f d) (\<lambda>(r, d). Inr d) else Inr d
            | None \<Rightarrow> Inr d) (\<lambda>d.
     let d = remove_stats_lock d
     in rbind (update_stat ''graphite'' ''last_flush'' startup_time d) (\<lambda>d.
        rbind (update_stat ''messages'' ''last_msg_seen'' startup_time d) (\<lambda>d.
        update_stat ''messages'' ''bad_lines_seen'' ''0'' d))))"

subsection \<open>What is saved\<close>

lemma rfold_object_add:
  assumes "\<And>e obj. e \<in> set es \<Longrightarrow> f e obj = json_object_object_add obj (key e) (val e)"
    and "distinct (map fst kvs @ map key es)"
  shows "rfold f es (JObject kvs) = Inr (JObject (kvs @ map (\<lambda>e. (key e, val e)) es))"
  using assms
proof (induction es arbitrary: kvs)
  case (Cons e es)
  then have "key e \<notin> fst ` set kvs" by auto
  then have "f e (JObject kvs) = Inr (JObject (kvs @ [(key e, val e)]))"
    using Cons.prems(1) by (simp add: json_object_object_add_def members_delete_fresh)
  with Cons.IH [of "kvs @ [(key e, val e)]"] Cons.prems show ?case by simp
qed simp

lemma rfold_array_add:
  "rfold (\<lambda>v array. json_object_array_add array (g v)) xs (JArray vs) = Inr (JArray (vs @ map g xs))"
  by (induction xs arbitrary: vs) (simp_all add: json_object_array_add_def)

text \<open>A name is written as \<open>group.key\<close>.\<close>

definition stat_label :: "statsd_stat_t \<Rightarrow> cstring" where
  "stat_label s = group_name (sname s) @ ''.'' @ key_name (sname s)"

definition stat_saves :: "statsd_stat_t \<Rightarrow> bool" where
  "stat_saves s \<longleftrightarrow> is_int32 (svalue s) \<and> \<not> slocked s \<and> CHR ''.'' \<notin> set (group_name (sname s))
     \<and> is_cstring (group_name (sname s)) \<and> is_cstring (key_name (sname s))
     \<and> length (group_name (sname s)) < KEY_SIZE \<and> length (key_name (sname s)) + 2 \<le> KEY_SIZE"

definition timer_saves :: "statsd_timer_t \<Rightarrow> bool" where
  "timer_saves t \<longleftrightarrow> key_ok (tkey t) \<and> tcount t = int (length (tvalues t))
     \<and> (\<forall>v \<in> set (tvalues t). printable (JDouble v))"

definition number_saves :: "cstring \<Rightarrow> fp \<Rightarrow> bool" where
  "number_saves k v \<longleftrightarrow> key_ok k \<and> fp_ok binary64 v \<and> printable (JDouble v)"

definition saves :: "daemon \<Rightarrow> bool" where
  "saves d \<longleftrightarrow> hash_wf sname (stats d) \<and> hash_wf tkey (timers d) \<and> hash_wf gkey (gauges d)
     \<and> hash_wf ckey (counters d) \<and> locks_ok d
     \<and> (\<forall>s \<in> set (stats d). stat_saves s) \<and> (\<forall>t \<in> set (timers d). timer_saves t)
     \<and> (\<forall>g \<in> set (gauges d). number_saves (gkey g) (gvalue g))
     \<and> (\<forall>c \<in> set (counters d). number_saves (ckey c) (cvalue c))"

text \<open>The labels that fit the block.\<close>

definition labels_fit :: "daemon \<Rightarrow> bool" where
  "labels_fit d \<longleftrightarrow> (\<forall>s \<in> set (stats d). length (stat_label s) < SIZEOF_SIZE_T)"

definition stat_member :: "statsd_stat_t \<Rightarrow> cstring \<times> json" where
  "stat_member s = (stat_label s, JInt (svalue s))"

definition timer_member :: "statsd_timer_t \<Rightarrow> cstring \<times> json" where
  "timer_member t = (tkey t, JArray (map JDouble (tvalues t)))"

definition gauge_member :: "statsd_gauge_t \<Rightarrow> cstring \<times> json" where
  "gauge_member g = (gkey g, JDouble (gvalue g))"

definition counter_member :: "statsd_counter_t \<Rightarrow> cstring \<times> json" where
  "counter_member c = (ckey c, JDouble (cvalue c))"

lemmas member_defs = stat_member_def timer_member_def gauge_member_def counter_member_def

definition saved :: "daemon \<Rightarrow> json" where
  "saved d = JObject [(''stats'', JObject (map stat_member (stats d))),
     (''timers'', JObject (map timer_member (timers d))),
     (''gauges'', JObject (map gauge_member (gauges d))),
     (''counters'', JObject (map counter_member (counters d)))]"

lemma stat_label_inj:
  assumes "stat_saves s" and "stat_saves s'" and "stat_label s = stat_label s'"
  shows "sname s = sname s'"
proof -
  have t: "takeWhile (\<lambda>c. c \<noteq> CHR ''.'') (stat_label s) = group_name (sname s)" if "stat_saves s" for s
    unfolding stat_label_def using that by (subst takeWhile_append2) (auto simp: stat_saves_def)
  have g: "group_name (sname s) = group_name (sname s')"
    using t [OF assms(1)] t [OF assms(2)] assms(3) by simp
  then have "key_name (sname s) = key_name (sname s')" using assms(3) by (simp add: stat_label_def)
  with g show ?thesis by (cases "sname s"; cases "sname s'") simp
qed

lemma distinct_labels:
  assumes "hash_wf sname ss" and "\<forall>s \<in> set ss. stat_saves s"
  shows "distinct (map stat_label ss)"
proof -
  have "inj_on stat_label (set ss)"
  proof (rule inj_onI)
    fix s s' assume s: "s \<in> set ss" "s' \<in> set ss" "stat_label s = stat_label s'"
    with assms(2) have "sname s = sname s'" by (blast intro: stat_label_inj)
    with assms(1) s(1,2) show "s = s'" by (auto simp: hash_wf_def distinct_map dest: inj_onD)
  qed
  with assms(1) show ?thesis by (auto simp: hash_wf_def distinct_map)
qed

lemma serialize_stat_ok:
  "stat_saves s \<Longrightarrow> length (stat_label s) < SIZEOF_SIZE_T \<Longrightarrow> serialize_stat s obj = json_object_object_add obj (stat_label s) (JInt (svalue s))"
  by (simp add: serialize_stat_def stat_saves_def stat_label_def is_int32_def to_int32_id)

lemma serialize_stats_eq:
  assumes "saves d" and "labels_fit d"
  shows "serialize_stats d = Inr (JObject (map stat_member (stats d)), d)"
proof -
  have "rfold (serialize_stat) (stats d) (JObject [])
      = Inr (JObject ([] @ map (\<lambda>s. (stat_label s, JInt (svalue s))) (stats d)))"
    using assms distinct_labels [of "stats d"]
    by (intro rfold_object_add) (simp_all add: saves_def labels_fit_def serialize_stat_ok)
  with assms show ?thesis
    by (cases "stats_lock d") (simp_all add: serialize_stats_def lock_defs saves_def locks_ok_def
        sem_wait_pos member_defs cong: map_cong)
qed

lemma serialize_timers_eq:
  assumes "saves d"
  shows "serialize_timers d = Inr (JObject (map timer_member (timers d)), d)"
proof -
  have "rfold serialize_timer (timers d) (JObject [])
      = Inr (JObject ([] @ map (\<lambda>t. (tkey t, JArray (map JDouble (tvalues t)))) (timers d)))"
    using assms
    by (intro rfold_object_add) (simp_all add: saves_def serialize_timer_def rfold_array_add hash_wf_def)
  with assms show ?thesis
    by (cases "timers_lock d") (simp_all add: serialize_timers_def lock_defs saves_def locks_ok_def
        sem_wait_pos member_defs cong: map_cong)
qed

lemma serialize_counters_eq:
  assumes "saves d"
  shows "serialize_counters d = Inr (JObject (map counter_member (counters d)), d)"
proof -
  have "rfold (\<lambda>s obj. json_object_object_add obj (ckey s) (JDouble (fp_conv binary64 (cvalue s))))
      (counters d) (JObject []) = Inr (JObject ([] @ map (\<lambda>c. (ckey c, JDouble (cvalue c))) (counters d)))"
    using assms
    by (intro rfold_object_add) (simp_all add: saves_def number_saves_def fp_conv_ok hash_wf_def)
  with assms show ?thesis
    by (cases "counters_lock d") (simp_all add: serialize_counters_def lock_defs saves_def locks_ok_def
        sem_wait_pos member_defs cong: map_cong)
qed

lemma serialize_gauges_eq:
  assumes "saves d"
  shows "serialize_gauges d = Inr (JObject (map gauge_member (gauges d)), d)"
proof -
  have "rfold (\<lambda>g obj. json_object_object_add obj (gkey g) (JDouble (fp_conv binary64 (gvalue g))))
      (gauges d) (JObject []) = Inr (JObject ([] @ map (\<lambda>g. (gkey g, JDouble (gvalue g))) (gauges d)))"
    using assms
    by (intro rfold_object_add) (simp_all add: saves_def number_saves_def fp_conv_ok hash_wf_def)
  with assms show ?thesis
    by (cases "gauges_lock d") (simp_all add: serialize_gauges_def lock_defs saves_def locks_ok_def
        sem_wait_pos member_defs cong: map_cong)
qed

lemma statsd_serialize_eq:
  assumes "saves d" and "labels_fit d"
  shows "statsd_serialize True d = Inr (Some (json_object_to_json_string (saved d)), d)"
  using assms
  by (simp add: statsd_serialize_def serialize_stats_eq serialize_timers_eq serialize_counters_eq
      serialize_gauges_eq json_object_object_add_def members_delete_def saved_def)

subsection \<open>What is restored\<close>

lemma deserialize_stat_name_label:
  assumes "stat_saves s"
  shows "deserialize_stat_name (stat_label s) = Inr (sname s)"
proof -
  let ?g = "group_name (sname s)" and ?k = "key_name (sname s)"
  from assms have l: "CHR ''.'' \<notin> set ?g" "length ?g < KEY_SIZE" "length ?k + 2 \<le> KEY_SIZE"
    by (simp_all add: stat_saves_def)
  have "takeWhile (\<lambda>c. c \<noteq> CHR ''.'') (?g @ ''.'' @ ?k) = ?g"
    using l(1) by (subst takeWhile_append2) auto
  then have "period_of (stat_label s) = Some (length ?g)"
    by (simp add: period_of_def stat_label_def)
  with l show ?thesis
    by (cases "sname s") (simp add: deserialize_stat_name_def strncpy_buf_def stat_label_def)
qed

lemma deserialize_stats_eq:
  assumes "\<forall>s \<in> set ss. stat_saves s" and "0 < stats_lock d"
  shows "rfold deserialize_stat (map stat_member ss) d = Inr (d\<lparr>stats := stats d @ ss\<rparr>)"
  using assms
proof (induction ss arbitrary: d)
  case (Cons s ss)
  then have "\<lparr>sname = sname s, svalue = svalue s, slocked = False\<rparr> = s"
    by (cases s) (simp add: stat_saves_def)
  moreover have "deserialize_stat_name (stat_label s) = Inr (sname s)"
    using Cons.prems(1) by (intro deserialize_stat_name_label) simp
  ultimately have "deserialize_stat (stat_member s) d = Inr (d\<lparr>stats := stats d @ [s]\<rparr>)"
    using Cons.prems(2)
    by (cases d) (simp add: deserialize_stat_def stat_member_def lock_defs sem_wait_pos hash_add_def Let_def)
  with Cons.IH [of "d\<lparr>stats := stats d @ [s]\<rparr>"] Cons.prems show ?case by simp
qed simp

lemma array_values:
  "n \<le> length vs \<Longrightarrow>
   rfold (\<lambda>i xs. rbind (json_object_array_get_idx (JArray (map JDouble vs)) i) (\<lambda>v.
     Inr (xs @ [json_object_get_double v]))) [0..<n] [] = Inr (take n vs)"
  by (induction n) (simp_all add: rfold_append json_object_array_get_idx_def take_Suc_conv_app_nth)

lemma deserialize_timers_eq:
  assumes "\<forall>t \<in> set ts. timer_saves t" and "0 < timers_lock d"
  shows "rfold deserialize_timer (map timer_member ts) d = Inr (d\<lparr>timers := timers d @ ts\<rparr>)"
  using assms
proof (induction ts arbitrary: d)
  case (Cons t ts)
  then have "deserialize_timer (timer_member t) d = Inr (d\<lparr>timers := timers d @ [t]\<rparr>)"
    by (cases d; cases t) (simp add: deserialize_timer_def timer_member_def timer_saves_def lock_defs key_ok_def
        json_object_array_length_def array_values sem_wait_pos hash_add_def Let_def)
  with Cons.IH [of "d\<lparr>timers := timers d @ [t]\<rparr>"] Cons.prems show ?case by simp
qed simp

lemma deserialize_gauges_eq:
  assumes "\<forall>g \<in> set gs. number_saves (gkey g) (gvalue g)" and "0 < gauges_lock d"
  shows "rfold deserialize_gauge (map gauge_member gs) d = Inr (d\<lparr>gauges := gauges d @ gs\<rparr>)"
  using assms
proof (induction gs arbitrary: d)
  case (Cons g gs)
  then have "deserialize_gauge (gauge_member g) d = Inr (d\<lparr>gauges := gauges d @ [g]\<rparr>)"
    by (cases d; cases g) (simp add: deserialize_gauge_def gauge_member_def number_saves_def lock_defs key_ok_def
        sem_wait_pos hash_add_def)
  with Cons.IH [of "d\<lparr>gauges := gauges d @ [g]\<rparr>"] Cons.prems show ?case by simp
qed simp

lemma deserialize_counters_eq:
  assumes "\<forall>c \<in> set cs. number_saves (ckey c) (cvalue c)" and "0 < counters_lock d"
  shows "rfold deserialize_counter (map counter_member cs) d = Inr (d\<lparr>counters := counters d @ cs\<rparr>)"
  using assms
proof (induction cs arbitrary: d)
  case (Cons c cs)
  then have "deserialize_counter (counter_member c) d = Inr (d\<lparr>counters := counters d @ [c]\<rparr>)"
    by (cases d; cases c) (simp add: deserialize_counter_def counter_member_def number_saves_def lock_defs key_ok_def
        sem_wait_pos hash_add_def)
  with Cons.IH [of "d\<lparr>counters := counters d @ [c]\<rparr>"] Cons.prems show ?case by simp
qed simp

lemma members_printable_map:
  "members_printable (map f xs) \<longleftrightarrow> (\<forall>x \<in> set xs. is_cstring (fst (f x)) \<and> printable (snd (f x)))"
proof (induction xs)
  case (Cons x xs)
  then show ?case by (cases "f x") auto
qed simp

lemma members_nest_map: "(\<And>x. x \<in> set xs \<Longrightarrow> nest (snd (f x)) \<le> n) \<Longrightarrow> members_nest (map f xs) \<le> Suc n"
proof (induction xs)
  case (Cons x xs)
  then have "members_nest (map f xs) \<le> Suc n" "nest (snd (f x)) \<le> n" by auto
  then show ?case by (cases "f x") simp
qed simp

lemma elements_doubles:
  "elements_printable (map JDouble vs) \<longleftrightarrow> (\<forall>v \<in> set vs. printable (JDouble v))"
  "elements_nest (map JDouble vs) \<le> Suc 0"
  by (induction vs) auto

lemma printable_saved:
  assumes "saves d"
  shows "printable (saved d)" "nest (saved d) < MAX_DEPTH"
proof -
  have "distinct (map stat_label (stats d))" using assms distinct_labels by (auto simp: saves_def)
  then have d: "distinct (map (fst \<circ> stat_member) (stats d))" "distinct (map (fst \<circ> timer_member) (timers d))"
    "distinct (map (fst \<circ> gauge_member) (gauges d))" "distinct (map (fst \<circ> counter_member) (counters d))"
    using assms by (simp_all add: saves_def hash_wf_def member_defs o_def)
  have p: "members_printable (map stat_member (stats d))" "members_printable (map timer_member (timers d))"
    "members_printable (map gauge_member (gauges d))" "members_printable (map counter_member (counters d))"
    using assms
    by (auto simp: saves_def members_printable_map member_defs stat_saves_def stat_label_def timer_saves_def
        number_saves_def key_ok_def elements_doubles simp del: printable.simps(3))
  show "printable (saved d)" using d p by (simp add: saved_def)
  have "members_nest (map stat_member (stats d)) \<le> Suc (Suc 0)"
    "members_nest (map timer_member (timers d)) \<le> Suc (Suc 0)"
    "members_nest (map gauge_member (gauges d)) \<le> Suc (Suc 0)"
    "members_nest (map counter_member (counters d)) \<le> Suc (Suc 0)"
    by (intro members_nest_map; simp add: member_defs elements_doubles)+
  then show "nest (saved d) < MAX_DEPTH" by (simp add: saved_def MAX_DEPTH_def)
qed

lemma length_saved_text: "10 \<le> length (json_text (saved d))"
  by (simp add: saved_def quoted_def escape_text_simps escape_of_def char_code_def)

lemma cstr_of_file:
  assumes "is_cstring s"
  shows "json_tokener_parse (s @ replicate 20 (CHR 0x00)) = json_tokener_parse s"
proof -
  have "cstr_of (s @ CHR 0x00 # r) = s" for r
    using assms unfolding cstr_of_def is_cstring_def by (subst takeWhile_append2) auto
  then have "cstr_of (s @ replicate 20 (CHR 0x00)) = cstr_of s"
    using assms by (simp add: numeral_eq_Suc)
  then show ?thesis by (simp add: json_tokener_parse_def json_tokener_parse_ex_def)
qed

lemma statsd_deserialize_saved:
  assumes "saves d" and "length (json_object_to_json_string (saved d)) < 2 ^ 30"
  shows "statsd_deserialize (Contents (json_object_to_json_string (saved d))) daemon_init =
    Inr (True, daemon_init\<lparr>stats := stats d, timers := timers d, gauges := gauges d, counters := counters d\<rparr>)"
proof -
  note p = printable_saved [OF assms(1)]
  have "json_tokener_parse (json_text (saved d) @ replicate 20 (CHR 0x00)) = Inr (Inr (saved d))"
    using json_roundtrip_text [OF p] cstr_of_file [OF is_cstring_json_text(1) [OF p(1)]]
    by (simp add: json_object_to_json_string_eq)
  moreover from assms have "\<forall>s \<in> set (stats d). stat_saves s" "\<forall>t \<in> set (timers d). timer_saves t"
    "\<forall>g \<in> set (gauges d). number_saves (gkey g) (gvalue g)"
    "\<forall>c \<in> set (counters d). number_saves (ckey c) (cvalue c)" by (simp_all add: saves_def)
  note eqs = deserialize_stats_eq [OF this(1)] deserialize_timers_eq [OF this(2)]
    deserialize_gauges_eq [OF this(3)] deserialize_counters_eq [OF this(4)]
  moreover have "to_int32 (int (length (json_text (saved d)))) = int (length (json_text (saved d)))"
    using assms(2) by (intro to_int32_id) (simp_all add: json_object_to_json_string_eq)
  ultimately show ?thesis using length_saved_text [of d] assms(2)
    by (simp add: statsd_deserialize_def Let_def INT_MAX_def deserialize_text_def json_object_to_json_string_eq
        deserialize_section_def saved_def json_object_object_get_def members_lookup_def
        json_object_object_foreach_def eqs daemon_init_def)
qed


lemma serialize_stat_object: "\<exists>r. serialize_stat s (JObject kvs) =
    (if SIZEOF_SIZE_T \<le> length (stat_label s) then Inl Buffer_Overflow else Inr (JObject r))"
  by (auto simp: serialize_stat_def stat_label_def strcpy_buf_def json_object_object_add_def)

lemma serialize_stat_overruns:
  "s \<in> set ss \<Longrightarrow> SIZEOF_SIZE_T \<le> length (stat_label s) \<Longrightarrow>
   rfold (serialize_stat) ss (JObject kvs) = Inl Buffer_Overflow"
proof (induction ss arbitrary: kvs)
  case (Cons s' ss)
  obtain r where "serialize_stat s' (JObject kvs) =
      (if SIZEOF_SIZE_T \<le> length (stat_label s') then Inl Buffer_Overflow else Inr (JObject r))"
    using serialize_stat_object by blast
  with Cons show ?case by (cases "SIZEOF_SIZE_T \<le> length (stat_label s')") auto
qed simp

lemma serialize_overruns:
  assumes "s \<in> set (stats d)" and "SIZEOF_SIZE_T \<le> length (stat_label s)" and "0 < stats_lock d"
  shows "statsd_serialize can_open d = Inl Buffer_Overflow"
proof -
  have "rfold serialize_stat (stats d) (JObject []) = Inl Buffer_Overflow"
    using assms(1,2) by (intro serialize_stat_overruns)
  with assms(3) show ?thesis
    by (cases "stats_lock d") (simp_all add: statsd_serialize_def serialize_stats_def lock_defs sem_wait_pos)
qed

lemma atol_zero: "atol ''0'' = 0"
  by code_simp

subsection \<open>Properties\<close>

text \<open>
  C9: saving and restoring. Take tables that print without loss (\<open>saves\<close>: in each table no key
  twice; no zero byte in a key or name; keys of timers, gauges and counters of fewer than 100 bytes;
  statistics whose group has fewer than 100 bytes and no dot, whose own name has at most 98, whose
  value fits an \<^verbatim>\<open>int\<close> and whose lock flag is clear; counts of timers that are the number
  of their values; numbers of the 64-bit format that six decimals show; free semaphores)
  and whose text has fewer than \<open>2 ^ 30\<close> bytes. A daemon that
  starts with that text as its file has the same statistics, timers with their values, gauges and
  counters, in the same order. The daemon writes the text, and keeps its tables and its locks, when
  every \<open>group.key\<close> of its statistics has fewer than eight bytes; otherwise saving
  overruns the block of \<^verbatim>\<open>malloc(sizeof ...)\<close>.
\<close>

theorem statsd_serialize_roundtrip:
  assumes "saves d" and "length (json_object_to_json_string (saved d)) < 2 ^ 30"
  shows "statsd_serialize True d =
      (if labels_fit d then Inr (Some (json_object_to_json_string (saved d)), d) else Inl Buffer_Overflow)
    \<and> statsd_deserialize (Contents (json_object_to_json_string (saved d))) daemon_init =
      Inr (True, daemon_init\<lparr>stats := stats d, timers := timers d, gauges := gauges d, counters := counters d\<rparr>)"
proof (cases "labels_fit d")
  case False
  then obtain s where "s \<in> set (stats d)" "SIZEOF_SIZE_T \<le> length (stat_label s)"
    by (auto simp: labels_fit_def not_less)
  then have "statsd_serialize True d = Inl Buffer_Overflow"
    using assms(1) by (intro serialize_overruns) (simp_all add: saves_def locks_ok_def)
  with False statsd_deserialize_saved [OF assms] show ?thesis by simp
qed (use statsd_serialize_eq [OF assms(1)] statsd_deserialize_saved [OF assms] in simp)

definition sample_daemon :: daemon where
  "sample_daemon = daemon_init
     \<lparr>stats := [\<lparr>sname = \<lparr>group_name = ''m'', key_name = ''bad''\<rparr>, svalue = 7, slocked = False\<rparr>],
      timers := [\<lparr>tkey = ''glork'', tcount = 2, tvalues = [fp_int 320, fp_int 5]\<rparr>],
      gauges := [\<lparr>gkey = ''gaugor'', gvalue = fp_int 333\<rparr>],
      counters := [\<lparr>ckey = ''gorets'', cvalue = fp_int (- 4)\<rparr>, \<lparr>ckey = ''x.y'', cvalue = fp_int 0\<rparr>]\<rparr>"

lemma fp_ok_binary64_int: "\<bar>k\<bar> \<le> 2 ^ 53 \<Longrightarrow> fp_ok binary64 (fp_int k)"
  using representable_of_int [of binary64 k] by (simp add: fp_int_def)

lemma sample_daemon_saves: "saves sample_daemon" "labels_fit sample_daemon"
  by (simp_all add: fp_ok_binary64_int printable_int saves_def sample_daemon_def daemon_init_def hash_wf_def
      locks_ok_def stat_saves_def labels_fit_def SIZEOF_SIZE_T_def
      timer_saves_def number_saves_def stat_label_def is_int32_def key_ok_def KEY_SIZE_def is_cstring_def
      del: printable.simps(3))

lemma sample_daemon_text: "length (json_object_to_json_string (saved sample_daemon)) < 2 ^ 30"
proof -
  have "length (json_object_to_json_string (saved sample_daemon)) < 1000" by code_simp
  then show ?thesis by simp
qed

lemma statsd_serialize_roundtrip_witness:
  "statsd_serialize True sample_daemon = Inr (Some (json_object_to_json_string (saved sample_daemon)), sample_daemon)
    \<and> statsd_deserialize (Contents (json_object_to_json_string (saved sample_daemon))) daemon_init =
      Inr (True, daemon_init\<lparr>stats := stats sample_daemon, timers := timers sample_daemon,
                             gauges := gauges sample_daemon, counters := counters sample_daemon\<rparr>)"
  using statsd_serialize_roundtrip [OF sample_daemon_saves(1) sample_daemon_text] sample_daemon_saves(2) by simp

text \<open>
  A file of ten bytes or more, and fewer than \<open>2 ^ 30\<close>, that the JSON parser rejects stops the daemon at its start: the
  error is a pointer near the end of the address space and is used as the object. Such a file
  is what the daemon writes itself when a gauge is not a number.
\<close>

theorem statsd_deserialize_malformed:
  assumes "10 \<le> length bs" and "length bs < 2 ^ 30" and "json_tokener_parse bs = Inr (Inl e)"
  shows "statsd_deserialize (Contents bs) d = Inl Wild_Deref"
proof -
  have "json_tokener_parse (bs @ replicate 20 (CHR 0x00)) = json_tokener_parse bs"
    using cstr_of_append_zero [of bs "replicate 19 (CHR 0x00)"]
    by (simp add: json_tokener_parse_def json_tokener_parse_ex_def numeral_eq_Suc)
  moreover have "to_int32 (int (length bs)) = int (length bs)" using assms(2) by (intro to_int32_id) simp_all
  ultimately show ?thesis
    using assms by (simp add: statsd_deserialize_def deserialize_text_def Let_def INT_MAX_def)
qed

definition nan_daemon :: daemon where
  "nan_daemon = daemon_init\<lparr>gauges := [\<lparr>gkey = ''g'', gvalue = NaN\<rparr>]\<rparr>"

definition nan_text :: "char list" where
  "nan_text = ''{ \"stats\": { }, \"timers\": { }, \"gauges\": { \"g\": nan }, \"counters\": { } }''"

lemma statsd_deserialize_malformed_witness:
  "statsd_serialize True nan_daemon = Inr (Some nan_text, nan_daemon)
    \<and> statsd_deserialize (Contents nan_text) daemon_init = Inl Wild_Deref"
proof
  show "statsd_serialize True nan_daemon = Inr (Some nan_text, nan_daemon)" by code_simp
  show "statsd_deserialize (Contents nan_text) daemon_init = Inl Wild_Deref"
  proof (rule statsd_deserialize_malformed)
    show "json_tokener_parse nan_text = Inr (Inl json_tokener_error_parse_null)" by code_simp
  qed (simp_all add: nan_text_def)
qed

text \<open>
  \<^verbatim>\<open>init_stats\<close> posts the semaphore of the statistics without waiting for it, so
  that two threads can hold the lock of that table at once from then on; the three statistics
  of the daemon are there with the time of the start.
\<close>

theorem init_stats_unlocks_twice:
  assumes "length (dec_of_int t) < 12" and "is_long t"
  shows "\<exists>d d1 d2. init_stats t None clear_stats daemon_init = Inr d
    \<and> stats d = [\<lparr>sname = \<lparr>group_name = ''graphite'', key_name = ''last_flush''\<rparr>, svalue = t, slocked = False\<rparr>,
         \<lparr>sname = \<lparr>group_name = ''messages'', key_name = ''last_msg_seen''\<rparr>, svalue = t, slocked = False\<rparr>,
         \<lparr>sname = \<lparr>group_name = ''messages'', key_name = ''bad_lines_seen''\<rparr>, svalue = 0, slocked = False\<rparr>]
    \<and> wait_for_stats_lock d = Inr d1 \<and> wait_for_stats_lock d1 = Inr d2"
  using assms atol_zero
  by (simp add: init_stats_def strcpy_buf_def Let_def lock_defs sem_wait_def daemon_init_def update_stat_def
      KEY_SIZE_def hash_add_def atol_dec_of_int)

lemma init_stats_unlocks_twice_witness:
  "\<exists>d d1 d2. init_stats 1700000000 None True daemon_init = Inr d
    \<and> stats d = [\<lparr>sname = \<lparr>group_name = ''graphite'', key_name = ''last_flush''\<rparr>, svalue = 1700000000, slocked = False\<rparr>,
         \<lparr>sname = \<lparr>group_name = ''messages'', key_name = ''last_msg_seen''\<rparr>, svalue = 1700000000, slocked = False\<rparr>,
         \<lparr>sname = \<lparr>group_name = ''messages'', key_name = ''bad_lines_seen''\<rparr>, svalue = 0, slocked = False\<rparr>]
    \<and> wait_for_stats_lock d = Inr d1 \<and> wait_for_stats_lock d1 = Inr d2"
  by (rule init_stats_unlocks_twice) (code_simp, simp add: is_long_def LONG_MIN_def LONG_MAX_def)

end
