(* ===== verification/ArrayList.thy ===== *)
theory ArrayList
  imports Json
begin

text \<open>
  The growing array behind a JSON array (\<^verbatim>\<open>arraylist.c\<close>): slots that are null
  until they are written, a length below the number of slots. The locale
  \<^verbatim>\<open>list_store\<close> is what \<^verbatim>\<open>json_object.c\<close> relies on: that adding
  appends and that an index reads the list. Memory that cannot be had is not modelled, nor what
  \<^verbatim>\<open>free_fn\<close> does to a value that is overwritten.
\<close>

definition ARRAY_LIST_DEFAULT_SIZE :: nat where "ARRAY_LIST_DEFAULT_SIZE = 32"

record 'a array_list =
  al_array :: "'a option list"
  al_length :: nat
  al_size :: nat

definition array_list_new :: "'a array_list" where
  "array_list_new = \<lparr>al_array = replicate ARRAY_LIST_DEFAULT_SIZE None, al_length = 0,
                     al_size = ARRAY_LIST_DEFAULT_SIZE\<rparr>"

definition array_list_get_idx :: "'a array_list \<Rightarrow> int \<Rightarrow> 'a option res" where
  "array_list_get_idx arr i =
     (if int (al_length arr) \<le> i then Inr None
      else if i < 0 then Inl Out_Of_Bounds
      else Inr (al_array arr ! nat i))"

definition array_list_expand_internal :: "'a array_list \<Rightarrow> int \<Rightarrow> 'a array_list res" where
  "array_list_expand_internal arr mx =
     (if mx < int (al_size arr) then Inr arr
      else if INT_MAX < 2 * int (al_size arr) then Inl Signed_Overflow
      else let new_size = nat (max (2 * int (al_size arr)) mx)
           in Inr (arr\<lparr>al_array := al_array arr @ replicate (new_size - al_size arr) None,
                       al_size := new_size\<rparr>))"

definition array_list_put_idx :: "'a array_list \<Rightarrow> int \<Rightarrow> 'a option \<Rightarrow> 'a array_list res" where
  "array_list_put_idx arr idx data =
     rbind (array_list_expand_internal arr idx) (\<lambda>arr.
     if idx < 0 \<or> int (length (al_array arr)) \<le> idx then Inl Out_Of_Bounds
     else Inr (arr\<lparr>al_array := (al_array arr)[nat idx := data],
                   al_length := (if int (al_length arr) \<le> idx then nat idx + 1 else al_length arr)\<rparr>))"

definition array_list_add :: "'a array_list \<Rightarrow> 'a option \<Rightarrow> 'a array_list res" where
  "array_list_add arr data = array_list_put_idx arr (int (al_length arr)) data"

definition array_list_length :: "'a array_list \<Rightarrow> nat" where
  "array_list_length arr = al_length arr"

subsection \<open>What the array holds\<close>

definition elems :: "'a array_list \<Rightarrow> 'a option list" where
  "elems arr = take (al_length arr) (al_array arr)"

text \<open>The slots past the length are null, so a gap left by a write past the end reads as null;
  the array has its first size or less than twice the slots it needs.\<close>

definition array_wf :: "'a array_list \<Rightarrow> bool" where
  "array_wf arr \<longleftrightarrow> length (al_array arr) = al_size arr \<and> al_length arr \<le> al_size arr
     \<and> 0 < al_size arr \<and> al_size arr \<le> max ARRAY_LIST_DEFAULT_SIZE (2 * al_length arr)
     \<and> drop (al_length arr) (al_array arr) = replicate (al_size arr - al_length arr) None"

lemma array_wf_new [simp]: "array_wf array_list_new" "elems array_list_new = []"
  by (simp_all add: array_wf_def elems_def array_list_new_def ARRAY_LIST_DEFAULT_SIZE_def)

lemma length_elems [simp]: "array_wf arr \<Longrightarrow> length (elems arr) = al_length arr"
  by (simp add: elems_def array_wf_def)

lemma array_split:
  "array_wf arr \<Longrightarrow> al_array arr = elems arr @ replicate (al_size arr - al_length arr) None"
  unfolding elems_def array_wf_def by (metis append_take_drop_id)

lemma array_wfI:
  assumes "al_array arr = es @ replicate n None" and "al_length arr = length es"
    and "al_size arr = length es + n" and "0 < al_size arr"
    and "al_size arr \<le> max ARRAY_LIST_DEFAULT_SIZE (2 * length es)"
  shows "array_wf arr \<and> elems arr = es"
  using assms by (simp add: array_wf_def elems_def)

text \<open>After the expansion the slot \<open>mx\<close> exists, unless it is at least twice the size.\<close>

lemma expand_slots:
  assumes "array_wf arr" and "array_list_expand_internal arr mx = Inr arr'"
  shows "al_array arr' = elems arr @ replicate (al_size arr' - al_length arr) None"
    and "al_length arr' = al_length arr"
    and "al_size arr' = (if mx < int (al_size arr) then al_size arr else nat (max (2 * int (al_size arr)) mx))"
proof -
  show size: "al_size arr' = (if mx < int (al_size arr) then al_size arr else nat (max (2 * int (al_size arr)) mx))"
    and "al_length arr' = al_length arr"
    using assms(2) by (auto simp: array_list_expand_internal_def Let_def split: if_splits)
  have "al_array arr' = al_array arr @ replicate (al_size arr' - al_size arr) None"
    using assms(2) by (auto simp: array_list_expand_internal_def Let_def split: if_splits)
  moreover have "al_size arr \<le> al_size arr'" "al_length arr \<le> al_size arr"
    using size assms(1) by (auto simp: array_wf_def)
  ultimately show "al_array arr' = elems arr @ replicate (al_size arr' - al_length arr) None"
    using array_split [OF assms(1)] by (simp add: replicate_add [symmetric])
qed

lemma expand_returns:
  "mx < int (al_size arr) \<or> 2 * int (al_size arr) \<le> INT_MAX \<Longrightarrow> \<exists>arr'. array_list_expand_internal arr mx = Inr arr'"
  by (auto simp: array_list_expand_internal_def Let_def)

text \<open>A write below twice the size.\<close>

lemma put_idx_elems:
  assumes wf: "array_wf arr" and i: "i < 2 * al_size arr"
    and b: "i < al_size arr \<or> 2 * int (al_size arr) \<le> INT_MAX"
  shows "\<exists>arr'. array_list_put_idx arr (int i) data = Inr arr' \<and> array_wf arr'
    \<and> elems arr' = (elems arr @ replicate (Suc i - al_length arr) None)[i := data]"
proof -
  obtain a where a: "array_list_expand_internal arr (int i) = Inr a"
    using expand_returns [of "int i" arr] b by auto
  note sl = expand_slots [OF wf a]
  have le: "al_length arr \<le> al_size arr" "length (elems arr) = al_length arr"
    "al_size arr \<le> max ARRAY_LIST_DEFAULT_SIZE (2 * al_length arr)" using wf by (simp_all add: array_wf_def)
  have n: "i < al_size a" using sl(3) i by (auto split: if_splits)
  let ?k = "Suc i - al_length arr" and ?r = "al_size a - max (Suc i) (al_length arr)"
  have "al_size a - al_length arr = ?k + ?r" using n sl(3) le(1) by (auto simp: max_def split: if_splits)
  then have arr: "al_array a = (elems arr @ replicate ?k None) @ replicate ?r None"
    using sl(1) by (simp add: replicate_add [symmetric])
  have len: "length (elems arr @ replicate ?k None) = max (Suc i) (al_length arr)" using le(2) by (simp add: max_def)
  let ?b = "a\<lparr>al_array := (al_array a)[i := data],
              al_length := (if int (al_length a) \<le> int i then i + 1 else al_length a)\<rparr>"
  have put: "array_list_put_idx arr (int i) data = Inr ?b"
    using a n arr len by (simp add: array_list_put_idx_def)
  have cap: "al_size a \<le> max ARRAY_LIST_DEFAULT_SIZE (2 * max (Suc i) (al_length arr))"
    using sl(3) le i unfolding max_def by (auto split: if_splits)
  have "array_wf ?b \<and> elems ?b = (elems arr @ replicate ?k None)[i := data]"
  proof (rule array_wfI)
    show "al_array ?b = (elems arr @ replicate ?k None)[i := data] @ replicate ?r None"
      using len by (simp only: arr array_list.simps) (simp add: list_update_append)
    show "al_length ?b = length ((elems arr @ replicate ?k None)[i := data])"
      using len sl(2) by (simp add: max_def)
    show "al_size ?b = length ((elems arr @ replicate ?k None)[i := data]) + ?r"
      using len n sl(3) le(1) by (auto simp: max_def split: if_splits)
  qed (use cap n len in simp_all)
  with put show ?thesis by blast
qed

subsection \<open>The interface of a list that grows\<close>

locale list_store =
  fixes empty :: 's and add :: "'s \<Rightarrow> 'v \<Rightarrow> 's res" and get :: "'s \<Rightarrow> nat \<Rightarrow> 'v res"
    and contents :: "'s \<Rightarrow> 'v list" and ok :: "'s \<Rightarrow> bool" and room :: nat
  assumes ok_empty: "ok empty" and contents_empty: "contents empty = []"
    and add_ok: "ok s \<Longrightarrow> length (contents s) < room \<Longrightarrow>
          \<exists>s'. add s v = Inr s' \<and> ok s' \<and> contents s' = contents s @ [v]"
    and get_ok: "ok s \<Longrightarrow> i < length (contents s) \<Longrightarrow> get s i = Inr (contents s ! i)"
begin

lemma fill_from:
  "ok s \<Longrightarrow> length (contents s) + length vs \<le> room \<Longrightarrow>
   \<exists>s'. rfold (\<lambda>v s. add s v) vs s = Inr s' \<and> ok s' \<and> contents s' = contents s @ vs"
proof (induction vs arbitrary: s)
  case (Cons v vs)
  then obtain s1 where "add s v = Inr s1" "ok s1" "contents s1 = contents s @ [v]"
    using add_ok [of s v] by auto
  with Cons.IH [of s1] Cons.prems show ?case by auto
qed simp

lemma fill:
  assumes "length vs \<le> room"
  shows "\<exists>s. rfold (\<lambda>v s. add s v) vs empty = Inr s \<and> contents s = vs \<and> (\<forall>i < length vs. get s i = Inr (vs ! i))"
  using fill_from [OF ok_empty, of vs] assms get_ok by (auto simp: contents_empty)

end

lemma array_list_add_elems:
  assumes "array_wf arr" and "length (elems arr) < 1073741823"
  shows "\<exists>arr'. array_list_add arr data = Inr arr' \<and> array_wf arr' \<and> elems arr' = elems arr @ [data]"
proof -
  have n: "al_length arr = length (elems arr)" "al_length arr \<le> al_size arr" "0 < al_size arr"
    "length (elems arr) < 1073741823"
    using assms by (simp_all add: array_wf_def)
  have "al_length arr < 2 * al_size arr" using n by linarith
  moreover have "al_length arr < al_size arr \<or> 2 * int (al_size arr) \<le> INT_MAX"
    using n by (auto simp: INT_MAX_def)
  ultimately show ?thesis
    using put_idx_elems [OF assms(1), of "al_length arr" data] n(1)
    by (simp add: array_list_add_def list_update_append)
qed

lemma get_idx_elems:
  "array_wf arr \<Longrightarrow> 0 \<le> i \<Longrightarrow> array_list_get_idx arr i =
     Inr (if nat i < length (elems arr) then elems arr ! nat i else None)"
  by (auto simp: array_list_get_idx_def elems_def array_wf_def)

interpretation al: list_store "array_list_new" array_list_add "\<lambda>arr i. array_list_get_idx arr (int i)"
    elems array_wf 1073741823
  by unfold_locales (simp_all add: array_list_add_elems get_idx_elems)

subsection \<open>Properties\<close>

text \<open>The null pointer in a slot is the value \<^verbatim>\<open>JNull\<close>.\<close>

definition slot :: "json option \<Rightarrow> json" where
  "slot p = (case p of None \<Rightarrow> JNull | Some j \<Rightarrow> j)"

lemma json_array_fill:
  "rfold (\<lambda>v j. json_object_array_add j (slot v)) vs (JArray js) = Inr (JArray (js @ map slot vs))"
  by (induction vs arbitrary: js) (simp_all add: json_object_array_add_def)

text \<open>
  C27: the growing array behind a JSON array: adding any number of values below
  2 to the 30 to a new array returns, however often the slots are reallocated, holds what the
  list of the JSON value holds, and every index reads the value added at that position, the
  null pointer past the end.
\<close>

theorem array_list_implements_array:
  assumes "length vs < 1073741824"
  shows "\<exists>arr. rfold (\<lambda>v arr. array_list_add arr v) vs array_list_new = Inr arr
    \<and> rfold (\<lambda>v j. json_object_array_add j (slot v)) vs (JArray []) = Inr (JArray (map slot (elems arr)))
    \<and> array_list_length arr = length vs
    \<and> (\<forall>i. array_list_get_idx arr (int i) = Inr (if i < length vs then vs ! i else None))"
proof -
  obtain arr where arr: "rfold (\<lambda>v arr. array_list_add arr v) vs array_list_new = Inr arr"
    "array_wf arr" "elems arr = vs"
    using al.fill_from [OF al.ok_empty, of vs] assms by auto
  have "array_list_length arr = length vs"
    using length_elems [OF arr(2)] arr(3) by (simp add: array_list_length_def)
  with arr get_idx_elems [OF arr(2)] show ?thesis by (auto simp: json_array_fill)
qed

lemma array_list_implements_array_witness:
  "\<exists>arr. rfold (\<lambda>v arr. array_list_add arr v) (replicate 100 (Some (JInt 3))) array_list_new = Inr arr
    \<and> rfold (\<lambda>v j. json_object_array_add j (slot v)) (replicate 100 (Some (JInt 3))) (JArray []) =
        Inr (JArray (map slot (elems arr)))
    \<and> array_list_length arr = length (replicate 100 (Some (JInt 3)))
    \<and> (\<forall>i. array_list_get_idx arr (int i) =
         Inr (if i < length (replicate 100 (Some (JInt 3))) then replicate 100 (Some (JInt 3)) ! i else None))"
  by (rule array_list_implements_array) simp

text \<open>
  A write at an index below twice the number of slots fills the gap with null pointers and
  sets the slot; a write at twice the number of slots or above reads and writes past the new
  array, which is given only as many slots as the index; so does a negative index.
\<close>

theorem array_list_put_idx_bounds:
  assumes "array_wf arr" and "2 * int (al_size arr) \<le> INT_MAX"
  shows "if 0 \<le> idx \<and> idx < 2 * int (al_size arr)
    then \<exists>arr'. array_list_put_idx arr idx data = Inr arr' \<and> array_wf arr'
      \<and> elems arr' = (elems arr @ replicate (nat idx + 1 - al_length arr) None)[nat idx := data]
    else array_list_put_idx arr idx data = Inl Out_Of_Bounds"
proof (cases "0 \<le> idx \<and> idx < 2 * int (al_size arr)")
  case True
  then have n: "nat idx < 2 * al_size arr" "int (nat idx) = idx" by linarith+
  have "\<exists>arr'. array_list_put_idx arr idx data = Inr arr' \<and> array_wf arr'
      \<and> elems arr' = (elems arr @ replicate (nat idx + 1 - al_length arr) None)[nat idx := data]"
    using put_idx_elems [OF assms(1) n(1), of data] assms(2) by (simp only: n(2) Suc_eq_plus1 simp_thms)
  with True show ?thesis by simp
next
  case False
  obtain a where a: "array_list_expand_internal arr idx = Inr a" using expand_returns assms(2) by blast
  note sl = expand_slots [OF assms(1) a]
  have "al_length arr \<le> al_size arr" "length (elems arr) = al_length arr" "0 < al_size arr"
    using assms(1) by (simp_all add: array_wf_def)
  with sl(1,3) False have "idx < 0 \<or> int (length (al_array a)) \<le> idx" by (auto split: if_splits)
  with a False show ?thesis by (auto simp: array_list_put_idx_def)
qed

lemma array_list_put_idx_bounds_witness:
  "if 0 \<le> (64::int) \<and> 64 < 2 * int (al_size (array_list_new :: nat array_list))
    then \<exists>arr'. array_list_put_idx array_list_new 64 (Some (7::nat)) = Inr arr' \<and> array_wf arr'
      \<and> elems arr' = (elems array_list_new @ replicate (nat 64 + 1 - al_length (array_list_new :: nat array_list)) None)
           [nat 64 := Some 7]
    else array_list_put_idx array_list_new 64 (Some (7::nat)) = Inl Out_Of_Bounds"
  by (rule array_list_put_idx_bounds [OF array_wf_new(1)])
    (simp add: array_list_new_def ARRAY_LIST_DEFAULT_SIZE_def INT_MAX_def)

end
