(* ===== verification/LinkHash.thy ===== *)
theory LinkHash
  imports ArrayList
begin

text \<open>
  The hash table behind a JSON object (\<^verbatim>\<open>linkhash.c\<close>): open addressing with linear
  probing over an array of entries, which are also threaded into a list in insertion order. A
  pointer to an entry is its position in the array. The hash and comparison functions are fields
  of the table, as in the code; what \<^verbatim>\<open>free_fn\<close> does, the name and a failing
  allocation are not modelled.

  A probe is given as many turns as the table has entries: its state is the position alone, so
  one that has seen every entry never ends. Growing the table inserts every entry of the list
  into a new one; the fuel of that recursion is the number of entries and four.
\<close>

datatype 'k lh_key = LH_EMPTY | LH_FREED | Key 'k

record ('k, 'v) lh_entry =
  lh_k :: "'k lh_key"
  lh_v :: "'v option"
  lh_next :: "nat option"
  lh_prev :: "nat option"

record ('k, 'v) lh_table =
  lh_size :: nat
  lh_count :: nat
  collisions :: nat
  resizes :: nat
  lookups :: nat
  inserts :: nat
  head :: "nat option"
  tail :: "nat option"
  table :: "('k, 'v) lh_entry list"
  hash_fn :: "'k \<Rightarrow> nat"
  equal_fn :: "'k \<Rightarrow> 'k \<Rightarrow> bool"

definition LH_PRIME :: "32 word" where "LH_PRIME = 0x9e370001"

text \<open>A \<^verbatim>\<open>char\<close> is signed; the sum is computed on 64 bits and kept to 32.\<close>

definition char_word :: "char \<Rightarrow> 32 word" where
  "char_word c = (if char_code c < 128 then of_nat (char_code c) else of_int (int (char_code c) - 256))"

definition lh_char_hash :: "cstring \<Rightarrow> nat" where
  "lh_char_hash k = unat (foldl (\<lambda>h c. h * 129 + char_word c + LH_PRIME) 0 k)"

definition lh_char_equal :: "cstring \<Rightarrow> cstring \<Rightarrow> bool" where
  "lh_char_equal k1 k2 \<longleftrightarrow> k1 = k2"

definition empty_entry :: "('k, 'v) lh_entry" where
  "empty_entry = \<lparr>lh_k = LH_EMPTY, lh_v = None, lh_next = None, lh_prev = None\<rparr>"

definition lh_table_new :: "nat \<Rightarrow> ('k \<Rightarrow> nat) \<Rightarrow> ('k \<Rightarrow> 'k \<Rightarrow> bool) \<Rightarrow> ('k, 'v) lh_table" where
  "lh_table_new sz hf ef = \<lparr>lh_size = sz, lh_count = 0, collisions = 0, resizes = 0, lookups = 0, inserts = 0,
     head = None, tail = None, table = replicate sz empty_entry, hash_fn = hf, equal_fn = ef\<rparr>"

definition lh_kchar_table_new :: "nat \<Rightarrow> (cstring, 'v) lh_table" where
  "lh_kchar_table_new sz = lh_table_new sz lh_char_hash lh_char_equal"

text \<open>\<^verbatim>\<open>if(++n == t->size) n = 0\<close>\<close>

definition wrap_next :: "('k, 'v) lh_table \<Rightarrow> nat \<Rightarrow> nat" where
  "wrap_next t n = (if n + 1 = lh_size t then 0 else n + 1)"

fun insert_probe :: "nat \<Rightarrow> ('k, 'v) lh_table \<Rightarrow> nat \<Rightarrow> (('k, 'v) lh_table \<times> nat) res" where
  "insert_probe 0 t n = Inl Endless_Loop"
| "insert_probe (Suc f) t n = (case lh_k (table t ! n) of
       Key _ \<Rightarrow> insert_probe f (t\<lparr>collisions := collisions t + 1\<rparr>) (wrap_next t n)
     | _ \<Rightarrow> Inr (t, n))"

definition upd_entry :: "nat \<Rightarrow> (('k, 'v) lh_entry \<Rightarrow> ('k, 'v) lh_entry) \<Rightarrow> ('k, 'v) lh_table \<Rightarrow> ('k, 'v) lh_table" where
  "upd_entry n f t = t\<lparr>table := (table t)[n := f (table t ! n)]\<rparr>"

definition link_last :: "nat \<Rightarrow> ('k, 'v) lh_table \<Rightarrow> ('k, 'v) lh_table res" where
  "link_last n t = (case head t of
       None \<Rightarrow> Inr (upd_entry n (\<lambda>e. e\<lparr>lh_next := None, lh_prev := None\<rparr>) (t\<lparr>head := Some n, tail := Some n\<rparr>))
     | Some _ \<Rightarrow> (case tail t of
           None \<Rightarrow> Inl Null_Deref
         | Some l \<Rightarrow>
             Inr ((upd_entry n (\<lambda>e. e\<lparr>lh_next := None\<rparr>)
                   (upd_entry n (\<lambda>e. e\<lparr>lh_prev := Some l\<rparr>)
                    (upd_entry l (\<lambda>e. e\<lparr>lh_next := Some n\<rparr>) t)))\<lparr>tail := Some n\<rparr>)))"

definition over_load :: "('k, 'v) lh_table \<Rightarrow> bool" where
  "over_load t = fp_less (fp_mul binary64 (fp_of_int binary64 (int (lh_size t))) (round_fp binary64 (66 / 100)))
                         (fp_of_int binary64 (int (lh_count t)))"

fun lh_table_insert :: "nat \<Rightarrow> ('k, 'v) lh_table \<Rightarrow> 'k \<Rightarrow> 'v option \<Rightarrow> ('k, 'v) lh_table res"
  and lh_table_resize :: "nat \<Rightarrow> ('k, 'v) lh_table \<Rightarrow> nat \<Rightarrow> ('k, 'v) lh_table res"
  and resize_loop :: "nat \<Rightarrow> ('k, 'v) lh_table \<Rightarrow> nat option \<Rightarrow> ('k, 'v) lh_table \<Rightarrow> ('k, 'v) lh_table res" where
  "lh_table_insert 0 t k v = Inl Endless_Loop"
| "lh_table_insert (Suc f) t k v =
     rbind (if over_load (t\<lparr>inserts := inserts t + 1\<rparr>)
            then if INT_MAX < 2 * int (lh_size t) then Inl Signed_Overflow
                 else lh_table_resize f (t\<lparr>inserts := inserts t + 1\<rparr>) (lh_size t * 2)
            else Inr (t\<lparr>inserts := inserts t + 1\<rparr>)) (\<lambda>t.
     rbind (insert_probe (lh_size t) t (hash_fn t k mod lh_size t)) (\<lambda>(t, n).
     link_last n (upd_entry n (\<lambda>e. e\<lparr>lh_k := Key k, lh_v := v\<rparr>) (t\<lparr>lh_count := lh_count t + 1\<rparr>))))"
| "lh_table_resize 0 t new_size = Inl Endless_Loop"
| "lh_table_resize (Suc f) t new_size =
     rbind (resize_loop f t (head t) (lh_table_new new_size (hash_fn t) (equal_fn t))) (\<lambda>new_t.
     Inr (t\<lparr>table := table new_t, lh_size := new_size, head := head new_t, tail := tail new_t,
            resizes := resizes t + 1\<rparr>))"
| "resize_loop 0 t ent new_t = Inl Endless_Loop"
| "resize_loop (Suc f) t ent new_t = (case ent of
       None \<Rightarrow> Inr new_t
     | Some n \<Rightarrow> (case lh_k (table t ! n) of
           Key k \<Rightarrow> rbind (lh_table_insert f new_t k (lh_v (table t ! n)))
                      (resize_loop f t (lh_next (table t ! n)))
         | _ \<Rightarrow> Inl Wild_Deref))"

definition lh_insert :: "('k, 'v) lh_table \<Rightarrow> 'k \<Rightarrow> 'v option \<Rightarrow> ('k, 'v) lh_table res" where
  "lh_insert t k v = lh_table_insert (lh_count t + 4) t k v"

fun lookup_probe :: "nat \<Rightarrow> ('k, 'v) lh_table \<Rightarrow> 'k \<Rightarrow> nat \<Rightarrow> nat option res" where
  "lookup_probe 0 t k n = Inl Endless_Loop"
| "lookup_probe (Suc f) t k n = (case lh_k (table t ! n) of
       LH_EMPTY \<Rightarrow> Inr None
     | LH_FREED \<Rightarrow> lookup_probe f t k (wrap_next t n)
     | Key k' \<Rightarrow> if equal_fn t k' k then Inr (Some n) else lookup_probe f t k (wrap_next t n))"

definition lh_table_lookup_entry :: "('k, 'v) lh_table \<Rightarrow> 'k \<Rightarrow> (('k, 'v) lh_table \<times> nat option) res" where
  "lh_table_lookup_entry t k =
     rbind (lookup_probe (lh_size t) t k (hash_fn t k mod lh_size t)) (\<lambda>e.
     Inr (t\<lparr>lookups := lookups t + 1\<rparr>, e))"

definition lh_table_lookup :: "('k, 'v) lh_table \<Rightarrow> 'k \<Rightarrow> (('k, 'v) lh_table \<times> 'v option) res" where
  "lh_table_lookup t k = rbind (lh_table_lookup_entry t k) (\<lambda>(t, e).
     Inr (t, case e of Some n \<Rightarrow> lh_v (table t ! n) | None \<Rightarrow> None))"

text \<open>An entry leaves the list.\<close>

definition unlink :: "nat \<Rightarrow> ('k, 'v) lh_table \<Rightarrow> ('k, 'v) lh_table res" where
  "unlink n t =
     (if tail t = Some n \<and> head t = Some n then Inr (t\<lparr>head := None, tail := None\<rparr>)
      else if head t = Some n then (case lh_next (table t ! n) of
          None \<Rightarrow> Inl Null_Deref
        | Some m \<Rightarrow> Inr ((upd_entry m (\<lambda>e. e\<lparr>lh_prev := None\<rparr>) t)\<lparr>head := Some m\<rparr>))
      else if tail t = Some n then (case lh_prev (table t ! n) of
          None \<Rightarrow> Inl Null_Deref
        | Some m \<Rightarrow> Inr ((upd_entry m (\<lambda>e. e\<lparr>lh_next := None\<rparr>) t)\<lparr>tail := Some m\<rparr>))
      else (case (lh_prev (table t ! n), lh_next (table t ! n)) of
          (Some p, Some m) \<Rightarrow>
            Inr (upd_entry m (\<lambda>e. e\<lparr>lh_prev := Some p\<rparr>) (upd_entry p (\<lambda>e. e\<lparr>lh_next := Some m\<rparr>) t))
        | _ \<Rightarrow> Inl Null_Deref))"

definition lh_table_delete_entry :: "('k, 'v) lh_table \<Rightarrow> nat \<Rightarrow> (('k, 'v) lh_table \<times> int) res" where
  "lh_table_delete_entry t n = (case lh_k (table t ! n) of
       Key _ \<Rightarrow>
         rbind (unlink n (upd_entry n (\<lambda>e. e\<lparr>lh_v := None, lh_k := LH_FREED\<rparr>)
                           (t\<lparr>lh_count := lh_count t - 1\<rparr>))) (\<lambda>t.
         Inr (upd_entry n (\<lambda>e. e\<lparr>lh_next := None, lh_prev := None\<rparr>) t, 0))
     | _ \<Rightarrow> Inr (t, -1))"

definition lh_table_delete :: "('k, 'v) lh_table \<Rightarrow> 'k \<Rightarrow> (('k, 'v) lh_table \<times> int) res" where
  "lh_table_delete t k = rbind (lh_table_lookup_entry t k) (\<lambda>(t, e). case e of
       None \<Rightarrow> Inr (t, -1)
     | Some n \<Rightarrow> lh_table_delete_entry t n)"

text \<open>\<^verbatim>\<open>lh_foreach\<close>: the entries in the order of the list.\<close>

fun foreach_from :: "nat \<Rightarrow> ('k, 'v) lh_table \<Rightarrow> nat option \<Rightarrow> ('k lh_key \<times> 'v option) list res" where
  "foreach_from f t None = Inr []"
| "foreach_from 0 t (Some n) = Inl Endless_Loop"
| "foreach_from (Suc f) t (Some n) = rbind (foreach_from f t (lh_next (table t ! n))) (\<lambda>es.
     Inr ((lh_k (table t ! n), lh_v (table t ! n)) # es))"

definition lh_foreach :: "('k, 'v) lh_table \<Rightarrow> ('k lh_key \<times> 'v option) list res" where
  "lh_foreach t = foreach_from (lh_size t) t (head t)"

subsection \<open>The load\<close>

lemma load_factor: "\<exists>q. round_fp binary64 (66 / 100) = Fin q \<and> 1 / 2 \<le> q \<and> q \<le> 3 / 4"
proof -
  have "representable binary64 (1 / 2)"
    unfolding representable_def by (intro conjI exI [of _ 1] exI [of _ "- 1"]) (simp_all add: power_int_minus)
  then have "round_fp binary64 (66 / 100) = PInf \<or> (\<exists>q. round_fp binary64 (66 / 100) = Fin q \<and> 1 / 2 \<le> q)"
    by (intro round_fp_ge) simp_all
  moreover have "representable binary64 (3 / 4)"
    unfolding representable_def by (intro conjI exI [of _ 3] exI [of _ "- 2"]) (simp_all add: power_int_minus)
  then have "\<exists>q. round_fp binary64 (66 / 100) = Fin q \<and> 0 \<le> q \<and> q \<le> 3 / 4"
    by (intro round_fp_le) simp_all
  ultimately show ?thesis by auto
qed

lemma representable_scaled:
  assumes "k < 2 ^ 53" and "e \<in> {- 1, - 2}"
  shows "representable binary64 (of_nat k * 2 powi e)"
proof -
  have "(of_nat k :: rat) * 2 powi e \<le> of_nat k * 1"
    using assms(2) by (intro mult_left_mono) (auto simp: power_int_minus)
  also have "\<dots> \<le> of_nat (2 ^ 53)" using assms(1) by (simp only: mult_1_right of_nat_le_iff)
  also have "\<dots> < 2 powi emax binary64" using powi_less_iff [of 53 1024] by simp
  finally have "\<bar>of_nat k * 2 powi e :: rat\<bar> < 2 powi emax binary64" by simp
  moreover have "\<bar>int k\<bar> < 2 ^ prec binary64" using assms(1) by simp
  ultimately show ?thesis
    unfolding representable_def using assms(2) by (intro conjI exI [of _ "int k"] exI [of _ e]) auto
qed

text \<open>A table that is not over its load has a free quarter; one that is half empty is not over it.\<close>

lemma over_load_bounds:
  assumes "0 < lh_size t" and "lh_size t \<le> 2 ^ 31" and "lh_count t \<le> 2 ^ 31"
  shows "\<not> over_load t \<Longrightarrow> 4 * lh_count t \<le> 3 * lh_size t"
    and "2 * lh_count t \<le> lh_size t \<Longrightarrow> \<not> over_load t"
proof -
  let ?s = "of_nat (lh_size t) :: rat" and ?c = "of_nat (lh_count t) :: rat"
  obtain q where q: "round_fp binary64 (66 / 100) = Fin q" "1 / 2 \<le> q" "q \<le> 3 / 4" using load_factor by blast
  have s: "0 < ?s" using assms(1) by simp
  have "fp_of_int binary64 (int (lh_size t)) = Fin ?s" "fp_of_int binary64 (int (lh_count t)) = Fin ?c"
    using assms by (simp_all add: fp_of_int_exact fp_int_def)
  moreover have "fp_mul binary64 (Fin ?s) (Fin q) = round_fp binary64 (?s * q)"
    using s q(2) by (simp add: fp_mul_def fp_is_inf_def fp_is_zero_def Let_def)
  ultimately have ol: "over_load t \<longleftrightarrow> fp_less (round_fp binary64 (?s * q)) (Fin ?c)"
    unfolding over_load_def q(1) by simp
  have "representable binary64 (3 / 4 * ?s)"
    using representable_scaled [of "3 * lh_size t" "- 2"] assms(2) by (simp add: power_int_minus)
  moreover have "0 < ?s * q" "?s * q \<le> 3 / 4 * ?s" using s q(2,3) by simp_all
  ultimately have up: "\<exists>q'. round_fp binary64 (?s * q) = Fin q' \<and> 0 \<le> q' \<and> q' \<le> 3 / 4 * ?s"
    by (intro round_fp_le) simp_all
  then show "4 * lh_count t \<le> 3 * lh_size t" if "\<not> over_load t"
  proof -
    from up that have "?c \<le> 3 / 4 * ?s" by (auto simp: ol)
    then have "of_nat (4 * lh_count t) \<le> (of_nat (3 * lh_size t) :: rat)" by simp
    then show ?thesis by (simp only: of_nat_le_iff)
  qed
  have "representable binary64 (1 / 2 * ?s)"
    using representable_scaled [of "lh_size t" "- 1"] assms(2) by (simp add: power_int_minus)
  moreover have "0 < 1 / 2 * ?s" "1 / 2 * ?s \<le> ?s * q" using s q(2) by simp_all
  ultimately have "round_fp binary64 (?s * q) = PInf \<or> (\<exists>q'. round_fp binary64 (?s * q) = Fin q' \<and> 1 / 2 * ?s \<le> q')"
    by (intro round_fp_ge) simp_all
  then show "\<not> over_load t" if "2 * lh_count t \<le> lh_size t"
  proof -
    assume lo: "round_fp binary64 (?s * q) = PInf \<or> (\<exists>q'. round_fp binary64 (?s * q) = Fin q' \<and> 1 / 2 * ?s \<le> q')"
    have "of_nat (2 * lh_count t) \<le> ?s" using that by (simp only: of_nat_le_iff)
    then have "?c \<le> 1 / 2 * ?s" by simp
    with lo show ?thesis by (auto simp: ol)
  qed
qed

subsection \<open>The list through the entries\<close>

abbreviation ent :: "('k, 'v) lh_table \<Rightarrow> nat \<Rightarrow> ('k, 'v) lh_entry" where
  "ent t \<equiv> (!) (table t)"

lemma ent_upd: "n < length (table t) \<Longrightarrow> ent (upd_entry n f t) = (ent t)(n := f (ent t n))"
  by (auto simp: upd_entry_def fun_eq_iff nth_list_update)

lemma upd_entry_sel [simp]:
  "lh_size (upd_entry n f t) = lh_size t" "lh_count (upd_entry n f t) = lh_count t"
  "head (upd_entry n f t) = head t" "tail (upd_entry n f t) = tail t"
  "hash_fn (upd_entry n f t) = hash_fn t" "equal_fn (upd_entry n f t) = equal_fn t"
  "length (table (upd_entry n f t)) = length (table t)"
  by (simp_all add: upd_entry_def)

definition head_opt :: "'a list \<Rightarrow> 'a option" where
  "head_opt xs = (case xs of [] \<Rightarrow> None | x # _ \<Rightarrow> Some x)"

definition last_opt :: "'a list \<Rightarrow> 'a option" where
  "last_opt xs = (if xs = [] then None else Some (last xs))"

lemma opt_simps [simp]:
  "head_opt [] = None" "head_opt (x # xs) = Some x" "last_opt [] = None" "last_opt [x] = Some x"
  "last_opt (xs @ [x]) = Some x" "head_opt (xs @ ys) = (if xs = [] then head_opt ys else head_opt xs)"
  by (cases xs; simp add: head_opt_def last_opt_def)+

text \<open>A run of the list whose first entry has the predecessor \<open>p\<close> and whose last has the
  successor \<open>q\<close>.\<close>

fun dseg :: "(nat \<Rightarrow> ('k, 'v) lh_entry) \<Rightarrow> nat option \<Rightarrow> nat list \<Rightarrow> nat option \<Rightarrow> bool" where
  "dseg E p [] q \<longleftrightarrow> True"
| "dseg E p (n # ns) q \<longleftrightarrow> lh_prev (E n) = p \<and> lh_next (E n) = (if ns = [] then q else head_opt ns)
     \<and> dseg E (Some n) ns q"

lemma dseg_append:
  "dseg E p (xs @ ys) q \<longleftrightarrow> dseg E p xs (if ys = [] then q else head_opt ys)
     \<and> dseg E (if xs = [] then p else last_opt xs) ys q"
  by (induction xs arbitrary: p) (auto simp: last_opt_def head_opt_def split: list.splits)

lemma dseg_frame:
  "(\<And>n. n \<in> set ns \<Longrightarrow> lh_next (E' n) = lh_next (E n) \<and> lh_prev (E' n) = lh_prev (E n)) \<Longrightarrow>
   dseg E' p ns q \<longleftrightarrow> dseg E p ns q"
  by (induction ns arbitrary: p) auto

lemma dseg_upd [simp]: "l \<notin> set ns \<Longrightarrow> dseg (E(l := e)) p ns q \<longleftrightarrow> dseg E p ns q"
  by (rule dseg_frame) auto

lemma dseg_set_next:
  "l \<notin> set xs \<Longrightarrow> dseg E p (xs @ [l]) q \<Longrightarrow> dseg (E(l := (E l)\<lparr>lh_next := q'\<rparr>)) p (xs @ [l]) q'"
  by (simp add: dseg_append)

lemma dseg_set_prev:
  "m \<notin> set ys \<Longrightarrow> dseg E p (m # ys) q \<Longrightarrow> dseg (E(m := (E m)\<lparr>lh_prev := p'\<rparr>)) p' (m # ys) q"
  by simp

definition linked :: "('k, 'v) lh_table \<Rightarrow> nat list \<Rightarrow> bool" where
  "linked t ns \<longleftrightarrow> head t = head_opt ns \<and> tail t = last_opt ns \<and> dseg (ent t) None ns None
     \<and> distinct ns \<and> (\<forall>n \<in> set ns. n < length (table t))"

text \<open>The update that makes an entry the last of the list.\<close>

lemma link_last_linked:
  assumes "linked t ns" and "n < length (table t)" and "n \<notin> set ns"
  shows "\<exists>t'. link_last n t = Inr t' \<and> linked t' (ns @ [n])
    \<and> lh_size t' = lh_size t \<and> lh_count t' = lh_count t \<and> hash_fn t' = hash_fn t \<and> equal_fn t' = equal_fn t
    \<and> length (table t') = length (table t)
    \<and> (\<forall>m. lh_k (ent t' m) = lh_k (ent t m) \<and> lh_v (ent t' m) = lh_v (ent t m))"
proof (cases ns rule: rev_cases)
  case Nil
  let ?t = "upd_entry n (\<lambda>e. e\<lparr>lh_next := None, lh_prev := None\<rparr>) (t\<lparr>head := Some n, tail := Some n\<rparr>)"
  have "link_last n t = Inr ?t" using assms(1) Nil by (simp add: link_last_def linked_def)
  moreover have "linked ?t [n]" using assms(2) by (simp add: linked_def ent_upd last_opt_def)
  ultimately show ?thesis using Nil assms(2) by (intro exI [of _ ?t]) (simp add: ent_upd)
next
  case (snoc ms l)
  from assms snoc have l: "l < length (table t)" "l \<noteq> n" "l \<notin> set ms" "n \<notin> set ms"
    "dseg (ent t) None (ms @ [l]) None" by (auto simp: linked_def)
  let ?t1 = "upd_entry l (\<lambda>e. e\<lparr>lh_next := Some n\<rparr>) t"
  let ?t = "(upd_entry n (\<lambda>e. e\<lparr>lh_next := None\<rparr>) (upd_entry n (\<lambda>e. e\<lparr>lh_prev := Some l\<rparr>) ?t1))\<lparr>tail := Some n\<rparr>"
  have E: "ent ?t = (ent t)(l := (ent t l)\<lparr>lh_next := Some n\<rparr>,
      n := (ent t n)\<lparr>lh_prev := Some l, lh_next := None\<rparr>)"
    using l assms(2) by (simp add: ent_upd fun_upd_twist)
  have "head_opt ns = head t" "head_opt ns \<noteq> None" using assms(1) snoc
    by (cases ms; simp add: linked_def)+
  then obtain h where h: "head t = Some h" by (cases "head t") auto
  have "tail t = Some l" using assms(1) snoc by (simp add: linked_def)
  then have r: "link_last n t = Inr ?t" by (simp add: link_last_def h)
  have "dseg ((ent t)(l := (ent t l)\<lparr>lh_next := Some n\<rparr>)) None (ms @ [l]) (Some n)"
    using l by (intro dseg_set_next)
  then have "dseg (ent ?t) None (ms @ [l]) (Some n)"
    using l unfolding E by simp
  moreover have "lh_prev (ent ?t n) = Some l" "lh_next (ent ?t n) = None" unfolding E by simp_all
  ultimately have "dseg (ent ?t) None (ns @ [n]) None"
    using snoc unfolding dseg_append [of _ _ ns] by simp
  moreover have "ns \<noteq> []" using snoc by simp
  then have "tail ?t = last_opt (ns @ [n])" "head ?t = head_opt (ns @ [n])" "distinct (ns @ [n])"
    "\<forall>m \<in> set (ns @ [n]). m < length (table ?t)" using assms by (simp_all add: linked_def)
  ultimately have "linked ?t (ns @ [n])" unfolding linked_def by blast
  with r show ?thesis using E l by (intro exI [of _ ?t]) (simp add: fun_upd_def)
qed

subsection \<open>Probing\<close>

definition pos :: "('k, 'v) lh_table \<Rightarrow> 'k \<Rightarrow> nat \<Rightarrow> nat" where
  "pos t k j = (hash_fn t k + j) mod lh_size t"

fun is_key :: "'k lh_key \<Rightarrow> bool" where
  "is_key (Key _) = True"
| "is_key _ = False"

lemma is_key_iff: "is_key x \<longleftrightarrow> (\<exists>k. x = Key k)"
  by (cases x) auto

lemma pos_less: "0 < lh_size t \<Longrightarrow> pos t k j < lh_size t"
  by (simp add: pos_def)

lemma wrap_next_pos: "0 < lh_size t \<Longrightarrow> wrap_next t (pos t k j) = pos t k (Suc j)"
  by (simp add: wrap_next_def pos_def mod_Suc)

lemma pos_collisions [simp]: "pos (t\<lparr>collisions := c\<rparr>) k = pos t k"
  by (simp add: fun_eq_iff pos_def)

lemma pos_inj:
  assumes "pos t k i = pos t k j" and "i < lh_size t" and "j < lh_size t"
  shows "i = j"
  using assms
proof (induction i j rule: linorder_wlog)
  case (le i j)
  then have "lh_size t dvd (hash_fn t k + j) - (hash_fn t k + i)"
    by (subst mod_eq_dvd_iff_nat [symmetric]) (simp_all add: pos_def)
  with le show ?case by (auto dest!: dvd_imp_le)
qed simp

lemma pos_surj:
  assumes "n < lh_size t"
  obtains d where "d < lh_size t" and "pos t k d = n"
proof
  let ?s = "lh_size t" and ?h = "hash_fn t k mod lh_size t"
  show "(n + (?s - ?h)) mod ?s < ?s" using assms by simp
  have "?h < ?s" using assms by simp
  then have "?h + (n + (?s - ?h)) = n + ?s" by simp
  then have "(?h + (n + (?s - ?h))) mod ?s = n" using assms by simp
  then show "pos t k ((n + (?s - ?h)) mod ?s) = n" by (simp add: pos_def mod_simps)
qed

lemma insert_probe_pos:
  assumes "0 < lh_size t" and "\<forall>j<d. is_key (lh_k (ent t (pos t k (i + j))))"
    and "\<not> is_key (lh_k (ent t (pos t k (i + d))))" and "d < f"
  shows "\<exists>c. insert_probe f t (pos t k i) = Inr (t\<lparr>collisions := c\<rparr>, pos t k (i + d))"
  using assms
proof (induction f arbitrary: t i d)
  case (Suc f)
  show ?case
  proof (cases d)
    case 0
    with Suc.prems(3) show ?thesis
      by (intro exI [of _ "collisions t"]) (cases "lh_k (ent t (pos t k i))"; simp)
  next
    case (Suc e)
    let ?t = "t\<lparr>collisions := collisions t + 1\<rparr>"
    from Suc.prems(2) Suc have "is_key (lh_k (ent t (pos t k i)))" by force
    then obtain k' where "lh_k (ent t (pos t k i)) = Key k'" by (auto simp: is_key_iff)
    moreover have "\<exists>c. insert_probe f ?t (pos ?t k (Suc i)) = Inr (?t\<lparr>collisions := c\<rparr>, pos ?t k (Suc i + e))"
      using Suc.prems Suc by (intro Suc.IH) auto
    ultimately show ?thesis using Suc Suc.prems(1) by (simp add: wrap_next_pos)
  qed
qed simp

lemma lookup_probe_pos:
  assumes "0 < lh_size t" and "equal_fn t = (=)"
    and "\<forall>j<d. lh_k (ent t (pos t k (i + j))) \<noteq> LH_EMPTY \<and> lh_k (ent t (pos t k (i + j))) \<noteq> Key k" and "d < f"
    and "lh_k (ent t (pos t k (i + d))) = LH_EMPTY \<or> lh_k (ent t (pos t k (i + d))) = Key k"
  shows "lookup_probe f t k (pos t k i) =
    Inr (if lh_k (ent t (pos t k (i + d))) = LH_EMPTY then None else Some (pos t k (i + d)))"
  using assms
proof (induction f arbitrary: i d)
  case (Suc f)
  show ?case
  proof (cases d)
    case 0
    with Suc.prems(2,5) show ?thesis by auto
  next
    case (Suc e)
    have "lookup_probe f t k (pos t k (Suc i)) =
        Inr (if lh_k (ent t (pos t k (Suc i + e))) = LH_EMPTY then None else Some (pos t k (Suc i + e)))"
      using Suc.prems Suc by (intro Suc.IH) (auto simp del: add_Suc simp: add_Suc_shift)
    moreover have "lh_k (ent t (pos t k i)) \<noteq> LH_EMPTY" "lh_k (ent t (pos t k i)) \<noteq> Key k"
      using Suc.prems(3) Suc by force+
    ultimately show ?thesis using Suc Suc.prems(1,2)
      by (cases "lh_k (ent t (pos t k i))") (simp_all add: wrap_next_pos)
  qed
qed simp

text \<open>A probe for a key that is not there, in a table without an empty entry, sees every entry.\<close>

lemma lookup_probe_endless:
  assumes "0 < lh_size t" and "equal_fn t = (=)"
    and "\<forall>n < lh_size t. lh_k (ent t n) \<noteq> LH_EMPTY \<and> lh_k (ent t n) \<noteq> Key k"
  shows "lookup_probe f t k (pos t k i) = Inl Endless_Loop"
proof (induction f arbitrary: i)
  case (Suc f)
  have "lh_k (ent t (pos t k i)) \<noteq> LH_EMPTY" "lh_k (ent t (pos t k i)) \<noteq> Key k"
    using assms(3) pos_less [OF assms(1)] by blast+
  with Suc [of "Suc i"] assms(1,2) show ?case
    by (cases "lh_k (ent t (pos t k i))") (simp_all add: wrap_next_pos)
qed simp

subsection \<open>A well-formed table\<close>

text \<open>The entry of a key lies on the way of its probe, with no empty entry before it.\<close>

definition reach :: "('k, 'v) lh_table \<Rightarrow> 'k \<Rightarrow> nat \<Rightarrow> bool" where
  "reach t k n \<longleftrightarrow> (\<exists>d < lh_size t. pos t k d = n \<and> (\<forall>j<d. lh_k (ent t (pos t k j)) \<noteq> LH_EMPTY))"

definition lh_wf :: "('k, 'v) lh_table \<Rightarrow> nat list \<Rightarrow> bool" where
  "lh_wf t ns \<longleftrightarrow> 0 < lh_size t \<and> length (table t) = lh_size t \<and> lh_count t = length ns \<and> equal_fn t = (=)
     \<and> linked t ns \<and> set ns = {n. n < lh_size t \<and> is_key (lh_k (ent t n))}
     \<and> (\<forall>m \<in> set ns. \<forall>n \<in> set ns. lh_k (ent t m) = lh_k (ent t n) \<longrightarrow> m = n)
     \<and> (\<forall>n \<in> set ns. \<forall>k. lh_k (ent t n) = Key k \<longrightarrow> reach t k n)"

lemma lh_wfD:
  assumes "lh_wf t ns"
  shows "0 < lh_size t" "length (table t) = lh_size t" "lh_count t = length ns" "equal_fn t = (=)"
    "linked t ns" "n \<in> set ns \<longleftrightarrow> n < lh_size t \<and> is_key (lh_k (ent t n))"
    "m \<in> set ns \<Longrightarrow> n \<in> set ns \<Longrightarrow> lh_k (ent t m) = lh_k (ent t n) \<Longrightarrow> m = n"
    "n \<in> set ns \<Longrightarrow> lh_k (ent t n) = Key k \<Longrightarrow> reach t k n"
  using assms unfolding lh_wf_def by auto

text \<open>What the table holds, in the order of the list.\<close>

definition member_at :: "('k, 'v) lh_table \<Rightarrow> nat \<Rightarrow> 'k \<times> 'v option" where
  "member_at t n = ((case lh_k (ent t n) of Key k \<Rightarrow> k | _ \<Rightarrow> undefined), lh_v (ent t n))"

definition holds_members :: "('k, 'v) lh_table \<Rightarrow> nat list \<Rightarrow> ('k \<times> 'v option) list \<Rightarrow> bool" where
  "holds_members t ns ms \<longleftrightarrow> lh_wf t ns \<and> ms = map (member_at t) ns"

lemma member_at_key: "lh_k (ent t n) = Key k \<Longrightarrow> member_at t n = (k, lh_v (ent t n))"
  by (simp add: member_at_def)

lemma members_count: "holds_members t ns ms \<Longrightarrow> lh_count t = length ms"
  by (simp add: holds_members_def lh_wf_def)

lemma members_keys:
  assumes "holds_members t ns ms"
  shows "k \<in> fst ` set ms \<longleftrightarrow> (\<exists>n \<in> set ns. lh_k (ent t n) = Key k)"
proof -
  have "lh_k (ent t n) = Key (fst (member_at t n))" if "n \<in> set ns" for n
  proof -
    from that assms have "is_key (lh_k (ent t n))" by (auto simp: holds_members_def lh_wf_def)
    then show ?thesis by (auto simp: is_key_iff member_at_def)
  qed
  moreover from assms have "fst ` set ms = (\<lambda>n. fst (member_at t n)) ` set ns"
    by (auto simp: holds_members_def)
  ultimately show ?thesis by (metis (no_types, lifting) image_iff lh_key.inject)
qed

lemma distinct_members:
  assumes "holds_members t ns ms"
  shows "distinct (map fst ms)"
proof -
  have wf: "lh_wf t ns" and ms: "ms = map (member_at t) ns" using assms by (simp_all add: holds_members_def)
  have "inj_on (fst \<circ> member_at t) (set ns)"
  proof (rule inj_onI)
    fix m n assume mn: "m \<in> set ns" "n \<in> set ns" "(fst \<circ> member_at t) m = (fst \<circ> member_at t) n"
    then have "is_key (lh_k (ent t m))" "is_key (lh_k (ent t n))" using lh_wfD(6) [OF wf] by blast+
    then obtain k k' where "lh_k (ent t m) = Key k" "lh_k (ent t n) = Key k'" by (auto simp: is_key_iff)
    with mn(3) have "lh_k (ent t m) = lh_k (ent t n)" by (simp add: member_at_key)
    with mn wf show "m = n" by (auto dest: lh_wfD(7))
  qed
  moreover have "distinct ns" using lh_wfD(5) [OF wf] by (simp add: linked_def)
  ultimately show ?thesis by (simp add: ms distinct_map)
qed

lemma lh_wf_new: "0 < sz \<Longrightarrow> ef = (=) \<Longrightarrow> holds_members (lh_table_new sz hf ef) [] []"
  by (auto simp: holds_members_def lh_wf_def lh_table_new_def linked_def empty_entry_def)

lemma lookup_entry_wf:
  assumes wf: "lh_wf t ns"
  shows "n \<in> set ns \<Longrightarrow> lh_k (ent t n) = Key k \<Longrightarrow>
      lh_table_lookup_entry t k = Inr (t\<lparr>lookups := lookups t + 1\<rparr>, Some n)"
    and "\<forall>n \<in> set ns. lh_k (ent t n) \<noteq> Key k \<Longrightarrow> m < lh_size t \<Longrightarrow> lh_k (ent t m) = LH_EMPTY \<Longrightarrow>
      lh_table_lookup_entry t k = Inr (t\<lparr>lookups := lookups t + 1\<rparr>, None)"
proof -
  note s = lh_wfD(1) [OF wf]
  have start: "hash_fn t k mod lh_size t = pos t k 0" by (simp add: pos_def)
  {
    assume n: "n \<in> set ns" "lh_k (ent t n) = Key k"
    obtain d where d: "d < lh_size t" "pos t k d = n" "\<forall>j<d. lh_k (ent t (pos t k j)) \<noteq> LH_EMPTY"
      using lh_wfD(8) [OF wf n] by (auto simp: reach_def)
    have "lh_k (ent t (pos t k j)) \<noteq> Key k" if "j < d" for j
    proof
      assume k: "lh_k (ent t (pos t k j)) = Key k"
      then have "pos t k j \<in> set ns" using lh_wfD(6) [OF wf] pos_less [OF s] by simp
      then have "pos t k j = n" using lh_wfD(7) [OF wf _ n(1)] k n(2) by simp
      then show False using pos_inj [of t k j d] d that by simp
    qed
    with d n lookup_probe_pos [OF s lh_wfD(4) [OF wf], of d k 0 "lh_size t"]
    show "lh_table_lookup_entry t k = Inr (t\<lparr>lookups := lookups t + 1\<rparr>, Some n)"
      by (simp add: lh_table_lookup_entry_def start)
  }
  {
    assume n: "\<forall>n \<in> set ns. lh_k (ent t n) \<noteq> Key k" and m: "m < lh_size t" "lh_k (ent t m) = LH_EMPTY"
    obtain d0 where d0: "d0 < lh_size t" "pos t k d0 = m" using m(1) by (rule pos_surj)
    define d where "d = (LEAST d. lh_k (ent t (pos t k d)) = LH_EMPTY)"
    have d: "lh_k (ent t (pos t k d)) = LH_EMPTY" "d \<le> d0" "\<forall>j<d. lh_k (ent t (pos t k j)) \<noteq> LH_EMPTY"
      using m(2) d0(2) unfolding d_def by (auto intro: LeastI Least_le dest: not_less_Least)
    have "lh_k (ent t (pos t k j)) \<noteq> Key k" for j
      using n lh_wfD(6) [OF wf] pos_less [OF s] by auto
    with d d0 lookup_probe_pos [OF s lh_wfD(4) [OF wf], of d k 0 "lh_size t"]
    show "lh_table_lookup_entry t k = Inr (t\<lparr>lookups := lookups t + 1\<rparr>, None)"
      by (simp add: lh_table_lookup_entry_def start)
  }
qed

subsection \<open>Insertion without growth\<close>

lemma member_at_cong:
  "lh_k (ent t' n) = lh_k (ent t n) \<Longrightarrow> lh_v (ent t' n) = lh_v (ent t n) \<Longrightarrow> member_at t' n = member_at t n"
  by (simp add: member_at_def)

lemma reach_mono:
  assumes "reach t k n" and "lh_size t' = lh_size t" and "hash_fn t' = hash_fn t"
    and "\<And>m. lh_k (ent t m) \<noteq> LH_EMPTY \<Longrightarrow> lh_k (ent t' m) \<noteq> LH_EMPTY"
  shows "reach t' k n"
proof -
  have "pos t' k = pos t k" using assms(2,3) by (simp add: fun_eq_iff pos_def)
  with assms show ?thesis by (auto simp: reach_def)
qed

text \<open>The probe of an insertion: a table with a free entry has one on the way.\<close>

lemma insert_probe_wf:
  assumes wf: "lh_wf t ns" and room: "length ns < lh_size t"
  shows "\<exists>c n d. insert_probe (lh_size t) t (hash_fn t k mod lh_size t) = Inr (t\<lparr>collisions := c\<rparr>, n)
    \<and> n < lh_size t \<and> \<not> is_key (lh_k (ent t n)) \<and> d < lh_size t \<and> pos t k d = n
    \<and> (\<forall>j<d. is_key (lh_k (ent t (pos t k j))))"
proof -
  note s = lh_wfD(1) [OF wf]
  have "set ns \<subseteq> {..<lh_size t}" using lh_wfD(6) [OF wf] by auto
  moreover have "card (set ns) < lh_size t" using room card_length [of ns] by simp
  ultimately obtain m where m: "m < lh_size t" "m \<notin> set ns"
    by (metis card_lessThan lessThan_iff subsetI subset_antisym nat_neq_iff)
  then have mk: "\<not> is_key (lh_k (ent t m))" using lh_wfD(6) [OF wf] by blast
  obtain d0 where d0: "d0 < lh_size t" "pos t k d0 = m" using m(1) by (rule pos_surj)
  define d where "d = (LEAST d. \<not> is_key (lh_k (ent t (pos t k d))))"
  have d: "\<not> is_key (lh_k (ent t (pos t k d)))" "d \<le> d0" "\<forall>j<d. is_key (lh_k (ent t (pos t k j)))"
    using LeastI [of "\<lambda>d. \<not> is_key (lh_k (ent t (pos t k d)))" d0]
      Least_le [of "\<lambda>d. \<not> is_key (lh_k (ent t (pos t k d)))" d0] mk d0(2)
    unfolding d_def by (auto dest: not_less_Least)
  have "\<exists>c. insert_probe (lh_size t) t (pos t k 0) = Inr (t\<lparr>collisions := c\<rparr>, pos t k (0 + d))"
    using d d0(1) by (intro insert_probe_pos [OF s]) auto
  then obtain c where "insert_probe (lh_size t) t (pos t k 0) = Inr (t\<lparr>collisions := c\<rparr>, pos t k d)" by auto
  moreover have "hash_fn t k mod lh_size t = pos t k 0" by (simp add: pos_def)
  ultimately show ?thesis using d d0(1) pos_less [OF s, of k d]
    by (intro exI [of _ c] exI [of _ "pos t k d"] exI [of _ d]) simp
qed

definition put_entry :: "('k, 'v) lh_table \<Rightarrow> 'k \<Rightarrow> 'v option \<Rightarrow> ('k, 'v) lh_table res" where
  "put_entry t k v = rbind (insert_probe (lh_size t) t (hash_fn t k mod lh_size t)) (\<lambda>(t, n).
     link_last n (upd_entry n (\<lambda>e. e\<lparr>lh_k := Key k, lh_v := v\<rparr>) (t\<lparr>lh_count := lh_count t + 1\<rparr>)))"

definition no_freed :: "('k, 'v) lh_table \<Rightarrow> bool" where
  "no_freed t \<longleftrightarrow> (\<forall>n < lh_size t. lh_k (ent t n) \<noteq> LH_FREED)"

lemma put_entry_wf:
  assumes hm: "holds_members t ns ms" and room: "length ns < lh_size t" and new: "k \<notin> fst ` set ms"
  shows "\<exists>t' n. put_entry t k v = Inr t' \<and> holds_members t' (ns @ [n]) (ms @ [(k, v)])
    \<and> lh_size t' = lh_size t \<and> hash_fn t' = hash_fn t
    \<and> (\<forall>m. lh_k (ent t' m) = (if m = n then Key k else lh_k (ent t m)))
    \<and> n < lh_size t \<and> \<not> is_key (lh_k (ent t n)) \<and> (\<exists>d < lh_size t. pos t k d = n
         \<and> (\<forall>j<d. is_key (lh_k (ent t (pos t k j)))))"
proof -
  have wf: "lh_wf t ns" and ms: "ms = map (member_at t) ns" using hm by (simp_all add: holds_members_def)
  obtain c n d where p: "insert_probe (lh_size t) t (hash_fn t k mod lh_size t) = Inr (t\<lparr>collisions := c\<rparr>, n)"
    and n: "n < lh_size t" "\<not> is_key (lh_k (ent t n))"
    and d: "d < lh_size t" "pos t k d = n" "\<forall>j<d. is_key (lh_k (ent t (pos t k j)))"
    using insert_probe_wf [OF wf room] by blast
  have nn: "n \<notin> set ns" using n(2) lh_wfD(6) [OF wf] by blast
  let ?t = "upd_entry n (\<lambda>e. e\<lparr>lh_k := Key k, lh_v := v\<rparr>) (t\<lparr>collisions := c, lh_count := lh_count t + 1\<rparr>)"
  have E: "ent ?t = (ent t)(n := (ent t n)\<lparr>lh_k := Key k, lh_v := v\<rparr>)"
    using n(1) lh_wfD(2) [OF wf] by (simp add: ent_upd)
  have "linked ?t ns"
    using lh_wfD(5) [OF wf] nn unfolding linked_def E by simp
  then obtain t' where t': "link_last n ?t = Inr t'" "linked t' (ns @ [n])"
      "lh_size t' = lh_size t" "lh_count t' = Suc (lh_count t)" "hash_fn t' = hash_fn t" "equal_fn t' = equal_fn t"
      "length (table t') = length (table t)"
      and kv: "\<forall>m. lh_k (ent t' m) = lh_k (ent ?t m) \<and> lh_v (ent t' m) = lh_v (ent ?t m)"
    using link_last_linked [of ?t ns n] nn n(1) lh_wfD(2) [OF wf] by auto
  have k': "lh_k (ent t' m) = (if m = n then Key k else lh_k (ent t m))" for m
    using kv unfolding E by simp
  have mem: "member_at t' m = (if m = n then (k, v) else member_at t m)" for m
    using kv unfolding E by (simp add: member_at_def)
  have fresh: "lh_k (ent t m) \<noteq> Key k" if "m \<in> set ns" for m
    using members_keys [OF hm] new that by blast
  have "pos t' k = pos t k" using t'(3,5) by (simp add: fun_eq_iff pos_def)
  moreover have "lh_k (ent t' (pos t k j)) \<noteq> LH_EMPTY" if "j < d" for j
    using d(3) that by (auto simp: k' is_key_iff)
  ultimately have rk: "reach t' k n" using d t'(3) by (auto simp: reach_def)
  have "lh_wf t' (ns @ [n])"
    unfolding lh_wf_def
  proof (intro conjI)
    show "set (ns @ [n]) = {m. m < lh_size t' \<and> is_key (lh_k (ent t' m))}"
      using lh_wfD(6) [OF wf] n(1) by (auto simp: t'(3) k')
    show "\<forall>m \<in> set (ns @ [n]). \<forall>n' \<in> set (ns @ [n]). lh_k (ent t' m) = lh_k (ent t' n') \<longrightarrow> m = n'"
    proof (intro ballI impI)
      fix m n' assume mn: "m \<in> set (ns @ [n])" "n' \<in> set (ns @ [n])" "lh_k (ent t' m) = lh_k (ent t' n')"
      have key_n: "x = n" if "x \<in> set (ns @ [n])" "lh_k (ent t' x) = Key k" for x
        using that fresh [of x] by (cases "x = n") (simp_all add: k')
      show "m = n'"
      proof (cases "m = n \<or> n' = n")
        case True
        then have "lh_k (ent t' m) = Key k" "lh_k (ent t' n') = Key k" using mn(3) by (auto simp: k')
        with mn key_n [of m] key_n [of n'] show ?thesis by simp
      next
        case False
        with mn have "m \<in> set ns" "n' \<in> set ns" "lh_k (ent t m) = lh_k (ent t n')" by (simp_all add: k')
        then show ?thesis by (rule lh_wfD(7) [OF wf])
      qed
    qed
    show "\<forall>m \<in> set (ns @ [n]). \<forall>k'. lh_k (ent t' m) = Key k' \<longrightarrow> reach t' k' m"
    proof (intro ballI allI impI)
      fix m k' assume m: "m \<in> set (ns @ [n])" "lh_k (ent t' m) = Key k'"
      show "reach t' k' m"
      proof (cases "m = n")
        case True
        with m(2) rk show ?thesis by (simp add: k')
      next
        case False
        with m have "reach t k' m" using lh_wfD(8) [OF wf] by (simp add: k')
        then show ?thesis by (rule reach_mono) (simp_all add: t'(3,5) k')
      qed
    qed
  qed (use wf t' in \<open>simp_all add: lh_wf_def\<close>)
  moreover have "map (member_at t') (ns @ [n]) = ms @ [(k, v)]"
    using nn by (auto simp: ms mem)
  moreover have "put_entry t k v = Inr t'" using p t'(1) by (simp add: put_entry_def)
  ultimately have "put_entry t k v = Inr t' \<and> holds_members t' (ns @ [n]) (ms @ [(k, v)])
    \<and> lh_size t' = lh_size t \<and> hash_fn t' = hash_fn t
    \<and> (\<forall>m. lh_k (ent t' m) = (if m = n then Key k else lh_k (ent t m)))
    \<and> n < lh_size t \<and> \<not> is_key (lh_k (ent t n)) \<and> (\<exists>d < lh_size t. pos t k d = n
         \<and> (\<forall>j<d. is_key (lh_k (ent t (pos t k j)))))"
    using t'(3,5) k' n d by (auto simp: holds_members_def)
  then show ?thesis by blast
qed

subsection \<open>Removal\<close>

lemma unlink_linked:
  assumes "linked t (xs @ n # ys)"
  shows "\<exists>t'. unlink n t = Inr t' \<and> linked t' (xs @ ys)
    \<and> lh_size t' = lh_size t \<and> lh_count t' = lh_count t \<and> hash_fn t' = hash_fn t \<and> equal_fn t' = equal_fn t
    \<and> length (table t') = length (table t)
    \<and> (\<forall>m. lh_k (ent t' m) = lh_k (ent t m) \<and> lh_v (ent t' m) = lh_v (ent t m))"
proof -
  from assms have ht: "head t = head_opt (xs @ n # ys)" "tail t = last_opt (xs @ n # ys)"
    and ds: "dseg (ent t) None (xs @ n # ys) None" and di: "distinct (xs @ n # ys)"
    and lt: "\<forall>m \<in> set (xs @ n # ys). m < length (table t)" by (simp_all add: linked_def)
  from ds have d1: "dseg (ent t) None xs (Some n)" "dseg (ent t) (Some n) ys None"
    and np: "lh_prev (ent t n) = last_opt xs" "lh_next (ent t n) = head_opt ys"
    by (auto simp: dseg_append last_opt_def split: if_splits)
  consider (only) "xs = []" "ys = []" | (first) m zs where "xs = []" "ys = m # zs"
    | (final) ws l where "xs = ws @ [l]" "ys = []" | (middle) ws l m zs where "xs = ws @ [l]" "ys = m # zs"
    by (cases xs rule: rev_cases; cases ys) auto
  then show ?thesis
  proof cases
    case only
    then show ?thesis using ht
      by (intro exI [of _ "t\<lparr>head := None, tail := None\<rparr>"]) (simp add: unlink_def linked_def)
  next
    case first
    let ?t = "(upd_entry m (\<lambda>e. e\<lparr>lh_prev := None\<rparr>) t)\<lparr>head := Some m\<rparr>"
    have t: "tail t = last_opt ys" "tail t \<noteq> Some n" "head t = Some n"
      using ht first di by (auto simp: last_opt_def)
    have E: "ent ?t = (ent t)(m := (ent t m)\<lparr>lh_prev := None\<rparr>)" using lt first by (simp add: ent_upd)
    have "dseg (ent ?t) None ys None"
      unfolding E using d1(2) first di by (simp only: first) (intro dseg_set_prev, auto)
    moreover have "unlink n t = Inr ?t" using t np(2) first by (simp add: unlink_def)
    ultimately show ?thesis using t di lt first E
      by (intro exI [of _ ?t]) (simp add: linked_def fun_upd_def)
  next
    case final
    let ?t = "(upd_entry l (\<lambda>e. e\<lparr>lh_next := None\<rparr>) t)\<lparr>tail := Some l\<rparr>"
    have t: "tail t = Some n" "head t = head_opt xs" "head t \<noteq> Some n"
      using ht final di by (cases ws; auto simp: last_opt_def)+
    have E: "ent ?t = (ent t)(l := (ent t l)\<lparr>lh_next := None\<rparr>)" using lt final by (simp add: ent_upd)
    have "dseg (ent ?t) None xs None"
      unfolding E using d1(1) final di by (simp only: final) (intro dseg_set_next, auto)
    moreover have "unlink n t = Inr ?t" using t np(1) final by (simp add: unlink_def)
    ultimately show ?thesis using t di lt final E
      by (intro exI [of _ ?t]) (simp add: linked_def fun_upd_def)
  next
    case middle
    let ?t = "upd_entry m (\<lambda>e. e\<lparr>lh_prev := Some l\<rparr>) (upd_entry l (\<lambda>e. e\<lparr>lh_next := Some m\<rparr>) t)"
    have t: "tail t = last_opt (xs @ ys)" "tail t \<noteq> Some n" "head t = head_opt (xs @ ys)" "head t \<noteq> Some n"
      using ht middle di by (cases ws; auto simp: last_opt_def)+
    have lm: "l \<noteq> m" "l \<notin> set ys" "m \<notin> set xs" "l \<notin> set ws" "m \<notin> set zs" using di middle by auto
    have E: "ent ?t = (ent t)(l := (ent t l)\<lparr>lh_next := Some m\<rparr>, m := (ent t m)\<lparr>lh_prev := Some l\<rparr>)"
      using lt middle lm by (simp add: ent_upd)
    have "dseg (ent ?t) None xs (Some m)"
      unfolding E using d1(1) lm dseg_set_next [of l ws "ent t" None "Some n" "Some m"] middle by simp
    moreover have "dseg (ent ?t) (Some l) ys None"
      unfolding E using d1(2) lm middle by (simp add: fun_upd_twist)
    ultimately have "dseg (ent ?t) None (xs @ ys) None" using middle by (simp add: dseg_append)
    moreover have "unlink n t = Inr ?t" using t np middle by (simp add: unlink_def)
    ultimately show ?thesis using t di lt E lm
      by (intro exI [of _ ?t]) (simp add: linked_def fun_upd_def)
  qed
qed

lemma filter_members:
  assumes "distinct (map fst ms)" and "ms = as @ (k, v) # bs"
  shows "filter (\<lambda>(k', _). k' \<noteq> k) ms = as @ bs"
proof -
  have "filter (\<lambda>(k', _). k' \<noteq> k) as = as" "filter (\<lambda>(k', _). k' \<noteq> k) bs = bs"
    using assms by (auto simp: filter_id_conv rev_image_eqI)
  with assms(2) show ?thesis by simp
qed

lemma delete_entry_wf:
  assumes hm: "holds_members t ns ms" and n: "n \<in> set ns" and k: "lh_k (ent t n) = Key k"
  shows "\<exists>t' ns'. lh_table_delete_entry t n = Inr (t', 0)
    \<and> holds_members t' ns' (filter (\<lambda>(k', _). k' \<noteq> k) ms)
    \<and> lh_size t' = lh_size t \<and> hash_fn t' = hash_fn t \<and> Suc (lh_count t') = lh_count t
    \<and> (\<forall>m. lh_k (ent t' m) = (if m = n then LH_FREED else lh_k (ent t m)))"
proof -
  have wf: "lh_wf t ns" and ms: "ms = map (member_at t) ns" using hm by (simp_all add: holds_members_def)
  obtain xs ys where ns: "ns = xs @ n # ys" using split_list [OF n] by blast
  have di: "distinct ns" and lt: "\<forall>m \<in> set ns. m < length (table t)"
    using lh_wfD(5) [OF wf] by (simp_all add: linked_def)
  have nl: "n < length (table t)" using lt n by blast
  let ?t0 = "upd_entry n (\<lambda>e. e\<lparr>lh_v := None, lh_k := LH_FREED\<rparr>) (t\<lparr>lh_count := lh_count t - 1\<rparr>)"
  have E0: "ent ?t0 = (ent t)(n := (ent t n)\<lparr>lh_v := None, lh_k := LH_FREED\<rparr>)" using nl by (simp add: ent_upd)
  have "dseg (ent ?t0) None ns None \<longleftrightarrow> dseg (ent t) None ns None"
    unfolding E0 by (rule dseg_frame) simp
  then have "linked ?t0 (xs @ n # ys)" using lh_wfD(5) [OF wf] by (simp add: linked_def ns)
  then obtain t1 where t1: "unlink n ?t0 = Inr t1" "linked t1 (xs @ ys)"
      "lh_size t1 = lh_size t" "lh_count t1 = lh_count t - 1" "hash_fn t1 = hash_fn t" "equal_fn t1 = equal_fn t"
      "length (table t1) = length (table t)"
    and kv1: "\<forall>m. lh_k (ent t1 m) = lh_k (ent ?t0 m) \<and> lh_v (ent t1 m) = lh_v (ent ?t0 m)"
    using unlink_linked [of ?t0 xs n ys] by auto
  let ?t = "upd_entry n (\<lambda>e. e\<lparr>lh_next := None, lh_prev := None\<rparr>) t1"
  have E: "ent ?t = (ent t1)(n := (ent t1 n)\<lparr>lh_next := None, lh_prev := None\<rparr>)"
    using nl t1(7) by (simp add: ent_upd)
  have k': "lh_k (ent ?t m) = (if m = n then LH_FREED else lh_k (ent t m))" for m
    using kv1 unfolding E E0 by simp
  have v': "m \<noteq> n \<Longrightarrow> lh_v (ent ?t m) = lh_v (ent t m)" for m using kv1 unfolding E E0 by simp
  have "n \<notin> set (xs @ ys)" using di ns by auto
  then have l: "linked ?t (xs @ ys)"
    using t1(2) unfolding linked_def E by simp
  have sub: "set (xs @ ys) = set ns - {n}" using di ns by auto
  have "lh_wf ?t (xs @ ys)"
    unfolding lh_wf_def
  proof (intro conjI)
    show "set (xs @ ys) = {m. m < lh_size ?t \<and> is_key (lh_k (ent ?t m))}"
      unfolding sub using lh_wfD(6) [OF wf] t1(3) by (auto simp: k')
    show "\<forall>m \<in> set (xs @ ys). \<forall>n' \<in> set (xs @ ys). lh_k (ent ?t m) = lh_k (ent ?t n') \<longrightarrow> m = n'"
      unfolding sub using lh_wfD(7) [OF wf] by (simp add: k')
    show "\<forall>m \<in> set (xs @ ys). \<forall>k'. lh_k (ent ?t m) = Key k' \<longrightarrow> reach ?t k' m"
      unfolding sub
    proof (intro ballI allI impI)
      fix m k' assume "m \<in> set ns - {n}" "lh_k (ent ?t m) = Key k'"
      then have "reach t k' m" using lh_wfD(8) [OF wf] by (simp add: k')
      then show "reach ?t k' m" by (rule reach_mono) (simp_all add: t1 k')
    qed
    show "linked ?t (xs @ ys)" by (rule l)
  qed (use wf t1 ns in \<open>simp_all add: lh_wf_def\<close>)
  moreover have "map (member_at ?t) (xs @ ys) = map (member_at t) (xs @ ys)"
  proof (rule map_cong [OF refl])
    fix m assume "m \<in> set (xs @ ys)"
    then have "m \<noteq> n" unfolding sub by blast
    then show "member_at ?t m = member_at t m" by (intro member_at_cong) (simp_all add: k' v')
  qed
  moreover have "filter (\<lambda>(k', _). k' \<noteq> k) ms = map (member_at t) (xs @ ys)"
    using filter_members [OF distinct_members [OF hm], of "map (member_at t) xs" k "lh_v (ent t n)" "map (member_at t) ys"]
    by (simp add: ms ns member_at_key [OF k])
  ultimately have "holds_members ?t (xs @ ys) (filter (\<lambda>(k', _). k' \<noteq> k) ms)" by (simp add: holds_members_def)
  moreover have "lh_table_delete_entry t n = Inr (?t, 0)" using t1(1) k by (simp add: lh_table_delete_entry_def)
  moreover have "Suc (lh_count ?t) = lh_count t" using t1(4) lh_wfD(3) [OF wf] ns by simp
  ultimately show ?thesis using t1(3,5) k' by (intro exI [of _ ?t] exI [of _ "xs @ ys"]) simp
qed

subsection \<open>Growth\<close>

text \<open>The counters of statistics play no part.\<close>

lemma holds_members_cong:
  assumes "holds_members t ns ms" and "lh_size t' = lh_size t" and "lh_count t' = lh_count t"
    and "head t' = head t" and "tail t' = tail t" and "table t' = table t" and "hash_fn t' = hash_fn t"
    and "equal_fn t' = equal_fn t"
  shows "holds_members t' ns ms"
proof -
  have "pos t' = pos t" "member_at t' = member_at t" using assms by (simp_all add: fun_eq_iff pos_def member_at_def)
  with assms show ?thesis by (simp add: holds_members_def lh_wf_def linked_def reach_def)
qed

lemma over_load_inserts [simp]: "over_load (t\<lparr>inserts := i\<rparr>) = over_load t"
  by (simp add: over_load_def)

lemma insert_no_growth:
  "\<not> over_load t \<Longrightarrow> lh_table_insert (Suc f) t k v = put_entry (t\<lparr>inserts := inserts t + 1\<rparr>) k v"
  by (simp add: put_entry_def)

lemma resize_loop_wf:
  assumes hm: "holds_members t (xs @ ys) ms" and "holds_members nt js (map (member_at t) xs)"
    and "2 * length (xs @ ys) \<le> lh_size nt" and "lh_size nt \<le> 2 ^ 31" and "no_freed nt"
    and "length ys + 2 \<le> f"
  shows "\<exists>t' js'. resize_loop f t (head_opt ys) nt = Inr t' \<and> holds_members t' js' ms
    \<and> lh_size t' = lh_size nt \<and> hash_fn t' = hash_fn nt \<and> no_freed t'"
  using assms
proof (induction ys arbitrary: xs nt js f)
  case Nil
  then have "ms = map (member_at t) xs" by (simp add: holds_members_def)
  with Nil show ?case by (cases f) auto
next
  case (Cons y ys)
  obtain g where f: "f = Suc (Suc g)" using Cons.prems(6) by (cases f; cases "f - 1") auto
  have wf: "lh_wf t (xs @ y # ys)" and ms: "ms = map (member_at t) (xs @ y # ys)"
    using Cons.prems(1) by (simp_all add: holds_members_def)
  have "is_key (lh_k (ent t y))" using lh_wfD(6) [OF wf, of y] by simp
  then obtain k where k: "lh_k (ent t y) = Key k" by (auto simp: is_key_iff)
  have "lh_next (ent t y) = head_opt ys"
    using lh_wfD(5) [OF wf] by (auto simp: linked_def dseg_append)
  let ?nt = "nt\<lparr>inserts := inserts nt + 1\<rparr>"
  have nwf: "holds_members ?nt js (map (member_at t) xs)"
    by (rule holds_members_cong [OF Cons.prems(2)]) simp_all
  then have js: "length js = length xs" "lh_count nt = length js" "0 < lh_size nt"
    using map_eq_imp_length_eq by (force simp: holds_members_def lh_wf_def)+
  have "\<not> over_load nt"
    using Cons.prems(3,4) js by (intro over_load_bounds(2)) simp_all
  moreover have "length js < lh_size ?nt" using js Cons.prems(3) by simp
  moreover have "k \<notin> fst ` set (map (member_at t) xs)"
    using distinct_members [OF Cons.prems(1)] member_at_key [OF k] by (auto simp: ms)
  ultimately obtain t1 m where t1: "put_entry ?nt k (lh_v (ent t y)) = Inr t1"
      "holds_members t1 (js @ [m]) (map (member_at t) xs @ [(k, lh_v (ent t y))])"
      "lh_size t1 = lh_size nt" "hash_fn t1 = hash_fn nt"
      "\<forall>i. lh_k (ent t1 i) = (if i = m then Key k else lh_k (ent ?nt i))"
    using put_entry_wf [OF nwf, of k "lh_v (ent t y)"] by auto
  have "no_freed t1" using t1(3,5) Cons.prems(5) by (auto simp: no_freed_def)
  moreover have "holds_members t1 (js @ [m]) (map (member_at t) (xs @ [y]))"
    using t1(2) by (simp add: member_at_key [OF k])
  moreover have "length ys + 2 \<le> Suc g" using Cons.prems(6) f by simp
  ultimately have "\<exists>t' js'. resize_loop (Suc g) t (head_opt ys) t1 = Inr t' \<and> holds_members t' js' ms
    \<and> lh_size t' = lh_size t1 \<and> hash_fn t' = hash_fn t1 \<and> no_freed t'"
    using Cons.prems t1(3) by (intro Cons.IH [of "xs @ [y]"]) simp_all
  moreover have "lh_table_insert (Suc g) nt k (lh_v (ent t y)) = Inr t1"
    using insert_no_growth [OF \<open>\<not> over_load nt\<close>, of g k] t1(1) by simp
  ultimately show ?case
    using f k t1(3,4) \<open>lh_next (ent t y) = head_opt ys\<close> by (simp del: lh_table_insert.simps)
qed

subsection \<open>Insertion and the members of an object\<close>

text \<open>The one freed entry of a table lies on the way of the key, so that an insertion takes it.\<close>

definition spare :: "('k, 'v) lh_table \<Rightarrow> 'k \<Rightarrow> bool" where
  "spare t k \<longleftrightarrow> (\<exists>d < lh_size t. lh_k (ent t (pos t k d)) = LH_FREED
     \<and> (\<forall>j<d. is_key (lh_k (ent t (pos t k j)))) \<and> (\<forall>n < lh_size t. lh_k (ent t n) = LH_FREED \<longrightarrow> n = pos t k d))"

lemma put_entry_no_freed:
  assumes "no_freed t \<or> spare t k" and "lh_size t' = lh_size t"
    and "\<forall>m. lh_k (ent t' m) = (if m = n then Key k else lh_k (ent t m))"
    and "\<not> is_key (lh_k (ent t n))" and "pos t k d = n" and "\<forall>j<d. is_key (lh_k (ent t (pos t k j)))"
  shows "no_freed t'"
  using assms(1)
proof
  assume "spare t k"
  then obtain d0 where d0: "lh_k (ent t (pos t k d0)) = LH_FREED"
    "\<forall>j<d0. is_key (lh_k (ent t (pos t k j)))" "\<forall>n < lh_size t. lh_k (ent t n) = LH_FREED \<longrightarrow> n = pos t k d0"
    by (auto simp: spare_def)
  have "\<not> d < d0" "\<not> d0 < d" using assms(4-6) d0(1,2) by auto
  then have "d0 = d" by simp
  with d0(3) assms show ?thesis by (auto simp: no_freed_def)
qed (use assms in \<open>auto simp: no_freed_def\<close>)

lemma insert_fuel: "lh_table_insert (n + 4) = lh_table_insert (Suc (Suc (n + 2)))"
  by (simp add: numeral_eq_Suc del: lh_table_insert.simps)

lemma resize_loop_inserts: "resize_loop f (t\<lparr>inserts := i\<rparr>) e nt = resize_loop f t e nt"
proof (induction f arbitrary: e nt)
  case (Suc f)
  then have "resize_loop f (t\<lparr>inserts := i\<rparr>) e' = resize_loop f t e'" for e' by blast
  then show ?case
    by (cases e) (simp_all del: lh_table_insert.simps split: lh_key.split)
qed simp

lemma insert_wf:
  assumes hm: "holds_members t ns ms" and new: "k \<notin> fst ` set ms"
    and load: "4 * lh_count t \<le> 3 * lh_size t + 4" and sz: "8 \<le> lh_size t" "lh_size t \<le> 2 ^ 29"
    and nf: "no_freed t \<or> spare t k"
  shows "\<exists>t' ns'. lh_insert t k v = Inr t' \<and> holds_members t' ns' (ms @ [(k, v)]) \<and> no_freed t'
    \<and> 4 * lh_count t' \<le> 3 * lh_size t' + 4
    \<and> (lh_size t' = lh_size t \<or> lh_size t' = 2 * lh_size t \<and> lh_size t < 2 * lh_count t)"
proof -
  have wf: "lh_wf t ns" using hm by (simp add: holds_members_def)
  note c = lh_wfD(1,3) [OF wf]
  have lb: "\<not> over_load t \<Longrightarrow> 4 * lh_count t \<le> 3 * lh_size t" "over_load t \<Longrightarrow> lh_size t < 2 * lh_count t"
  proof -
    have "lh_size t \<le> 2 ^ 31" "lh_count t \<le> 2 ^ 31" using load sz by simp_all
    note b = over_load_bounds [OF c(1) this]
    show "\<not> over_load t \<Longrightarrow> 4 * lh_count t \<le> 3 * lh_size t" by (rule b(1))
    show "over_load t \<Longrightarrow> lh_size t < 2 * lh_count t" using b(2) not_less by blast
  qed
  let ?t = "t\<lparr>inserts := inserts t + 1\<rparr>"
  show ?thesis
  proof (cases "over_load t")
    case False
    have hm': "holds_members ?t ns ms" by (rule holds_members_cong [OF hm]) simp_all
    have "length ns < lh_size ?t" using lb(1) [OF False] c by simp
    from put_entry_wf [OF hm' this new, of v] obtain t' n d where t': "put_entry ?t k v = Inr t'"
      "holds_members t' (ns @ [n]) (ms @ [(k, v)])" "lh_size t' = lh_size ?t"
      "\<forall>m. lh_k (ent t' m) = (if m = n then Key k else lh_k (ent ?t m))"
      "\<not> is_key (lh_k (ent ?t n))" "pos ?t k d = n" "\<forall>j<d. is_key (lh_k (ent ?t (pos ?t k j)))" by blast
    have "no_freed ?t \<or> spare ?t k" using nf by (auto simp: no_freed_def spare_def pos_def)
    then have "no_freed t'" using t' by (intro put_entry_no_freed [of ?t k t' n d]) simp_all
    moreover have "lh_count t' = Suc (length ns)" using t'(2) by (simp add: holds_members_def lh_wf_def)
    then have "4 * lh_count t' \<le> 3 * lh_size t' + 4" using lb(1) [OF False] c t'(3) by simp
    moreover have "lh_insert t k v = Inr t'"
      unfolding lh_insert_def numeral_eq_Suc add_Suc_right using t'(1) by (subst insert_no_growth [OF False])
    ultimately show ?thesis using t'(2,3) by auto
  next
    case True
    let ?new = "lh_table_new (lh_size t * 2) (hash_fn t) (equal_fn t)"
    have "holds_members t ([] @ ns) ms" using hm by simp
    moreover have "holds_members ?new [] (map (member_at t) [])"
      using lh_wf_new [of "lh_size t * 2" "equal_fn t" "hash_fn t"] c(1) lh_wfD(4) [OF wf] by simp
    moreover have "2 * length ([] @ ns) \<le> lh_size ?new" "lh_size ?new \<le> 2 ^ 31"
      using load sz c by (simp_all add: lh_table_new_def)
    moreover have "no_freed ?new" by (simp add: no_freed_def lh_table_new_def empty_entry_def)
    moreover have "length ns + 2 \<le> lh_count t + 2" using c by simp
    ultimately obtain nt js where nt: "resize_loop (lh_count t + 2) t (head_opt ns) ?new = Inr nt"
      "holds_members nt js ms" "lh_size nt = lh_size t * 2" "hash_fn nt = hash_fn t" "no_freed nt"
      using resize_loop_wf [of t "[]" ns ms ?new "[]" "lh_count t + 2"] by (auto simp: lh_table_new_def)
    have "ms = map (member_at t) ns" "ms = map (member_at nt) js"
      using hm nt(2) unfolding holds_members_def by blast+
    then have len: "length ns = length ms" "length js = length ms" by (metis length_map)+
    have "head t = head_opt ns" using lh_wfD(5) [OF wf] by (simp add: linked_def)
    then have rl: "resize_loop (lh_count t + 2) ?t (head ?t) ?new = Inr nt"
      using nt(1) by (simp add: resize_loop_inserts del: resize_loop.simps)
    define t2 where "t2 = ?t\<lparr>table := table nt, lh_size := lh_size t * 2, head := head nt, tail := tail nt,
        resizes := resizes t + 1\<rparr>"
    have rs: "lh_table_resize (Suc (lh_count t + 2)) ?t (lh_size t * 2) = Inr t2"
      using rl by (simp add: t2_def del: resize_loop.simps)
    have eq: "lh_count nt = lh_count t" "equal_fn nt = equal_fn t"
    proof -
      show "lh_count nt = lh_count t" by (simp add: members_count [OF hm] members_count [OF nt(2)])
      have "lh_wf nt js" using nt(2) by (simp add: holds_members_def)
      then show "equal_fn nt = equal_fn t" using lh_wfD(4) [OF wf] by (simp add: lh_wfD(4))
    qed
    have hm2: "holds_members t2 js ms"
      by (rule holds_members_cong [OF nt(2)]) (simp_all add: t2_def nt(3,4) eq)
    have "length js < lh_size t2" using len c load sz by (simp add: t2_def)
    from put_entry_wf [OF hm2 this new, of v] obtain t' n where t': "put_entry t2 k v = Inr t'"
      "holds_members t' (js @ [n]) (ms @ [(k, v)])" "lh_size t' = lh_size t2"
      "\<forall>m. lh_k (ent t' m) = (if m = n then Key k else lh_k (ent t2 m))" by blast
    have "no_freed t'" using nt(3,5) t'(3,4) by (auto simp: no_freed_def t2_def)
    moreover have "lh_count t' = Suc (length ms)" by (simp add: members_count [OF t'(2)])
    then have "4 * lh_count t' \<le> 3 * lh_size t' + 4" using load c len sz t'(3) by (simp add: t2_def)
    moreover have "\<not> INT_MAX < 2 * int (lh_size t)" using sz(2) by (simp add: INT_MAX_def)
    then have "lh_insert t k v = Inr t'"
      using True rs t'(1) by (simp add: lh_insert_def put_entry_def insert_fuel del: lh_table_resize.simps)
    ultimately show ?thesis using t'(2,3) lb(2) [OF True] by (auto simp: t2_def)
  qed
qed

text \<open>\<^verbatim>\<open>json_object_object_add\<close> on the table: an entry of the same key is deleted
  first.\<close>

definition JSON_OBJECT_DEF_HASH_ENTRIES :: nat where "JSON_OBJECT_DEF_HASH_ENTRIES = 16"

definition object_add :: "('k, 'v) lh_table \<Rightarrow> 'k \<Rightarrow> 'v option \<Rightarrow> ('k, 'v) lh_table res" where
  "object_add t k v = rbind (lh_table_delete t k) (\<lambda>(t, _). lh_insert t k v)"

definition obj_ok :: "('k, 'v) lh_table \<Rightarrow> ('k \<times> 'v option) list \<Rightarrow> bool" where
  "obj_ok t ms \<longleftrightarrow> (\<exists>ns. holds_members t ns ms) \<and> no_freed t \<and> 4 * lh_count t \<le> 3 * lh_size t + 4
     \<and> 16 \<le> lh_size t \<and> lh_size t \<le> max 16 (4 * lh_count t)"

lemma obj_ok_new: "obj_ok (lh_kchar_table_new JSON_OBJECT_DEF_HASH_ENTRIES) []"
  using lh_wf_new [of 16 lh_char_equal lh_char_hash]
  by (auto simp: obj_ok_def lh_kchar_table_new_def JSON_OBJECT_DEF_HASH_ENTRIES_def no_freed_def
      lh_table_new_def empty_entry_def lh_char_equal_def fun_eq_iff)

lemma obj_ok_count: "obj_ok t ms \<Longrightarrow> lh_count t = length ms"
  by (auto simp: obj_ok_def members_count)

text \<open>An object has an empty entry, so that every probe ends.\<close>

lemma obj_ok_empty:
  assumes "obj_ok t ms" and "holds_members t ns ms"
  obtains n where "n < lh_size t" and "lh_k (ent t n) = LH_EMPTY"
proof -
  have wf: "lh_wf t ns" using assms(2) by (simp add: holds_members_def)
  have "length ns < lh_size t"
    using assms(1) lh_wfD(3) [OF wf] by (auto simp: obj_ok_def)
  from insert_probe_wf [OF wf this] obtain n where "n < lh_size t" "\<not> is_key (lh_k (ent t n))" by blast
  moreover have "lh_k (ent t n) \<noteq> LH_FREED" using assms(1) calculation by (auto simp: obj_ok_def no_freed_def)
  ultimately show ?thesis using that by (cases "lh_k (ent t n)") auto
qed

lemma obj_lookup_entry:
  assumes ok: "obj_ok t ms"
  shows "k \<notin> fst ` set ms \<Longrightarrow> lh_table_lookup_entry t k = Inr (t\<lparr>lookups := lookups t + 1\<rparr>, None)"
    and "holds_members t ns ms \<Longrightarrow> k \<in> fst ` set ms \<Longrightarrow> \<exists>n \<in> set ns. lh_k (ent t n) = Key k
      \<and> lh_table_lookup_entry t k = Inr (t\<lparr>lookups := lookups t + 1\<rparr>, Some n)"
proof -
  obtain ns' where hm: "holds_members t ns' ms" using ok by (auto simp: obj_ok_def)
  then have wf: "lh_wf t ns'" by (simp add: holds_members_def)
  obtain m where m: "m < lh_size t" "lh_k (ent t m) = LH_EMPTY" using obj_ok_empty [OF ok hm] .
  show "lh_table_lookup_entry t k = Inr (t\<lparr>lookups := lookups t + 1\<rparr>, None)" if "k \<notin> fst ` set ms"
    using that members_keys [OF hm] m by (intro lookup_entry_wf(2) [OF wf]) auto
  show "\<exists>n \<in> set ns. lh_k (ent t n) = Key k
      \<and> lh_table_lookup_entry t k = Inr (t\<lparr>lookups := lookups t + 1\<rparr>, Some n)"
    if hk: "holds_members t ns ms" "k \<in> fst ` set ms"
  proof -
    have "lh_wf t ns" using hk(1) by (simp add: holds_members_def)
    moreover obtain n where "n \<in> set ns" "lh_k (ent t n) = Key k" using hk members_keys [OF hk(1), of k] by blast
    ultimately show ?thesis using lookup_entry_wf(1) [of t ns n k] by blast
  qed
qed

lemma filter_absent: "k \<notin> fst ` set ms \<Longrightarrow> filter (\<lambda>(k', _). k' \<noteq> k) ms = ms"
  by (auto simp: filter_id_conv rev_image_eqI)

lemma object_add_ok:
  assumes ok: "obj_ok t ms" and room: "length ms < 2 ^ 26"
  shows "\<exists>t'. object_add t k v = Inr t' \<and> obj_ok t' (filter (\<lambda>(k', _). k' \<noteq> k) ms @ [(k, v)])"
proof -
  obtain ns where hm: "holds_members t ns ms" using ok by (auto simp: obj_ok_def)
  note b = ok [unfolded obj_ok_def]
  let ?t = "t\<lparr>lookups := lookups t + 1\<rparr>"
  have hm1: "holds_members ?t ns ms" by (rule holds_members_cong [OF hm]) simp_all
  have nf1: "no_freed ?t" using b by (simp add: no_freed_def)
  let ?ms = "filter (\<lambda>(k', _). k' \<noteq> k) ms"
  have "\<exists>t1 r ns1. lh_table_delete t k = Inr (t1, r) \<and> holds_members t1 ns1 ?ms \<and> (no_freed t1 \<or> spare t1 k)
      \<and> lh_size t1 = lh_size t \<and> (lh_count t1 = lh_count t \<or> Suc (lh_count t1) = lh_count t)"
  proof (cases "k \<in> fst ` set ms")
    case False
    then show ?thesis using hm1 nf1 obj_lookup_entry(1) [OF ok False]
      by (intro exI [of _ ?t] exI [of _ "- 1"] exI [of _ ns]) (simp add: lh_table_delete_def filter_absent)
  next
    case True
    obtain n where n: "n \<in> set ns" "lh_k (ent t n) = Key k"
      "lh_table_lookup_entry t k = Inr (?t, Some n)" using obj_lookup_entry(2) [OF ok hm True] by blast
    obtain t1 ns1 where t1: "lh_table_delete_entry ?t n = Inr (t1, 0)" "holds_members t1 ns1 ?ms"
      "lh_size t1 = lh_size t" "hash_fn t1 = hash_fn t" "Suc (lh_count t1) = lh_count t"
      "\<forall>m. lh_k (ent t1 m) = (if m = n then LH_FREED else lh_k (ent t m))"
      using delete_entry_wf [OF hm1 n(1), of k] n(2) by auto
    have wf: "lh_wf t ns" using hm by (simp add: holds_members_def)
    obtain d where d: "d < lh_size t" "pos t k d = n" "\<forall>j<d. lh_k (ent t (pos t k j)) \<noteq> LH_EMPTY"
      using lh_wfD(8) [OF wf n(1,2)] by (auto simp: reach_def)
    have p: "pos t1 k = pos t k" using t1(3,4) by (simp add: fun_eq_iff pos_def)
    have "is_key (lh_k (ent t1 (pos t k j)))" if "j < d" for j
    proof -
      have "pos t k j \<noteq> n" using pos_inj [of t k j d] d that by auto
      moreover have "lh_k (ent t (pos t k j)) \<noteq> LH_FREED"
        using b pos_less [OF lh_wfD(1) [OF wf]] by (auto simp: no_freed_def)
      ultimately show ?thesis using d(3) that t1(6) by (cases "lh_k (ent t (pos t k j))") auto
    qed
    then have "spare t1 k"
      unfolding spare_def p using d t1(3,6) b by (intro exI [of _ d]) (auto simp: no_freed_def)
    with t1 n(3) show ?thesis
      by (intro exI [of _ t1] exI [of _ 0] exI [of _ ns1]) (simp add: lh_table_delete_def)
  qed
  then obtain t1 r ns1 where t1: "lh_table_delete t k = Inr (t1, r)" "holds_members t1 ns1 ?ms"
    "no_freed t1 \<or> spare t1 k" "lh_size t1 = lh_size t" "lh_count t1 \<le> lh_count t" "lh_count t \<le> Suc (lh_count t1)"
    by fastforce
  have "k \<notin> fst ` set ?ms" by auto
  moreover have c: "lh_count t = length ms" using ok by (rule obj_ok_count)
  then have "4 * lh_count t1 \<le> 3 * lh_size t1 + 4" "8 \<le> lh_size t1" "lh_size t1 \<le> 2 ^ 29"
    using b t1(4,5) room unfolding max_def by (simp_all split: if_splits)
  ultimately obtain t' ns' where t': "lh_insert t1 k v = Inr t'" "holds_members t' ns' (?ms @ [(k, v)])" "no_freed t'"
    "4 * lh_count t' \<le> 3 * lh_size t' + 4"
    "lh_size t' = lh_size t1 \<or> lh_size t' = 2 * lh_size t1 \<and> lh_size t1 < 2 * lh_count t1"
    using insert_wf [OF t1(2) _ _ _ _ t1(3), of v] by blast
  have "lh_count t' = Suc (lh_count t1)"
    by (simp add: members_count [OF t1(2)] members_count [OF t'(2)])
  then have "obj_ok t' (?ms @ [(k, v)])" using t' t1(4-6) b by (auto simp: obj_ok_def)
  with t1(1) t'(1) show ?thesis by (auto simp: object_add_def)
qed

lemma object_lookup_ok:
  assumes ok: "obj_ok t ms"
  shows "\<exists>t'. lh_table_lookup t k = Inr (t', case map_of ms k of Some v \<Rightarrow> v | None \<Rightarrow> None)"
proof -
  obtain ns where hm: "holds_members t ns ms" using ok by (auto simp: obj_ok_def)
  show ?thesis
  proof (cases "k \<in> fst ` set ms")
    case False
    with obj_lookup_entry(1) [OF ok False] show ?thesis
      by (simp add: lh_table_lookup_def map_of_eq_None_iff [THEN iffD2])
  next
    case True
    obtain n where n: "n \<in> set ns" "lh_k (ent t n) = Key k"
      "lh_table_lookup_entry t k = Inr (t\<lparr>lookups := lookups t + 1\<rparr>, Some n)"
      using obj_lookup_entry(2) [OF ok hm True] by blast
    have "(k, lh_v (ent t n)) \<in> set ms"
      using hm n(1) member_at_key [OF n(2)] by (force simp: holds_members_def)
    then have "map_of ms k = Some (lh_v (ent t n))" using distinct_members [OF hm] by simp
    with n(3) show ?thesis by (simp add: lh_table_lookup_def)
  qed
qed

lemma foreach_from_dseg:
  assumes "dseg (ent t) p ns None" and "length ns \<le> f"
  shows "foreach_from f t (head_opt ns) = Inr (map (\<lambda>n. (lh_k (ent t n), lh_v (ent t n))) ns)"
  using assms
proof (induction ns arbitrary: p f)
  case (Cons n ns)
  then obtain g where f: "f = Suc g" "length ns \<le> g" by (cases f) auto
  have "lh_next (ent t n) = head_opt ns" using Cons.prems(1) by auto
  moreover have "foreach_from g t (head_opt ns) = Inr (map (\<lambda>n. (lh_k (ent t n), lh_v (ent t n))) ns)"
    using Cons f(2) by auto
  ultimately show ?case using f(1) by simp
qed simp

lemma object_foreach_ok:
  assumes ok: "obj_ok t ms"
  shows "lh_foreach t = Inr (map (\<lambda>(k, v). (Key k, v)) ms)"
proof -
  obtain ns where hm: "holds_members t ns ms" using ok by (auto simp: obj_ok_def)
  then have wf: "lh_wf t ns" and ms: "ms = map (member_at t) ns" by (simp_all add: holds_members_def)
  have "head t = head_opt ns" "dseg (ent t) None ns None" using lh_wfD(5) [OF wf] by (simp_all add: linked_def)
  moreover have "length ns \<le> lh_size t"
    using ok lh_wfD(3) [OF wf] by (auto simp: obj_ok_def)
  moreover have "(\<lambda>(k, v). (Key k, v)) (member_at t n) = (lh_k (ent t n), lh_v (ent t n))" if "n \<in> set ns" for n
  proof -
    have "is_key (lh_k (ent t n))" using that lh_wfD(6) [OF wf] by blast
    then show ?thesis by (auto simp: is_key_iff member_at_key)
  qed
  ultimately show ?thesis by (simp add: lh_foreach_def foreach_from_dseg ms)
qed

subsection \<open>The interface of an ordered table\<close>

text \<open>What \<^verbatim>\<open>json_object.c\<close> relies on: adding replaces the member of the same name and
  puts the new one last, a look-up ends with the value or the null pointer, the iteration
  sees the members in order.\<close>

definition put_member :: "'k \<Rightarrow> 'v option \<Rightarrow> ('k \<times> 'v option) list \<Rightarrow> ('k \<times> 'v option) list" where
  "put_member k v ms = filter (\<lambda>(k', _). k' \<noteq> k) ms @ [(k, v)]"

definition find_member :: "'k \<Rightarrow> ('k \<times> 'v option) list \<Rightarrow> 'v option" where
  "find_member k ms = (case map_of ms k of Some v \<Rightarrow> v | None \<Rightarrow> None)"

locale ordered_table =
  fixes empty :: 't and add :: "'t \<Rightarrow> 'k \<Rightarrow> 'v option \<Rightarrow> 't res" and lookup :: "'t \<Rightarrow> 'k \<Rightarrow> ('t \<times> 'v option) res"
    and foreach :: "'t \<Rightarrow> ('k lh_key \<times> 'v option) list res"
    and ok :: "'t \<Rightarrow> ('k \<times> 'v option) list \<Rightarrow> bool" and room :: nat
  assumes ok_empty: "ok empty []"
    and add_ok: "ok t ms \<Longrightarrow> length ms < room \<Longrightarrow> \<exists>t'. add t k v = Inr t' \<and> ok t' (put_member k v ms)"
    and lookup_ok: "ok t ms \<Longrightarrow> \<exists>t'. lookup t k = Inr (t', find_member k ms)"
    and foreach_ok: "ok t ms \<Longrightarrow> foreach t = Inr (map (\<lambda>(k, v). (Key k, v)) ms)"
begin

lemma adds_from:
  "ok t ms \<Longrightarrow> length ms + length kvs \<le> room \<Longrightarrow>
   \<exists>t'. rfold (\<lambda>(k, v) t. add t k v) kvs t = Inr t' \<and> ok t' (fold (\<lambda>(k, v). put_member k v) kvs ms)"
proof (induction kvs arbitrary: t ms)
  case (Cons kv kvs)
  obtain k v where kv: "kv = (k, v)" by (cases kv)
  obtain t1 where t1: "add t k v = Inr t1" "ok t1 (put_member k v ms)"
    using add_ok [of t ms k v] Cons.prems by auto
  have "length (put_member k v ms) \<le> Suc (length ms)" by (simp add: put_member_def le_SucI)
  with Cons.IH [OF t1(2)] Cons.prems t1(1) kv show ?case by auto
qed simp

lemma adds:
  "length kvs \<le> room \<Longrightarrow>
   \<exists>t'. rfold (\<lambda>(k, v) t. add t k v) kvs empty = Inr t' \<and> ok t' (fold (\<lambda>(k, v). put_member k v) kvs [])"
  using adds_from [OF ok_empty, of kvs] by simp

end

interpretation lh: ordered_table "lh_kchar_table_new JSON_OBJECT_DEF_HASH_ENTRIES" object_add lh_table_lookup
    lh_foreach obj_ok "2 ^ 26"
  by unfold_locales
    (simp_all add: obj_ok_new object_add_ok object_lookup_ok object_foreach_ok put_member_def find_member_def)

subsection \<open>Properties\<close>

definition json_members :: "(cstring \<times> json option) list \<Rightarrow> (cstring \<times> json) list" where
  "json_members ms = map (\<lambda>(k, v). (k, slot v)) ms"

lemma json_members_put:
  "json_object_object_add (JObject (json_members ms)) k (slot v) = Inr (JObject (json_members (put_member k v ms)))"
proof -
  have "members_delete k (json_members ms) = json_members (filter (\<lambda>(k', _). k' \<noteq> k) ms)"
    by (induction ms) (auto simp: members_delete_def json_members_def)
  then show ?thesis by (simp add: json_object_object_add_def put_member_def json_members_def)
qed

lemma json_members_adds:
  "rfold (\<lambda>(k, v) j. json_object_object_add j k (slot v)) kvs (JObject (json_members ms)) =
   Inr (JObject (json_members (fold (\<lambda>(k, v). put_member k v) kvs ms)))"
  by (induction kvs arbitrary: ms) (auto simp: json_members_put)

lemma json_members_get:
  "json_object_object_get (JObject (json_members ms)) k = Inr (slot (find_member k ms))"
  by (induction ms) (auto simp: json_object_object_get_def members_lookup_def json_members_def find_member_def slot_def)

text \<open>
  C4: the hash table behind a JSON object refines its list of members: whatever names are added
  (below 2 to the 26 of them, repeated or not), the probes end, the table grows as
  often as it must, and then the iteration sees, and every look-up finds, what the list of
  the JSON value has; a name that is not there gives the null pointer.
\<close>

theorem link_hash_implements_object:
  assumes "length kvs \<le> 2 ^ 26"
  shows "\<exists>t ms. rfold (\<lambda>(k, v) t. object_add t k v) kvs (lh_kchar_table_new JSON_OBJECT_DEF_HASH_ENTRIES) = Inr t
    \<and> rfold (\<lambda>(k, v) j. json_object_object_add j k (slot v)) kvs (JObject []) = Inr (JObject (json_members ms))
    \<and> lh_foreach t = Inr (map (\<lambda>(k, v). (Key k, v)) ms)
    \<and> (\<forall>k. \<exists>t' p. lh_table_lookup t k = Inr (t', p)
         \<and> json_object_object_get (JObject (json_members ms)) k = Inr (slot p))"
proof -
  let ?ms = "fold (\<lambda>(k, v). put_member k v) kvs []"
  obtain t where t: "rfold (\<lambda>(k, v) t. object_add t k v) kvs (lh_kchar_table_new JSON_OBJECT_DEF_HASH_ENTRIES) = Inr t"
    "obj_ok t ?ms" using lh.adds [OF assms] by blast
  have "rfold (\<lambda>(k, v) j. json_object_object_add j k (slot v)) kvs (JObject []) = Inr (JObject (json_members ?ms))"
    using json_members_adds [of kvs "[]"] by (simp add: json_members_def)
  with t lh.foreach_ok [OF t(2)] lh.lookup_ok [OF t(2)] show ?thesis by (fastforce simp: json_members_get)
qed

definition sample_members :: "(cstring \<times> json option) list" where
  "sample_members = map (\<lambda>n. ([CHR ''k'', char_of (n mod 20 :: nat)], Some (JInt (int n)))) [0..<30]"

lemma link_hash_implements_object_witness:
  "\<exists>t ms. rfold (\<lambda>(k, v) t. object_add t k v) sample_members (lh_kchar_table_new JSON_OBJECT_DEF_HASH_ENTRIES) = Inr t
    \<and> rfold (\<lambda>(k, v) j. json_object_object_add j k (slot v)) sample_members (JObject []) = Inr (JObject (json_members ms))
    \<and> lh_foreach t = Inr (map (\<lambda>(k, v). (Key k, v)) ms)
    \<and> (\<forall>k. \<exists>t' p. lh_table_lookup t k = Inr (t', p)
         \<and> json_object_object_get (JObject (json_members ms)) k = Inr (slot p))"
  by (rule link_hash_implements_object) (simp add: sample_members_def)

text \<open>A member that comes and goes: its entry stays behind as a freed one.\<close>

definition add_delete :: "'k \<Rightarrow> ('k, 'v) lh_table \<Rightarrow> ('k, 'v) lh_table res" where
  "add_delete k t = rbind (lh_insert t k None) (\<lambda>t. rbind (lh_table_delete t k) (\<lambda>(t, _). Inr t))"

lemma add_delete_freed:
  assumes hm: "holds_members t [] []" and sz: "lh_size t \<le> 2 ^ 29"
  shows "\<exists>t'. add_delete k t = Inr t' \<and> holds_members t' [] [] \<and> lh_size t' = lh_size t \<and> hash_fn t' = hash_fn t
    \<and> (\<forall>m. lh_k (ent t' m) = (if m = hash_fn t k mod lh_size t then LH_FREED else lh_k (ent t m)))"
proof -
  have wf: "lh_wf t []" using hm by (simp add: holds_members_def)
  note c = lh_wfD(1,3) [OF wf]
  have nk: "\<not> is_key (lh_k (ent t m))" if "m < lh_size t" for m using lh_wfD(6) [OF wf, of m] that by simp
  let ?t = "t\<lparr>inserts := inserts t + 1\<rparr>"
  have hm': "holds_members ?t [] []" by (rule holds_members_cong [OF hm]) simp_all
  obtain t1 n d where t1: "put_entry ?t k None = Inr t1" "holds_members t1 [n] [(k, None)]"
    "lh_size t1 = lh_size t" "hash_fn t1 = hash_fn t"
    "\<forall>m. lh_k (ent t1 m) = (if m = n then Key k else lh_k (ent t m))" "pos t k d = n"
    "\<forall>j<d. is_key (lh_k (ent t (pos t k j)))"
    using put_entry_wf [OF hm', of k None] c(1) by (auto simp: pos_def)
  have "d = 0" using t1(7) nk [OF pos_less [OF c(1)]] by (cases d) auto
  then have n: "n = hash_fn t k mod lh_size t" using t1(6) by (simp add: pos_def)
  have "\<not> over_load t" using c sz by (intro over_load_bounds(2)) simp_all
  then have i: "lh_insert t k None = Inr t1"
    using t1(1) unfolding lh_insert_def insert_fuel by (subst insert_no_growth)
  have "lh_wf t1 [n]" using t1(2) by (simp add: holds_members_def)
  from lookup_entry_wf(1) [OF this, of n k] t1(5)
  have l: "lh_table_lookup_entry t1 k = Inr (t1\<lparr>lookups := lookups t1 + 1\<rparr>, Some n)" by simp
  have "holds_members (t1\<lparr>lookups := lookups t1 + 1\<rparr>) [n] [(k, None)]"
    by (rule holds_members_cong [OF t1(2)]) simp_all
  from delete_entry_wf [OF this, of n k] t1(5) obtain t' ns' where
    t': "lh_table_delete_entry (t1\<lparr>lookups := lookups t1 + 1\<rparr>) n = Inr (t', 0)" "holds_members t' ns' []"
      "lh_size t' = lh_size t1" "hash_fn t' = hash_fn t1"
      "\<forall>m. lh_k (ent t' m) = (if m = n then LH_FREED else lh_k (ent t1 m))" by auto
  have "ns' = []" using t'(2) by (simp add: holds_members_def)
  with i l t' t1(3-5) n show ?thesis
    by (intro exI [of _ t']) (simp add: add_delete_def lh_table_delete_def)
qed

lemma add_deletes_freed:
  assumes "holds_members t [] []" and "lh_size t \<le> 2 ^ 29"
  shows "\<exists>t'. rfold add_delete ks t = Inr t' \<and> holds_members t' [] [] \<and> lh_size t' = lh_size t
    \<and> (\<forall>m. lh_k (ent t' m) = (if m \<in> (\<lambda>k. hash_fn t k mod lh_size t) ` set ks then LH_FREED else lh_k (ent t m)))"
  using assms
proof (induction ks arbitrary: t)
  case (Cons k ks)
  obtain t1 where t1: "add_delete k t = Inr t1" "holds_members t1 [] []" "lh_size t1 = lh_size t" "hash_fn t1 = hash_fn t"
    "\<forall>m. lh_k (ent t1 m) = (if m = hash_fn t k mod lh_size t then LH_FREED else lh_k (ent t m))"
    using add_delete_freed [OF Cons.prems] by blast
  have "lh_size t1 \<le> 2 ^ 29" using t1(3) Cons.prems(2) by simp
  from Cons.IH [OF t1(2) this] t1 show ?case by auto
qed auto

text \<open>
  Sixteen names whose hashes differ in the low four bits, added to an object and deleted one
  after the other, leave its table without members and without an empty entry: from then on
  no look-up ends, however many turns it is given.
\<close>

theorem lookup_never_ends:
  assumes "(\<lambda>k. lh_char_hash k mod 16) ` set ks = {..<16}"
  shows "\<exists>t :: (cstring, 'v) lh_table. rfold add_delete ks (lh_kchar_table_new JSON_OBJECT_DEF_HASH_ENTRIES) = Inr t
    \<and> lh_foreach t = Inr []
    \<and> (\<forall>k turns. lookup_probe turns t k (hash_fn t k mod lh_size t) = Inl Endless_Loop)"
proof -
  let ?new = "lh_kchar_table_new JSON_OBJECT_DEF_HASH_ENTRIES :: (cstring, 'v) lh_table"
  have new: "holds_members ?new [] []" "lh_size ?new = 16" "hash_fn ?new = lh_char_hash"
    using lh_wf_new [of 16 lh_char_equal lh_char_hash]
    by (simp_all add: lh_kchar_table_new_def JSON_OBJECT_DEF_HASH_ENTRIES_def lh_table_new_def
        lh_char_equal_def fun_eq_iff)
  have "lh_size ?new \<le> 2 ^ 29" by (simp add: new(2))
  from add_deletes_freed [OF new(1) this, of ks, unfolded new assms]
  obtain t where t: "rfold add_delete ks ?new = Inr t" "holds_members t [] []" "lh_size t = 16"
    and m: "\<forall>m. lh_k (ent t m) = (if m \<in> {..<16} then LH_FREED else lh_k (ent ?new m))" by blast
  have t4: "\<forall>m < 16. lh_k (ent t m) = LH_FREED" using m by simp
  have wf: "lh_wf t []" using t(2) by (simp add: holds_members_def)
  have "lookup_probe turns t k (hash_fn t k mod lh_size t) = Inl Endless_Loop" for k turns
    using lookup_probe_endless [OF lh_wfD(1) [OF wf] lh_wfD(4) [OF wf], of k turns 0] t(3) t4 by (simp add: pos_def)
  moreover have "lh_foreach t = Inr []" using lh_wfD(5) [OF wf] by (simp add: lh_foreach_def linked_def)
  ultimately show ?thesis using t(1) by blast
qed

lemma lookup_never_ends_witness:
  "\<exists>t. rfold add_delete (map (\<lambda>n. [char_of n]) [97..<113::nat]) (lh_kchar_table_new JSON_OBJECT_DEF_HASH_ENTRIES) =
      Inr (t :: (cstring, nat) lh_table)
    \<and> lh_foreach t = Inr []
    \<and> (\<forall>k turns. lookup_probe turns t k (hash_fn t k mod lh_size t) = Inl Endless_Loop)"
proof (rule lookup_never_ends)
  have "map (\<lambda>k. lh_char_hash k mod 16) (map (\<lambda>n. [char_of n]) [97..<113]) =
      [2, 3, 4, 5, 6, 7, 8, 9, 10, 11, 12, 13, 14, 15, 0, 1]" by code_simp
  then have "set (map (\<lambda>k. lh_char_hash k mod 16) (map (\<lambda>n. [char_of n]) [97..<113])) =
      set [2, 3, 4, 5, 6, 7, 8, 9, 10, 11, 12, 13, 14, 15, 0, 1]" by (simp only:)
  also have "\<dots> = {..<16}" by (simp add: lessThan_nat_numeral numeral_eq_Suc insert_commute lessThan_Suc)
  finally show "(\<lambda>k. lh_char_hash k mod 16) ` set (map (\<lambda>n. [char_of n]) [97..<113]) = {..<16}"
    by (simp only: set_map)
qed

end
