(* ===== verification/PrintBuf.thy ===== *)
theory PrintBuf
  imports Json
begin

text \<open>
  The growing text buffer of the JSON printer and tokener (\<^verbatim>\<open>printbuf.c\<close>). A byte
  that was never written is \<open>None\<close>; a failing allocation is not modelled. The lemmas relate
  it to the list of characters that \<^verbatim>\<open>Json\<close> and \<^verbatim>\<open>Tokener\<close> use for it.
\<close>

record printbuf =
  buf :: "char option list"
  bpos :: nat
  bsize :: nat

definition printbuf_new :: printbuf where
  "printbuf_new = \<lparr>buf = replicate 32 None, bpos = 0, bsize = 32\<rparr>"

text \<open>Writing a block of bytes at a position of the buffer.\<close>

definition memcpy :: "nat \<Rightarrow> char list \<Rightarrow> char option list \<Rightarrow> char option list res" where
  "memcpy pos bs b = (if length b < pos + length bs then Inl Buffer_Overflow
     else Inr (take pos b @ map Some bs @ drop (pos + length bs) b))"

text \<open>The first \<^verbatim>\<open>size\<close> bytes of a block are appended.\<close>

definition printbuf_memappend :: "printbuf \<Rightarrow> char list \<Rightarrow> printbuf res" where
  "printbuf_memappend p bs =
     (let sz = length bs
      in rbind (if int (bsize p) - int (bpos p) \<le> int sz
                then if INT_MAX < 2 * int (bsize p) \<or> INT_MAX < int (bpos p + sz + 8) then Inl Signed_Overflow
                     else let new_size = max (bsize p * 2) (bpos p + sz + 8)
                          in Inr (p\<lparr>buf := buf p @ replicate (new_size - bsize p) None,
                                    bsize := new_size\<rparr>)
                else Inr p) (\<lambda>p.
         rbind (memcpy (bpos p) bs (buf p)) (\<lambda>b.
         rbind (memcpy (bpos p + sz) [CHR 0x00] b) (\<lambda>b.
         Inr (p\<lparr>buf := b, bpos := bpos p + sz\<rparr>)))))"

text \<open>The text that the format and its arguments make goes through a buffer of 128 bytes on the
  stack, or through one that is allocated; its length is what \<^verbatim>\<open>vsnprintf\<close>
  returns.\<close>

definition vsnprintf :: "nat \<Rightarrow> cstring \<Rightarrow> char list \<times> nat" where
  "vsnprintf n s = (take (n - 1) s @ [CHR 0x00], length s)"

definition sprintbuf_buf :: "printbuf \<Rightarrow> cstring \<Rightarrow> printbuf res" where
  "sprintbuf_buf p s =
     (let (b, sz) = vsnprintf 128 s
      in if 127 < sz then printbuf_memappend p s
         else if length b < sz then Inl Out_Of_Bounds else printbuf_memappend p (take sz b))"

definition printbuf_reset :: "printbuf \<Rightarrow> printbuf res" where
  "printbuf_reset p = rbind (memcpy 0 [CHR 0x00] (buf p)) (\<lambda>b. Inr (p\<lparr>buf := b, bpos := 0\<rparr>))"

text \<open>What \<^verbatim>\<open>tok->pb->buf\<close> is as a string: the bytes before the first zero byte,
  \<open>None\<close> when a byte that was never written, or no terminator, comes first.\<close>

fun cstr_at :: "char option list \<Rightarrow> cstring option" where
  "cstr_at [] = None"
| "cstr_at (None # b) = None"
| "cstr_at (Some c # b) = (if c = CHR 0x00 then Some [] else map_option ((#) c) (cstr_at b))"

subsection \<open>A buffer that holds a text\<close>

definition holds :: "printbuf \<Rightarrow> string \<Rightarrow> bool" where
  "holds p s \<longleftrightarrow> length (buf p) = bsize p \<and> bpos p = length s \<and> 0 < bsize p \<and> bpos p < bsize p
     \<and> take (bpos p) (buf p) = map Some s"

lemma holds_new: "holds printbuf_new []"
  by (simp add: holds_def printbuf_new_def)

lemma memcpy_ok:
  "pos + length bs \<le> length b \<Longrightarrow> memcpy pos bs b = Inr (take pos b @ map Some bs @ drop (pos + length bs) b)"
  by (simp add: memcpy_def)

lemma cstr_at_text: "is_cstring s \<Longrightarrow> cstr_at (map Some s @ Some (CHR 0x00) # b) = Some s"
  by (induction s) auto

text \<open>The bytes of a buffer after an append.\<close>

lemma append_room:
  assumes "length s + length bs < length b" and "take (length s) b = map Some s"
  shows "rbind (memcpy (length s) bs b) (\<lambda>b. rbind (memcpy (length s + length bs) [CHR 0x00] b) f) =
    f (map Some (s @ bs @ [CHR 0x00]) @ drop (Suc (length s + length bs)) b)"
  using assms by (simp add: memcpy_ok min_def)

lemma holdsI:
  "length (buf p) = bsize p \<Longrightarrow> bpos p = length s \<Longrightarrow> bpos p < bsize p \<Longrightarrow>
   take (bpos p) (buf p) = map Some s \<Longrightarrow> holds p s"
  by (simp add: holds_def)

lemma printbuf_memappend_holds:
  assumes "holds p s" and "length s + length bs < 2 ^ 30"
  shows "\<exists>p'. printbuf_memappend p bs = Inr p' \<and> holds p' (s @ bs)
    \<and> take (Suc (bpos p')) (buf p') = map Some (s @ bs @ [CHR 0x00])
    \<and> bsize p' \<le> max (bsize p) (2 * (length s + length bs + 4))"
proof -
  let ?n = "length s + length bs"
  define q where "q = (if bsize p \<le> ?n
      then p\<lparr>buf := buf p @ replicate (max (bsize p * 2) (?n + 8) - bsize p) None,
             bsize := max (bsize p * 2) (?n + 8)\<rparr> else p)"
  let ?b = "map Some (s @ bs @ [CHR 0x00]) @ drop (Suc ?n) (buf q)"
  have p: "length (buf p) = bsize p" "bpos p = length s" "bpos p < bsize p"
    "take (bpos p) (buf p) = map Some s" using assms(1) unfolding holds_def by auto
  then have p4: "take (length s) (buf p) = map Some s" by simp
  with p have q: "length (buf q) = bsize q" "bpos q = length s" "?n < bsize q"
    "take (length s) (buf q) = map Some s" "bsize q \<le> max (bsize p) (2 * (?n + 4))"
    by (auto simp: q_def)
  have "printbuf_memappend p bs = rbind (Inr q) (\<lambda>p. rbind (memcpy (bpos p) bs (buf p)) (\<lambda>b.
      rbind (memcpy (bpos p + length bs) [CHR 0x00] b) (\<lambda>b. Inr (p\<lparr>buf := b, bpos := bpos p + length bs\<rparr>))))"
    using p assms(2) by (auto simp: printbuf_memappend_def q_def INT_MAX_def Let_def)
  also have "\<dots> = Inr (q\<lparr>buf := ?b, bpos := ?n\<rparr>)"
    using q append_room [of s bs "buf q" "\<lambda>b. Inr (q\<lparr>buf := b, bpos := ?n\<rparr>)"] by simp
  finally have r: "printbuf_memappend p bs = Inr (q\<lparr>buf := ?b, bpos := ?n\<rparr>)" .
  moreover have "holds (q\<lparr>buf := ?b, bpos := ?n\<rparr>) (s @ bs)"
    using q by (intro holdsI) simp_all
  ultimately show ?thesis using q(5) by (intro exI [of _ "q\<lparr>buf := ?b, bpos := ?n\<rparr>"]) simp
qed

lemma printbuf_reset_holds:
  "holds p s \<Longrightarrow> \<exists>p'. printbuf_reset p = Inr p' \<and> holds p' []"
  by (cases "buf p") (auto simp: holds_def printbuf_reset_def memcpy_def)

lemma sprintbuf_buf_eq: "sprintbuf_buf p s = printbuf_memappend p s"
  by (simp add: sprintbuf_buf_def vsnprintf_def Let_def)

subsection \<open>The interface of a text that grows\<close>

locale text_sink =
  fixes append :: "'p \<Rightarrow> string \<Rightarrow> 'p res" and shows_text :: "'p \<Rightarrow> string \<Rightarrow> bool" and room :: nat
  assumes append_shows: "shows_text p s \<Longrightarrow> length s + length t < room \<Longrightarrow>
            \<exists>p'. append p t = Inr p' \<and> shows_text p' (s @ t)"
begin

lemma appends:
  "shows_text p s \<Longrightarrow> length s + length (concat ts) < room \<Longrightarrow>
   \<exists>p'. rfold (\<lambda>t p. append p t) ts p = Inr p' \<and> shows_text p' (s @ concat ts)"
proof (induction ts arbitrary: p s)
  case (Cons t ts)
  then obtain p1 where "append p t = Inr p1" "shows_text p1 (s @ t)"
    using append_shows [of p s t] by auto
  with Cons.IH [of p1 "s @ t"] Cons.prems show ?case by auto
qed simp

end

text \<open>The text and its terminator.\<close>

definition terminated :: "printbuf \<Rightarrow> string \<Rightarrow> bool" where
  "terminated p s \<longleftrightarrow> holds p s \<and> take (Suc (bpos p)) (buf p) = map Some (s @ [CHR 0x00])"

interpretation pb: text_sink sprintbuf_buf terminated "2 ^ 30"
proof unfold_locales
  fix p :: printbuf and s t :: string
  assume "terminated p s" and "length s + length t < 2 ^ 30"
  then show "\<exists>p'. sprintbuf_buf p t = Inr p' \<and> terminated p' (s @ t)"
    using printbuf_memappend_holds [of p s t] by (auto simp: sprintbuf_buf_eq terminated_def)
qed

lemma cstr_at_terminated: "terminated p s \<Longrightarrow> is_cstring s \<Longrightarrow> cstr_at (buf p) = Some s"
proof -
  assume t: "terminated p s" and s: "is_cstring s"
  have "buf p = map Some s @ Some (CHR 0x00) # drop (Suc (bpos p)) (buf p)"
    using t append_take_drop_id [of "Suc (bpos p)" "buf p"] by (simp add: terminated_def)
  then show ?thesis using cstr_at_text [OF s] by metis
qed

text \<open>
  C26: the print buffer implements the text the printer and the tokener append to: from a buffer
  that was reset, any sequence of formatted pieces (short ones through the buffer on the
  stack, long ones through the heap) of less than 2 to the 30 bytes together is written within
  the bytes allocated, and the buffer then reads, up to its terminator, as the pieces one after
  the other, which is the text that \<^verbatim>\<open>Json.sprintbuf\<close> makes.
\<close>

theorem printbuf_implements_text:
  assumes "holds p s" and "length (concat ts) < 2 ^ 30" and "is_cstring (concat ts)"
  shows "\<exists>p0 p'. printbuf_reset p = Inr p0 \<and> rfold (\<lambda>t p. sprintbuf_buf p t) ts p0 = Inr p'
    \<and> cstr_at (buf p') = Some (fold (\<lambda>t pb. sprintbuf pb t) ts []) \<and> bpos p' < bsize p'"
proof -
  obtain c b where "buf p = c # b" using assms(1) by (cases "buf p") (auto simp: holds_def)
  with assms(1) obtain p0 where p0: "printbuf_reset p = Inr p0" "terminated p0 []"
    by (auto simp: holds_def printbuf_reset_def memcpy_def terminated_def)
  obtain p' where p': "rfold (\<lambda>t p. sprintbuf_buf p t) ts p0 = Inr p'" "terminated p' (concat ts)"
    using pb.appends [OF p0(2), of ts] assms(2) by auto
  have "fold (\<lambda>t pb. sprintbuf pb t) ts u = u @ concat ts" for u
    by (induction ts arbitrary: u) (simp_all add: sprintbuf_def)
  with p0(1) p' cstr_at_terminated [OF p'(2) assms(3)] show ?thesis
    by (auto simp: terminated_def holds_def)
qed

lemma printbuf_implements_text_witness:
  "\<exists>p0 p'. printbuf_reset printbuf_new = Inr p0
    \<and> rfold (\<lambda>t p. sprintbuf_buf p t) [''{ '', replicate 200 (CHR ''a''), '' }''] p0 = Inr p'
    \<and> cstr_at (buf p') = Some (fold (\<lambda>t pb. sprintbuf pb t) [''{ '', replicate 200 (CHR ''a''), '' }''] [])
    \<and> bpos p' < bsize p'"
  by (rule printbuf_implements_text [OF holds_new]) (simp_all add: is_cstring_def)

end
