(* ===== verification/NumToA.thy ===== *)
theory NumToA
  imports CText
begin

text \<open>
  The number formatters that come with the Ganglia code (\<^verbatim>\<open>modp_numtoa.c\<close>): the
  digits are written from the last one on and the string is then reversed in place. They are
  compared with \<^verbatim>\<open>sprintf\<close>. The buffer of the caller is taken to be long enough.
\<close>

subsection \<open>Reversal in place\<close>

function strreverse :: "'a list \<Rightarrow> nat \<Rightarrow> nat \<Rightarrow> 'a list" where
  "strreverse s b e =
     (if b < e then strreverse (s[e := s ! b, b := s ! e]) (b + 1) (e - 1) else s)"
  by pat_completeness auto
termination
  by (relation "measure (\<lambda>(s, b, e). e - b)") auto

declare strreverse.simps [simp del]

lemma strreverse_segment:
  "strreverse (as @ ms @ cs) (length as) (length as + length ms - 1) = as @ rev ms @ cs"
proof (induction "length ms" arbitrary: as ms cs rule: less_induct)
  case less
  show ?case
  proof (cases "length ms < 2")
    case True
    then have "\<not> length as < length as + length ms - 1" by linarith
    moreover have "rev ms = ms" using True by (cases ms) auto
    ultimately show ?thesis by (subst strreverse.simps) (simp only: if_False)
  next
    case False
    then obtain x t where t: "ms = x # t" "t \<noteq> []" by (cases ms; cases "tl ms"; auto)
    then obtain ns y where "t = ns @ [y]" by (cases t rule: rev_cases) auto
    with t(1) have ms: "ms = x # ns @ [y]" by simp
    let ?s = "as @ ms @ cs" and ?e = "length as + length ms - 1"
    have e: "?e = length as + Suc (length ns)" by (simp add: ms)
    have "?s[?e := ?s ! length as, length as := ?s ! ?e] = (as @ [y]) @ ns @ (x # cs)"
      by (simp add: e ms nth_append list_update_append)
    moreover have "length as < ?e" unfolding e by simp
    ultimately have "strreverse ?s (length as) ?e = strreverse ((as @ [y]) @ ns @ (x # cs)) (length as + 1) (?e - 1)"
      by (simp only: strreverse.simps [of ?s "length as"] if_True)
    also have "\<dots> = (as @ [y]) @ rev ns @ (x # cs)"
      using less [of ns "as @ [y]" "x # cs"] by (simp add: e ms)
    finally show ?thesis by (simp add: ms)
  qed
qed

text \<open>\<^verbatim>\<open>strreverse(str, wstr - 1)\<close>\<close>

lemma strreverse_rev: "strreverse s 0 (length s - 1) = rev s"
  using strreverse_segment [of "[]" s "[]"] by simp

subsection \<open>Integers\<close>

text \<open>\<^verbatim>\<open>do *wstr++ = 48 + (value % 10); while (value /= 10);\<close> on a value that is not
  negative.\<close>

fun digits_loop :: "nat \<Rightarrow> string" where
  "digits_loop n = digit_char (n mod 10) # (if n div 10 = 0 then [] else digits_loop (n div 10))"

declare digits_loop.simps [simp del]

text \<open>The text is terminated and reversed.\<close>

definition finish :: "string \<Rightarrow> string" where
  "finish wstr = strreverse wstr 0 (length wstr - 1)"

lemma finish_rev: "finish wstr = rev wstr"
  unfolding finish_def by (rule strreverse_rev)

definition modp_itoa10 :: "32 word \<Rightarrow> string res" where
  "modp_itoa10 v =
     (let sign = sint v
      in rbind (if sign < 0 then if sign = - INT_MAX - 1 then Inl Signed_Overflow else Inr (- sign)
                else Inr sign) (\<lambda>v.
         let wstr = digits_loop (nat v)
         in Inr (finish (if sign < 0 then wstr @ ''-'' else wstr))))"

definition modp_uitoa10 :: "32 word \<Rightarrow> string" where
  "modp_uitoa10 v = finish (digits_loop (unat v))"

lemma rev_digits_loop: "rev (digits_loop n) = dec_of_nat n"
proof (induction n rule: digits_loop.induct)
  case (1 n)
  then show ?case
    by (cases "n < 10") (simp_all add: digits_loop.simps [of n] dec_of_nat_small dec_of_nat_step)
qed

subsection \<open>Floating-point numbers\<close>

definition pow10 :: "nat \<Rightarrow> fp" where
  "pow10 n = Fin (10 ^ n)"

text \<open>\<^verbatim>\<open>(uint32_t) d\<close>: the low half of the 64-bit conversion of x86-64, which gives
  \<open>-2^63\<close> out of range.\<close>

definition fp_to_uint32 :: "fp \<Rightarrow> nat" where
  "fp_to_uint32 a = (if fp_finite a \<and> \<bar>rat_trunc (fp_rat a)\<bar> < 2 ^ 63
     then nat (rat_trunc (fp_rat a) mod 2 ^ 32) else 0)"

text \<open>\<^verbatim>\<open>sprintf("%e")\<close> of a number above \<open>2^31\<close>.\<close>

fun log10_nat :: "nat \<Rightarrow> nat" where
  "log10_nat n = (if n < 10 then 0 else Suc (log10_nat (n div 10)))"

declare log10_nat.simps [simp del]

definition fmt_e_mag :: "rat \<Rightarrow> string" where
  "fmt_e_mag q =
     (let e = log10_nat (nat \<lfloor>q\<rfloor>);
          m = nat (round_even (q / 10 ^ (e - 6)));
          (m, e) = (if m = 10 ^ 7 then (10 ^ 6, e + 1) else (m, e));
          ds = dec_of_nat m
      in take 1 ds @ ''.'' @ drop 1 ds @ ''e+'' @ (if e < 10 then ''0'' else []) @ dec_of_nat e)"

definition fmt_e_large :: "fp \<Rightarrow> string" where
  "fmt_e_large a = (case a of
       PInf \<Rightarrow> ''inf'' | NInf \<Rightarrow> ''-inf'' | NaN \<Rightarrow> ''nan'' | NZero \<Rightarrow> ''-0.000000e+00''
     | Fin q \<Rightarrow> if q < 0 then ''-'' @ fmt_e_mag (- q) else fmt_e_mag q)"

text \<open>The digits of \<^verbatim>\<open>whole\<close>; it is negative only for a NaN, and a negative remainder
  is then added to the character \<open>0\<close>.\<close>

definition whole_loop :: "int \<Rightarrow> string" where
  "whole_loop w = (if 0 \<le> w then digits_loop (nat w)
     else map (\<lambda>c. char_of (96 - char_code c)) (digits_loop (nat (- w))))"

definition round_frac :: "nat \<Rightarrow> fp \<Rightarrow> nat \<Rightarrow> int \<Rightarrow> (nat \<times> int) res" where
  "round_frac p diff fr whole =
     (if fp_less (Fin (1 / 2)) diff then
        let fr = (fr + 1) mod 2 ^ 32
        in if \<not> fp_less (fp_of_int binary64 (int fr)) (pow10 p)
           then rbind (inc_int whole) (\<lambda>whole. Inr (0, whole)) else Inr (fr, whole)
      else if fp_eq diff (Fin (1 / 2)) \<and> (fr = 0 \<or> odd fr) then Inr ((fr + 1) mod 2 ^ 32, whole)
      else Inr (fr, whole))"

definition round_whole :: "fp \<Rightarrow> int \<Rightarrow> int res" where
  "round_whole v whole =
     (let diff = fp_sub binary64 v (fp_of_int binary64 whole)
      in if fp_less (Fin (1 / 2)) diff then inc_int whole
         else if fp_eq diff (Fin (1 / 2)) \<and> odd whole then inc_int whole else Inr whole)"

definition frac_text :: "nat \<Rightarrow> nat \<Rightarrow> string" where
  "frac_text p fr =
     (let wstr = digits_loop fr in wstr @ replicate (p - length wstr) (CHR ''0'') @ ''.'')"

definition modp_dtoa :: "fp \<Rightarrow> int \<Rightarrow> string res" where
  "modp_dtoa v0 p0 =
     (let p = nat (if p0 < 0 then 0 else if 9 < p0 then 9 else p0);
          neg = fp_less v0 (Fin 0);
          v = (if neg then fp_neg v0 else v0);
          whole = fp_to_int v;
          tmp = fp_mul binary64 (fp_sub binary64 v (fp_of_int binary64 whole)) (pow10 p);
          fr = fp_to_uint32 tmp;
          diff = fp_sub binary64 tmp (fp_of_int binary64 (int fr))
      in rbind (round_frac p diff fr whole) (\<lambda>(fr, whole).
         if fp_less (fp_int INT_MAX) v then Inr (fmt_e_large (if neg then fp_neg v else v))
         else rbind (if p = 0 then rbind (round_whole v whole) (\<lambda>whole. Inr ([], whole))
                     else Inr (frac_text p fr, whole)) (\<lambda>(wstr, whole).
              Inr (finish (wstr @ whole_loop whole @ (if neg then ''-'' else []))))))"

lemma fmt_e_large_example: "fmt_e_large (fp_int (- 2500000000)) = ''-2.500000e+09''"
  by code_simp

lemma round_fp_at:
  assumes "2 powi k \<le> q" and "q < 2 powi (k + 1)" and "- 1022 \<le> k" and "k < 1000"
    and "m = round_even (q / 2 powi (k - 52))"
  shows "round_fp binary64 q = Fin (of_int m * 2 powi (k - 52))"
proof -
  have q: "0 < q" using assms(1) powi_rat_pos [of k] by linarith
  have "ilog2 q = k" using assms(1,2) powi_le_ilog2 [OF q, of k] powi_le_ilog2 [OF q, of "k + 1"] by linarith
  then have u: "ulp_exp binary64 q = k - 52" using assms(3) by (simp add: ulp_exp_def)
  then have m: "round_mag binary64 q = of_int m * 2 powi (k - 52)" by (simp only: round_mag_def u Let_def assms(5))
  have "round_mag binary64 q \<le> 2 powi (k + 1)"
    using round_mag_le_pow [where F = binary64 and a = q and u = "k + 1"] assms q by (simp add: u)
  also have "\<dots> < 2 powi emax binary64" unfolding powi_less_iff using assms(4) by simp
  finally have lt: "round_mag binary64 q < 2 powi emax binary64" .
  have "2 powi k \<le> round_mag binary64 q"
    using round_mag_ge_pow [where F = binary64 and a = q and u = k] assms q by (simp add: u)
  then have "0 < round_mag binary64 q" using powi_rat_pos [of k] by linarith
  with lt q show ?thesis by (simp add: round_fp_def m Let_def del: fmt_sel)
qed

lemma round_even_near:
  assumes "of_int n - 1 / 2 < x" and "x < of_int n + 1 / 2"
  shows "round_even x = n"
proof (cases "of_int n \<le> x")
  case True
  with assms have "\<lfloor>x\<rfloor> = n" by (intro floor_unique) auto
  with assms show ?thesis by (simp add: round_even_def Let_def)
next
  case False
  with assms have "\<lfloor>x\<rfloor> = n - 1" by (intro floor_unique) auto
  with assms show ?thesis by (simp add: round_even_def Let_def)
qed

lemma fp_sub_zero:
  assumes "representable binary64 q" and "q \<noteq> 0"
  shows "fp_sub binary64 (Fin q) (fp_of_int binary64 0) = Fin q"
proof -
  have "round_fp binary64 0 = Fin 0" by (simp add: round_fp_def)
  with assms show ?thesis by (simp add: fp_sub_def fp_of_int_def round_fp_exact [OF assms(1)])
qed

lemma double_095: "round_fp binary64 (95 / 100) = Fin (4278419646001971 / 2 ^ 52)"
proof -
  have "round_even (95 / 100 / 2 powi (- 1 - 52)) = 8556839292003942"
    by (rule round_even_near) (simp_all add: power_int_minus)
  with round_fp_at [of "- 1" "95 / 100"] show ?thesis by (simp add: power_int_minus)
qed

lemma tenfold_095: "round_fp binary64 (4278419646001971 / 2 ^ 52 * 10) = Fin (19 / 2)"
proof -
  have "round_even (4278419646001971 / 2 ^ 52 * 10 / 2 powi (3 - 52)) = 5348024557502464"
    by (rule round_even_near) (simp_all add: power_int_minus)
  with round_fp_at [of 3 "4278419646001971 / 2 ^ 52 * 10"] show ?thesis by (simp add: power_int_minus)
qed


text \<open>An integral value has no fraction to round.\<close>

lemma dtoa_parts:
  assumes "0 \<le> k" and "k \<le> INT_MAX"
  shows "fp_to_int (fp_int k) = k" "fp_sub binary64 (fp_int k) (fp_of_int binary64 k) = Fin 0"
proof -
  show "fp_to_int (fp_int k) = k"
    using assms by (simp add: fp_to_int_def fp_int_def fp_finite_def rat_trunc_def INT_MAX_def)
  have "fp_of_int binary64 k = fp_int k"
    using assms by (intro fp_of_int_exact) (simp_all add: INT_MAX_def)
  then show "fp_sub binary64 (fp_int k) (fp_of_int binary64 k) = Fin 0"
    using assms by (simp add: fp_sub_int INT_MAX_def) (simp add: fp_int_def)
qed

subsection \<open>Properties\<close>

text \<open>
  C36: the integer formatters are \<^verbatim>\<open>sprintf\<close>: \<^verbatim>\<open>modp_itoa10\<close>
  prints every \<^verbatim>\<open>int32_t\<close> but the least as \<^verbatim>\<open>%d\<close> does, and
  \<^verbatim>\<open>modp_uitoa10\<close> every \<^verbatim>\<open>uint32_t\<close> as \<^verbatim>\<open>%u\<close>;
  the least one overflows when its sign is changed.
\<close>

theorem modp_itoa10_is_sprintf:
  "modp_itoa10 v = (if sint v = - INT_MAX - 1 then Inl Signed_Overflow else Inr (dec_of_int (sint v)))
    \<and> modp_uitoa10 w = dec_of_nat (unat w)"
  by (auto simp: modp_itoa10_def modp_uitoa10_def finish_rev Let_def rev_digits_loop dec_of_int_def INT_MAX_def)

text \<open>
  \<^verbatim>\<open>modp_dtoa\<close> on an integral value of up to ten digits: the integer, and after
  a point as many zeros as decimals were asked for, at most nine.
\<close>

theorem modp_dtoa_integral:
  assumes "\<bar>k\<bar> \<le> INT_MAX"
  shows "modp_dtoa (fp_int k) p =
    Inr (dec_of_int k @ (if p \<le> 0 then [] else ''.'' @ replicate (nat (min p 9)) (CHR ''0'')))"
proof -
  define n where "n = nat (if p < 0 then 0 else if 9 < p then 9 else p)"
  have n: "n = (if p \<le> 0 then 0 else nat (min p 9))" by (auto simp: n_def)
  define w where "w = \<bar>k\<bar>"
  have w: "0 \<le> w" "w \<le> INT_MAX" using assms by (simp_all add: w_def)
  have neg: "fp_less (fp_int k) (Fin 0) \<longleftrightarrow> k < 0" by (simp add: fp_int_def)
  have v: "(if k < 0 then fp_neg (fp_int k) else fp_int k) = fp_int w"
    by (auto simp: w_def fp_int_def)
  have u: "fp_to_uint32 (Fin 0) = 0" by code_simp
  have "fp_mul binary64 (Fin 0) (pow10 n) = Fin 0"
    by (simp add: fp_mul_def pow10_def fp_is_inf_def fp_is_zero_def fp_zero_def)
  moreover have "fp_sub binary64 (Fin 0) (fp_of_int binary64 0) = Fin 0" by code_simp
  moreover have "round_frac n (Fin 0) 0 w = Inr (0, w)" by (simp add: round_frac_def fp_eq_def)
  moreover have "round_whole (fp_int w) w = Inr w" by (simp add: round_whole_def dtoa_parts [OF w] Let_def fp_eq_def)
  moreover have "\<not> fp_less (fp_int INT_MAX) (fp_int w)" using w by (simp add: fp_int_def)
  ultimately have "modp_dtoa (fp_int k) p =
      Inr (finish ((if n = 0 then [] else frac_text n 0) @ whole_loop w @ (if k < 0 then ''-'' else [])))"
    unfolding modp_dtoa_def neg n_def [symmetric] Let_def v
    by (simp add: dtoa_parts [OF w] u)
  also have "\<dots> = Inr (dec_of_int k @ (if n = 0 then [] else ''.'' @ replicate n (CHR ''0'')))"
  proof -
    have "rev (whole_loop w) = dec_of_nat (nat w)" using w(1) by (simp add: whole_loop_def rev_digits_loop)
    moreover have "rev (frac_text n 0) = ''.'' @ replicate n (CHR ''0'')" if "n \<noteq> 0"
    proof -
      have "digits_loop 0 = ''0''" by code_simp
      with that show ?thesis by (cases n) (simp_all add: frac_text_def replicate_append_same)
    qed
    ultimately show ?thesis by (auto simp: finish_rev dec_of_int_def w_def)
  qed
  finally show ?thesis unfolding n by (auto split: if_splits)
qed

lemma modp_dtoa_integral_witness:
  "modp_dtoa (fp_int (- 42)) 3 = Inr (dec_of_int (- 42) @ (if (3::int) \<le> 0 then [] else ''.'' @ replicate (nat (min 3 9)) (CHR ''0'')))"
  by (rule modp_dtoa_integral) (simp add: INT_MAX_def)

text \<open>
  \<^verbatim>\<open>modp_dtoa\<close> prints 0.95 with one decimal as 0.10: the product with ten is
  exactly 9.5, the tie is rounded up to ten tenths, and only the other branch carries them into
  the whole part.
\<close>

theorem modp_dtoa_tie_not_carried:
  "modp_dtoa (round_fp binary64 (95 / 100)) 1 = Inr ''0.10''"
proof -
  define v :: rat where "v = 4278419646001971 / 2 ^ 52"
  have d: "round_fp binary64 (95 / 100) = Fin v" unfolding v_def by (rule double_095)
  have "\<lfloor>v\<rfloor> = 0" by (rule floor_unique) (simp_all add: v_def)
  then have w: "fp_to_int (Fin v) = 0" "\<not> v < 0" "\<not> of_int INT_MAX < v" "v \<noteq> 0"
    by (simp add: fp_to_int_def fp_finite_def rat_trunc_def, simp_all add: v_def INT_MAX_def)
  have u: "fp_to_uint32 (Fin (19 / 2)) = 9" by code_simp
  have "representable binary64 v" using d by (metis fp_ok_round fp_ok_simps(5) wf_fmts(1))
  then have "fp_sub binary64 (Fin v) (fp_of_int binary64 0) = Fin v" using w(4) by (rule fp_sub_zero)
  moreover have "fp_mul binary64 (Fin v) (pow10 1) = Fin (19 / 2)"
    using tenfold_095 w(4) by (simp add: fp_mul_def fp_is_inf_def fp_is_zero_def pow10_def v_def)
  moreover have "fp_sub binary64 (Fin (19 / 2)) (fp_of_int binary64 9) = Fin (1 / 2)" by code_simp
  moreover have "round_frac 1 (Fin (1 / 2)) 9 0 = Inr (10, 0)" by code_simp
  moreover have "frac_text 1 10 = ''01.''" "whole_loop 0 = ''0''" "finish ''01.0'' = ''0.10''" by code_simp+
  ultimately show ?thesis unfolding d
    by (simp add: modp_dtoa_def w u Let_def fp_int_def)
qed

end
