(* ===== verification/Shutdown.thy ===== *)
theory Shutdown
  imports Serialize Options
begin

text \<open>
  The end of the daemon and its start (\<^verbatim>\<open>cleanup\<close>,
  \<^verbatim>\<open>die_with_error\<close>, the signal handlers, \<^verbatim>\<open>daemonize_server\<close>
  and the parts of \<^verbatim>\<open>main\<close> that install handlers, restore the tables and wait
  for the threads, all of \<^verbatim>\<open>statsd.c\<close>). The files are a map from names to
  contents. What the system decides is an input: whether a file opens, a socket is bound, a
  process is forked.

  The lemmas show which signals are handled and by which threads, that a start gives back the
  tables of the saved text, and what becomes of a daemon that cannot bind its socket. What a
  running daemon does when it is stopped is in \<open>Stopping\<close>.
\<close>

type_synonym files = "cstring \<Rightarrow> char list option"

datatype signum = SIGHUP | SIGINT | SIGQUIT | SIGTERM | SIGCHLD | SIGTSTP | SIGTTOU | SIGTTIN

datatype disposition = SIG_DFL | SIG_IGN | Handler

datatype thread = Thread_Main | Thread_Flush | Thread_Udp | Thread_Mgmt | Thread_Queue

text \<open>What becomes of the process; \<open>Thread_Ends\<close> when only the thread that runs the code does.\<close>

datatype outcome = Continues | Stopped | Killed | Exits int | Thread_Ends

text \<open>The machine: whether
  the file of \<^verbatim>\<open>-s\<close> can be opened for writing, and whether
  \<^verbatim>\<open>syslog\<close> is a cancellation point, which POSIX leaves open.\<close>

record host =
  can_open :: bool
  syslog_cancels :: bool

definition lock_name :: "config \<Rightarrow> cstring" where
  "lock_name cfg = (case lock_file cfg of None \<Rightarrow> ''/tmp/statsd.lock'' | Some f \<Rightarrow> f)"

subsection \<open>\<^verbatim>\<open>cleanup\<close>\<close>

text \<open>The four threads are cancelled first. A request to cancel the running thread takes effect
  at its next cancellation point: \<^verbatim>\<open>close\<close>, or the first
  \<^verbatim>\<open>sem_wait\<close> of \<^verbatim>\<open>statsd_serialize\<close>, or
  \<^verbatim>\<open>syslog\<close> where it is one. \<open>sock\<close> says that
  \<^verbatim>\<open>stats_udp_socket\<close> is not zero. The result says whether the function returns;
  the semaphores it destroys are not used any more.\<close>

definition cleanup :: "host \<Rightarrow> thread \<Rightarrow> bool \<Rightarrow> config \<Rightarrow> files \<Rightarrow> daemon \<Rightarrow> (bool \<times> files) res" where
  "cleanup h self sock cfg fs d =
     (let pending = self \<in> {Thread_Flush, Thread_Udp, Thread_Mgmt, Thread_Queue}
      in if pending \<and> sock then Inr (False, fs)
         else if pending \<and> serialize_file cfg \<noteq> None then Inr (False, fs)
         else if pending \<and> syslog_cancels h then Inr (False, fs)
         else rbind (case serialize_file cfg of
                None \<Rightarrow> Inr fs
              | Some f \<Rightarrow> rbind (statsd_serialize (can_open h) d) (\<lambda>(written, d).
                  Inr (case written of None \<Rightarrow> fs | Some bs \<Rightarrow> fs(f \<mapsto> bs)))) (\<lambda>fs.
              Inr (True, fs(lock_name cfg := None))))"

definition die_with_error :: "host \<Rightarrow> thread \<Rightarrow> bool \<Rightarrow> config \<Rightarrow> files \<Rightarrow> daemon \<Rightarrow> (outcome \<times> files) res" where
  "die_with_error h self sock cfg fs d =
     rbind (cleanup h self sock cfg fs d) (\<lambda>(returned, fs).
     Inr (if returned then Exits 1 else Thread_Ends, fs))"

subsection \<open>Signals\<close>

text \<open>The four handlers differ in what they log only.\<close>

definition signal_handler :: "host \<Rightarrow> thread \<Rightarrow> bool \<Rightarrow> config \<Rightarrow> files \<Rightarrow> daemon \<Rightarrow> (outcome \<times> files) res" where
  "signal_handler h self sock cfg fs d =
     rbind (cleanup h self sock cfg fs d) (\<lambda>(returned, fs).
     Inr (if returned then Exits 1 else Thread_Ends, fs))"

definition main_signals :: "(signum \<Rightarrow> disposition) \<Rightarrow> signum \<Rightarrow> disposition" where
  "main_signals sigs = sigs(SIGINT := Handler, SIGQUIT := Handler)"

definition daemon_signals :: "(signum \<Rightarrow> disposition) \<Rightarrow> signum \<Rightarrow> disposition" where
  "daemon_signals sigs = sigs(SIGCHLD := SIG_IGN, SIGTSTP := SIG_IGN, SIGTTOU := SIG_IGN,
     SIGTTIN := SIG_IGN, SIGHUP := Handler, SIGTERM := Handler)"

text \<open>The default action of a signal (\<^verbatim>\<open>signal(7)\<close>).\<close>

definition default_action :: "signum \<Rightarrow> outcome" where
  "default_action sig = (if sig = SIGCHLD then Continues
     else if sig \<in> {SIGTSTP, SIGTTOU, SIGTTIN} then Stopped else Killed)"

definition signal_arrives :: "host \<Rightarrow> thread \<Rightarrow> bool \<Rightarrow> config \<Rightarrow> (signum \<Rightarrow> disposition) \<Rightarrow> signum \<Rightarrow> files \<Rightarrow> daemon \<Rightarrow> (outcome \<times> files) res" where
  "signal_arrives h self sock cfg sigs sig fs d = (case sigs sig of
       SIG_IGN \<Rightarrow> Inr (Continues, fs)
     | SIG_DFL \<Rightarrow> Inr (default_action sig, fs)
     | Handler \<Rightarrow> signal_handler h self sock cfg fs d)"

subsection \<open>Going into the background\<close>

datatype forked = Fork_Fails | In_Parent | In_Child

text \<open>The files, and the names of those a process holds a lock on (\<^verbatim>\<open>lockf\<close>).\<close>

record disk =
  contents :: files
  locked :: "cstring set"

text \<open>\<^verbatim>\<open>write\<close> at the start of a file that was opened without
  \<^verbatim>\<open>O_TRUNC\<close>.\<close>

definition overwrite :: "char list \<Rightarrow> char list \<Rightarrow> char list" where
  "overwrite bs old = bs @ drop (length bs) old"

text \<open>\<open>ppid\<close> and \<open>pid\<close> are what \<^verbatim>\<open>getppid\<close> and
  \<^verbatim>\<open>getpid\<close> return, \<open>opens\<close> whether the lock file can be opened. Closing any
  descriptor of a file releases the locks the process has on it.\<close>

definition daemonize_server :: "int \<Rightarrow> forked \<Rightarrow> int \<Rightarrow> bool \<Rightarrow> config \<Rightarrow> (signum \<Rightarrow> disposition) \<Rightarrow> disk \<Rightarrow> (outcome \<times> (signum \<Rightarrow> disposition) \<times> disk) res" where
  "daemonize_server ppid frk pid opens cfg sigs k =
     (if ppid = 1 then Inr (Continues, sigs, k)
      else case frk of
        Fork_Fails \<Rightarrow> Inr (Exits 1, sigs, k)
      | In_Parent \<Rightarrow> Inr (Exits 0, sigs, k)
      | In_Child \<Rightarrow>
          let f = lock_name cfg
          in if \<not> opens then Inr (Exits 1, sigs, k)
             else let old = (case contents k f of None \<Rightarrow> [] | Some bs \<Rightarrow> bs);
                      k = k\<lparr>contents := (contents k)(f \<mapsto> old)\<rparr>
                  in if f \<in> locked k then Inr (Exits 0, sigs, k)
                     else let k = k\<lparr>locked := insert f (locked k)\<rparr>
                          in rbind (strcpy_buf 10 (dec_of_int pid @ [CHR 0x0A])) (\<lambda>str.
                             let k = k\<lparr>contents := (contents k)(f \<mapsto> overwrite str old)\<rparr>;
                                 k = k\<lparr>locked := locked k - {f}\<rparr>
                             in Inr (Continues, daemon_signals sigs, k)))"

subsection \<open>The start and the end of \<^verbatim>\<open>main\<close>\<close>

definition saved_file :: "config \<Rightarrow> files \<Rightarrow> stats_file option" where
  "saved_file cfg fs = (case serialize_file cfg of
       None \<Rightarrow> None
     | Some f \<Rightarrow> Some (case fs f of None \<Rightarrow> No_File | Some bs \<Rightarrow> Contents bs))"

definition start_tables :: "int \<Rightarrow> config \<Rightarrow> files \<Rightarrow> daemon res" where
  "start_tables t cfg fs = init_stats t (saved_file cfg fs) (clear_stats cfg) daemon_init"

text \<open>The UDP thread up to its loop: the process goes on, or
  \<^verbatim>\<open>die_with_error\<close> runs. A socket that could not be opened is \<open>-1\<close>, which is
  not zero either.\<close>

definition udp_open :: "host \<Rightarrow> bool \<Rightarrow> bool \<Rightarrow> config \<Rightarrow> files \<Rightarrow> daemon \<Rightarrow> (outcome \<times> files) res" where
  "udp_open h socket_ok bind_ok cfg fs d =
     (if \<not> socket_ok then die_with_error h Thread_Udp True cfg fs d
      else if \<not> bind_ok then die_with_error h Thread_Udp True cfg fs d
      else Inr (Continues, fs))"

text \<open>What becomes of \<^verbatim>\<open>main\<close> once the four threads have ended: in the background it
  loops for ever, otherwise it has joined them and returns.\<close>

definition main_wait :: "config \<Rightarrow> outcome" where
  "main_wait cfg = (if daemonize cfg then Continues else Exits 0)"

subsection \<open>Where the code goes\<close>

text \<open>A thread that \<^verbatim>\<open>cleanup\<close> cancels does not get past the close of the socket,
  nor past the first semaphore when the state is to be saved.\<close>

lemma cleanup_cancels_itself:
  "self \<noteq> Thread_Main \<Longrightarrow> sock \<or> serialize_file cfg \<noteq> None \<Longrightarrow> cleanup h self sock cfg fs d = Inr (False, fs)"
  by (cases self) (auto simp: cleanup_def)

lemma cleanup_main:
  assumes "saves d" and "labels_fit d" and "can_open h" and "serialize_file cfg = Some f"
  shows "cleanup h Thread_Main sock cfg fs d =
    Inr (True, fs(f \<mapsto> json_object_to_json_string (saved d), lock_name cfg := None))"
  using assms by (simp add: cleanup_def statsd_serialize_eq)

text \<open>A semaphore that is taken when the threads are cancelled is never posted again, and
  \<^verbatim>\<open>cleanup\<close> waits for it.\<close>

lemma cleanup_waits:
  "serialize_file cfg = Some f \<Longrightarrow> stats_lock d = 0 \<Longrightarrow> cleanup h Thread_Main sock cfg fs d = Inl Deadlock"
  by (simp add: cleanup_def statsd_serialize_def serialize_stats_def lock_defs sem_wait_def)

text \<open>A statistic whose label does not fit ends the process, unless the semaphore is taken.\<close>

lemma cleanup_overruns:
  assumes "serialize_file cfg = Some f" and "s \<in> set (stats d)" and "SIZEOF_SIZE_T \<le> length (stat_label s)"
  shows "cleanup h Thread_Main sock cfg fs d = Inl (if stats_lock d = 0 then Deadlock else Buffer_Overflow)"
  using assms cleanup_waits [OF assms(1)] serialize_overruns [OF assms(2,3)] by (simp add: cleanup_def)

text \<open>So a handler that runs in one of the four threads does not save either.\<close>

lemma signal_in_worker:
  assumes "self \<noteq> Thread_Main" and "serialize_file cfg = Some f" and "sigs sig = Handler"
  shows "signal_arrives h self sock cfg sigs sig fs d = Inr (Thread_Ends, fs)"
  using assms cleanup_cancels_itself [of self sock cfg h fs d]
  by (simp add: signal_arrives_def signal_handler_def)

lemma daemon_signals_handled:
  "daemon_signals (main_signals sigs) sig = Handler \<longleftrightarrow>
     sig \<in> {SIGHUP, SIGINT, SIGQUIT, SIGTERM}"
  by (cases sig) (auto simp: daemon_signals_def main_signals_def)

text \<open>In the foreground a termination signal has its default action: the process is killed and
  nothing is saved.\<close>

lemma foreground_killed:
  assumes "sigs SIGTERM = SIG_DFL"
  shows "signal_arrives h self sock cfg (main_signals sigs) SIGTERM fs d = Inr (Killed, fs)"
  using assms by (simp add: signal_arrives_def main_signals_def default_action_def)

lemma daemonize_child:
  assumes "ppid \<noteq> 1" and "lock_name cfg \<notin> locked k" and "\<bar>pid\<bar> < 10 ^ 7"
  shows "daemonize_server ppid In_Child pid True cfg sigs k = Inr (Continues, daemon_signals sigs,
    k\<lparr>contents := (contents k)(lock_name cfg \<mapsto>
      overwrite (dec_of_int pid @ [CHR 0x0A]) (case contents k (lock_name cfg) of None \<Rightarrow> [] | Some bs \<Rightarrow> bs))\<rparr>)"
  using assms length_dec_of_int [of pid 7]
  by (auto simp: daemonize_server_def strcpy_buf_def Let_def insert_absorb)

text \<open>The lock is gone when the first daemon has closed the file, so a second one goes on too, and
  writes its number over that of the first.\<close>

lemma second_daemon_goes_on:
  assumes "ppid \<noteq> 1" and "locked k = {}" and "\<bar>pid\<bar> < 10 ^ 7" and "\<bar>pid'\<bar> < 10 ^ 7"
  shows "\<exists>k1 k2 s1 s2. daemonize_server ppid In_Child pid True cfg sigs k = Inr (Continues, s1, k1)
    \<and> daemonize_server ppid In_Child pid' True cfg sigs k1 = Inr (Continues, s2, k2)"
  using assms by (simp add: daemonize_child)

subsection \<open>Properties\<close>

lemma stat_of_unlock [simp]: "stat_of (remove_stats_lock d) = stat_of d"
  by (simp add: stat_of_def fun_eq_iff lock_defs)

text \<open>The statistics after a start at the time \<open>t\<close>: the three that every start sets, and
  those that were there.\<close>

definition started :: "int \<Rightarrow> (cstring \<Rightarrow> cstring \<Rightarrow> int option) \<Rightarrow> cstring \<Rightarrow> cstring \<Rightarrow> int option" where
  "started t old g k =
     (if (g, k) \<in> {(''graphite'', ''last_flush''), (''messages'', ''last_msg_seen'')} then Some t
      else if (g, k) = (''messages'', ''bad_lines_seen'') then Some 0 else old g k)"

lemma init_stats_updates:
  assumes "daemon_wf d" and "length (dec_of_int t) < 12" and "is_long t"
    and "(case sfile of Some f \<Rightarrow> if \<not> clear then rbind (statsd_deserialize f d0) (\<lambda>(r, d). Inr d) else Inr d0
          | None \<Rightarrow> Inr d0) = Inr d"
  shows "\<exists>d'. init_stats t sfile clear d0 = Inr d' \<and> daemon_wf d'
    \<and> timers d' = timers d \<and> gauges d' = gauges d \<and> counters d' = counters d
    \<and> stat_of d' = started t (stat_of d)"
proof -
  let ?s = "dec_of_int t"
  have w0: "daemon_wf (remove_stats_lock d)"
    using assms(1) by (simp add: daemon_wf_def lock_defs locks_ok_def)
  obtain d1 where d1: "update_stat ''graphite'' ''last_flush'' ?s (remove_stats_lock d) = Inr d1"
    using update_stat_eq [OF daemon_wf_locks(1) [OF w0]] by (simp add: KEY_SIZE_def)
  have w1: "daemon_wf d1" by (rule update_stat_wf [OF w0 _ _ d1]) (simp_all add: is_cstring_def)
  obtain d2 where d2: "update_stat ''messages'' ''last_msg_seen'' ?s d1 = Inr d2"
    using update_stat_eq [OF daemon_wf_locks(1) [OF w1]] by (simp add: KEY_SIZE_def)
  have w2: "daemon_wf d2" by (rule update_stat_wf [OF w1 _ _ d2]) (simp_all add: is_cstring_def)
  obtain d3 where d3: "update_stat ''messages'' ''bad_lines_seen'' ''0'' d2 = Inr d3"
    using update_stat_eq [OF daemon_wf_locks(1) [OF w2]] by (simp add: KEY_SIZE_def)
  have w3: "daemon_wf d3" by (rule update_stat_wf [OF w2 _ _ d3]) (simp_all add: is_cstring_def)
  have "init_stats t sfile clear d0 = Inr d3"
    using assms(2,4) d1 d2 d3 by (simp add: init_stats_def strcpy_buf_def)
  moreover have "timers d3 = timers d \<and> gauges d3 = gauges d \<and> counters d3 = counters d"
    using update_stat_frame(1-3) [OF d1 daemon_wf_locks(1) [OF w0]]
      update_stat_frame(1-3) [OF d2 daemon_wf_locks(1) [OF w1]]
      update_stat_frame(1-3) [OF d3 daemon_wf_locks(1) [OF w2]] by (simp add: lock_defs)
  moreover note w3 update_stat_view [OF w0 d1] update_stat_view [OF w1 d2] update_stat_view [OF w2 d3]
  ultimately show ?thesis
    using assms(3) by (intro exI [of _ d3]) (auto simp: started_def fun_eq_iff atol_dec_of_int atol_zero)
qed

text \<open>
  C38: starting from a saved text: when the file that \<^verbatim>\<open>-s\<close> names holds the text of
  tables that print without loss (\<open>saves\<close>, as in the round trip of the file), of fewer than
  \<open>2 ^ 30\<close> bytes, the daemon starts with their timers, gauges and counters, in the same
  order, and with their statistics but for the three that every start sets: the two times, and the
  number of bad lines. With \<^verbatim>\<open>-c\<close> it starts with those three and nothing else.
  The time has at most eleven characters.
\<close>

theorem start_restores:
  assumes "saves d" and "daemon_wf d" and "length (json_object_to_json_string (saved d)) < 2 ^ 30"
    and "serialize_file cfg = Some f" and "fs f = Some (json_object_to_json_string (saved d))"
    and "length (dec_of_int t) < 12" and "is_long t"
  shows "\<exists>d'. start_tables t cfg fs = Inr d' \<and> daemon_wf d' \<and>
    (let old = (if clear_stats cfg then daemon_init else d)
     in timers d' = timers old \<and> gauges d' = gauges old \<and> counters d' = counters old
      \<and> stat_of d' = started t (stat_of old))"
proof -
  let ?d = "if clear_stats cfg then daemon_init
    else daemon_init\<lparr>stats := stats d, timers := timers d, gauges := gauges d, counters := counters d\<rparr>"
  have "daemon_wf ?d" using assms(2) daemon_wf_init by (simp add: daemon_wf_def locks_ok_def daemon_init_def)
  note init_stats_updates [OF this assms(6,7), where sfile = "saved_file cfg fs" and clear = "clear_stats cfg" and ?d0.0 = daemon_init]
  moreover have "stat_of ?d = stat_of (if clear_stats cfg then daemon_init else d)"
    by (simp add: stat_of_def fun_eq_iff)
  ultimately show ?thesis
    using assms(4,5) statsd_deserialize_saved [OF assms(1,3)]
    by (cases "clear_stats cfg") (simp_all add: start_tables_def saved_file_def Let_def)
qed

definition restart_config :: config where
  "restart_config = config_init\<lparr>serialize_file := Some ''/var/statsd.json''\<rparr>"

lemma restart_sample_wf: "daemon_wf sample_daemon"
  by (simp add: daemon_wf_def sample_daemon_def daemon_init_def table_ok_def hash_wf_def locks_ok_def stat_ok_def
      counter_ok_def gauge_ok_def timer_ok_def key_ok_def KEY_SIZE_def is_cstring_def is_long_def LONG_MIN_def
      LONG_MAX_def INT_MAX_def fp_ok_binary64_int fp_ok_widen)

lemma start_restores_witness:
  "\<exists>d'. start_tables 1700000000 restart_config
      [''/var/statsd.json'' \<mapsto> json_object_to_json_string (saved sample_daemon)] = Inr d' \<and> daemon_wf d'
    \<and> timers d' = timers sample_daemon \<and> gauges d' = gauges sample_daemon \<and> counters d' = counters sample_daemon
    \<and> stat_of d' = started 1700000000 (stat_of sample_daemon)"
proof -
  have "length (dec_of_int 1700000000) < 12" by code_simp
  from start_restores [OF sample_daemon_saves(1) restart_sample_wf sample_daemon_text _ _ this,
      of restart_config "''/var/statsd.json''"
        "[''/var/statsd.json'' \<mapsto> json_object_to_json_string (saved sample_daemon)]"]
  show ?thesis
    by (simp add: restart_config_def config_init_def Let_def is_long_def LONG_MIN_def LONG_MAX_def)
qed

text \<open>
  A daemon that cannot open or bind its UDP socket does not exit with an error: the UDP thread
  cancels itself along with the others and stops inside \<^verbatim>\<open>cleanup\<close>, before
  \<^verbatim>\<open>exit(1)\<close>; nothing is saved, the lock file stays, and \<^verbatim>\<open>main\<close>
  then returns 0 or, in the background, loops for ever.
\<close>

theorem udp_open_failure:
  assumes "\<not> (socket_ok \<and> bind_ok)"
  shows "udp_open h socket_ok bind_ok cfg fs d = Inr (Thread_Ends, fs)
    \<and> main_wait cfg \<noteq> Exits 1"
  using assms cleanup_cancels_itself [of Thread_Udp True cfg h fs d]
  by (auto simp: udp_open_def die_with_error_def main_wait_def)

lemma udp_open_failure_witness:
  "udp_open \<lparr>can_open = True, syslog_cancels = False\<rparr> True False restart_config
     [lock_name restart_config \<mapsto> ''17''] sample_daemon = Inr (Thread_Ends, [lock_name restart_config \<mapsto> ''17''])
   \<and> main_wait restart_config \<noteq> Exits 1"
  using udp_open_failure [of True False "\<lparr>can_open = True, syslog_cancels = False\<rparr>" restart_config
      "[lock_name restart_config \<mapsto> ''17'']" sample_daemon]
  by simp

end
