(* ===== verification/JsonTypes.thy ===== *)
theory JsonTypes
  imports JsonRoundtrip
begin

text \<open>
  What the JSON parser returns is a value of the library: integers fit an
  \<^verbatim>\<open>int\<close>, doubles are values of the 64-bit format, strings and keys have no zero
  byte, no object has a key twice, and the nesting leaves every value on a level of the stack.
  It is the type the printer, the getters and the daemon rely on. The proof carries it through
  the levels of the tokener, along with the invariant of \<open>Tokener\<close>.
\<close>

fun json_typed :: "json \<Rightarrow> bool"
  and members_typed :: "(cstring \<times> json) list \<Rightarrow> bool"
  and elements_typed :: "json list \<Rightarrow> bool" where
  "json_typed JNull \<longleftrightarrow> True"
| "json_typed (JBool b) \<longleftrightarrow> True"
| "json_typed (JDouble d) \<longleftrightarrow> fp_ok binary64 d"
| "json_typed (JInt i) \<longleftrightarrow> is_int32 i"
| "json_typed (JString s) \<longleftrightarrow> is_cstring s"
| "json_typed (JObject kvs) \<longleftrightarrow> distinct (map fst kvs) \<and> members_typed kvs"
| "json_typed (JArray vs) \<longleftrightarrow> elements_typed vs"
| "members_typed [] \<longleftrightarrow> True"
| "members_typed ((k, v) # kvs) \<longleftrightarrow> is_cstring k \<and> json_typed v \<and> members_typed kvs"
| "elements_typed [] \<longleftrightarrow> True"
| "elements_typed (v # vs) \<longleftrightarrow> json_typed v \<and> elements_typed vs"

lemma members_typed_append [simp]: "members_typed (xs @ ys) \<longleftrightarrow> members_typed xs \<and> members_typed ys"
  by (induction xs) auto

lemma elements_typed_append [simp]: "elements_typed (xs @ ys) \<longleftrightarrow> elements_typed xs \<and> elements_typed ys"
  by (induction xs) auto

lemma members_typed_delete: "members_typed kvs \<Longrightarrow> members_typed (members_delete k kvs)"
  unfolding members_delete_def by (induction kvs) auto

lemma members_nest_append [simp]: "members_nest (xs @ ys) = max (members_nest xs) (members_nest ys)"
  by (induction xs) auto

lemma elements_nest_append [simp]: "elements_nest (xs @ ys) = max (elements_nest xs) (elements_nest ys)"
  by (induction xs) auto

lemma members_nest_delete: "members_nest (members_delete k kvs) \<le> members_nest kvs"
  unfolding members_delete_def by (induction kvs) auto

lemma typed_array_add:
  "json_object_array_add a v = Inr a' \<Longrightarrow> json_typed a \<Longrightarrow> json_typed v \<Longrightarrow>
   json_typed a' \<and> nest a' = max (nest a) (Suc (nest v))"
  by (cases a) (auto simp: json_object_array_add_def)

lemma typed_object_add:
  assumes "json_object_object_add ob k v = Inr ob'" and "json_typed ob" and "json_typed v" and "is_cstring k"
  shows "json_typed ob' \<and> nest ob' \<le> max (nest ob) (Suc (nest v))"
proof -
  from assms(1) obtain kvs where "ob = JObject kvs" "ob' = JObject (members_delete k kvs @ [(k, v)])"
    by (cases ob) (auto simp: json_object_object_add_def)
  with assms(2-4) distinct_members_add [of kvs k v] members_typed_delete [of kvs k] members_nest_delete [of k kvs]
  show ?thesis by auto
qed

lemma is_int32_atoi: "is_int32 (atoi s)"
proof -
  obtain m where m: "m = atol s mod 4294967296" "0 \<le> m" "m < 4294967296" by simp
  then have "atoi s = (if m < 2147483648 then m else m - 4294967296)" by (simp add: atoi_def to_int32_def Let_def)
  with m(2,3) show ?thesis by (simp add: is_int32_def split: if_splits)
qed

lemma typed_number:
  "(if dbl then map_option JDouble (sscanf_lf s) else map_option JInt (sscanf_d s)) = Some num \<Longrightarrow>
   json_typed num \<and> nest num = 0"
  by (auto simp: sscanf_d_def sscanf_lf_def Let_def is_int32_atoi dest: fp_ok_strtod_full split: if_splits)

subsection \<open>The values on the levels\<close>

definition lvl_typed :: "nat \<Rightarrow> srec \<Rightarrow> bool" where
  "lvl_typed i l \<longleftrightarrow> json_typed (current l) \<and> nest (current l) + i < MAX_DEPTH
     \<and> (case obj_field_name l of None \<Rightarrow> True | Some k \<Rightarrow> is_cstring k)"

definition adding :: "json_tokener_state \<Rightarrow> bool" where
  "adding s \<longleftrightarrow> s = Array_Add \<or> s = Object_Value_Add"

text \<open>\<open>obj\<close> is used only where it is the value of the level above.\<close>

definition typed_inv :: "tokener \<Rightarrow> json \<Rightarrow> bool" where
  "typed_inv tok obj \<longleftrightarrow> (\<forall>i \<le> depth tok. lvl_typed i (stack tok ! i))
     \<and> (adding (state (level tok)) \<longrightarrow> json_typed obj \<and> nest obj + Suc (depth tok) < MAX_DEPTH)"

definition keeps_types :: "outcome res \<Rightarrow> bool" where
  "keeps_types r \<longleftrightarrow> (case r of
       Inl _ \<Rightarrow> True
     | Inr (Next tok' obj') \<Rightarrow> typed_inv tok' obj'
     | Inr (Redo tok' obj') \<Rightarrow> typed_inv tok' obj'
     | Inr (Leave tok' obj') \<Rightarrow> lvl_typed (depth tok') (level tok'))"

lemma typed_level: "typed_inv tok obj \<Longrightarrow> lvl_typed (depth tok) (level tok)"
  by (simp add: typed_inv_def level_def)

text \<open>A step that changes the level at the top and nothing below it.\<close>

lemma typed_inv_set_level:
  assumes "typed_inv tok obj" and "levels_ok tok" and "lvl_typed (depth tok) (f (level tok))"
    and "\<not> adding (state (f (level tok)))"
  shows "typed_inv (set_level f tok) obj'"
  using assms levels_okD [OF assms(2)] level_set_level [OF levels_okD [OF assms(2)], of f]
  by (auto simp: typed_inv_def set_level_def nth_list_update)

lemma typed_inv_update [simp]:
  "typed_inv (tok\<lparr>pb := x\<rparr>) obj = typed_inv tok obj" "typed_inv (tok\<lparr>st_pos := n\<rparr>) obj = typed_inv tok obj"
  "typed_inv (tok\<lparr>is_double := b\<rparr>) obj = typed_inv tok obj"
  "typed_inv (tok\<lparr>ucs_char := w\<rparr>) obj = typed_inv tok obj"
  "typed_inv (tok\<lparr>quote_char := c\<rparr>) obj = typed_inv tok obj" "typed_inv (tok\<lparr>err := e\<rparr>) obj = typed_inv tok obj"
  by (simp_all add: typed_inv_def)

lemma lvl_typed_update [simp]:
  "lvl_typed i (l\<lparr>state := s\<rparr>) = lvl_typed i l" "lvl_typed i (l\<lparr>saved_state := s\<rparr>) = lvl_typed i l"
  by (simp_all add: lvl_typed_def)

lemma keeps_fail: "typed_inv tok obj \<Longrightarrow> keeps_types (fail e tok obj)"
  using typed_level [of tok obj] by (simp add: keeps_types_def fail_def)

subsection \<open>Every step keeps them\<close>

lemma set_level_set_level:
  "depth tok < length (stack tok) \<Longrightarrow> set_level f (set_level g tok) = set_level (f \<circ> g) tok"
  by (simp add: set_level_def level_def)

lemma set_level_field:
  "set_level f (tok\<lparr>pb := x\<rparr>) = (set_level f tok)\<lparr>pb := x\<rparr>"
  "set_level f (tok\<lparr>st_pos := n\<rparr>) = (set_level f tok)\<lparr>st_pos := n\<rparr>"
  "set_level f (tok\<lparr>is_double := b\<rparr>) = (set_level f tok)\<lparr>is_double := b\<rparr>"
  "set_level f (tok\<lparr>ucs_char := w\<rparr>) = (set_level f tok)\<lparr>ucs_char := w\<rparr>"
  "set_level f (tok\<lparr>quote_char := c\<rparr>) = (set_level f tok)\<lparr>quote_char := c\<rparr>"
  by (simp_all add: set_level_def level_def)

lemma tok_inv_levels: "tok_inv tok \<Longrightarrow> levels_ok tok"
  by (simp add: tok_inv_def)

lemma not_adding_ready: "ready s l \<Longrightarrow> \<not> adding s"
  by (auto simp: adding_def ready_def)

text \<open>What a step may read of the level at the top.\<close>

lemma typed_levelD:
  assumes "typed_inv tok obj" and "tok_inv tok"
  shows "json_typed (current (level tok))" "nest (current (level tok)) + depth tok < MAX_DEPTH"
    "depth tok < MAX_DEPTH" "obj_field_name (level tok) = Some k \<Longrightarrow> is_cstring k"
    "case obj_field_name (level tok) of None \<Rightarrow> True | Some k \<Rightarrow> is_cstring k"
    "depth tok < length (stack tok)" "levels_ok tok"
  using typed_level [OF assms(1)] assms(2)
  by (auto simp: lvl_typed_def tok_inv_def levels_ok_def split: option.splits)

lemma keeps_types_simps [simp]:
  "keeps_types (Inr (Next tok' obj'))= typed_inv tok' obj'"
  "keeps_types (Inr (Redo tok' obj')) = typed_inv tok' obj'"
  "keeps_types (Inr (Leave tok' obj')) = lvl_typed (depth tok') (level tok')"
  by (simp_all add: keeps_types_def)

lemmas keeps_simps = set_defs set_level_set_level set_level_field typed_levelD lvl_typed_def adding_def
  keeps_fail typed_inv_set_level

lemma keeps_eatws:
  "tok_inv tok \<Longrightarrow> typed_inv tok obj \<Longrightarrow> state (level tok) = Eatws \<Longrightarrow> keeps_types (case_eatws c tok obj)"
proof -
  assume *: "tok_inv tok" "typed_inv tok obj" "state (level tok) = Eatws"
  then have "ready (saved_state (level tok)) (level tok)" by (simp add: tok_inv_def top_ok_def)
  then have "\<not> adding (saved_state (level tok))" by (rule not_adding_ready)
  with * show ?thesis by (simp add: keeps_simps case_eatws_def)
qed

lemma keeps_start:
  "tok_inv tok \<Longrightarrow> typed_inv tok obj \<Longrightarrow> state (level tok) = Start \<Longrightarrow> keeps_types (case_start c tok obj)"
  by (simp add: keeps_simps case_start_def)

lemma keeps_comment_start:
  "tok_inv tok \<Longrightarrow> typed_inv tok obj \<Longrightarrow> state (level tok) = Comment_Start \<Longrightarrow>
   keeps_types (case_comment_start c tok obj)"
  by (simp add: keeps_simps case_comment_start_def)

lemma keeps_comment:
  "tok_inv tok \<Longrightarrow> typed_inv tok obj \<Longrightarrow> state (level tok) = Comment \<Longrightarrow> keeps_types (case_comment c tok obj)"
  by (simp add: keeps_simps case_comment_def)

lemma keeps_comment_eol:
  "tok_inv tok \<Longrightarrow> typed_inv tok obj \<Longrightarrow> state (level tok) = Comment_Eol \<Longrightarrow>
   keeps_types (case_comment_eol c tok obj)"
  by (simp add: keeps_simps case_comment_eol_def)

lemma keeps_comment_end:
  "tok_inv tok \<Longrightarrow> typed_inv tok obj \<Longrightarrow> state (level tok) = Comment_End \<Longrightarrow>
   keeps_types (case_comment_end c tok obj)"
  by (simp add: keeps_simps case_comment_end_def)

lemma keeps_string:
  "tok_inv tok \<Longrightarrow> typed_inv tok obj \<Longrightarrow> state (level tok) = Str \<Longrightarrow> keeps_types (case_string c tok obj)"
  by (simp add: keeps_simps case_string_def)

text \<open>After an escape the parser goes on with the string or the name it was in.\<close>

lemma typed_inv_resume:
  assumes "tok_inv tok" and "typed_inv tok obj" and "in_string (level tok)"
  shows "typed_inv (set_level (state_update (\<lambda>_. saved_state (level tok))) tok) obj'"
proof -
  have "\<not> adding (saved_state (level tok))" using assms(3) by (auto simp: in_string_def adding_def)
  with assms show ?thesis by (simp add: keeps_simps)
qed

lemma keeps_string_escape:
  "tok_inv tok \<Longrightarrow> typed_inv tok obj \<Longrightarrow> state (level tok) = String_Escape \<Longrightarrow>
   keeps_types (case_string_escape c tok obj)"
proof -
  assume *: "tok_inv tok" "typed_inv tok obj" "state (level tok) = String_Escape"
  then have "in_string (level tok)" by (simp add: tok_inv_def top_ok_def)
  with * typed_inv_resume [OF *(1,2)] show ?thesis by (simp add: keeps_simps case_string_escape_def)
qed

lemma keeps_escape_unicode:
  "tok_inv tok \<Longrightarrow> typed_inv tok obj \<Longrightarrow> state (level tok) = Escape_Unicode \<Longrightarrow>
   keeps_types (case_escape_unicode c tok obj)"
proof -
  assume *: "tok_inv tok" "typed_inv tok obj" "state (level tok) = Escape_Unicode"
  then have "in_string (level tok)" by (simp add: tok_inv_def top_ok_def)
  with * typed_inv_resume [OF *(1,2)] show ?thesis
    by (simp add: set_state_def memappend_def set_level_field keeps_fail case_escape_unicode_def Let_def)
qed

lemma keeps_rbind: "(\<And>x. m = Inr x \<Longrightarrow> keeps_types (f x)) \<Longrightarrow> keeps_types (rbind m f)"
  by (cases m) (simp_all add: keeps_types_def)

lemma keeps_null:
  "tok_inv tok \<Longrightarrow> typed_inv tok obj \<Longrightarrow> state (level tok) = Null \<Longrightarrow> keeps_types (case_null c tok obj)"
  unfolding case_null_def Let_def by (rule keeps_rbind) (simp add: keeps_simps)

lemma keeps_boolean:
  "tok_inv tok \<Longrightarrow> typed_inv tok obj \<Longrightarrow> state (level tok) = Boolean \<Longrightarrow> keeps_types (case_boolean c tok obj)"
  unfolding case_boolean_def Let_def by (rule keeps_rbind) (simp add: keeps_simps keeps_rbind)

lemma keeps_number:
  assumes "tok_inv tok" and "typed_inv tok obj" and "state (level tok) = Number"
  shows "keeps_types (case_number c tok obj)"
proof -
  let ?n = "if is_double tok then map_option JDouble (sscanf_lf (cstr_of (pb tok)))
            else map_option JInt (sscanf_d (cstr_of (pb tok)))"
  show ?thesis
  proof (cases ?n)
    case None
    then show ?thesis using assms by (simp add: keeps_simps case_number_def)
  next
    case (Some num)
    with assms typed_number [OF Some] show ?thesis
      unfolding case_number_def Some by (simp add: keeps_simps)
  qed
qed

lemma keeps_array_sep:
  "tok_inv tok \<Longrightarrow> typed_inv tok obj \<Longrightarrow> state (level tok) = Array_Sep \<Longrightarrow> keeps_types (case_array_sep c tok obj)"
  by (simp add: keeps_simps case_array_sep_def)

lemma keeps_object_field_start:
  "tok_inv tok \<Longrightarrow> typed_inv tok obj \<Longrightarrow> state (level tok) = Object_Field_Start \<Longrightarrow>
   keeps_types (case_object_field_start c tok obj)"
  by (simp add: keeps_simps case_object_field_start_def)

lemma keeps_object_field:
  "tok_inv tok \<Longrightarrow> typed_inv tok obj \<Longrightarrow> state (level tok) = Object_Field \<Longrightarrow>
   keeps_types (case_object_field c tok obj)"
  by (simp add: keeps_simps case_object_field_def)

lemma keeps_object_field_end:
  "tok_inv tok \<Longrightarrow> typed_inv tok obj \<Longrightarrow> state (level tok) = Object_Field_End \<Longrightarrow>
   keeps_types (case_object_field_end c tok obj)"
  by (simp add: keeps_simps case_object_field_end_def)

lemma keeps_object_sep:
  "tok_inv tok \<Longrightarrow> typed_inv tok obj \<Longrightarrow> state (level tok) = Object_Sep \<Longrightarrow> keeps_types (case_object_sep c tok obj)"
  by (simp add: keeps_simps case_object_sep_def)

lemma keeps_array_add:
  assumes "tok_inv tok" and "typed_inv tok obj" and "state (level tok) = Array_Add"
  shows "keeps_types (case_array_add c tok obj)"
  unfolding case_array_add_def
proof (rule keeps_rbind)
  fix a assume a: "json_object_array_add (current (level tok)) obj = Inr a"
  have "json_typed obj" "nest obj + Suc (depth tok) < MAX_DEPTH"
    using assms(2,3) by (simp_all add: typed_inv_def adding_def)
  with typed_array_add [OF a] typed_levelD [OF assms(2,1)] have "json_typed a" "nest a + depth tok < MAX_DEPTH"
    by auto
  with assms(1,2) show "keeps_types (Inr (Redo (eatws_then Array_Sep (set_current a tok)) obj))"
    by (simp add: keeps_simps)
qed

lemma keeps_object_value_add:
  assumes "tok_inv tok" and "typed_inv tok obj" and "state (level tok) = Object_Value_Add"
  shows "keeps_types (case_object_value_add c tok obj)"
proof (cases "obj_field_name (level tok)")
  case None
  then show ?thesis by (simp add: case_object_value_add_def keeps_types_def)
next
  case (Some k)
  show ?thesis
    unfolding case_object_value_add_def Some option.case
  proof (rule keeps_rbind)
    fix ob assume ob: "json_object_object_add (current (level tok)) k obj = Inr ob"
    have "json_typed obj" "nest obj + Suc (depth tok) < MAX_DEPTH" "is_cstring k"
      using assms(2,3) typed_levelD(4) [OF assms(2,1) Some] by (simp_all add: typed_inv_def adding_def)
    with typed_object_add [OF ob] typed_levelD [OF assms(2,1)] have "json_typed ob" "nest ob + depth tok < MAX_DEPTH"
      by auto
    with assms(1,2) show "keeps_types (Inr (Redo (eatws_then Object_Sep (set_obj_field_name None (set_current ob tok))) obj))"
      by (simp add: keeps_simps)
  qed
qed

lemma keeps_push_level:
  assumes "tok_inv tok" and "typed_inv tok obj"
  shows "keeps_types (push_level s tok obj)"
proof (cases "MAX_DEPTH - 1 \<le> depth tok")
  case True
  with assms(2) show ?thesis by (simp add: push_level_def keeps_fail)
next
  case False
  note d = typed_levelD(6,7) [OF assms(2,1)]
  then have "Suc (depth tok) < length (stack tok)" using False by (simp add: levels_ok_def)
  moreover have "lvl_typed (Suc (depth tok)) srec_reset"
    using False by (simp add: lvl_typed_def srec_reset_def)
  ultimately show ?thesis
    using False assms(2) d(1)
    by (simp add: push_level_def Let_def set_state_def set_level_def json_tokener_reset_level_def typed_inv_def
        nth_list_update level_def adding_def) (simp add: srec_reset_def le_Suc_eq)
qed

lemma keeps_array:
  "tok_inv tok \<Longrightarrow> typed_inv tok obj \<Longrightarrow> state (level tok) = Array \<Longrightarrow> keeps_types (case_array c tok obj)"
  by (simp add: keeps_simps case_array_def keeps_push_level)

lemma keeps_object_value:
  "tok_inv tok \<Longrightarrow> typed_inv tok obj \<Longrightarrow> keeps_types (case_object_value c tok obj)"
  by (simp add: case_object_value_def keeps_push_level)

lemma keeps_finish:
  assumes "tok_inv tok" and "typed_inv tok obj"
  shows "keeps_types (case_finish c tok obj)"
proof (cases "depth tok = 0")
  case True
  with typed_level [OF assms(2)] show ?thesis by (simp add: case_finish_def)
next
  case False
  then obtain d where d: "depth tok = Suc d" by (cases "depth tok") auto
  then have "lvl_typed i (((stack tok)[Suc d := srec_reset]) ! i)" if "i \<le> d" for i
    using assms(2) that by (simp add: typed_inv_def)
  with typed_levelD(1,2) [OF assms(2,1)] d show ?thesis
    by (simp add: case_finish_def typed_inv_def json_tokener_reset_level_def)
qed

lemma keeps_tok_case: "tok_inv tok \<Longrightarrow> typed_inv tok obj \<Longrightarrow> keeps_types (tok_case c tok obj)"
  unfolding tok_case_def
  by (cases "state (level tok)")
    (simp_all add: keeps_eatws keeps_start keeps_finish keeps_null keeps_comment_start keeps_comment
      keeps_comment_eol keeps_comment_end keeps_string keeps_string_escape keeps_escape_unicode
      keeps_boolean keeps_number keeps_array keeps_array_add keeps_array_sep keeps_object_field_start
      keeps_object_field keeps_object_field_end keeps_object_value keeps_object_value_add
      keeps_object_sep)

subsection \<open>The loop\<close>

lemma keeps_tok_char:
  "tok_inv tok \<Longrightarrow> typed_inv tok obj \<Longrightarrow> keeps_types (tok_char n c tok obj)"
proof (induction n c tok obj rule: tok_char.induct)
  case (2 n c tok obj)
  have "keeps_types (case r of Redo tok' obj' \<Rightarrow> tok_char n c tok' obj' | _ \<Rightarrow> Inr r)"
    if "tok_case c tok obj = Inr r" for r
    using 2 that keeps_tok_case [OF 2(2,3), of c] step_tok_case [OF 2(2), of c obj]
    by (cases r) (auto simp: step_ok_def)
  then show ?case unfolding tok_char.simps by (rule keeps_rbind)
qed (simp add: keeps_types_def)

lemma tok_loop_typed:
  "tok_inv tok \<Longrightarrow> typed_inv tok obj \<Longrightarrow> tok_loop str tok obj = Inr (tok', c) \<Longrightarrow>
   lvl_typed (depth tok') (level tok')"
proof (induction str tok obj rule: tok_loop.induct)
  case (1 tok obj)
  with keeps_tok_char [OF 1(1,2), of MAX_TURNS "CHR 0x00"] show ?case
    by (auto simp: typed_level split: tok_outcome.splits)
next
  case (2 a str tok obj)
  from 2(4) obtain r where r: "tok_char MAX_TURNS a tok obj = Inr r" by auto
  with 2 keeps_tok_char [OF 2(2,3), of MAX_TURNS a] tok_char_ok [OF 2(2) rank_less_MAX_TURNS, of a obj]
  show ?case by (auto simp: char_ok_def split: tok_outcome.splits)
qed

lemma typed_inv_new: "typed_inv (json_tokener_new\<lparr>err := e\<rparr>) JNull"
  by (simp add: json_tokener_new_def json_tokener_reset_def json_tokener_reset_level_def
      typed_inv_def level_def lvl_typed_def srec_reset_def adding_def MAX_DEPTH_def)

lemma json_tokener_parse_type:
  assumes "json_tokener_parse str = Inr (Inr j)"
  shows "json_typed j \<and> nest j < MAX_DEPTH"
proof -
  from assms obtain tok c where "tok_loop (cstr_of str) (json_tokener_new\<lparr>err := json_tokener_success\<rparr>) JNull = Inr (tok, c)"
    and j: "j = current (level tok) \<or> j = JNull"
    by (auto simp: json_tokener_parse_def json_tokener_parse_ex_def Let_def split: if_splits)
  then have "lvl_typed (depth tok) (level tok)" by (intro tok_loop_typed [OF tok_inv_new(2) typed_inv_new])
  with j show ?thesis by (auto simp: lvl_typed_def MAX_DEPTH_def)
qed

text \<open>
  C8: A value the JSON parser returns has the type of the library's values: every integer fits
  an \<^verbatim>\<open>int\<close>, every double is of the 64-bit format, no string or key has a zero
  byte, no object has a key twice; and it is nested at most 31 levels deep.
\<close>

theorem json_tokener_parse_typed:
  assumes "json_tokener_parse str = Inr (Inr j)"
  shows "json_typed j \<and> nest j < MAX_DEPTH"
  using assms by (rule json_tokener_parse_type)

theorem json_tokener_parse_typed_witness:
  "json_typed sample_value \<and> nest sample_value < MAX_DEPTH"
  using json_tokener_parse_typed [of "json_object_to_json_string sample_value" sample_value]
    json_roundtrip_text [of sample_value]
  by (simp add: sample_value_def is_int32_def printable_int MAX_DEPTH_def del: printable.simps(3))

end
