(* ===== verification/DaemonSystem.thy ===== *)
theory DaemonSystem
  imports Threads Flush Mgmt JsonTypes
begin

text \<open>
  The daemon as one transition system: the four threads of \<^verbatim>\<open>main\<close>, each turn of
  which is a step, over the ring, the tables, the options and the state of the management port
  that they share. A turn that faults has no step. The turns are taken one at a time here;
  \<open>QueueThreads\<close> and \<open>FlushRace\<close> look inside them where two threads meet without a lock.

  The lemmas show that every turn of every thread keeps the tables well formed, whatever the
  sockets deliver, and that every string in the ring fits the buffer the queue thread copies it
  into.
\<close>

subsection \<open>JSON packets keep the tables\<close>

lemma typed_lookup: "members_typed kvs \<Longrightarrow> json_typed (members_lookup k kvs)"
  by (induction kvs) (auto simp: members_lookup_def split: option.splits)

lemma typed_element: "elements_typed vs \<Longrightarrow> v \<in> set vs \<Longrightarrow> json_typed v"
  by (induction vs) auto

lemma typed_double: "json_typed j \<Longrightarrow> fp_ok binary64 (json_object_get_double j)"
proof -
  have l: "sscanf_lf s = Some d \<Longrightarrow> fp_ok binary64 d" for s d
    by (auto simp: sscanf_lf_def Let_def dest: fp_ok_strtod_full split: if_splits)
  show "json_typed j \<Longrightarrow> fp_ok binary64 (json_object_get_double j)"
    by (cases j) (auto simp: fp_of_int_def dest: l split: option.split)
qed

lemma event_of_typed:
  assumes "json_typed (JObject kvs)"
  shows "event_of kvs = Count k v r \<Longrightarrow> is_cstring k \<and> fp_ok binary64 v"
    and "event_of kvs = Time k v \<Longrightarrow> is_cstring k \<and> fp_ok binary64 v"
  using assms typed_double [OF typed_lookup, of kvs] by (auto simp: event_of_def Let_def split: if_splits)

lemma process_json_stats_object_wf:
  assumes "daemon_wf d" and "json_typed obj" and "process_json_stats_object obj d = Inr d'"
  shows "daemon_wf d'"
proof -
  from assms(3) obtain kvs where obj: "obj = JObject kvs"
    by (cases obj) (auto simp: process_json_stats_object_def json_object_object_get_def)
  with assms(2) have t: "json_typed (JObject kvs)" by simp
  from assms(3) have r: "apply_event (event_of kvs) d = Inr d'"
    by (simp add: obj process_json_stats_object_eq)
  show ?thesis
  proof (cases "event_of kvs")
    case (Count k v r)
    with r event_of_typed(1) [OF t Count] show ?thesis
      by (intro update_counter_wf [OF assms(1), of k v r]) (simp_all add: apply_event_def)
  next
    case (Time k v)
    with r event_of_typed(2) [OF t Time] show ?thesis
      by (intro update_timer_wf [OF assms(1), of k v]) (simp_all add: apply_event_def)
  next
    case Ignore
    with r assms(1) show ?thesis by (simp add: apply_event_def)
  qed
qed

lemma process_json_stats_packet_wf:
  assumes "daemon_wf d" and "process_json_stats_packet t buf d = Inr d'"
  shows "daemon_wf d'"
proof (cases "length buf < 2")
  case True
  with assms show ?thesis by (auto simp: process_json_stats_packet_def intro: UPDATE_LAST_MSG_SEEN_wf)
next
  case False
  with assms(2) obtain j where j: "json_tokener_parse buf = Inr (Inr j)"
    by (auto simp: process_json_stats_packet_def split: sum.splits)
  then have t: "json_typed j" by (simp add: json_tokener_parse_type)
  have turn: "daemon_wf e'" if "daemon_wf e" "json_array_turn (JArray vs) i e = Inr e'" "j = JArray vs" "i < length vs"
    for e e' vs i
    using that t process_json_stats_object_wf [OF that(1), of "vs ! i"] typed_element [of vs "vs ! i"]
    by (auto simp: json_array_turn_def json_object_array_get_idx_def)
  show ?thesis
  proof (cases j)
    case (JObject kvs)
    with assms(2) False j have "process_json_stats_object j d = Inr d'"
      by (simp add: process_json_stats_packet_def)
    with assms(1) t show ?thesis by (rule process_json_stats_object_wf)
  next
    case (JArray vs)
    with assms(2) False j have "rfold (json_array_turn (JArray vs)) [0..<length vs] d = Inr d'"
      by (simp add: process_json_stats_packet_def json_object_array_length_def)
    then show ?thesis by (rule rfold_invariant) (use assms(1) turn JArray in auto)
  qed (use assms False j in \<open>auto simp: process_json_stats_packet_def\<close>)
qed

lemma process_packet_wf:
  assumes "daemon_wf d" and "process_packet t p d = Inr d'"
  shows "daemon_wf d'"
proof -
  have "process_json_stats_packet t p d = Inr d' \<or> process_stats_packet t p d = Inr d'"
    using assms(2) by (auto simp: process_packet_def split: if_splits)
  with process_json_stats_packet_wf [OF assms(1)] process_stats_packet_wf [OF assms(1)] show ?thesis by blast
qed

subsection \<open>A flush keeps the tables\<close>

lemma table_ok_put:
  assumes "table_ok key ok es" and "i < length es" and "key e = key (es ! i)" and "ok e"
  shows "table_ok key ok (hash_put i e es)"
  using assms set_hash_put_subset [of i e es] map_key_put [of i es key e]
  by (auto simp: table_ok_def hash_wf_def)

text \<open>An action of a flush that leaves the tables alone: the sends and the counting.\<close>

definition quiet :: "(flush_state \<Rightarrow> flush_state res) \<Rightarrow> bool" where
  "quiet f \<longleftrightarrow> (\<forall>s s'. f s = Inr s' \<longrightarrow> fdaemon s' = fdaemon s)"

lemma quietD: "quiet f \<Longrightarrow> f s = Inr s' \<Longrightarrow> fdaemon s' = fdaemon s"
  by (simp add: quiet_def)

lemma quiet_bind: "quiet f \<Longrightarrow> quiet g \<Longrightarrow> quiet (\<lambda>s. rbind (f s) g)"
  unfolding quiet_def by fastforce

lemma quiet_value: "(\<And>k. quiet (f k)) \<Longrightarrow> quiet (\<lambda>s. rbind m (\<lambda>k. f k s))"
  unfolding quiet_def by fastforce

lemma quiet_when: "quiet f \<Longrightarrow> quiet (when_enabled b f)"
  by (simp add: quiet_def when_enabled_def)

lemma quiet_send: "quiet (SEND_GMETRIC_DOUBLE cfg g n v u)" "quiet (SEND_GMETRIC_INT cfg g n k u)" "quiet count_stat"
  by (auto simp: quiet_def SEND_GMETRIC_DOUBLE_def SEND_GMETRIC_INT_def count_stat_def)

lemmas quiet_intros = quiet_send quiet_when quiet_bind quiet_value

lemma fdaemon_put_text [simp]: "fdaemon (put_text t s) = fdaemon s"
  by (simp add: put_text_def)

lemma clear_counter_wf:
  assumes "daemon_wf d" and "i < length (counters d)" and "clear_counter i d = Inr d'"
  shows "daemon_wf d' \<and> length (counters d') = length (counters d)"
proof -
  from assms(3) daemon_wfD(5) [OF assms(1)]
  have d': "d' = d\<lparr>counters := hash_put i ((counters d ! i)\<lparr>cvalue := Fin 0\<rparr>) (counters d)\<rparr>"
    by (auto simp: clear_counter_def lock_defs sem_wait_def locks_ok_def split: nat.splits)
  have "counter_ok (counters d ! i)" using daemon_wfD(2) [OF assms(1)] assms(2) by (simp add: table_ok_def)
  then have "table_ok ckey counter_ok (hash_put i ((counters d ! i)\<lparr>cvalue := Fin 0\<rparr>) (counters d))"
    using daemon_wfD(2) [OF assms(1)] assms(2) by (intro table_ok_put) (simp_all add: counter_ok_def)
  with assms(1) show ?thesis by (simp add: d' daemon_wf_def locks_ok_def) (simp add: hash_put_def)
qed

lemma flush_counter_wf:
  assumes "daemon_wf (fdaemon s)" and "i < length (counters (fdaemon s))" and "flush_counter cfg env i s = Inr s'"
  shows "daemon_wf (fdaemon s') \<and> length (counters (fdaemon s')) = length (counters (fdaemon s))"
proof -
  have "clear_counter i (fdaemon s) = Inr (fdaemon s')"
    using assms(3) by (auto simp: flush_counter_def Let_def when_enabled_def
        dest!: quiet_send [THEN quietD] split: if_splits)
  with assms(1,2) show ?thesis by (rule clear_counter_wf)
qed

text \<open>What follows the emptying of a timer sends and counts.\<close>

lemma flush_timer_daemon:
  assumes "0 < timers_lock (fdaemon s)" and "flush_timer cfg env i s = Inr s'"
  shows "fdaemon s' = fdaemon s \<or> fdaemon s' = (fdaemon s)\<lparr>timers :=
    hash_put i ((timers (fdaemon s) ! i)\<lparr>tvalues := [], tcount := 0\<rparr>) (timers (fdaemon s))\<rparr>"
proof (cases "0 < tcount (timers (fdaemon s) ! i)")
  case False
  with assms(2) quietD [OF quiet_send(3)] show ?thesis by (simp add: flush_timer_def Let_def)
next
  case True
  let ?t = "timers (fdaemon s) ! i" and ?pct = "percentiles cfg ! 0"
  let ?e = "(fdaemon s)\<lparr>timers := hash_put i (?t\<lparr>tvalues := [], tcount := 0\<rparr>) (timers (fdaemon s))\<rparr>"
  define tail where "tail = (\<lambda>(st :: timer_stats) s. rbind (when_enabled (enable_gmetric cfg) (\<lambda>s.
      rbind (SEND_GMETRIC_DOUBLE cfg (tkey ?t) (tkey ?t @ ''_mean'') (seconds (mean st)) ''sec'' s) (\<lambda>s.
      rbind (SEND_GMETRIC_DOUBLE cfg (tkey ?t) (tkey ?t @ ''_upper'') (seconds (upper st)) ''sec'' s) (\<lambda>s.
      rbind (strcpy_buf (length (tkey ?t) + 12) (tkey ?t @ ''_'' @ dec_of_int ?pct @ ''th_pct'')) (\<lambda>k.
      rbind (SEND_GMETRIC_DOUBLE cfg (tkey ?t) k (seconds (upper_pct st)) ''sec'' s) (\<lambda>s.
      rbind (SEND_GMETRIC_DOUBLE cfg (tkey ?t) (tkey ?t @ ''_lower'') (seconds (lower st)) ''sec'' s) (\<lambda>s.
      SEND_GMETRIC_INT cfg (tkey ?t) (tkey ?t @ ''_count'') 0 ''count'' s)))))) s) count_stat)"
  have quiet: "quiet (tail st)" for st unfolding tail_def by (intro quiet_intros)
  have "flush_timer cfg env i s = rbind (timer_stats ?pct (?t\<lparr>tvalues := qsort double_sort (tvalues ?t)\<rparr>)) (\<lambda>st.
      tail st (if enable_graphite cfg then put_text (timer_text (tkey ?t) ?pct st 0 (ts env)) (s\<lparr>fdaemon := ?e\<rparr>)
               else s\<lparr>fdaemon := ?e\<rparr>))"
    using True assms(1) by (simp add: flush_timer_def Let_def lock_defs sem_wait_pos tail_def cong: if_cong)
  with assms(2) obtain st where "tail st (if enable_graphite cfg
      then put_text (timer_text (tkey ?t) ?pct st 0 (ts env)) (s\<lparr>fdaemon := ?e\<rparr>) else s\<lparr>fdaemon := ?e\<rparr>) = Inr s'"
    by auto
  from quietD [OF quiet this] show ?thesis by (simp split: if_splits)
qed

lemma flush_timer_wf:
  assumes "daemon_wf (fdaemon s)" and "i < length (timers (fdaemon s))" and "flush_timer cfg env i s = Inr s'"
  shows "daemon_wf (fdaemon s') \<and> length (timers (fdaemon s')) = length (timers (fdaemon s))"
proof -
  let ?d = "fdaemon s"
  let ?e = "?d\<lparr>timers := hash_put i ((timers ?d ! i)\<lparr>tvalues := [], tcount := 0\<rparr>) (timers ?d)\<rparr>"
  have "timer_ok (timers ?d ! i)" using daemon_wfD(4) [OF assms(1)] assms(2) by (simp add: table_ok_def)
  then have "table_ok tkey timer_ok (hash_put i ((timers ?d ! i)\<lparr>tvalues := [], tcount := 0\<rparr>) (timers ?d))"
    using daemon_wfD(4) [OF assms(1)] assms(2) by (intro table_ok_put) (simp_all add: timer_ok_def INT_MAX_def)
  with assms(1) have "daemon_wf ?e" "length (timers ?e) = length (timers ?d)"
    by (simp_all add: daemon_wf_def locks_ok_def) (simp add: hash_put_def)
  moreover have "0 < timers_lock ?d" using daemon_wfD(5) [OF assms(1)] by (simp add: locks_ok_def)
  ultimately show ?thesis using flush_timer_daemon [OF _ assms(3)] assms(1) by auto
qed

lemma quiet_flush_gauge: "flush_gauge cfg env i s = Inr s' \<Longrightarrow> fdaemon s' = fdaemon s"
  by (auto simp: flush_gauge_def Let_def when_enabled_def dest!: quiet_send [THEN quietD] split: if_splits)

lemma quiet_flush_totals: "flush_totals cfg env s = Inr s' \<Longrightarrow> fdaemon s' = fdaemon s"
  by (auto simp: flush_totals_def Let_def when_enabled_def dest!: quiet_send [THEN quietD] split: if_splits)

lemma flush_graphite_wf:
  "daemon_wf (fdaemon s) \<Longrightarrow> flush_graphite cfg env s = Inr (out, s') \<Longrightarrow> daemon_wf (fdaemon s')"
  by (auto simp: flush_graphite_def is_cstring_def elim!: update_stat_wf [rotated 3] split: if_splits)

lemma flush_cycle_wf:
  assumes "daemon_wf d" and "flush_cycle cfg env d = Inr (cfg', out, f)"
  shows "daemon_wf (fdaemon f)"
proof -
  let ?s = "\<lparr>fdaemon = d, statString = [], gmsgs = [], numStats = 0\<rparr>"
  obtain c s1 s2 s3 s4 where s: "flush_counters c env ?s = Inr s1" "flush_timers c env s1 = Inr s2"
    "flush_gauges c env s2 = Inr s3" "flush_totals c env s3 = Inr s4" "flush_graphite c env s4 = Inr (out, f)"
    using assms(2) by (auto simp: flush_cycle_def Let_def)
  have w: "daemon_wf (fdaemon s1) \<and> length (counters (fdaemon s1)) = length (counters d)"
  proof (rule rfold_invariant [OF s(1) [unfolded flush_counters_def],
        where P = "\<lambda>s. daemon_wf (fdaemon s) \<and> length (counters (fdaemon s)) = length (counters d)"])
    fix i s t assume "i \<in> set [0..<length (counters (fdaemon ?s))]" "flush_counter c env i s = Inr t"
      "daemon_wf (fdaemon s) \<and> length (counters (fdaemon s)) = length (counters d)"
    with flush_counter_wf [of s i c env t]
    show "daemon_wf (fdaemon t) \<and> length (counters (fdaemon t)) = length (counters d)" by simp
  qed (simp add: assms(1))
  have "daemon_wf (fdaemon s2) \<and> length (timers (fdaemon s2)) = length (timers (fdaemon s1))"
  proof (rule rfold_invariant [OF s(2) [unfolded flush_timers_def],
        where P = "\<lambda>s. daemon_wf (fdaemon s) \<and> length (timers (fdaemon s)) = length (timers (fdaemon s1))"])
    fix i s t assume "i \<in> set [0..<length (timers (fdaemon s1))]" "flush_timer c env i s = Inr t"
      "daemon_wf (fdaemon s) \<and> length (timers (fdaemon s)) = length (timers (fdaemon s1))"
    with flush_timer_wf [of s i c env t]
    show "daemon_wf (fdaemon t) \<and> length (timers (fdaemon t)) = length (timers (fdaemon s1))" by simp
  qed (simp add: w)
  moreover have "fdaemon s3 = fdaemon s2"
    by (rule rfold_invariant [OF s(3) [unfolded flush_gauges_def], where P = "\<lambda>s. fdaemon s = fdaemon s2"])
      (auto dest: quiet_flush_gauge)
  ultimately show ?thesis using s(5) quiet_flush_totals [OF s(4)] by (intro flush_graphite_wf [OF _ s(5)]) simp
qed

subsection \<open>The system\<close>

text \<open>\<^verbatim>\<open>listening\<close> is False when the UDP thread has left its loop.\<close>

record system =
  options :: config
  ring :: packet_queue
  listening :: bool
  tables :: daemon
  mgmt :: mgmt_state

text \<open>\<open>d\<close> is the tables as \<^verbatim>\<open>init_stats\<close> leaves them.\<close>

definition system_start :: "config \<Rightarrow> daemon \<Rightarrow> system" where
  "system_start cfg d = \<lparr>options = cfg, ring = queue_init, listening = True, tables = d,
     mgmt = \<lparr>mbuf = replicate MGMT_BUF (CHR 0x00), master = [], sent = []\<rparr>\<rparr>"

inductive system_step :: "system \<Rightarrow> system \<Rightarrow> bool" where
  udp: "listening s \<Longrightarrow> udp_turn i (ring s) = Inr (q, go) \<Longrightarrow> system_step s (s\<lparr>ring := q, listening := go\<rparr>)"
| dequeue: "queue_pop_first (ring s) = Inr (Some p, q) \<Longrightarrow> process_packet t p (tables s) = Inr d \<Longrightarrow>
    system_step s (s\<lparr>ring := q, tables := d\<rparr>)"
| flush: "flush_cycle (options s) env (tables s) = Inr (cfg, out, f) \<Longrightarrow>
    system_step s (s\<lparr>options := cfg, tables := fdaemon f\<rparr>)"
| manage: "mgmt_event (options s) (tables s) ev (mgmt s) = Inr st \<Longrightarrow> system_step s (s\<lparr>mgmt := st\<rparr>)"

definition ring_ok :: "packet_queue \<Rightarrow> bool" where
  "ring_ok q \<longleftrightarrow> queue_store_pos q \<le> MAX_QUEUE_SIZE \<and> queue_retrieve_pos q < MAX_QUEUE_SIZE
     \<and> (\<forall>i p. queue q i = Some p \<longrightarrow> i < MAX_QUEUE_SIZE \<and> is_cstring p \<and> length p < BUFLEN)"

definition system_ok :: "system \<Rightarrow> bool" where
  "system_ok s \<longleftrightarrow> daemon_wf (tables s) \<and> ring_ok (ring s) \<and> length (mbuf (mgmt s)) = MGMT_BUF"

lemma ring_ok_store:
  "ring_ok q \<Longrightarrow> is_cstring p \<Longrightarrow> length p < BUFLEN \<Longrightarrow> \<exists>q'. queue_store p q = Inr q' \<and> ring_ok q'"
  by (auto simp: ring_ok_def queue_store_def queue_write_def Let_def)

lemma ring_ok_pop:
  assumes "ring_ok q"
  shows "\<exists>p q'. queue_pop_first q = Inr (p, q') \<and> ring_ok q' \<and> (\<forall>s. p = Some s \<longrightarrow> is_cstring s \<and> length s < BUFLEN)"
proof (cases "queue q (queue_retrieve_pos q)")
  case None
  with assms show ?thesis by (simp add: queue_pop_first_def queue_read_def ring_ok_def)
next
  case (Some p)
  with assms show ?thesis
    by (auto simp: queue_pop_first_def queue_read_def queue_write_def ring_ok_def Let_def dest: Suc_lessI)
qed

text \<open>\<^verbatim>\<open>buf_in\<close> ends in a zero byte.\<close>

lemma length_cstr_udp_buffer: "length (cstr_of (udp_buffer bs)) < BUFLEN"
proof -
  have l: "length (udp_buffer bs) = BUFLEN" by (simp add: udp_buffer_def)
  have "udp_buffer bs ! (BUFLEN - 1) = CHR 0x00" by (simp add: udp_buffer_def BUFLEN_def)
  then have "udp_buffer bs = take (BUFLEN - 1) (udp_buffer bs) @ CHR 0x00 # []"
    using l BUFLEN_pos by (metis Suc_diff_1 append_take_drop_id Cons_nth_drop_Suc diff_less drop_all order_refl zero_less_one)
  then have "cstr_of (udp_buffer bs) = cstr_of (take (BUFLEN - 1) (udp_buffer bs))"
    by (metis cstr_of_append_zero)
  also have "length \<dots> \<le> BUFLEN - 1" using length_cstr_of [of "take (BUFLEN - 1) (udp_buffer bs)"] by simp
  finally show ?thesis using BUFLEN_pos by simp
qed

lemma udp_turn_ok:
  assumes "ring_ok q"
  shows "\<exists>q' go. udp_turn i q = Inr (q', go) \<and> ring_ok q'"
proof (cases i)
  case (Datagram bs)
  obtain q' where "queue_store (cstr_of (udp_buffer bs)) q = Inr q'" "ring_ok q'"
    using ring_ok_store [OF assms] length_cstr_udp_buffer is_cstring_cstr_of by blast
  with Datagram assms show ?thesis by (cases "length (take BUFLEN bs) = 0") (auto simp: udp_turn_def)
qed (use assms in \<open>auto simp: udp_turn_def\<close>)

lemma mgmt_event_buffer:
  "length (mbuf st) = MGMT_BUF \<Longrightarrow> mgmt_event cfg d ev st = Inr st' \<Longrightarrow> length (mbuf st') = MGMT_BUF"
  by (auto simp: mgmt_event_def Let_def length_mgmt_recv split: mgmt_event.splits)

lemma system_step_ok: "system_step s s' \<Longrightarrow> system_ok s \<Longrightarrow> system_ok s'"
proof (induction rule: system_step.induct)
  case (udp s i q go)
  then show ?case using udp_turn_ok [of "ring s" i] by (auto simp: system_ok_def)
next
  case (dequeue s p q t d)
  then show ?case using process_packet_wf ring_ok_pop [of "ring s"] by (auto simp: system_ok_def)
next
  case (flush s env cfg out f)
  then show ?case using flush_cycle_wf by (auto simp: system_ok_def)
next
  case (manage s ev st)
  then show ?case using mgmt_event_buffer by (auto simp: system_ok_def)
qed

lemma system_start_ok: "daemon_wf d \<Longrightarrow> system_ok (system_start cfg d)"
  by (simp add: system_ok_def system_start_def ring_ok_def queue_init_def)

lemma system_reachable_ok: "system_step\<^sup>*\<^sup>* (system_start cfg d) s \<Longrightarrow> daemon_wf d \<Longrightarrow> system_ok s"
  by (induction rule: rtranclp_induct) (auto simp: system_start_ok system_step_ok)

text \<open>
  C2: In every state the four threads of the daemon can reach from a start with well-formed
  tables, in any order of their turns and whatever the sockets deliver, the tables are well formed, every slot of the
  ring is empty or holds a terminated string, and the buffer of the management port has its
  size; so a packet that is taken from the ring fits the buffer it is copied into, and one of
  the two parsers gets it.
\<close>

theorem system_invariant:
  assumes "daemon_wf d" and "system_step\<^sup>*\<^sup>* (system_start cfg d) s"
  shows "daemon_wf (tables s) \<and> ring_ok (ring s) \<and> length (mbuf (mgmt s)) = MGMT_BUF
    \<and> (\<forall>p q t. queue_pop_first (ring s) = Inr (Some p, q) \<longrightarrow>
         process_packet t p (tables s) =
           (if take 1 p = ''{'' \<or> take 1 p = ''['' then process_json_stats_packet t p (tables s)
            else process_stats_packet t p (tables s)))"
  using system_reachable_ok [OF assms(2,1)] ring_ok_pop [of "ring s"]
  by (auto simp: system_ok_def process_packet_def)

text \<open>In such a state the turns of the UDP thread and the pops never leave the array.\<close>

lemma system_ring_in_bounds:
  assumes "daemon_wf d" and "system_step\<^sup>*\<^sup>* (system_start cfg d) s"
  shows "(\<exists>r. udp_turn i (ring s) = Inr r) \<and> (\<exists>r. queue_pop_first (ring s) = Inr r)"
proof -
  have "ring_ok (ring s)" using system_reachable_ok [OF assms(2,1)] by (simp add: system_ok_def)
  with udp_turn_ok [of "ring s" i] ring_ok_pop [of "ring s"] show ?thesis by blast
qed

theorem system_invariant_witness:
  "\<exists>s. system_step\<^sup>*\<^sup>* (system_start config_init daemon_init) s \<and> queue (ring s) 0 = Some ''a:1|c'' \<and> ring_ok (ring s)"
proof -
  obtain q where q: "queue_store ''a:1|c'' queue_init = Inr q" "queue q 0 = Some ''a:1|c''"
    by (simp add: queue_store_def queue_write_def queue_init_def MAX_QUEUE_SIZE_def)
  let ?s = "(system_start config_init daemon_init)\<lparr>ring := q, listening := True\<rparr>"
  have "cstr_of (udp_buffer ''a:1|c'') = ''a:1|c''"
    by (subst cstr_of_udp_buffer) (simp_all add: BUFLEN_def is_cstring_def cstr_of_id)
  then have "udp_turn (Datagram ''a:1|c'') (ring (system_start config_init daemon_init)) = Inr (q, True)"
    using q(1) by (simp add: udp_turn_def BUFLEN_def system_start_def)
  then have "system_step (system_start config_init daemon_init) ?s"
    by (intro system_step.udp) (simp_all add: system_start_def)
  then have r: "system_step\<^sup>*\<^sup>* (system_start config_init daemon_init) ?s" by (rule r_into_rtranclp)
  from system_invariant [OF daemon_wf_init r] r show ?thesis
    using q(2) by (intro exI [of _ ?s]) simp
qed

end
