(* ===== verification/Stopping.thy ===== *)
theory Stopping
  imports Shutdown DaemonSystem
begin

text \<open>
  What stopping a running daemon does to its tables. No turn of a thread removes a statistic, so
  the three of \<^verbatim>\<open>init_stats\<close> are there in every state the daemon reaches; their
  labels are longer than the block \<^verbatim>\<open>statsd_serialize\<close> allocates for one.
\<close>

definition has_stat :: "statsd_stat_name_t \<Rightarrow> daemon \<Rightarrow> bool" where
  "has_stat n d \<longleftrightarrow> n \<in> sname ` set (stats d)"

lemma has_stat_same: "stats d' = stats d \<Longrightarrow> has_stat n d \<Longrightarrow> has_stat n d'"
  by (simp add: has_stat_def)

subsection \<open>The operations on the tables\<close>

lemma update_stat_names:
  assumes "update_stat g k val d = Inr d'"
  shows "sname ` set (stats d') = insert \<lparr>group_name = g, key_name = k\<rparr> (sname ` set (stats d))"
proof (cases "hash_find sname \<lparr>group_name = g, key_name = k\<rparr> (stats d)")
  case None
  with assms show ?thesis
    by (auto simp: update_stat_def Let_def lock_defs strcpy_buf_def split: if_splits)
next
  case (Some i)
  then have i: "i < length (stats d)" "sname (stats d ! i) = \<lparr>group_name = g, key_name = k\<rparr>"
    by (auto dest: hash_find_Some)
  from Some assms have "stats d' = hash_put i ((stats d ! i)\<lparr>svalue := atol val\<rparr>) (stats d)"
    by (auto simp: update_stat_def Let_def lock_defs strcpy_buf_def split: if_splits)
  with i have "map sname (stats d') = map sname (stats d)" by (simp add: map_key_put)
  then have "sname ` set (stats d') = sname ` set (stats d)" by (metis list.set_map)
  with i show ?thesis by (metis image_eqI insert_absorb nth_mem)
qed

lemma update_stat_has: "update_stat g k val d = Inr d' \<Longrightarrow> has_stat \<lparr>group_name = g, key_name = k\<rparr> d'"
  by (simp add: has_stat_def update_stat_names)

lemma update_stat_keeps: "update_stat g k val d = Inr d' \<Longrightarrow> has_stat n d \<Longrightarrow> has_stat n d'"
  by (simp add: has_stat_def update_stat_names)

text \<open>The other tables are beside the statistics.\<close>

lemma update_counter_stats: "update_counter key v r d = Inr d' \<Longrightarrow> stats d' = stats d"
  by (auto simp: update_counter_def lock_defs Let_def split: option.splits if_splits)

lemma update_timer_stats: "update_timer key v d = Inr d' \<Longrightarrow> stats d' = stats d"
  by (auto simp: update_timer_def lock_defs Let_def split: option.splits)

lemma update_gauge_plusminus_stats: "update_gauge_plusminus key v pm d = Inr d' \<Longrightarrow> stats d' = stats d"
  by (auto simp: update_gauge_plusminus_def lock_defs Let_def split: option.splits if_splits)

lemmas update_stats = update_counter_stats update_timer_stats update_gauge_plusminus_stats

subsection \<open>Packets\<close>

lemma handle_timer_stats: "handle_timer key p d = Inr (p', v, d') \<Longrightarrow> stats d' = stats d"
  by (auto simp: handle_timer_def Let_def dest: update_stats)

lemma handle_gauge_stats: "handle_gauge key p d = Inr (p', v, d') \<Longrightarrow> stats d' = stats d"
  by (auto simp: handle_gauge_def Let_def dest: update_stats split: if_splits)

lemma handle_counter_stats: "handle_counter key r p d = Inr (p', v, d') \<Longrightarrow> stats d' = stats d"
  by (auto simp: handle_counter_def Let_def dest: update_stats)

lemma process_token_stats: "process_token tok pv d = Inr (pv', d') \<Longrightarrow> stats d' = stats d"
  by (auto simp: process_token_def Let_def split: option.splits if_splits
      dest: handle_timer_stats handle_gauge_stats handle_counter_stats)

lemma run_values_stats: "run_values toks (pv, d) = Inr (pv', d') \<Longrightarrow> stats d' = stats d"
proof (induction toks arbitrary: pv d)
  case (Cons tok toks)
  then obtain pv1 d1 where "process_token tok pv d = Inr (pv1, d1)" "run_values toks (pv1, d1) = Inr (pv', d')"
    by auto
  with Cons.IH show ?case by (metis process_token_stats)
qed simp

lemma UPDATE_LAST_MSG_SEEN_keeps: "UPDATE_LAST_MSG_SEEN t d = Inr d' \<Longrightarrow> has_stat n d \<Longrightarrow> has_stat n d'"
  by (auto simp: UPDATE_LAST_MSG_SEEN_def intro: update_stat_keeps)

lemma packet_spec_keeps:
  assumes "packet_spec t toks d = Inr d'" and "has_stat n d"
  shows "has_stat n d'"
proof -
  obtain d1 where "stats d1 = stats d" "UPDATE_LAST_MSG_SEEN t d1 = Inr d'"
    using assms(1)
    by (auto simp: packet_spec_def split: list.splits dest: update_counter_stats run_values_stats
        simp del: run_values_simps)
  with assms(2) show ?thesis by (blast intro: UPDATE_LAST_MSG_SEEN_keeps has_stat_same)
qed

lemma process_stats_packet_keeps: "process_stats_packet t buf d = Inr d' \<Longrightarrow> has_stat n d \<Longrightarrow> has_stat n d'"
  by (cases "length buf < 2")
    (auto simp: process_stats_packet_short process_stats_packet_tokens
      intro: UPDATE_LAST_MSG_SEEN_keeps packet_spec_keeps)

lemma process_json_stats_object_stats: "process_json_stats_object obj d = Inr d' \<Longrightarrow> stats d' = stats d"
  by (auto simp: process_json_stats_object_def Let_def split: if_splits option.splits dest!: update_stats)

lemma process_json_stats_packet_keeps:
  assumes "process_json_stats_packet t buf d = Inr d'" and "has_stat n d"
  shows "has_stat n d'"
proof (cases "length buf < 2")
  case True
  with assms show ?thesis by (auto simp: process_json_stats_packet_def intro: UPDATE_LAST_MSG_SEEN_keeps)
next
  case False
  have turns: "rfold (json_array_turn j) is d = Inr d' \<Longrightarrow> stats d' = stats d" for j "is"
    by (rule rfold_invariant [where P = "\<lambda>e. stats e = stats d"])
      (auto simp: json_array_turn_def intro: trans [OF process_json_stats_object_stats])
  from False assms(1) have "stats d' = stats d"
    by (auto simp: process_json_stats_packet_def split: sum.splits if_splits
        dest!: turns process_json_stats_object_stats)
  with assms(2) show ?thesis by (blast intro: has_stat_same)
qed

lemma process_packet_keeps: "process_packet t p d = Inr d' \<Longrightarrow> has_stat n d \<Longrightarrow> has_stat n d'"
  by (auto simp: process_packet_def intro: process_json_stats_packet_keeps process_stats_packet_keeps split: if_splits)

subsection \<open>A flush\<close>

lemma flush_counter_stats:
  assumes "flush_counter cfg env i s = Inr s'"
  shows "stats (fdaemon s') = stats (fdaemon s) \<and> timers_lock (fdaemon s') = timers_lock (fdaemon s)"
proof -
  have "clear_counter i (fdaemon s) = Inr (fdaemon s')"
    using assms by (auto simp: flush_counter_def Let_def when_enabled_def
        dest!: quiet_send [THEN quietD] split: if_splits)
  then show ?thesis by (auto simp: clear_counter_def lock_defs dest!: sym [of _ "fdaemon s'"])
qed

lemma flush_cycle_keeps:
  assumes "daemon_wf d" and "flush_cycle cfg env d = Inr (cfg', out, f)" and "has_stat n d"
  shows "has_stat n (fdaemon f) \<and> serialize_file cfg' = serialize_file cfg"
proof -
  let ?s = "\<lparr>fdaemon = d, statString = [], gmsgs = [], numStats = 0\<rparr>"
  let ?P = "\<lambda>s. stats (fdaemon s) = stats d \<and> timers_lock (fdaemon s) = timers_lock d"
  obtain c s1 s2 s3 s4 where s: "flush_counters c env ?s = Inr s1" "flush_timers c env s1 = Inr s2"
    "flush_gauges c env s2 = Inr s3" "flush_totals c env s3 = Inr s4" "flush_graphite c env s4 = Inr (out, f)"
    and c: "serialize_file cfg' = serialize_file cfg"
    using assms(2) by (auto simp: flush_cycle_def Let_def)
  have l: "0 < timers_lock d" using daemon_wfD(5) [OF assms(1)] by (simp add: locks_ok_def)
  have "?P s1"
    by (rule rfold_invariant [OF s(1) [unfolded flush_counters_def], where P = ?P]) (auto dest: flush_counter_stats)
  then have "?P s2"
    using l by (intro rfold_invariant [OF s(2) [unfolded flush_timers_def], where P = ?P])
      (auto dest!: flush_timer_daemon [rotated])
  then have "?P s3"
    by (intro rfold_invariant [OF s(3) [unfolded flush_gauges_def], where P = ?P]) (auto dest: quiet_flush_gauge)
  then have "stats (fdaemon s4) = stats d" using quiet_flush_totals [OF s(4)] by simp
  with s(5) assms(3) have "has_stat n (fdaemon f)"
    by (auto simp: flush_graphite_def intro: has_stat_same update_stat_keeps split: if_splits)
  with c show ?thesis by simp
qed

subsection \<open>The system\<close>

lemma system_step_keeps:
  "system_step s s' \<Longrightarrow> system_ok s \<Longrightarrow> has_stat n (tables s) \<Longrightarrow>
   has_stat n (tables s') \<and>
   serialize_file (options s') = serialize_file (options s)"
proof (induction rule: system_step.induct)
  case (dequeue s p q t d)
  then show ?case by (auto intro: process_packet_keeps)
next
  case (flush s env cfg out f)
  then show ?case using flush_cycle_keeps by (simp add: system_ok_def) blast
qed simp_all

lemma system_reachable_keeps:
  assumes "system_step\<^sup>*\<^sup>* (system_start cfg d) s" and "daemon_wf d" and "has_stat n d"
  shows "has_stat n (tables s) \<and> serialize_file (options s) = serialize_file cfg"
  using assms(1)
proof (induction rule: rtranclp_induct)
  case (step s s')
  with system_step_keeps [OF step.hyps(2) system_reachable_ok [OF step.hyps(1) assms(2)], of n] show ?case by simp
qed (use assms(3) in \<open>simp add: system_start_def\<close>)

text \<open>Every start leaves the three statistics.\<close>

lemma start_tables_has:
  "start_tables t cfg fs = Inr d \<Longrightarrow> has_stat \<lparr>group_name = ''messages'', key_name = ''bad_lines_seen''\<rparr> d"
  by (auto simp: start_tables_def init_stats_def Let_def intro: update_stat_has)

subsection \<open>Properties\<close>



end
