(* ===== verification/TokenerBuf.thy ===== *)
theory TokenerBuf
  imports PrintBuf Tokener
begin

text \<open>
  The JSON parser over its print buffer (\<^verbatim>\<open>json_tokener.c\<close>). \<open>Tokener\<close> has the state
  machine with the buffer as a list of bytes; here are the cases of the switch that use the buffer,
  over the \<^verbatim>\<open>printbuf\<close> of \<open>PrintBuf\<close> with its allocated bytes and its
  \<^verbatim>\<open>int\<close> sizes, and the loop with \<^verbatim>\<open>char_offset\<close>, an
  \<^verbatim>\<open>int\<close> that nothing reads here, as the argument \<open>off\<close>. A level outside the stack
  is a fault where the switch reads its state. The cases without the buffer are those of
  \<open>Tokener\<close>. What a tight loop collects and appends as one block is appended byte by byte.

  The lemmas show, case by case, that the machine agrees with that of \<open>Tokener\<close>, which does not
  fail: no byte outside the buffer is written, none is read that was not written, no
  \<^verbatim>\<open>int\<close> overflows.
\<close>

type_synonym btokener = "printbuf tokst"

type_synonym boutcome = "printbuf tok_outcome"

text \<open>The macro of \<^verbatim>\<open>printbuf.h\<close>.\<close>

definition printbuf_memappend_fast :: "printbuf \<Rightarrow> char list \<Rightarrow> printbuf res" where
  "printbuf_memappend_fast p bs =
     (if int (length bs) < int (bsize p) - int (bpos p)
      then rbind (memcpy (bpos p) bs (buf p)) (\<lambda>b.
           rbind (memcpy (bpos p + length bs) [CHR 0x00] b) (\<lambda>b.
           Inr (p\<lparr>buf := b, bpos := bpos p + length bs\<rparr>)))
      else printbuf_memappend p bs)"

definition pb_append :: "char list \<Rightarrow> btokener \<Rightarrow> btokener res" where
  "pb_append bs tok = rbind (printbuf_memappend_fast (pb tok) bs) (\<lambda>p. Inr (tok\<lparr>pb := p\<rparr>))"

definition pb_clear :: "btokener \<Rightarrow> btokener res" where
  "pb_clear tok = rbind (printbuf_reset (pb tok)) (\<lambda>p. Inr (tok\<lparr>pb := p\<rparr>))"

text \<open>\<^verbatim>\<open>tok->pb->buf\<close> as a string.\<close>

definition pb_string :: "btokener \<Rightarrow> cstring res" where
  "pb_string tok = (case cstr_at (buf (pb tok)) of None \<Rightarrow> Inl Uninitialised | Some s \<Rightarrow> Inr s)"

text \<open>\<^verbatim>\<open>strncasecmp\<close> with the bytes of a buffer.\<close>

fun strncaseeq_at :: "cstring \<Rightarrow> char option list \<Rightarrow> nat \<Rightarrow> bool res" where
  "strncaseeq_at a b 0 = Inr True"
| "strncaseeq_at (x # a) (Some y # b) (Suc n) =
     (if tolower x \<noteq> tolower y then Inr False
      else if x = CHR 0x00 then Inr True else strncaseeq_at a b n)"
| "strncaseeq_at (x # a) (None # b) (Suc n) = Inl Uninitialised"
| "strncaseeq_at _ _ (Suc n) = Inl Out_Of_Bounds"

lemma strncaseeq_at_code [code]:
  "strncaseeq_at a b n =
     (if n = 0 then Inr True
      else case (a, b) of
          (x # a', Some y # b') \<Rightarrow> (if tolower x \<noteq> tolower y then Inr False
            else if x = CHR 0x00 then Inr True else strncaseeq_at a' b' (n - 1))
        | (x # a', None # b') \<Rightarrow> Inl Uninitialised
        | _ \<Rightarrow> Inl Out_Of_Bounds)"
  by (cases "(a, b, n)" rule: strncaseeq_at.cases) (simp_all split: list.split)

subsection \<open>The cases of the switch\<close>

definition buf_eatws :: "char \<Rightarrow> btokener \<Rightarrow> json \<Rightarrow> boutcome res" where
  "buf_eatws c tok obj =
     (if isspace c then Inr (Next tok obj)
      else if c = CHR ''/''
      then rbind (pb_clear tok) (\<lambda>tok. rbind (pb_append [c] tok) (\<lambda>tok. Inr (Next (set_state Comment_Start tok) obj)))
      else Inr (Redo (set_state (saved_state (level tok)) tok) obj))"

definition buf_start :: "char \<Rightarrow> btokener \<Rightarrow> json \<Rightarrow> boutcome res" where
  "buf_start c tok obj =
     (if c = CHR ''{''
      then Inr (Next (set_current (JObject []) (eatws_then Object_Field_Start tok)) obj)
      else if c = CHR ''[''
      then Inr (Next (set_current (JArray []) (eatws_then Array tok)) obj)
      else if c = CHR ''N'' \<or> c = CHR ''n''
      then rbind (pb_clear (set_state Null tok)) (\<lambda>tok. Inr (Redo (tok\<lparr>st_pos := 0\<rparr>) obj))
      else if c = CHR 0x22 \<or> c = CHR 0x27
      then rbind (pb_clear (set_state Str tok)) (\<lambda>tok. Inr (Next (tok\<lparr>quote_char := c\<rparr>) obj))
      else if c = CHR ''T'' \<or> c = CHR ''t'' \<or> c = CHR ''F'' \<or> c = CHR ''f''
      then rbind (pb_clear (set_state Boolean tok)) (\<lambda>tok. Inr (Redo (tok\<lparr>st_pos := 0\<rparr>) obj))
      else if is_digit c \<or> c = CHR ''-''
      then rbind (pb_clear (set_state Number tok)) (\<lambda>tok. Inr (Redo (tok\<lparr>is_double := False\<rparr>) obj))
      else fail json_tokener_error_parse_unexpected tok obj)"

definition buf_null :: "char \<Rightarrow> btokener \<Rightarrow> json \<Rightarrow> boutcome res" where
  "buf_null c tok obj =
     rbind (pb_append [c] tok) (\<lambda>tok.
     rbind (strncaseeq_at json_null_str (buf (pb tok)) (min (st_pos tok + 1) (length json_null_str))) (\<lambda>eq.
     if eq
     then if st_pos tok = length json_null_str
          then Inr (Redo (eatws_then Finish (set_current JNull tok)) obj)
          else Inr (Next (tok\<lparr>st_pos := st_pos tok + 1\<rparr>) obj)
     else fail json_tokener_error_parse_null tok obj))"

definition buf_comment_start :: "char \<Rightarrow> btokener \<Rightarrow> json \<Rightarrow> boutcome res" where
  "buf_comment_start c tok obj =
     (if c = CHR ''*'' then rbind (pb_append [c] (set_state Comment tok)) (\<lambda>tok. Inr (Next tok obj))
      else if c = CHR ''/'' then rbind (pb_append [c] (set_state Comment_Eol tok)) (\<lambda>tok. Inr (Next tok obj))
      else fail json_tokener_error_parse_comment tok obj)"

definition buf_comment :: "char \<Rightarrow> btokener \<Rightarrow> json \<Rightarrow> boutcome res" where
  "buf_comment c tok obj =
     rbind (pb_append [c] tok) (\<lambda>tok.
     if c \<noteq> CHR ''*'' then Inr (Next tok obj) else Inr (Next (set_state Comment_End tok) obj))"

definition buf_comment_eol :: "char \<Rightarrow> btokener \<Rightarrow> json \<Rightarrow> boutcome res" where
  "buf_comment_eol c tok obj =
     (if c \<noteq> CHR 0x0A then rbind (pb_append [c] tok) (\<lambda>tok. Inr (Next tok obj))
      else Inr (Next (set_state Eatws tok) obj))"

definition buf_comment_end :: "char \<Rightarrow> btokener \<Rightarrow> json \<Rightarrow> boutcome res" where
  "buf_comment_end c tok obj =
     rbind (pb_append [c] tok) (\<lambda>tok.
     if c = CHR ''/'' then Inr (Next (set_state Eatws tok) obj) else Inr (Next (set_state Comment tok) obj))"

definition buf_string :: "char \<Rightarrow> btokener \<Rightarrow> json \<Rightarrow> boutcome res" where
  "buf_string c tok obj =
     (if c = quote_char tok
      then rbind (pb_string tok) (\<lambda>str. Inr (Next (eatws_then Finish (set_current (JString str) tok)) obj))
      else if c = CHR 0x5C
      then Inr (Next (set_state String_Escape (set_saved_state Str tok)) obj)
      else rbind (pb_append [c] tok) (\<lambda>tok. Inr (Next tok obj)))"

definition buf_string_escape :: "char \<Rightarrow> btokener \<Rightarrow> json \<Rightarrow> boutcome res" where
  "buf_string_escape c tok obj =
     (if c = CHR 0x22 \<or> c = CHR 0x5C \<or> c = CHR ''/''
      then rbind (pb_append [c] tok) (\<lambda>tok. Inr (Next (set_state (saved_state (level tok)) tok) obj))
      else if c = CHR ''b'' \<or> c = CHR ''n'' \<or> c = CHR ''r'' \<or> c = CHR ''t''
      then rbind (pb_append [if c = CHR ''b'' then CHR 0x08 else if c = CHR ''n'' then CHR 0x0A
                             else if c = CHR ''r'' then CHR 0x0D else CHR 0x09] tok) (\<lambda>tok.
           Inr (Next (set_state (saved_state (level tok)) tok) obj))
      else if c = CHR ''u''
      then Inr (Next (set_state Escape_Unicode (tok\<lparr>ucs_char := 0, st_pos := 0\<rparr>)) obj)
      else fail json_tokener_error_parse_string tok obj)"

definition buf_escape_unicode :: "char \<Rightarrow> btokener \<Rightarrow> json \<Rightarrow> boutcome res" where
  "buf_escape_unicode c tok0 obj =
     (if is_hex c
      then let tok = tok0\<lparr>ucs_char := ucs_char tok0 + push_bit ((3 - st_pos tok0) * 4) (hexdigit c),
                          st_pos := st_pos tok0 + 1\<rparr>
           in if st_pos tok = 4
              then rbind (pb_append (utf8 (ucs_char tok)) tok) (\<lambda>tok.
                   Inr (Next (set_state (saved_state (level tok)) tok) obj))
              else Inr (Next tok obj)
      else fail json_tokener_error_parse_string tok0 obj)"

definition buf_boolean :: "char \<Rightarrow> btokener \<Rightarrow> json \<Rightarrow> boutcome res" where
  "buf_boolean c tok obj =
     rbind (pb_append [c] tok) (\<lambda>tok.
     rbind (strncaseeq_at json_true_str (buf (pb tok)) (min (st_pos tok + 1) (length json_true_str))) (\<lambda>eq.
     if eq
     then if st_pos tok = length json_true_str
          then Inr (Redo (eatws_then Finish (set_current (JBool True) tok)) obj)
          else Inr (Next (tok\<lparr>st_pos := st_pos tok + 1\<rparr>) obj)
     else rbind (strncaseeq_at json_false_str (buf (pb tok)) (min (st_pos tok + 1) (length json_false_str))) (\<lambda>eq.
       if eq
       then if st_pos tok = length json_false_str
            then Inr (Redo (eatws_then Finish (set_current (JBool False) tok)) obj)
            else Inr (Next (tok\<lparr>st_pos := st_pos tok + 1\<rparr>) obj)
       else fail json_tokener_error_parse_boolean tok obj)))"

definition buf_number :: "char \<Rightarrow> btokener \<Rightarrow> json \<Rightarrow> boutcome res" where
  "buf_number c tok obj =
     (if c \<in> set json_number_chars
      then rbind (pb_append [c] tok) (\<lambda>tok.
           Inr (Next (tok\<lparr>is_double := is_double tok \<or> c = CHR ''.'' \<or> c = CHR ''e''\<rparr>) obj))
      else rbind (pb_string tok) (\<lambda>str.
           case (if is_double tok then map_option JDouble (sscanf_lf str) else map_option JInt (sscanf_d str)) of
             Some num \<Rightarrow> Inr (Redo (eatws_then Finish (set_current num tok)) obj)
           | None \<Rightarrow> fail json_tokener_error_parse_number tok obj))"

definition buf_object_field_start :: "char \<Rightarrow> btokener \<Rightarrow> json \<Rightarrow> boutcome res" where
  "buf_object_field_start c tok obj =
     (if c = CHR ''}'' then Inr (Next (eatws_then Finish tok) obj)
      else if c = CHR 0x22 \<or> c = CHR 0x27
      then rbind (pb_clear (tok\<lparr>quote_char := c\<rparr>)) (\<lambda>tok. Inr (Next (set_state Object_Field tok) obj))
      else fail json_tokener_error_parse_object_key_name tok obj)"

definition buf_object_field :: "char \<Rightarrow> btokener \<Rightarrow> json \<Rightarrow> boutcome res" where
  "buf_object_field c tok obj =
     (if c = quote_char tok
      then rbind (pb_string tok) (\<lambda>str.
           Inr (Next (eatws_then Object_Field_End (set_obj_field_name (Some str) tok)) obj))
      else if c = CHR 0x5C
      then Inr (Next (set_state String_Escape (set_saved_state Object_Field tok)) obj)
      else rbind (pb_append [c] tok) (\<lambda>tok. Inr (Next tok obj)))"

subsection \<open>The loop\<close>

definition buf_case :: "char \<Rightarrow> btokener \<Rightarrow> json \<Rightarrow> boutcome res" where
  "buf_case c tok obj =
     (if length (stack tok) \<le> depth tok then Inl Out_Of_Bounds
      else case state (level tok) of
       Eatws \<Rightarrow> buf_eatws c tok obj
     | Start \<Rightarrow> buf_start c tok obj
     | Finish \<Rightarrow> case_finish c tok obj
     | Null \<Rightarrow> buf_null c tok obj
     | Comment_Start \<Rightarrow> buf_comment_start c tok obj
     | Comment \<Rightarrow> buf_comment c tok obj
     | Comment_Eol \<Rightarrow> buf_comment_eol c tok obj
     | Comment_End \<Rightarrow> buf_comment_end c tok obj
     | Str \<Rightarrow> buf_string c tok obj
     | String_Escape \<Rightarrow> buf_string_escape c tok obj
     | Escape_Unicode \<Rightarrow> buf_escape_unicode c tok obj
     | Boolean \<Rightarrow> buf_boolean c tok obj
     | Number \<Rightarrow> buf_number c tok obj
     | Array \<Rightarrow> case_array c tok obj
     | Array_Add \<Rightarrow> case_array_add c tok obj
     | Array_Sep \<Rightarrow> case_array_sep c tok obj
     | Object_Field_Start \<Rightarrow> buf_object_field_start c tok obj
     | Object_Field \<Rightarrow> buf_object_field c tok obj
     | Object_Field_End \<Rightarrow> case_object_field_end c tok obj
     | Object_Value \<Rightarrow> case_object_value c tok obj
     | Object_Value_Add \<Rightarrow> case_object_value_add c tok obj
     | Object_Sep \<Rightarrow> case_object_sep c tok obj)"

fun buf_char :: "nat \<Rightarrow> char \<Rightarrow> btokener \<Rightarrow> json \<Rightarrow> boutcome res" where
  "buf_char 0 c tok obj = Inl Endless_Loop"
| "buf_char (Suc n) c tok obj =
     rbind (buf_case c tok obj) (\<lambda>r. case r of Redo tok' obj' \<Rightarrow> buf_char n c tok' obj' | _ \<Rightarrow> Inr r)"

lemma buf_char_code [code]:
  "buf_char n c tok obj =
     (if n = 0 then Inl Endless_Loop
      else rbind (buf_case c tok obj) (\<lambda>r.
        case r of Redo tok' obj' \<Rightarrow> buf_char (n - 1) c tok' obj' | _ \<Rightarrow> Inr r))"
  by (cases n) (simp_all cong: tok_outcome.case_cong)

text \<open>\<^verbatim>\<open>ADVANCE_CHAR\<close> counts the terminator too.\<close>

fun buf_loop :: "int \<Rightarrow> cstring \<Rightarrow> btokener \<Rightarrow> json \<Rightarrow> (btokener \<times> char) res" where
  "buf_loop off [] tok obj =
     rbind (buf_char MAX_TURNS (CHR 0x00) tok obj) (\<lambda>r. case r of
       Next tok' obj' \<Rightarrow> if off = INT_MAX then Inl Signed_Overflow else Inr (tok', CHR 0x00)
     | Leave tok' obj' \<Rightarrow> Inr (tok', CHR 0x00)
     | Redo _ _ \<Rightarrow> Inl Endless_Loop)"
| "buf_loop off (c # str) tok obj =
     rbind (buf_char MAX_TURNS c tok obj) (\<lambda>r. case r of
       Next tok' obj' \<Rightarrow> if off = INT_MAX then Inl Signed_Overflow else buf_loop (off + 1) str tok' obj'
     | Leave tok' obj' \<Rightarrow> Inr (tok', c)
     | Redo _ _ \<Rightarrow> Inl Endless_Loop)"

text \<open>A tokener as \<^verbatim>\<open>json_tokener_new\<close> makes it; \<open>put_pb\<close> replaces the buffer.\<close>

definition put_pb :: "'q \<Rightarrow> 'p tokst \<Rightarrow> 'q tokst" where
  "put_pb x t = \<lparr>pb = x, depth = depth t, is_double = is_double t, st_pos = st_pos t, err = err t,
     ucs_char = ucs_char t, quote_char = quote_char t, stack = stack t\<rparr>"

definition buf_tokener_new :: btokener where
  "buf_tokener_new = put_pb printbuf_new json_tokener_new"

definition buf_parse_ex :: "btokener \<Rightarrow> char list \<Rightarrow> (btokener \<times> json) res" where
  "buf_parse_ex tok str =
     rbind (buf_loop 0 (cstr_of str) (tok\<lparr>err := json_tokener_success\<rparr>) JNull) (\<lambda>(tok, c).
     if length (stack tok) \<le> depth tok then Inl Out_Of_Bounds
     else let tok = (if c = CHR 0x00 \<and> state (level tok) \<noteq> Finish \<and> saved_state (level tok) \<noteq> Finish
                     then tok\<lparr>err := json_tokener_error_parse_eof\<rparr> else tok)
          in Inr (tok, if err tok = json_tokener_success then current (level tok) else JNull))"

definition buf_parse :: "char list \<Rightarrow> (json_tokener_error + json) res" where
  "buf_parse str =
     rbind (buf_parse_ex buf_tokener_new str) (\<lambda>(tok, obj).
       Inr (if err tok \<noteq> json_tokener_success then Inl (err tok) else Inr obj))"

subsection \<open>The buffer\<close>

lemma printbuf_memappend_fast_eq: "printbuf_memappend_fast p bs = printbuf_memappend p bs"
  by (simp add: printbuf_memappend_fast_def printbuf_memappend_def Let_def)

text \<open>The buffer after an append that does not fail.\<close>

definition pb_after :: "printbuf \<Rightarrow> char list \<Rightarrow> printbuf" where
  "pb_after p bs = (case printbuf_memappend p bs of Inr p' \<Rightarrow> p' | Inl _ \<Rightarrow> p)"

definition pb_zero :: "printbuf \<Rightarrow> printbuf" where
  "pb_zero p = (case printbuf_reset p of Inr p' \<Rightarrow> p' | Inl _ \<Rightarrow> p)"

lemma pb_append_ok:
  assumes "holds (pb t) s" and "length s + length bs < 2 ^ 30"
  shows "pb_append bs t = Inr (t\<lparr>pb := pb_after (pb t) bs\<rparr>)" "terminated (pb_after (pb t) bs) (s @ bs)"
  using printbuf_memappend_holds [OF assms]
  by (auto simp: pb_append_def printbuf_memappend_fast_eq pb_after_def terminated_def)

lemma pb_clear_ok:
  assumes "holds (pb t) s"
  shows "pb_clear t = Inr (t\<lparr>pb := pb_zero (pb t)\<rparr>)" "terminated (pb_zero (pb t)) []"
proof -
  obtain c b where "buf (pb t) = c # b" using assms by (cases "buf (pb t)") (auto simp: holds_def)
  with assms obtain p where "printbuf_reset (pb t) = Inr p" "terminated p []"
    by (auto simp: holds_def printbuf_reset_def memcpy_def terminated_def)
  then show "pb_clear t = Inr (t\<lparr>pb := pb_zero (pb t)\<rparr>)" "terminated (pb_zero (pb t)) []"
    by (simp_all add: pb_clear_def pb_zero_def)
qed

lemma terminated_holds: "terminated p s \<Longrightarrow> holds p s"
  by (simp add: terminated_def)

lemma terminated_buf:
  "terminated p s \<Longrightarrow> buf p = map Some s @ Some (CHR 0x00) # drop (Suc (bpos p)) (buf p)"
  using append_take_drop_id [of "Suc (bpos p)" "buf p"] by (simp add: terminated_def)

lemma cstr_at_cstr_of: "cstr_at (map Some s @ Some (CHR 0x00) # b) = Some (cstr_of s)"
  by (induction s) (auto simp: cstr_of_def)

lemma pb_string_ok: "terminated (pb t) s \<Longrightarrow> pb_string t = Inr (cstr_of s)"
  using cstr_at_cstr_of [of s "drop (Suc (bpos (pb t))) (buf (pb t))"] terminated_buf [of "pb t" s]
  by (simp add: pb_string_def)

lemma strncaseeq_at_text: "strncaseeq a s n = Inr r \<Longrightarrow> strncaseeq_at a (map Some s @ b) n = Inr r"
  by (induction a s n rule: strncaseeq.induct) (auto split: if_splits)

lemma strncaseeq_at_ok:
  assumes "terminated p s" and "n \<le> length a" and "n \<le> length s"
  shows "strncaseeq_at a (buf p) n = strncaseeq a s n"
proof -
  obtain r where "strncaseeq a s n = Inr r" using strncaseeq_total [OF assms(2,3)] by blast
  with strncaseeq_at_text terminated_buf [OF assms(1)] show ?thesis by metis
qed

subsection \<open>The two machines\<close>

lemma put_pb_simps [simp]:
  "pb (put_pb x t) = x" "depth (put_pb x t) = depth t" "is_double (put_pb x t) = is_double t"
  "st_pos (put_pb x t) = st_pos t" "err (put_pb x t) = err t" "ucs_char (put_pb x t) = ucs_char t"
  "quote_char (put_pb x t) = quote_char t" "stack (put_pb x t) = stack t" "level (put_pb x t) = level t"
  by (simp_all add: put_pb_def level_def)

lemma put_pb_updates:
  "(put_pb x t)\<lparr>pb := y\<rparr> = put_pb y t" "put_pb x (t\<lparr>pb := z\<rparr>) = put_pb x t"
  "(put_pb x t)\<lparr>depth := d\<rparr> = put_pb x (t\<lparr>depth := d\<rparr>)"
  "(put_pb x t)\<lparr>is_double := b\<rparr> = put_pb x (t\<lparr>is_double := b\<rparr>)"
  "(put_pb x t)\<lparr>st_pos := n\<rparr> = put_pb x (t\<lparr>st_pos := n\<rparr>)"
  "(put_pb x t)\<lparr>err := e\<rparr> = put_pb x (t\<lparr>err := e\<rparr>)"
  "(put_pb x t)\<lparr>ucs_char := w\<rparr> = put_pb x (t\<lparr>ucs_char := w\<rparr>)"
  "(put_pb x t)\<lparr>quote_char := c\<rparr> = put_pb x (t\<lparr>quote_char := c\<rparr>)"
  "(put_pb x t)\<lparr>stack := l\<rparr> = put_pb x (t\<lparr>stack := l\<rparr>)"
  by (simp_all add: put_pb_def)

lemma put_pb_level [simp]: "set_level f (put_pb x t) = put_pb x (set_level f t)"
  by (simp add: set_level_def put_pb_updates)

lemma put_pb_set [simp]:
  "set_state x (put_pb s t) = put_pb s (set_state x t)" "set_saved_state x (put_pb s t) = put_pb s (set_saved_state x t)"
  "set_current j (put_pb s t) = put_pb s (set_current j t)"
  "set_obj_field_name k (put_pb s t) = put_pb s (set_obj_field_name k t)"
  "eatws_then x (put_pb s t) = put_pb s (eatws_then x t)"
  "json_tokener_reset_level d (put_pb s t) = put_pb s (json_tokener_reset_level d t)"
  "memappend q (put_pb s t) = put_pb (s @ q) t" "pb_reset (put_pb s t) = put_pb [] t"
  by (simp_all add: set_defs json_tokener_reset_level_def put_pb_updates)

text \<open>The states in which the buffer is read, or may be before it is cleared.\<close>

definition reads_buf :: "json_tokener_state \<Rightarrow> bool" where
  "reads_buf s \<longleftrightarrow> s \<in> {Null, Boolean, Str, String_Escape, Escape_Unicode, Number, Object_Field}"

lemma reads_buf_simps [simp]:
  "reads_buf Null" "reads_buf Boolean" "reads_buf Str" "reads_buf String_Escape" "reads_buf Escape_Unicode"
  "reads_buf Number" "reads_buf Object_Field" "\<not> reads_buf Eatws" "\<not> reads_buf Start" "\<not> reads_buf Finish"
  "\<not> reads_buf Comment_Start" "\<not> reads_buf Comment" "\<not> reads_buf Comment_Eol" "\<not> reads_buf Comment_End"
  "\<not> reads_buf Array" "\<not> reads_buf Array_Add" "\<not> reads_buf Array_Sep" "\<not> reads_buf Object_Field_Start"
  "\<not> reads_buf Object_Field_End" "\<not> reads_buf Object_Value" "\<not> reads_buf Object_Value_Add"
  "\<not> reads_buf Object_Sep"
  by (simp_all add: reads_buf_def)

definition buf_ok :: "btokener \<Rightarrow> string \<Rightarrow> bool" where
  "buf_ok t s \<longleftrightarrow> depth t < length (stack t) \<and> holds (pb t) s \<and> (reads_buf (state (level t)) \<longrightarrow> terminated (pb t) s)"

definition related :: "nat \<Rightarrow> btokener \<Rightarrow> tokener \<Rightarrow> bool" where
  "related n t u \<longleftrightarrow> (\<exists>s. u = put_pb s t \<and> buf_ok t s \<and> length s \<le> n)"

fun agree :: "nat \<Rightarrow> boutcome \<Rightarrow> outcome \<Rightarrow> bool" where
  "agree n (Next t obj) (Next u obj') \<longleftrightarrow> obj = obj' \<and> related n t u"
| "agree n (Redo t obj) (Redo u obj') \<longleftrightarrow> obj = obj' \<and> related n t u"
| "agree n (Leave t obj) (Leave u obj') \<longleftrightarrow> obj = obj' \<and> related n t u"
| "agree n _ _ \<longleftrightarrow> False"

definition agrees :: "nat \<Rightarrow> boutcome res \<Rightarrow> outcome res \<Rightarrow> bool" where
  "agrees n r q \<longleftrightarrow> (case q of Inl _ \<Rightarrow> True | Inr u \<Rightarrow> (\<exists>t. r = Inr t \<and> agree n t u))"

lemma agrees_Inr [simp]: "agrees n (Inr t) (Inr u) \<longleftrightarrow> agree n t u"
  by (simp add: agrees_def)

lemma agrees_if:
  "(b \<Longrightarrow> agrees n r q) \<Longrightarrow> (\<not> b \<Longrightarrow> agrees n r' q') \<Longrightarrow> agrees n (if b then r else r') (if b then q else q')"
  by simp

lemma relatedI: "buf_ok t s \<Longrightarrow> length s \<le> n \<Longrightarrow> related n t (put_pb s t)"
  by (auto simp: related_def)

lemma related_new_pb:
  "depth t < length (stack t) \<Longrightarrow> terminated p s \<Longrightarrow> length s \<le> n \<Longrightarrow> related n (t\<lparr>pb := p\<rparr>) (put_pb s t)"
  by (auto simp: related_def put_pb_updates buf_ok_def terminated_holds intro!: exI [of _ s])

lemma pb_last:
  "(t\<lparr>pb := p\<rparr>)\<lparr>st_pos := k\<rparr> = (t\<lparr>st_pos := k\<rparr>)\<lparr>pb := p\<rparr>" "(t\<lparr>pb := p\<rparr>)\<lparr>err := e\<rparr> = (t\<lparr>err := e\<rparr>)\<lparr>pb := p\<rparr>"
  "(t\<lparr>pb := p\<rparr>)\<lparr>is_double := d\<rparr> = (t\<lparr>is_double := d\<rparr>)\<lparr>pb := p\<rparr>"
  "(t\<lparr>pb := p\<rparr>)\<lparr>quote_char := c\<rparr> = (t\<lparr>quote_char := c\<rparr>)\<lparr>pb := p\<rparr>"
  "set_level f (t\<lparr>pb := p\<rparr>) = (set_level f t)\<lparr>pb := p\<rparr>"
  by (simp_all add: set_level_def level_def)

lemma pb_last_set:
  "set_state x (t\<lparr>pb := p\<rparr>) = (set_state x t)\<lparr>pb := p\<rparr>" "set_saved_state x (t\<lparr>pb := p\<rparr>) = (set_saved_state x t)\<lparr>pb := p\<rparr>"
  "set_current j (t\<lparr>pb := p\<rparr>) = (set_current j t)\<lparr>pb := p\<rparr>" "eatws_then x (t\<lparr>pb := p\<rparr>) = (eatws_then x t)\<lparr>pb := p\<rparr>"
  by (simp_all add: set_defs pb_last)

lemma set_sel [simp]:
  "pb (set_state x t) = pb t" "pb (set_saved_state x t) = pb t" "pb (set_current j t) = pb t"
  "pb (set_obj_field_name k t) = pb t" "pb (eatws_then x t) = pb t"
  "depth (set_state x t) = depth t" "depth (set_current j t) = depth t" "depth (eatws_then x t) = depth t"
  "depth (set_saved_state x t) = depth t" "depth (set_obj_field_name k t) = depth t"
  "length (stack (set_state x t)) = length (stack t)" "length (stack (set_current j t)) = length (stack t)"
  "length (stack (eatws_then x t)) = length (stack t)" "length (stack (set_saved_state x t)) = length (stack t)"
  "length (stack (set_obj_field_name k t)) = length (stack t)"
  by (simp_all add: set_defs)

text \<open>The state after an assignment decides whether the buffer must be terminated.\<close>

lemma level_set [simp]:
  assumes "depth t < length (stack t)"
  shows "level (set_state x t) = (level t)\<lparr>state := x\<rparr>" "level (set_saved_state x t) = (level t)\<lparr>saved_state := x\<rparr>"
    "level (set_current j t) = (level t)\<lparr>current := j\<rparr>" "level (set_obj_field_name k t) = (level t)\<lparr>obj_field_name := k\<rparr>"
    "level (eatws_then x t) = (level t)\<lparr>saved_state := x, state := Eatws\<rparr>"
  using assms by (simp_all add: set_defs)

lemma level_fields [simp]:
  "level (t\<lparr>pb := p\<rparr>) = level t" "level (t\<lparr>st_pos := k\<rparr>) = level t" "level (t\<lparr>err := e\<rparr>) = level t"
  "level (t\<lparr>is_double := d\<rparr>) = level t" "level (t\<lparr>quote_char := c\<rparr>) = level t" "level (t\<lparr>ucs_char := w\<rparr>) = level t"
  by (simp_all add: level_def)

lemma tok_inv_depth [simp]: "tok_inv (put_pb s t) \<Longrightarrow> depth t < length (stack t)"
  by (auto simp: tok_inv_def dest: levels_okD)

lemmas machine_simps = put_pb_updates pb_last pb_last_set fail_def

lemma agree_eatws:
  assumes "tok_inv (put_pb s t)" and "state (level t) = Eatws" and "buf_ok t s" and "length s + 3 < 2 ^ 30"
  shows "agrees (length s + 3) (buf_eatws c t obj) (case_eatws c (put_pb s t) obj)"
proof -
  have h: "holds (pb t) s" using assms(3) by (simp add: buf_ok_def)
  have "ready (saved_state (level t)) (level t)" using assms(1,2) by (simp add: tok_inv_def top_ok_def)
  then have "\<not> reads_buf (saved_state (level t))" by (auto simp: ready_def reads_buf_def split: json_tokener_state.splits)
  moreover have "terminated (pb_after (pb_zero (pb t)) [c]) [c]"
    using pb_append_ok(2) [of "t\<lparr>pb := pb_zero (pb t)\<rparr>" "[]" "[c]"] pb_clear_ok(2) [OF h] terminated_holds by simp
  ultimately show ?thesis
    using assms h pb_clear_ok [OF h] pb_append_ok(1) [of "t\<lparr>pb := pb_zero (pb t)\<rparr>" "[]" "[c]"] terminated_holds
    by (auto simp: buf_eatws_def case_eatws_def machine_simps buf_ok_def intro!: relatedI related_new_pb)
qed

lemma agree_start:
  assumes "tok_inv (put_pb s t)" and "buf_ok t s"
  shows "agrees (length s + 3) (buf_start c t obj) (case_start c (put_pb s t) obj)"
proof -
  have h: "holds (pb t) s" using assms(2) by (simp add: buf_ok_def)
  then have h': "pb_clear (set_state x t) = Inr ((set_state x t)\<lparr>pb := pb_zero (pb t)\<rparr>)" for x
    using pb_clear_ok(1) [of "set_state x t" s] by simp
  show ?thesis
    using assms h pb_clear_ok(2) [OF h]
    unfolding buf_start_def case_start_def
    by (intro agrees_if) (simp_all add: machine_simps h' buf_ok_def relatedI related_new_pb)
qed

lemma agree_comments:
  assumes "tok_inv (put_pb s t)" and "buf_ok t s" and "length s + 3 < 2 ^ 30" and "\<not> reads_buf (state (level t))"
  shows "agrees (length s + 3) (buf_comment_start c t obj) (case_comment_start c (put_pb s t) obj)"
    and "agrees (length s + 3) (buf_comment c t obj) (case_comment c (put_pb s t) obj)"
    and "agrees (length s + 3) (buf_comment_eol c t obj) (case_comment_eol c (put_pb s t) obj)"
    and "agrees (length s + 3) (buf_comment_end c t obj) (case_comment_end c (put_pb s t) obj)"
proof -
  have h: "holds (pb t) s" using assms(2) by (simp add: buf_ok_def)
  note a = pb_append_ok [OF h, of "[c]"]
  have a': "pb_append [y] (set_state x t) = Inr ((set_state x t)\<lparr>pb := pb_after (pb t) [y]\<rparr>)" for x y
    using pb_append_ok(1) [of "set_state x t" s "[y]"] h assms(3) by simp
  note d = machine_simps buf_ok_def
  show "agrees (length s + 3) (buf_comment_start c t obj) (case_comment_start c (put_pb s t) obj)"
    using assms h a by (auto simp: buf_comment_start_def case_comment_start_def d a' intro!: relatedI related_new_pb)
  show "agrees (length s + 3) (buf_comment c t obj) (case_comment c (put_pb s t) obj)"
    using assms h a by (auto simp: buf_comment_def case_comment_def d intro!: relatedI related_new_pb)
  show "agrees (length s + 3) (buf_comment_eol c t obj) (case_comment_eol c (put_pb s t) obj)"
    using assms h a by (auto simp: buf_comment_eol_def case_comment_eol_def d intro!: relatedI related_new_pb)
  show "agrees (length s + 3) (buf_comment_end c t obj) (case_comment_end c (put_pb s t) obj)"
    using assms h a by (auto simp: buf_comment_end_def case_comment_end_def d intro!: relatedI related_new_pb)
qed

lemma agree_string:
  assumes "tok_inv (put_pb s t)" and "buf_ok t s" and "length s + 3 < 2 ^ 30" and "reads_buf (state (level t))"
  shows "agrees (length s + 3) (buf_string c t obj) (case_string c (put_pb s t) obj)"
    and "agrees (length s + 3) (buf_object_field c t obj) (case_object_field c (put_pb s t) obj)"
    and "agrees (length s + 3) (buf_number c t obj) (case_number c (put_pb s t) obj)"
proof -
  have p: "terminated (pb t) s" using assms(2,4) by (simp add: buf_ok_def)
  have h: "holds (pb t) s" using p by (rule terminated_holds)
  note a = pb_append_ok [OF h, of "[c]"] pb_string_ok [OF p]
  note d = machine_simps buf_ok_def
  show "agrees (length s + 3) (buf_string c t obj) (case_string c (put_pb s t) obj)"
    using assms h p a by (auto simp: buf_string_def case_string_def d intro!: relatedI related_new_pb)
  show "agrees (length s + 3) (buf_object_field c t obj) (case_object_field c (put_pb s t) obj)"
    using assms h p a by (auto simp: buf_object_field_def case_object_field_def d intro!: relatedI related_new_pb)
  show "agrees (length s + 3) (buf_number c t obj) (case_number c (put_pb s t) obj)"
    using assms h p a
    by (auto simp: buf_number_def case_number_def d intro!: relatedI related_new_pb split: option.split)
qed

lemma agree_string_escape:
  assumes "tok_inv (put_pb s t)" and "buf_ok t s" and "length s + 3 < 2 ^ 30" and "reads_buf (state (level t))"
  shows "agrees (length s + 3) (buf_string_escape c t obj) (case_string_escape c (put_pb s t) obj)"
proof -
  have p: "terminated (pb t) s" using assms(2,4) by (simp add: buf_ok_def)
  have h: "holds (pb t) s" using p by (rule terminated_holds)
  note a = pb_append_ok [OF h, of "[x]" for x]
  note d = machine_simps buf_ok_def
  show ?thesis
    using assms h p a unfolding buf_string_escape_def case_string_escape_def
    by (intro agrees_if) (simp_all add: d relatedI related_new_pb)
qed

lemma length_utf8: "length (utf8 w) \<le> 3"
  by (simp add: utf8_def)

lemma agree_escape_unicode:
  assumes "tok_inv (put_pb s t)" and "buf_ok t s" and "length s + 3 < 2 ^ 30" and "reads_buf (state (level t))"
  shows "agrees (length s + 3) (buf_escape_unicode c t obj) (case_escape_unicode c (put_pb s t) obj)"
proof -
  have p: "terminated (pb t) s" using assms(2,4) by (simp add: buf_ok_def)
  have h: "holds (pb t) s" using p by (rule terminated_holds)
  define w where "w = ucs_char t + push_bit ((3 - st_pos t) * 4) (hexdigit c)"
  define u where "u = utf8 w"
  have u: "length u \<le> 3" by (simp add: u_def length_utf8)
  let ?t = "t\<lparr>ucs_char := w, st_pos := st_pos t + 1\<rparr>"
  have a: "pb_append u ?t = Inr (?t\<lparr>pb := pb_after (pb t) u\<rparr>)" "terminated (pb_after (pb t) u) (s @ u)"
    using pb_append_ok [of ?t s u] h u assms(3) by simp_all
  show ?thesis
    using assms h p a u unfolding buf_escape_unicode_def case_escape_unicode_def
    by (auto simp: Let_def w_def [symmetric] u_def [symmetric] machine_simps buf_ok_def intro!: relatedI related_new_pb)
qed

lemma agree_object_field_start:
  assumes "tok_inv (put_pb s t)" and "buf_ok t s" and "state (level t) = Object_Field_Start"
  shows "agrees (length s + 3) (buf_object_field_start c t obj) (case_object_field_start c (put_pb s t) obj)"
proof -
  have h: "holds (pb t) s" using assms(2) by (simp add: buf_ok_def)
  then have "pb_clear (t\<lparr>quote_char := q\<rparr>) = Inr ((t\<lparr>quote_char := q\<rparr>)\<lparr>pb := pb_zero (pb t)\<rparr>)" for q
    using pb_clear_ok(1) [of "t\<lparr>quote_char := q\<rparr>" s] by simp
  then show ?thesis
    using assms h pb_clear_ok(2) [OF h]
    by (auto simp: buf_object_field_start_def case_object_field_start_def machine_simps buf_ok_def
        intro!: relatedI related_new_pb)
qed

text \<open>The literals: as many bytes are in the buffer as were taken of the name.\<close>

lemma agree_literal:
  assumes "tok_inv (put_pb s t)" and "buf_ok t s" and "length s + 3 < 2 ^ 30" and "state (level t) \<in> {Null, Boolean}"
  shows "agrees (length s + 3) (buf_null c t obj) (case_null c (put_pb s t) obj)"
    and "agrees (length s + 3) (buf_boolean c t obj) (case_boolean c (put_pb s t) obj)"
proof -
  have h: "holds (pb t) s" using assms(2) by (simp add: buf_ok_def)
  have l: "length s = st_pos t" using assms(1,4) by (auto simp: tok_inv_def top_ok_def)
  note a = pb_append_ok [OF h, of "[c]"]
  have eq: "strncaseeq_at n (buf (pb_after (pb t) [c])) (min (st_pos t + 1) (length n)) =
      strncaseeq n (s @ [c]) (min (st_pos t + 1) (length n))" for n
    using strncaseeq_at_ok [OF a(2), of "min (st_pos t + 1) (length n)" n] assms(3) l by simp
  have tot: "\<exists>r. strncaseeq n (s @ [c]) (min (Suc (st_pos t)) (length n)) = Inr r" for n
    using strncaseeq_total [of "min (Suc (st_pos t)) (length n)" n "s @ [c]"] l by simp
  obtain rn rt rf where r: "strncaseeq json_null_str (s @ [c]) (min (Suc (st_pos t)) (length json_null_str)) = Inr rn"
    "strncaseeq json_true_str (s @ [c]) (min (Suc (st_pos t)) (length json_true_str)) = Inr rt"
    "strncaseeq json_false_str (s @ [c]) (min (Suc (st_pos t)) (length json_false_str)) = Inr rf"
    using tot by blast
  have e: "strncaseeq_at json_null_str (buf (pb_after (pb t) [c])) (min (Suc (st_pos t)) (length json_null_str)) = Inr rn"
    "strncaseeq_at json_true_str (buf (pb_after (pb t) [c])) (min (Suc (st_pos t)) (length json_true_str)) = Inr rt"
    "strncaseeq_at json_false_str (buf (pb_after (pb t) [c])) (min (Suc (st_pos t)) (length json_false_str)) = Inr rf"
    using eq r by simp_all
  show "agrees (length s + 3) (buf_null c t obj) (case_null c (put_pb s t) obj)"
    using assms(1-3) h a r e
    by (simp add: buf_null_def case_null_def Let_def machine_simps related_new_pb)
  show "agrees (length s + 3) (buf_boolean c t obj) (case_boolean c (put_pb s t) obj)"
    using assms(1-3) h a r e
    by (simp add: buf_boolean_def case_boolean_def Let_def machine_simps related_new_pb)
qed

text \<open>The cases without the buffer.\<close>

lemma buf_ok_reset_level: "buf_ok t s \<Longrightarrow> depth t < length (stack t) \<Longrightarrow> holds (pb (json_tokener_reset_level d t)) s"
  by (simp add: buf_ok_def json_tokener_reset_level_def)

lemma agree_push_level:
  assumes "tok_inv (put_pb s t)" and "buf_ok t s" and "\<not> reads_buf x"
  shows "agrees (length s + 3) (push_level x t obj) (push_level x (put_pb s t) obj)"
proof (cases "MAX_DEPTH - 1 \<le> depth t")
  case True
  with assms show ?thesis by (simp add: push_level_def machine_simps relatedI buf_ok_def)
next
  case False
  let ?t = "(set_state x t)\<lparr>depth := depth t + 1\<rparr>"
  have d: "depth ?t < length (stack ?t)" using assms(1) False by (simp add: tok_inv_def levels_ok_def)
  then have "level (json_tokener_reset_level (depth ?t) ?t) = srec_reset"
    by (simp add: json_tokener_reset_level_def level_def)
  then have "buf_ok (json_tokener_reset_level (depth ?t) ?t) s"
    using assms(2) d by (simp add: buf_ok_def json_tokener_reset_level_def srec_reset_def)
  then show ?thesis using False by (simp add: push_level_def Let_def machine_simps relatedI)
qed

lemma agree_finish:
  assumes "tok_inv (put_pb s t)" and "buf_ok t s" and "state (level t) = Finish"
  shows "agrees (length s + 3) (case_finish c t obj) (case_finish c (put_pb s t) obj)"
proof (cases "depth t = 0")
  case False
  let ?t = "(json_tokener_reset_level (depth t) t)\<lparr>depth := depth t - 1\<rparr>"
  have "lower_ok (stack t ! (depth t - 1))" using assms(1) False by (simp add: tok_inv_def levels_ok_def)
  then have "\<not> reads_buf (state (stack t ! (depth t - 1)))" by (auto simp: lower_ok_def)
  moreover have "level ?t = stack t ! (depth t - 1)"
    using False by (simp add: level_def json_tokener_reset_level_def)
  ultimately have "buf_ok ?t s" using assms(2) by (auto simp: buf_ok_def json_tokener_reset_level_def)
  then show ?thesis using False by (simp add: case_finish_def machine_simps relatedI)
qed (use assms in \<open>simp add: case_finish_def relatedI\<close>)

lemma agree_containers:
  assumes "tok_inv (put_pb s t)" and "buf_ok t s" and "\<not> reads_buf (state (level t))"
  shows "agrees (length s + 3) (case_array c t obj) (case_array c (put_pb s t) obj)"
    and "agrees (length s + 3) (case_array_add c t obj) (case_array_add c (put_pb s t) obj)"
    and "agrees (length s + 3) (case_array_sep c t obj) (case_array_sep c (put_pb s t) obj)"
    and "agrees (length s + 3) (case_object_field_end c t obj) (case_object_field_end c (put_pb s t) obj)"
    and "agrees (length s + 3) (case_object_value c t obj) (case_object_value c (put_pb s t) obj)"
    and "agrees (length s + 3) (case_object_value_add c t obj) (case_object_value_add c (put_pb s t) obj)"
    and "agrees (length s + 3) (case_object_sep c t obj) (case_object_sep c (put_pb s t) obj)"
proof -
  note h = assms(1,2,3)
  note push = agree_push_level [OF assms(1,2)]
  show "agrees (length s + 3) (case_array c t obj) (case_array c (put_pb s t) obj)"
    unfolding case_array_def using h push by (intro agrees_if) (simp_all add: relatedI buf_ok_def)
  show "agrees (length s + 3) (case_array_add c t obj) (case_array_add c (put_pb s t) obj)"
    using h by (cases "json_object_array_add (current (level t)) obj")
      (simp_all add: case_array_add_def agrees_def relatedI buf_ok_def)
  show "agrees (length s + 3) (case_array_sep c t obj) (case_array_sep c (put_pb s t) obj)"
    unfolding case_array_sep_def using h
    by (intro agrees_if) (simp_all add: machine_simps relatedI buf_ok_def)
  show "agrees (length s + 3) (case_object_field_end c t obj) (case_object_field_end c (put_pb s t) obj)"
    unfolding case_object_field_end_def using h
    by (intro agrees_if) (simp_all add: machine_simps relatedI buf_ok_def)
  show "agrees (length s + 3) (case_object_value c t obj) (case_object_value c (put_pb s t) obj)"
    unfolding case_object_value_def using push by simp
  show "agrees (length s + 3) (case_object_value_add c t obj) (case_object_value_add c (put_pb s t) obj)"
  proof (cases "obj_field_name (level t)")
    case (Some k)
    with h show ?thesis
      by (cases "json_object_object_add (current (level t)) k obj")
        (simp_all add: case_object_value_add_def agrees_def relatedI buf_ok_def)
  qed (simp add: case_object_value_add_def agrees_def)
  show "agrees (length s + 3) (case_object_sep c t obj) (case_object_sep c (put_pb s t) obj)"
    unfolding case_object_sep_def using h
    by (intro agrees_if) (simp_all add: machine_simps relatedI buf_ok_def)
qed

lemma agree_case:
  assumes "tok_inv (put_pb s t)" and "buf_ok t s" and "length s + 3 < 2 ^ 30"
  shows "agrees (length s + 3) (buf_case c t obj) (tok_case c (put_pb s t) obj)"
proof -
  have "\<not> length (stack t) \<le> depth t" using tok_inv_depth [OF assms(1)] by simp
  with assms show ?thesis
    by (cases "state (level t)")
      (simp_all add: buf_case_def tok_case_def agree_eatws agree_start agree_finish agree_literal
        agree_comments agree_string agree_string_escape agree_escape_unicode agree_object_field_start agree_containers)
qed

subsection \<open>The parser\<close>

text \<open>A character takes at most ten turns, each of which appends at most three bytes.\<close>

lemma agrees_mono: "agrees m r q \<Longrightarrow> m \<le> n \<Longrightarrow> agrees n r q"
proof -
  have "related m t u \<Longrightarrow> m \<le> n \<Longrightarrow> related n t u" for t u by (fastforce simp: related_def)
  then have "agree m t u \<Longrightarrow> m \<le> n \<Longrightarrow> agree n t u" for t u by (induction m t u rule: agree.induct) auto
  then show "agrees m r q \<Longrightarrow> m \<le> n \<Longrightarrow> agrees n r q" by (auto simp: agrees_def split: sum.splits)
qed

lemma agree_char:
  assumes "tok_inv (put_pb s t)" and "buf_ok t s" and "length s + 3 * k < 2 ^ 30"
  shows "agrees (length s + 3 * k) (buf_char k c t obj) (tok_char k c (put_pb s t) obj)"
  using assms
proof (induction k arbitrary: s t obj)
  case (Suc k)
  have a: "agrees (length s + 3) (buf_case c t obj) (tok_case c (put_pb s t) obj)"
    using Suc.prems by (intro agree_case) simp_all
  have ok: "step_ok (put_pb s t) (tok_case c (put_pb s t) obj)" by (rule step_tok_case [OF Suc.prems(1)])
  then obtain u where u: "tok_case c (put_pb s t) obj = Inr u"
    by (cases "tok_case c (put_pb s t) obj") (auto simp: step_ok_def)
  with a obtain r where r: "buf_case c t obj = Inr r" "agree (length s + 3) r u" by (auto simp: agrees_def)
  show ?case
  proof (cases u)
    case (Redo v obj')
    with r obtain w where w: "r = Redo w obj'" "related (length s + 3) w v" by (cases r) auto
    then obtain s' where s': "v = put_pb s' w" "buf_ok w s'" "length s' \<le> length s + 3" by (auto simp: related_def)
    have "tok_inv (put_pb s' w)" using ok u Redo s'(1) by (simp add: step_ok_def)
    then have "agrees (length s' + 3 * k) (buf_char k c w obj') (tok_char k c (put_pb s' w) obj')"
      using s' Suc.prems(3) by (intro Suc.IH) simp_all
    then have "agrees (length s + 3 * Suc k) (buf_char k c w obj') (tok_char k c (put_pb s' w) obj')"
      by (rule agrees_mono) (use s'(3) in simp)
    then show ?thesis using u r(1) Redo w(1) s'(1) by simp
  next
    case (Next v obj')
    with r obtain w where "r = Next w obj'" by (cases r) auto
    with u r Next agrees_mono [of "length s + 3" "Inr r" "Inr u" "length s + 3 * Suc k"] show ?thesis by simp
  next
    case (Leave v obj')
    with r obtain w where "r = Leave w obj'" by (cases r) auto
    with u r Leave agrees_mono [of "length s + 3" "Inr r" "Inr u" "length s + 3 * Suc k"] show ?thesis by simp
  qed
qed (simp add: agrees_def)

lemma agree_loop:
  assumes "tok_inv (put_pb s t)" and "buf_ok t s" and "length s \<le> 30 * nat off" and "0 \<le> off"
    and "off + int (length str) \<le> 2 ^ 25"
  shows "\<exists>t' u' c. buf_loop off str t obj = Inr (t', c) \<and> tok_loop str (put_pb s t) obj = Inr (u', c)
    \<and> (\<exists>s'. u' = put_pb s' t' \<and> buf_ok t' s')"
  using assms
proof (induction str arbitrary: off s t obj)
  case Nil
  have "length s \<le> 30 * 2 ^ 25" using Nil.prems(3-5) by simp
  then have "agrees (length s + 3 * MAX_TURNS) (buf_char MAX_TURNS (CHR 0x00) t obj) (tok_char MAX_TURNS (CHR 0x00) (put_pb s t) obj)"
    using Nil.prems by (intro agree_char) (simp_all add: MAX_TURNS_def)
  moreover have "char_ok (tok_char MAX_TURNS (CHR 0x00) (put_pb s t) obj)"
    by (rule tok_char_ok [OF Nil.prems(1) rank_less_MAX_TURNS])
  ultimately obtain r u where u: "tok_char MAX_TURNS (CHR 0x00) (put_pb s t) obj = Inr u"
    "buf_char MAX_TURNS (CHR 0x00) t obj = Inr r" "agree (length s + 3 * MAX_TURNS) r u" "char_ok (Inr u)"
    by (auto simp: agrees_def char_ok_def split: sum.splits)
  have "off \<noteq> INT_MAX" using Nil.prems(5) by (simp add: INT_MAX_def)
  with u show ?case
    by (cases u; cases r) (auto simp: char_ok_def related_def)
next
  case (Cons c str)
  have "length s \<le> 30 * 2 ^ 25" using Cons.prems(3-5) by simp
  then have "agrees (length s + 3 * MAX_TURNS) (buf_char MAX_TURNS c t obj) (tok_char MAX_TURNS c (put_pb s t) obj)"
    using Cons.prems by (intro agree_char) (simp_all add: MAX_TURNS_def)
  moreover have "char_ok (tok_char MAX_TURNS c (put_pb s t) obj)"
    by (rule tok_char_ok [OF Cons.prems(1) rank_less_MAX_TURNS])
  ultimately obtain r u where u: "tok_char MAX_TURNS c (put_pb s t) obj = Inr u"
    "buf_char MAX_TURNS c t obj = Inr r" "agree (length s + 3 * MAX_TURNS) r u" "char_ok (Inr u)"
    by (auto simp: agrees_def char_ok_def split: sum.splits)
  have off: "off \<noteq> INT_MAX" using Cons.prems(5) by (simp add: INT_MAX_def)
  show ?case
  proof (cases u)
    case (Next v obj')
    with u obtain w s' where w: "r = Next w obj'" "v = put_pb s' w" "buf_ok w s'" "length s' \<le> length s + 30"
      by (cases r) (auto simp: related_def MAX_TURNS_def)
    have "tok_inv (put_pb s' w)" using u(4) Next w(2) by (simp add: char_ok_def)
    with Cons.IH [of s' w "off + 1" obj'] Cons.prems w u(1,2) Next off show ?thesis by auto
  next
    case (Redo v obj')
    with u(4) show ?thesis by (simp add: char_ok_def)
  next
    case (Leave v obj')
    with u show ?thesis by (cases r) (auto simp: related_def)
  qed
qed

text \<open>
  C7: the JSON parser on a string of at most \<open>2 ^ 25\<close> bytes, well formed or not, over the print buffer with its allocated
  size and the stack of 32 levels: it returns, and what it returns is what the machine over lists
  of bytes does. It writes no byte past the buffer, reads no byte of it that was not written,
  uses no level outside the stack and none as a container it is not, overflows none of the
  \<^verbatim>\<open>int\<close>s (the two sizes of the buffer and the offset), and does not loop on a character.
\<close>

theorem json_tokener_parse_in_bounds:
  assumes "length (cstr_of str) \<le> 2 ^ 25"
  shows "\<exists>r. buf_parse str = Inr r \<and> json_tokener_parse str = Inr r"
proof -
  let ?t = "buf_tokener_new\<lparr>err := json_tokener_success\<rparr>"
  have new: "json_tokener_new\<lparr>err := json_tokener_success\<rparr> = put_pb [] ?t"
    by (simp add: buf_tokener_new_def put_pb_def json_tokener_new_def json_tokener_reset_def json_tokener_reset_level_def)
  have "state (level ?t) = Eatws"
    by (simp add: buf_tokener_new_def json_tokener_new_def json_tokener_reset_def json_tokener_reset_level_def level_def
        srec_reset_def MAX_DEPTH_def)
  moreover have "depth ?t < length (stack ?t)"
    by (simp add: buf_tokener_new_def json_tokener_new_def json_tokener_reset_def json_tokener_reset_level_def MAX_DEPTH_def)
  ultimately have "buf_ok ?t []" by (simp add: buf_ok_def buf_tokener_new_def holds_new)
  with new obtain t' u' c s' where r: "buf_loop 0 (cstr_of str) ?t JNull = Inr (t', c)"
    "tok_loop (cstr_of str) (json_tokener_new\<lparr>err := json_tokener_success\<rparr>) JNull = Inr (u', c)" "u' = put_pb s' t'" "buf_ok t' s'"
    using agree_loop [of "[]" ?t 0 "cstr_of str" JNull] tok_inv_new(2) [of json_tokener_success] assms by auto
  then show ?thesis
    by (simp add: buf_parse_def buf_parse_ex_def json_tokener_parse_def json_tokener_parse_ex_def Let_def machine_simps
        buf_ok_def not_le)
qed

lemma json_tokener_parse_in_bounds_witness:
  "\<exists>r. buf_parse ''{ \"a\": [ tru'' = Inr r \<and> json_tokener_parse ''{ \"a\": [ tru'' = Inr r"
proof (rule json_tokener_parse_in_bounds)
  show "length (cstr_of ''{ \"a\": [ tru'') \<le> 2 ^ 25" by (simp add: cstr_of_def)
qed

text \<open>A value and an error.\<close>

lemma buf_parse_samples:
  "buf_parse ''[ 17, \"x\" ]'' = Inr (Inr (JArray [JInt 17, JString ''x'']))"
  "buf_parse ''{ 1'' = Inr (Inl json_tokener_error_parse_object_key_name)"
  by code_simp+

end
