(* ===== verification/UtHashImpl.thy ===== *)
theory UtHashImpl
  imports Stats Prelude "HOL-Library.Multiset"
begin

unbundle bit_operations_syntax

text \<open>
  The hash table below the interface of \<^verbatim>\<open>UtHash\<close>: the macros of
  \<^verbatim>\<open>uthash.h\<close> the program expands. An element is an address; the fields of the
  hash handle inside it are functions of the address, so that a write through a pointer is an
  update of one function. \<^verbatim>\<open>HASH_ADD\<close> appends the element to the list in order of
  addition and puts it at the head of its bucket, and doubles the array of buckets when the
  bucket has become too long; \<^verbatim>\<open>HASH_FIND\<close> walks one bucket.

  The hash function is an argument, as \<^verbatim>\<open>HASH_FUNCTION\<close> is; the default,
  \<^verbatim>\<open>HASH_JEN\<close>, and the four simple alternatives are given. A walk along a list of
  pointers may take one turn more than the table has items: one that has not ended by then has
  come round to an element it has seen. The offset of the handle inside an element is left out,
  as are the Bloom filter, which is not compiled in, and deletion, sorting and selection, which
  the program does not use. An array of \<open>2 ^ 32\<close> buckets has a size that wraps to 0,
  so that the first write to it is out of bounds.
\<close>

subsection \<open>Hash functions\<close>

type_synonym byte = "8 word"

definition HASH_JEN_MIX :: "32 word \<times> 32 word \<times> 32 word \<Rightarrow> 32 word \<times> 32 word \<times> 32 word" where
  "HASH_JEN_MIX = (\<lambda>(a, b, c).
     let a = (a - b - c) XOR drop_bit 13 c;
         b = (b - c - a) XOR push_bit 8 a;
         c = (c - a - b) XOR drop_bit 13 b;
         a = (a - b - c) XOR drop_bit 12 c;
         b = (b - c - a) XOR push_bit 16 a;
         c = (c - a - b) XOR drop_bit 5 b;
         a = (a - b - c) XOR drop_bit 3 c;
         b = (b - c - a) XOR push_bit 10 a;
         c = (c - a - b) XOR drop_bit 15 b
     in (a, b, c))"

definition key_byte :: "byte list \<Rightarrow> nat \<Rightarrow> nat \<Rightarrow> 32 word" where
  "key_byte ks n s = (if n < length ks then push_bit s (ucast (ks ! n)) else 0)"

definition key_word :: "byte list \<Rightarrow> nat \<Rightarrow> 32 word" where
  "key_word ks n = key_byte ks n 0 + key_byte ks (n + 1) 8 + key_byte ks (n + 2) 16 + key_byte ks (n + 3) 24"

text \<open>The loop takes twelve bytes a turn. In the switch every case falls through to the next
  one, so that the bytes that are there are added at their places.\<close>

function jen_loop :: "byte list \<Rightarrow> 32 word \<times> 32 word \<times> 32 word
      \<Rightarrow> byte list \<times> 32 word \<times> 32 word \<times> 32 word" where
  "jen_loop ks (i, j, h) =
     (if 12 \<le> length ks
      then jen_loop (drop 12 ks) (HASH_JEN_MIX (i + key_word ks 0, j + key_word ks 4, h + key_word ks 8))
      else (ks, i, j, h))"
  by pat_completeness auto
termination by (relation "measure (length \<circ> fst)") auto

definition HASH_JEN :: "byte list \<Rightarrow> 32 word" where
  "HASH_JEN key =
     (let (rest, i, j, h) = jen_loop key (0x9e3779b9, 0x9e3779b9, 0xfeedbeef);
          h = h + of_nat (length key);
          h = h + (key_byte rest 10 24 + key_byte rest 9 16 + key_byte rest 8 8);
          (_, _, h) = HASH_JEN_MIX (i + key_word rest 0, j + key_word rest 4, h)
      in h)"

text \<open>In the others a byte is a \<^verbatim>\<open>char\<close>, with its sign.\<close>

definition HASH_BER :: "byte list \<Rightarrow> 32 word" where
  "HASH_BER = foldl (\<lambda>h c. (push_bit 5 h + h) + scast c) 0"

definition HASH_SAX :: "byte list \<Rightarrow> 32 word" where
  "HASH_SAX = foldl (\<lambda>h c. h XOR (push_bit 5 h + drop_bit 2 h + scast c)) 0"

definition HASH_FNV :: "byte list \<Rightarrow> 32 word" where
  "HASH_FNV = foldl (\<lambda>h c. (h XOR scast c) * 16777619) 2166136261"

definition HASH_OAT :: "byte list \<Rightarrow> 32 word" where
  "HASH_OAT key =
     (let h = foldl (\<lambda>h c. let h = h + scast c; h = h + push_bit 10 h in h XOR drop_bit 6 h) 0 key;
          h = h + push_bit 3 h;
          h = h XOR drop_bit 11 h
      in h + push_bit 15 h)"

definition get16bits :: "byte list \<Rightarrow> nat \<Rightarrow> 32 word" where
  "get16bits d n = push_bit 8 (ucast (d ! (n + 1))) + ucast (d ! n)"

fun sfh_loop :: "byte list \<Rightarrow> 32 word \<Rightarrow> byte list \<times> 32 word" where
  "sfh_loop (k0 # k1 # k2 # k3 # ks) h =
     (let h = h + get16bits [k0, k1, k2, k3] 0;
          tmp = push_bit 11 (get16bits [k0, k1, k2, k3] 2) XOR h;
          h = push_bit 16 h XOR tmp
      in sfh_loop ks (h + drop_bit 11 h))"
| "sfh_loop ks h = (ks, h)"

definition HASH_SFH :: "byte list \<Rightarrow> 32 word" where
  "HASH_SFH key =
     (let (rest, h) = sfh_loop key 0xcafebabe;
          h = (if length rest = 3 then
                 let h = h + get16bits rest 0; h = h XOR push_bit 16 h;
                     h = h XOR push_bit 18 (ucast (rest ! 2)) in h + drop_bit 11 h
               else if length rest = 2 then
                 let h = h + get16bits rest 0; h = h XOR push_bit 11 h in h + drop_bit 17 h
               else if length rest = 1 then
                 let h = h + ucast (rest ! 0); h = h XOR push_bit 10 h in h + drop_bit 1 h
               else h);
          h = h XOR push_bit 3 h; h = h + drop_bit 5 h;
          h = h XOR push_bit 4 h; h = h + drop_bit 17 h;
          h = h XOR push_bit 25 h
      in h + drop_bit 6 h)"

subsection \<open>Handles, buckets and tables\<close>

text \<open>\<^verbatim>\<open>prev\<close> and \<^verbatim>\<open>next\<close> link the elements in order of
  addition, \<^verbatim>\<open>hh_prev\<close> and \<^verbatim>\<open>hh_next\<close> those of a bucket. A key
  is the bytes \<^verbatim>\<open>key\<close> and \<^verbatim>\<open>keylen\<close> delimit.\<close>

record UT_hash_handle =
  el_prev :: "nat \<Rightarrow> nat option"
  el_next :: "nat \<Rightarrow> nat option"
  hh_prev :: "nat \<Rightarrow> nat option"
  hh_next :: "nat \<Rightarrow> nat option"
  hkey :: "nat \<Rightarrow> byte list"
  hashv :: "nat \<Rightarrow> 32 word"

record UT_hash_bucket =
  hh_head :: "nat option"
  bkt_count :: "32 word"
  expand_mult :: "32 word"

record UT_hash_table =
  buckets :: "UT_hash_bucket list"
  num_buckets :: "32 word"
  log2_num_buckets :: nat
  num_items :: "32 word"
  ht_tail :: nat
  ideal_chain_maxlen :: "32 word"
  nonideal_items :: "32 word"
  ineff_expands :: "32 word"
  noexpand :: "32 word"

record uthash =
  mem :: UT_hash_handle
  ht_head :: "nat option"
  ht_tbl :: UT_hash_table

definition HASH_INITIAL_NUM_BUCKETS :: nat where "HASH_INITIAL_NUM_BUCKETS = 32"
definition HASH_INITIAL_NUM_BUCKETS_LOG2 :: nat where "HASH_INITIAL_NUM_BUCKETS_LOG2 = 5"
definition HASH_BKT_CAPACITY_THRESH :: "32 word" where "HASH_BKT_CAPACITY_THRESH = 10"

definition empty_bucket :: UT_hash_bucket where
  "empty_bucket = \<lparr>hh_head = None, bkt_count = 0, expand_mult = 0\<rparr>"

definition HASH_MAKE_TABLE :: "nat \<Rightarrow> UT_hash_table" where
  "HASH_MAKE_TABLE h = \<lparr>buckets = replicate HASH_INITIAL_NUM_BUCKETS empty_bucket,
     num_buckets = of_nat HASH_INITIAL_NUM_BUCKETS, log2_num_buckets = HASH_INITIAL_NUM_BUCKETS_LOG2,
     num_items = 0, ht_tail = h, ideal_chain_maxlen = 0, nonideal_items = 0, ineff_expands = 0, noexpand = 0\<rparr>"

definition HASH_TO_BKT :: "32 word \<Rightarrow> 32 word \<Rightarrow> nat" where
  "HASH_TO_BKT h num_bkts = unat (h AND (num_bkts - 1))"

subsection \<open>\<^verbatim>\<open>HASH_FIND\<close>\<close>

fun find_in_bkt :: "nat \<Rightarrow> UT_hash_handle \<Rightarrow> byte list \<Rightarrow> nat option \<Rightarrow> nat option res" where
  "find_in_bkt 0 m key out = Inl Endless_Loop"
| "find_in_bkt (Suc f) m key out = (case out of
       None \<Rightarrow> Inr None
     | Some e \<Rightarrow>
         if length (hkey m e) = length key \<and> hkey m e = key then Inr (Some e)
         else find_in_bkt f m key (hh_next m e))"

definition walk_turns :: "UT_hash_table \<Rightarrow> nat" where
  "walk_turns t = Suc (unat (num_items t))"

definition HASH_FIND :: "(byte list \<Rightarrow> 32 word) \<Rightarrow> byte list \<Rightarrow> uthash \<Rightarrow> nat option res" where
  "HASH_FIND fcn key u = (case ht_head u of
       None \<Rightarrow> Inr None
     | Some _ \<Rightarrow>
         let t = ht_tbl u; bkt = HASH_TO_BKT (fcn key) (num_buckets t)
         in if bkt < length (buckets t)
            then find_in_bkt (walk_turns t) (mem u) key (hh_head (buckets t ! bkt))
            else Inl Out_Of_Bounds)"

subsection \<open>\<^verbatim>\<open>HASH_ADD\<close>\<close>

text \<open>One turn of the inner loop of \<^verbatim>\<open>HASH_EXPAND_BUCKETS\<close>: a handle is put at
  the head of its new bucket.\<close>

definition rehash :: "32 word \<Rightarrow> 32 word \<Rightarrow> nat
      \<Rightarrow> UT_hash_handle \<times> UT_hash_bucket list \<times> 32 word
      \<Rightarrow> (UT_hash_handle \<times> UT_hash_bucket list \<times> 32 word) res" where
  "rehash nb ideal thh = (\<lambda>(m, nbs, nonideal).
     let bkt = HASH_TO_BKT (hashv m thh) nb
     in if \<not> bkt < length nbs then Inl Buffer_Overflow
        else if ideal < bkt_count (nbs ! bkt) + 1 \<and> ideal = 0 then Inl Division_By_Zero
        else let b = (nbs ! bkt)\<lparr>bkt_count := bkt_count (nbs ! bkt) + 1\<rparr>;
                 over = ideal < bkt_count b;
                 b = (if over then b\<lparr>expand_mult := bkt_count b div ideal\<rparr> else b);
                 m = m\<lparr>hh_prev := (hh_prev m)(thh := None), hh_next := (hh_next m)(thh := hh_head b)\<rparr>;
                 m = (case hh_head b of None \<Rightarrow> m
                      | Some h \<Rightarrow> m\<lparr>hh_prev := (hh_prev m)(h := Some thh)\<rparr>)
             in Inr (m, nbs[bkt := b\<lparr>hh_head := Some thh\<rparr>], if over then nonideal + 1 else nonideal))"

fun rehash_chain :: "nat \<Rightarrow> 32 word \<Rightarrow> 32 word \<Rightarrow> nat option
      \<Rightarrow> UT_hash_handle \<times> UT_hash_bucket list \<times> 32 word
      \<Rightarrow> (UT_hash_handle \<times> UT_hash_bucket list \<times> 32 word) res" where
  "rehash_chain 0 nb ideal thh st = Inl Endless_Loop"
| "rehash_chain (Suc f) nb ideal thh st = (case thh of
       None \<Rightarrow> Inr st
     | Some h \<Rightarrow>
         let hh_nxt = hh_next (fst st) h
         in rbind (rehash nb ideal h st) (rehash_chain f nb ideal hh_nxt))"

definition ideal_maxlen :: "UT_hash_table \<Rightarrow> 32 word" where
  "ideal_maxlen t = drop_bit (log2_num_buckets t + 1) (num_items t)
     + (if num_items t AND (num_buckets t * 2 - 1) \<noteq> 0 then 1 else 0)"

definition HASH_EXPAND_BUCKETS :: "uthash \<Rightarrow> uthash res" where
  "HASH_EXPAND_BUCKETS u =
     (let t = ht_tbl u; nb = num_buckets t * 2; ideal = ideal_maxlen t
      in rbind (rfold (\<lambda>b st. rehash_chain (walk_turns t) nb ideal (hh_head (buckets t ! b)) st)
                  [0..<unat (num_buckets t)] (mem u, replicate (unat nb) empty_bucket, 0))
           (\<lambda>(m, nbs, nonideal).
            let ineff = (if drop_bit 1 (num_items t) < nonideal then ineff_expands t + 1 else 0)
            in Inr (u\<lparr>mem := m, ht_tbl := t\<lparr>ideal_chain_maxlen := ideal, nonideal_items := nonideal,
                 num_buckets := nb, log2_num_buckets := log2_num_buckets t + 1, buckets := nbs,
                 ineff_expands := ineff, noexpand := (if 1 < ineff then 1 else noexpand t)\<rparr>\<rparr>)))"

definition push_bucket :: "nat \<Rightarrow> nat \<Rightarrow> uthash \<Rightarrow> uthash" where
  "push_bucket bkt add u =
     (let t = ht_tbl u; m = mem u;
          b = (buckets t ! bkt)\<lparr>bkt_count := bkt_count (buckets t ! bkt) + 1\<rparr>;
          m = m\<lparr>hh_next := (hh_next m)(add := hh_head b), hh_prev := (hh_prev m)(add := None)\<rparr>;
          m = (case hh_head b of None \<Rightarrow> m | Some h \<Rightarrow> m\<lparr>hh_prev := (hh_prev m)(h := Some add)\<rparr>)
      in u\<lparr>mem := m, ht_tbl := t\<lparr>buckets := (buckets t)[bkt := b\<lparr>hh_head := Some add\<rparr>]\<rparr>\<rparr>)"

definition HASH_ADD_TO_BKT :: "nat \<Rightarrow> nat \<Rightarrow> uthash \<Rightarrow> uthash res" where
  "HASH_ADD_TO_BKT bkt add u =
     (if \<not> bkt < length (buckets (ht_tbl u)) then Inl Out_Of_Bounds
      else let u = push_bucket bkt add u; t = ht_tbl u; b = buckets t ! bkt
           in if (expand_mult b + 1) * HASH_BKT_CAPACITY_THRESH \<le> bkt_count b \<and> noexpand t \<noteq> 1
              then HASH_EXPAND_BUCKETS u else Inr u)"

definition link_element :: "nat \<Rightarrow> byte list \<Rightarrow> uthash \<Rightarrow> uthash" where
  "link_element add key u =
     (let m = (mem u)\<lparr>el_next := (el_next (mem u))(add := None), hkey := (hkey (mem u))(add := key)\<rparr>
      in case ht_head u of
           None \<Rightarrow> u\<lparr>mem := m\<lparr>el_prev := (el_prev m)(add := None)\<rparr>, ht_head := Some add,
                     ht_tbl := HASH_MAKE_TABLE add\<rparr>
         | Some _ \<Rightarrow> u\<lparr>mem := m\<lparr>el_next := (el_next m)(ht_tail (ht_tbl u) := Some add),
                            el_prev := (el_prev m)(add := Some (ht_tail (ht_tbl u)))\<rparr>,
                     ht_tbl := (ht_tbl u)\<lparr>ht_tail := add\<rparr>\<rparr>)"

definition HASH_ADD :: "(byte list \<Rightarrow> 32 word) \<Rightarrow> nat \<Rightarrow> byte list \<Rightarrow> uthash \<Rightarrow> uthash res" where
  "HASH_ADD fcn add key u =
     (let u = link_element add key u;
          t = (ht_tbl u)\<lparr>num_items := num_items (ht_tbl u) + 1\<rparr>;
          u = u\<lparr>mem := (mem u)\<lparr>hashv := (hashv (mem u))(add := fcn key)\<rparr>, ht_tbl := t\<rparr>
      in HASH_ADD_TO_BKT (HASH_TO_BKT (fcn key) (num_buckets t)) add u)"

definition HASH_COUNT :: "uthash \<Rightarrow> 32 word" where
  "HASH_COUNT u = (case ht_head u of None \<Rightarrow> 0 | Some _ \<Rightarrow> num_items (ht_tbl u))"

text \<open>\<^verbatim>\<open>HASH_ITER\<close>: the elements the loop visits, when its body does not change
  the list.\<close>

fun iter_from :: "nat \<Rightarrow> UT_hash_handle \<Rightarrow> nat option \<Rightarrow> nat list res" where
  "iter_from 0 m el = Inl Endless_Loop"
| "iter_from (Suc f) m el = (case el of
       None \<Rightarrow> Inr []
     | Some e \<Rightarrow> rbind (iter_from f m (el_next m e)) (\<lambda>els. Inr (e # els)))"

definition HASH_ITER :: "uthash \<Rightarrow> nat list res" where
  "HASH_ITER u = iter_from (walk_turns (ht_tbl u)) (mem u) (ht_head u)"

subsection \<open>\<^verbatim>\<open>HASH_FSCK\<close>\<close>

text \<open>The check of a table's integrity that \<^verbatim>\<open>HASH_DEBUG\<close> compiles in: a walk along
  a list counts the elements, unless a pointer back is wrong; \<open>None\<close> is
  \<^verbatim>\<open>HASH_OOPS\<close>, which ends the program.\<close>

fun fsck_walk :: "nat \<Rightarrow> (nat \<Rightarrow> nat option) \<Rightarrow> (nat \<Rightarrow> nat option) \<Rightarrow> nat option \<Rightarrow> nat option
      \<Rightarrow> 32 word \<Rightarrow> 32 word option res" where
  "fsck_walk 0 nx pv prev thh cnt = Inl Endless_Loop"
| "fsck_walk (Suc f) nx pv prev thh cnt = (case thh of
       None \<Rightarrow> Inr (Some cnt)
     | Some h \<Rightarrow> if prev \<noteq> pv h then Inr None else fsck_walk f nx pv (Some h) (nx h) (cnt + 1))"

fun fsck_buckets :: "nat \<Rightarrow> UT_hash_handle \<Rightarrow> UT_hash_bucket list \<Rightarrow> 32 word \<Rightarrow> 32 word option res" where
  "fsck_buckets f m [] cnt = Inr (Some cnt)"
| "fsck_buckets f m (b # bs) cnt =
     rbind (fsck_walk f (hh_next m) (hh_prev m) None (hh_head b) 0) (\<lambda>r. case r of
       None \<Rightarrow> Inr None
     | Some c \<Rightarrow> if bkt_count b \<noteq> c then Inr None else fsck_buckets f m bs (cnt + c))"

definition HASH_FSCK :: "uthash \<Rightarrow> bool res" where
  "HASH_FSCK u = (case ht_head u of
       None \<Rightarrow> Inr True
     | Some h \<Rightarrow>
         let t = ht_tbl u; m = mem u
         in rbind (fsck_buckets (walk_turns t) m (take (unat (num_buckets t)) (buckets t)) 0) (\<lambda>r. case r of
              None \<Rightarrow> Inr False
            | Some cnt \<Rightarrow> if cnt \<noteq> num_items t then Inr False
                else rbind (fsck_walk (walk_turns t) (el_next m) (el_prev m) None (Some h) 0) (\<lambda>r. case r of
                       None \<Rightarrow> Inr False
                     | Some cnt \<Rightarrow> Inr (cnt = num_items t))))"

subsection \<open>Lists of pointers\<close>

text \<open>\<open>path\<close> follows the pointers forward, \<open>linked\<close> checks those back as well.\<close>

primrec path :: "(nat \<Rightarrow> nat option) \<Rightarrow> nat option \<Rightarrow> nat list \<Rightarrow> bool" where
  "path nx c [] \<longleftrightarrow> c = None"
| "path nx c (a # as) \<longleftrightarrow> c = Some a \<and> path nx (nx a) as"

primrec linked :: "(nat \<Rightarrow> nat option) \<Rightarrow> (nat \<Rightarrow> nat option) \<Rightarrow> nat option \<Rightarrow> nat option \<Rightarrow> nat list \<Rightarrow> bool" where
  "linked nx pv p c [] \<longleftrightarrow> c = None"
| "linked nx pv p c (a # as) \<longleftrightarrow> c = Some a \<and> pv a = p \<and> linked nx pv (Some a) (nx a) as"

lemma linked_path: "linked nx pv p c as \<Longrightarrow> path nx c as"
  by (induction as arbitrary: p c) auto

lemma path_cong: "(\<And>a. a \<in> set as \<Longrightarrow> nx' a = nx a) \<Longrightarrow> path nx' c as = path nx c as"
  by (induction as arbitrary: c) auto

lemma linked_cong:
  "(\<And>a. a \<in> set as \<Longrightarrow> nx' a = nx a \<and> pv' a = pv a) \<Longrightarrow> linked nx' pv' p c as = linked nx pv p c as"
  by (induction as arbitrary: p c) auto

lemma linked_upd_next [simp]: "a \<notin> set as \<Longrightarrow> linked (nx(a := x)) pv p c as = linked nx pv p c as"
  by (rule linked_cong) auto

lemma linked_upd_prev [simp]: "a \<notin> set as \<Longrightarrow> linked nx (pv(a := y)) p c as = linked nx pv p c as"
  by (rule linked_cong) auto

lemma path_upd [simp]: "a \<notin> set as \<Longrightarrow> path (nx(a := x)) c as = path nx c as"
  by (rule path_cong) auto

text \<open>Putting an element at the head, as both loops over buckets do.\<close>

lemma linked_push:
  assumes "linked nx pv None c as" and "distinct (a # as)"
  shows "linked (nx(a := c)) (case c of None \<Rightarrow> pv(a := None) | Some h \<Rightarrow> (pv(a := None))(h := Some a))
           None (Some a) (a # as)"
  using assms by (cases as) auto

lemma linked_snoc:
  assumes "linked nx pv p c as" and "as \<noteq> []" and "distinct (as @ [a])"
  shows "linked ((nx(a := None))(last as := Some a)) (pv(a := Some (last as))) p c (as @ [a])"
  using assms
proof (induction as arbitrary: p c)
  case (Cons b bs)
  show ?case
  proof (cases bs)
    case Nil with Cons.prems show ?thesis by auto
  next
    case (Cons d ds)
    with Cons.prems have "last bs \<noteq> b" by auto
    with Cons.prems Cons.IH [of "Some b" "nx b"] Cons show ?thesis by auto
  qed
qed simp

lemma fsck_walk_linked:
  "linked nx pv p c as \<Longrightarrow> length as < f \<Longrightarrow> fsck_walk f nx pv p c n = Inr (Some (n + of_nat (length as)))"
proof (induction as arbitrary: p c f n)
  case Nil then show ?case by (cases f) auto
next
  case (Cons a as)
  then show ?case by (cases f) (auto simp: add.assoc)
qed

lemma iter_from_path: "path (el_next m) c as \<Longrightarrow> length as < f \<Longrightarrow> iter_from f m c = Inr as"
proof (induction as arbitrary: c f)
  case Nil then show ?case by (cases f) auto
next
  case (Cons a as)
  then show ?case by (cases f) auto
qed

lemma find_in_bkt_path:
  "path (hh_next m) c as \<Longrightarrow> length as < f \<Longrightarrow>
   find_in_bkt f m key c = Inr (find (\<lambda>a. hkey m a = key) as)"
proof (induction as arbitrary: c f)
  case Nil then show ?case by (cases f) auto
next
  case (Cons a as)
  then show ?case by (cases f) auto
qed

subsection \<open>Elements spread over buckets\<close>

text \<open>When the elements of \<open>P\<close> are pushed one after the other, each to its bucket, the
  chain of a bucket holds those that belong there, the last one first.\<close>

definition chain_of :: "(nat \<Rightarrow> 32 word) \<Rightarrow> 32 word \<Rightarrow> nat list \<Rightarrow> nat \<Rightarrow> nat list" where
  "chain_of hv nb P b = rev (filter (\<lambda>a. HASH_TO_BKT (hv a) nb = b) P)"

definition bucket_ok :: "UT_hash_handle \<Rightarrow> UT_hash_bucket \<Rightarrow> nat list \<Rightarrow> bool" where
  "bucket_ok m b as \<longleftrightarrow> linked (hh_next m) (hh_prev m) None (hh_head b) as \<and> bkt_count b = of_nat (length as)"

definition spread :: "UT_hash_handle \<Rightarrow> 32 word \<Rightarrow> UT_hash_bucket list \<Rightarrow> nat list \<Rightarrow> bool" where
  "spread m nb bs P \<longleftrightarrow> length bs = unat nb \<and> distinct P
     \<and> (\<forall>b < length bs. bucket_ok m (bs ! b) (chain_of (hashv m) nb P b))"

lemma set_chain_of [simp]: "set (chain_of hv nb P b) = {a \<in> set P. HASH_TO_BKT (hv a) nb = b}"
  by (simp add: chain_of_def)

lemma distinct_chain_of [simp]: "distinct P \<Longrightarrow> distinct (chain_of hv nb P b)"
  by (simp add: chain_of_def)

lemma chain_of_snoc [simp]:
  "chain_of hv nb (P @ [a]) b = (if HASH_TO_BKT (hv a) nb = b then a # chain_of hv nb P b else chain_of hv nb P b)"
  by (simp add: chain_of_def)

lemma chain_of_Nil [simp]: "chain_of hv nb [] b = []"
  by (simp add: chain_of_def)

lemma chain_of_cong: "(\<And>a. a \<in> set P \<Longrightarrow> hv' a = hv a) \<Longrightarrow> chain_of hv' nb P b = chain_of hv nb P b"
  by (simp add: chain_of_def cong: filter_cong)

lemma length_chain_of: "length (chain_of hv nb P b) \<le> length P"
  by (simp add: chain_of_def)

lemma HASH_TO_BKT_less: "nb \<noteq> 0 \<Longrightarrow> HASH_TO_BKT h nb < unat nb"
proof -
  assume nb: "nb \<noteq> 0"
  have "HASH_TO_BKT h nb \<le> unat (nb - 1)"
    unfolding HASH_TO_BKT_def by (simp add: word_and_le1 flip: word_le_nat_alt)
  also have "\<dots> < unat nb" using nb by (simp add: unat_minus_one unat_gt_0 measure_unat)
  finally show ?thesis .
qed

lemma mset_chains:
  "mset (concat (map (chain_of hv nb P) [0..<n])) = filter_mset (\<lambda>a. HASH_TO_BKT (hv a) nb < n) (mset P)"
proof (induction n)
  case (Suc n)
  have "mset (chain_of hv nb P n) = filter_mset (\<lambda>a. HASH_TO_BKT (hv a) nb = n) (mset P)"
    by (simp add: chain_of_def)
  moreover have "filter_mset (\<lambda>a. HASH_TO_BKT (hv a) nb < n) (mset P)
      + filter_mset (\<lambda>a. HASH_TO_BKT (hv a) nb = n) (mset P)
      = filter_mset (\<lambda>a. HASH_TO_BKT (hv a) nb < Suc n) (mset P)"
    by (induction P) auto
  ultimately show ?case by (simp add: Suc.IH)
qed simp

lemma mset_all_chains:
  "nb \<noteq> 0 \<Longrightarrow> mset (concat (map (chain_of hv nb P) [0..<unat nb])) = mset P"
  by (simp add: mset_chains HASH_TO_BKT_less)

lemma spread_empty: "spread m nb (replicate (unat nb) empty_bucket) []"
  by (simp add: spread_def bucket_ok_def empty_bucket_def)

lemma spread_cong:
  assumes "spread m nb bs P"
    and "\<And>a. a \<in> set P \<Longrightarrow> hashv m' a = hashv m a \<and> hh_next m' a = hh_next m a \<and> hh_prev m' a = hh_prev m a"
  shows "spread m' nb bs P"
proof -
  have "chain_of (hashv m') nb P b = chain_of (hashv m) nb P b" for b
    using assms(2) by (intro chain_of_cong) simp
  moreover have "linked (hh_next m') (hh_prev m') p c (chain_of (hashv m) nb P b)
      = linked (hh_next m) (hh_prev m) p c (chain_of (hashv m) nb P b)" for p c b
    using assms(2) by (intro linked_cong) simp
  ultimately show ?thesis using assms(1) by (simp add: spread_def bucket_ok_def)
qed

lemma spread_push:
  assumes sp: "spread m nb bs P" and a: "a \<notin> set P" and B: "B = HASH_TO_BKT (hashv m a) nb" "B < length bs"
    and m': "hashv m' = hashv m" "hh_next m' = (hh_next m)(a := hh_head (bs ! B))"
      "hh_prev m' = (case hh_head (bs ! B) of None \<Rightarrow> (hh_prev m)(a := None)
                     | Some h \<Rightarrow> ((hh_prev m)(a := None))(h := Some a))"
    and b': "hh_head b' = Some a" "bkt_count b' = bkt_count (bs ! B) + 1"
  shows "spread m' nb (bs[B := b']) (P @ [a])"
  unfolding spread_def
proof (intro conjI allI impI)
  show "length (bs[B := b']) = unat nb" "distinct (P @ [a])"
    using sp a by (simp_all add: spread_def)
  have ok: "bucket_ok m (bs ! b) (chain_of (hashv m) nb P b)" if "b < length bs" for b
    using sp that by (simp add: spread_def)
  let ?cB = "chain_of (hashv m) nb P B"
  fix b assume "b < length (bs[B := b'])"
  then have b: "b < length bs" by simp
  show "bucket_ok m' (bs[B := b'] ! b) (chain_of (hashv m') nb (P @ [a]) b)"
  proof (cases "b = B")
    case True
    have "linked (hh_next m') (hh_prev m') None (Some a) (a # ?cB)"
      unfolding m' by (rule linked_push) (use ok [OF B(2)] a sp in \<open>auto simp: bucket_ok_def spread_def\<close>)
    with True ok [OF B(2)] B b' show ?thesis by (simp add: bucket_ok_def m'(1))
  next
    case False
    have "h \<in> set ?cB" if "hh_head (bs ! B) = Some h" for h
      using ok [OF B(2)] that by (cases ?cB) (auto simp: bucket_ok_def)
    then have "linked (hh_next m') (hh_prev m') None (hh_head (bs ! b)) (chain_of (hashv m) nb P b)"
      using ok [OF b] a False by (auto simp: m' bucket_ok_def split: option.split)
    with False ok [OF b] B b show ?thesis by (simp add: bucket_ok_def m'(1))
  qed
qed

subsection \<open>Doubling the buckets\<close>

text \<open>What moving handles leaves alone: everything but the links within buckets, of which those
  forward change for the handles moved only.\<close>

definition relinked :: "nat set \<Rightarrow> UT_hash_handle \<Rightarrow> UT_hash_handle \<Rightarrow> bool" where
  "relinked A m m' \<longleftrightarrow> el_prev m' = el_prev m \<and> el_next m' = el_next m \<and> hkey m' = hkey m
     \<and> hashv m' = hashv m \<and> (\<forall>a. a \<notin> A \<longrightarrow> hh_next m' a = hh_next m a)"

lemma relinked_refl [simp]: "relinked A m m"
  by (simp add: relinked_def)

lemma relinked_trans: "relinked A m m' \<Longrightarrow> relinked B m' m'' \<Longrightarrow> relinked (A \<union> B) m m''"
  by (simp add: relinked_def)

lemma relinked_path:
  "relinked A m m' \<Longrightarrow> A \<inter> set as = {} \<Longrightarrow> path (hh_next m') c as = path (hh_next m) c as"
  by (rule path_cong) (auto simp: relinked_def)

lemma rehash_moves:
  assumes "spread m nb nbs P" and "a \<notin> set P" and "nb \<noteq> 0" and "ideal \<noteq> 0"
  shows "\<exists>m' nbs' ni'. rehash nb ideal a (m, nbs, ni) = Inr (m', nbs', ni')
           \<and> spread m' nb nbs' (P @ [a]) \<and> relinked {a} m m'"
proof -
  let ?B = "HASH_TO_BKT (hashv m a) nb"
  let ?b = "nbs ! ?B"
  let ?over = "ideal < bkt_count ?b + 1"
  define b' where "b' = (if ?over then ?b\<lparr>bkt_count := bkt_count ?b + 1, expand_mult := (bkt_count ?b + 1) div ideal\<rparr>
    else ?b\<lparr>bkt_count := bkt_count ?b + 1\<rparr>)\<lparr>hh_head := Some a\<rparr>"
  define m' where "m' = m\<lparr>hh_next := (hh_next m)(a := hh_head ?b),
    hh_prev := (case hh_head ?b of None \<Rightarrow> (hh_prev m)(a := None)
                | Some h \<Rightarrow> ((hh_prev m)(a := None))(h := Some a))\<rparr>"
  have B: "?B < length nbs" using assms(1,3) HASH_TO_BKT_less by (simp add: spread_def)
  have "rehash nb ideal a (m, nbs, ni) = Inr (m', nbs[?B := b'], if ?over then ni + 1 else ni)"
    using assms(4) B by (simp add: rehash_def Let_def b'_def m'_def split: option.split)
  moreover have "spread m' nb (nbs[?B := b']) (P @ [a])"
    by (rule spread_push [OF assms(1,2) refl B]) (simp_all add: m'_def b'_def)
  moreover have "relinked {a} m m'" by (simp add: relinked_def m'_def)
  ultimately show ?thesis by blast
qed

lemma rehash_chain_moves:
  assumes "spread m nb nbs P" and "distinct (P @ as)" and "path (hh_next m) c as" and "length as < f"
    and "nb \<noteq> 0" and "ideal \<noteq> 0"
  shows "\<exists>m' nbs' ni'. rehash_chain f nb ideal c (m, nbs, ni) = Inr (m', nbs', ni')
           \<and> spread m' nb nbs' (P @ as) \<and> relinked (set as) m m'"
  using assms
proof (induction as arbitrary: f c m nbs ni P)
  case Nil
  then show ?case by (cases f) auto
next
  case (Cons a as)
  from Cons.prems(4) obtain f' where f: "f = Suc f'" by (cases f) auto
  from Cons.prems(2) have a: "a \<notin> set P" by simp
  obtain m1 nbs1 ni1 where 1: "rehash nb ideal a (m, nbs, ni) = Inr (m1, nbs1, ni1)"
    "spread m1 nb nbs1 (P @ [a])" "relinked {a} m m1"
    using rehash_moves [OF Cons.prems(1) a Cons.prems(5,6)] by blast
  have "path (hh_next m1) (hh_next m a) as"
    using Cons.prems(2,3) relinked_path [OF 1(3), of as] by simp
  from Cons.IH [OF 1(2) _ this, of f' ni1] Cons.prems f obtain m2 nbs2 ni2 where 2:
    "rehash_chain f' nb ideal (hh_next m a) (m1, nbs1, ni1) = Inr (m2, nbs2, ni2)"
    "spread m2 nb nbs2 ((P @ [a]) @ as)" "relinked (set as) m1 m2"
    by auto
  from relinked_trans [OF 1(3) 2(3)] 1(1) 2 Cons.prems(3) f show ?case by simp
qed

lemma rehash_chains_move:
  assumes "distinct (concat (map cs [0..<k]))" and "\<And>b. b < k \<Longrightarrow> path (hh_next m) (hd_of b) (cs b)"
    and "\<And>b. b < k \<Longrightarrow> length (cs b) < f" and "nb \<noteq> 0" and "ideal \<noteq> 0"
  shows "\<exists>m' nbs' ni'. rfold (\<lambda>b st. rehash_chain f nb ideal (hd_of b) st) [0..<k]
             (m, replicate (unat nb) empty_bucket, 0) = Inr (m', nbs', ni')
           \<and> spread m' nb nbs' (concat (map cs [0..<k])) \<and> relinked (set (concat (map cs [0..<k]))) m m'"
  using assms(1-3)
proof (induction k)
  case 0
  then show ?case by (simp add: spread_empty)
next
  case (Suc k)
  let ?P = "concat (map cs [0..<k])"
  obtain m1 nbs1 ni1 where 1: "rfold (\<lambda>b st. rehash_chain f nb ideal (hd_of b) st) [0..<k]
      (m, replicate (unat nb) empty_bucket, 0) = Inr (m1, nbs1, ni1)"
    "spread m1 nb nbs1 ?P" "relinked (set ?P) m m1"
    using Suc.IH Suc.prems by fastforce
  have d: "distinct (?P @ cs k)" using Suc.prems(1) by simp
  then have "path (hh_next m1) (hd_of k) (cs k)"
    using Suc.prems(2) [of k] relinked_path [OF 1(3), of "cs k"] by simp
  from rehash_chain_moves [OF 1(2) d this _ assms(4,5), of f ni1] Suc.prems(3)
  obtain m2 nbs2 ni2 where 2: "rehash_chain f nb ideal (hd_of k) (m1, nbs1, ni1) = Inr (m2, nbs2, ni2)"
    "spread m2 nb nbs2 (?P @ cs k)" "relinked (set (cs k)) m1 m2"
    by auto
  from relinked_trans [OF 1(3) 2(3)] 1(1) 2 show ?case by (simp add: rfold_append)
qed

text \<open>The ideal length of a chain is not 0 while the table has an item.\<close>

lemma ideal_maxlen_pos:
  assumes "num_buckets t = 2 ^ log2_num_buckets t" and "log2_num_buckets t < 31" and "num_items t \<noteq> 0"
  shows "ideal_maxlen t \<noteq> 0"
proof -
  define k where "k = Suc (log2_num_buckets t)"
  have k: "0 < k" "k < 32" using assms(2) by (simp_all add: k_def)
  have m: "num_items t AND (num_buckets t * 2 - 1) = take_bit k (num_items t)"
    using assms(1) by (simp add: k_def take_bit_eq_mask mask_eq_exp_minus_1 mult.commute)
  have id: "ideal_maxlen t = drop_bit k (num_items t) + (if take_bit k (num_items t) \<noteq> 0 then 1 else 0)"
    unfolding ideal_maxlen_def m by (simp add: k_def)
  have "unat (drop_bit k (num_items t)) < 2 ^ 31"
  proof -
    have "unat (drop_bit k (num_items t)) = unat (num_items t) div 2 ^ k"
      by (metis drop_bit_eq_div unat_drop_bit_eq)
    also have "\<dots> \<le> unat (num_items t) div 2 ^ 1"
      using k by (intro div_le_mono2 power_increasing) auto
    also have "\<dots> < 2 ^ 31" using unsigned_less [of "num_items t", where 'a = nat] by auto
    finally show ?thesis .
  qed
  then have "unat (drop_bit k (num_items t) + 1) = unat (drop_bit k (num_items t)) + 1"
    by (subst unat_add_lem [THEN iffD1]) auto
  then have 1: "drop_bit k (num_items t) + 1 \<noteq> 0" by (metis add_is_0 one_neq_zero unat_0)
  have 2: "drop_bit k (num_items t) \<noteq> 0" if "take_bit k (num_items t) = 0"
    using bits_ident [of k "num_items t"] that assms(3) by auto
  from 1 2 show ?thesis by (auto simp: id)
qed

subsection \<open>What a table holds\<close>

text \<open>\<open>uthash_holds fcn u as\<close>: the table holds the elements at the addresses \<open>as\<close>, in
  their order of addition.\<close>

definition tbl_ok :: "(byte list \<Rightarrow> 32 word) \<Rightarrow> UT_hash_handle \<Rightarrow> UT_hash_table \<Rightarrow> nat list \<Rightarrow> bool" where
  "tbl_ok fcn m t as \<longleftrightarrow> ht_tail t = last as \<and> num_items t = of_nat (length as)
     \<and> log2_num_buckets t < 32 \<and> num_buckets t = 2 ^ log2_num_buckets t
     \<and> (\<forall>a \<in> set as. hashv m a = fcn (hkey m a))
     \<and> (\<exists>P. mset P = mset as \<and> spread m (num_buckets t) (buckets t) P)"

definition uthash_holds :: "(byte list \<Rightarrow> 32 word) \<Rightarrow> uthash \<Rightarrow> nat list \<Rightarrow> bool" where
  "uthash_holds fcn u as \<longleftrightarrow> distinct as \<and> length as < 2 ^ 32
     \<and> linked (el_next (mem u)) (el_prev (mem u)) None (ht_head u) as
     \<and> (as \<noteq> [] \<longrightarrow> tbl_ok fcn (mem u) (ht_tbl u) as)"

lemma num_buckets_pos: "tbl_ok fcn m t as \<Longrightarrow> num_buckets t \<noteq> 0"
  by (simp add: tbl_ok_def)

lemma turns_ok: "tbl_ok fcn m t as \<Longrightarrow> length as < 2 ^ 32 \<Longrightarrow> walk_turns t = Suc (length as)"
  by (simp add: tbl_ok_def walk_turns_def unat_of_nat_32)

lemma expand_holds:
  assumes u: "uthash_holds fcn u as" and "as \<noteq> []" and lg: "log2_num_buckets (ht_tbl u) < 31"
  shows "\<exists>u'. HASH_EXPAND_BUCKETS u = Inr u' \<and> uthash_holds fcn u' as \<and> hkey (mem u') = hkey (mem u)"
proof -
  let ?t = "ht_tbl u" and ?m = "mem u"
  let ?nb = "num_buckets ?t * 2"
  have t: "tbl_ok fcn ?m ?t as" and len: "length as < 2 ^ 32" using assms(1,2) by (simp_all add: uthash_holds_def)
  then obtain P where P: "mset P = mset as" "spread ?m (num_buckets ?t) (buckets ?t) P"
    by (auto simp: tbl_ok_def)
  let ?cs = "chain_of (hashv ?m) (num_buckets ?t) P"
  let ?N = "unat (num_buckets ?t)"
  have nb: "?nb = 2 ^ Suc (log2_num_buckets ?t)" using t by (simp add: tbl_ok_def)
  have "(2 :: 32 word) ^ Suc (log2_num_buckets ?t) \<noteq> 0" using lg by (simp del: power_Suc)
  with nb have nb0: "?nb \<noteq> 0" by metis
  have "num_items ?t \<noteq> 0"
    using t assms(2) unat_of_nat_32 [OF len] by (auto simp: tbl_ok_def)
  then have ideal: "ideal_maxlen ?t \<noteq> 0" using t lg by (intro ideal_maxlen_pos) (simp_all add: tbl_ok_def)
  have ms: "mset (concat (map ?cs [0..<?N])) = mset P"
    using num_buckets_pos [OF t] by (rule mset_all_chains)
  then have d: "distinct (concat (map ?cs [0..<?N]))"
    using P(2) mset_eq_imp_distinct_iff spread_def by blast
  have pth: "path (hh_next ?m) (hh_head (buckets ?t ! b)) (?cs b)" if "b < ?N" for b
    using P(2) that linked_path by (fastforce simp: spread_def bucket_ok_def)
  have "length P = length as" using P(1) by (metis size_mset)
  then have tn: "length (?cs b) < walk_turns ?t" for b
    using length_chain_of [of "hashv ?m" "num_buckets ?t" P b] turns_ok [OF t len] by simp
  obtain m' nbs' ni' where r: "rfold (\<lambda>b st. rehash_chain (walk_turns ?t) ?nb (ideal_maxlen ?t) (hh_head (buckets ?t ! b)) st)
       [0..<?N] (?m, replicate (unat ?nb) empty_bucket, 0) = Inr (m', nbs', ni')"
    "spread m' ?nb nbs' (concat (map ?cs [0..<?N]))" "relinked (set (concat (map ?cs [0..<?N]))) ?m m'"
    using rehash_chains_move [OF d pth tn nb0 ideal] by blast
  show ?thesis
    using u assms(2) r P(1) ms nb lg
    by (simp add: HASH_EXPAND_BUCKETS_def Let_def uthash_holds_def tbl_ok_def relinked_def) blast
qed

text \<open>Between the two lists: the element is linked in order of addition, and waits for its
  bucket.\<close>

definition add_ready :: "(byte list \<Rightarrow> 32 word) \<Rightarrow> uthash \<Rightarrow> nat list \<Rightarrow> nat \<Rightarrow> bool" where
  "add_ready fcn u as a \<longleftrightarrow> distinct (as @ [a]) \<and> length as + 1 < 2 ^ 32
     \<and> linked (el_next (mem u)) (el_prev (mem u)) None (ht_head u) (as @ [a])
     \<and> ht_tail (ht_tbl u) = a \<and> num_items (ht_tbl u) = of_nat (length as + 1)
     \<and> log2_num_buckets (ht_tbl u) < 31 \<and> num_buckets (ht_tbl u) = 2 ^ log2_num_buckets (ht_tbl u)
     \<and> (\<forall>x \<in> set (as @ [a]). hashv (mem u) x = fcn (hkey (mem u) x))
     \<and> (\<exists>P. mset P = mset as \<and> spread (mem u) (num_buckets (ht_tbl u)) (buckets (ht_tbl u)) P)"

lemma link_ready:
  assumes u: "uthash_holds fcn u as" and a: "a \<notin> set as" and len: "length as + 1 < 2 ^ 32"
    and room: "ht_head u = None \<or> log2_num_buckets (ht_tbl u) < 31"
    and v: "v = (link_element a key u)\<lparr>
      mem := (mem (link_element a key u))\<lparr>hashv := (hashv (mem (link_element a key u)))(a := fcn key)\<rparr>,
      ht_tbl := (ht_tbl (link_element a key u))\<lparr>num_items := num_items (ht_tbl (link_element a key u)) + 1\<rparr>\<rparr>"
  shows "add_ready fcn v as a"
proof -
  have mem: "hkey (mem v) = (hkey (mem u))(a := key)" "hashv (mem v) = (hashv (mem u))(a := fcn key)"
    "hh_next (mem v) = hh_next (mem u)" "hh_prev (mem v) = hh_prev (mem u)"
    by (simp_all add: v link_element_def Let_def split: option.split)
  have d: "distinct (as @ [a])" using u a by (simp add: uthash_holds_def)
  show ?thesis
  proof (cases "as = []")
    case True
    with u have h: "ht_head u = None" by (simp add: uthash_holds_def)
    show ?thesis
      unfolding add_ready_def using True h spread_empty [of "mem v" 32] mem
      by (simp add: v link_element_def Let_def HASH_MAKE_TABLE_def
          HASH_INITIAL_NUM_BUCKETS_def HASH_INITIAL_NUM_BUCKETS_LOG2_def)
  next
    case False
    with u have t: "tbl_ok fcn (mem u) (ht_tbl u) as"
      and lk: "linked (el_next (mem u)) (el_prev (mem u)) None (ht_head u) as"
      by (simp_all add: uthash_holds_def)
    from False lk obtain h where h: "ht_head u = Some h" by (cases as) auto
    from t obtain P where P: "mset P = mset as" "spread (mem u) (num_buckets (ht_tbl u)) (buckets (ht_tbl u)) P"
      by (auto simp: tbl_ok_def)
    have "set P = set as" using P(1) by (rule mset_eq_setD)
    with P(2) a have "spread (mem v) (num_buckets (ht_tbl u)) (buckets (ht_tbl u)) P"
      by (intro spread_cong [OF P(2)]) (auto simp: mem)
    with P(1) t h a d len room linked_snoc [OF lk False d] mem show ?thesis
      by (simp add: add_ready_def v link_element_def Let_def tbl_ok_def) blast
  qed
qed

lemma push_holds:
  assumes u: "add_ready fcn u as a" and B: "B = HASH_TO_BKT (hashv (mem u) a) (num_buckets (ht_tbl u))"
  shows "B < length (buckets (ht_tbl u))" and "uthash_holds fcn (push_bucket B a u) (as @ [a])"
    and "hkey (mem (push_bucket B a u)) = hkey (mem u)"
    and "log2_num_buckets (ht_tbl (push_bucket B a u)) < 31"
proof -
  from u obtain P where P: "mset P = mset as" "spread (mem u) (num_buckets (ht_tbl u)) (buckets (ht_tbl u)) P"
    by (auto simp: add_ready_def)
  have "num_buckets (ht_tbl u) \<noteq> 0" using u by (simp add: add_ready_def)
  then show BL: "B < length (buckets (ht_tbl u))" using P(2) HASH_TO_BKT_less by (simp add: B spread_def)
  let ?m = "mem (push_bucket B a u)" and ?b = "buckets (ht_tbl u) ! B"
  have eqs: "el_next ?m = el_next (mem u)" "el_prev ?m = el_prev (mem u)" "hkey ?m = hkey (mem u)"
    "hashv ?m = hashv (mem u)" "hh_next ?m = (hh_next (mem u))(a := hh_head ?b)"
    "hh_prev ?m = (case hh_head ?b of None \<Rightarrow> (hh_prev (mem u))(a := None)
                   | Some h \<Rightarrow> ((hh_prev (mem u))(a := None))(h := Some a))"
    by (simp_all add: push_bucket_def Let_def split: option.split)
  show "hkey ?m = hkey (mem u)" by (rule eqs)
  show "log2_num_buckets (ht_tbl (push_bucket B a u)) < 31" using u by (simp add: push_bucket_def Let_def add_ready_def)
  have aP: "a \<notin> set P" using mset_eq_setD [OF P(1)] u by (simp add: add_ready_def)
  have "spread ?m (num_buckets (ht_tbl u)) ((buckets (ht_tbl u))[B := ?b\<lparr>bkt_count := bkt_count ?b + 1, hh_head := Some a\<rparr>]) (P @ [a])"
    by (rule spread_push [OF P(2) aP B BL eqs(4-6)]) simp_all
  then have "tbl_ok fcn ?m (ht_tbl (push_bucket B a u)) (as @ [a])"
    unfolding tbl_ok_def eqs using u P(1)
    by (auto simp: add_ready_def push_bucket_def Let_def intro!: exI [of _ "P @ [a]"])
  then show "uthash_holds fcn (push_bucket B a u) (as @ [a])"
    using u eqs by (simp add: uthash_holds_def add_ready_def) (simp add: push_bucket_def Let_def)
qed

lemma add_holds:
  assumes u: "uthash_holds fcn u as" and a: "a \<notin> set as" and len: "length as + 1 < 2 ^ 32"
    and room: "ht_head u = None \<or> log2_num_buckets (ht_tbl u) < 31"
  shows "\<exists>u'. HASH_ADD fcn a key u = Inr u' \<and> uthash_holds fcn u' (as @ [a])
           \<and> hkey (mem u') = (hkey (mem u))(a := key)"
proof -
  let ?l = "link_element a key u"
  define v where "v = ?l\<lparr>mem := (mem ?l)\<lparr>hashv := (hashv (mem ?l))(a := fcn key)\<rparr>,
    ht_tbl := (ht_tbl ?l)\<lparr>num_items := num_items (ht_tbl ?l) + 1\<rparr>\<rparr>"
  have add: "HASH_ADD fcn a key u = HASH_ADD_TO_BKT (HASH_TO_BKT (hashv (mem v) a) (num_buckets (ht_tbl v))) a v"
    by (simp add: HASH_ADD_def Let_def v_def)
  have key: "hkey (mem v) = (hkey (mem u))(a := key)"
    by (simp add: v_def link_element_def Let_def split: option.split)
  note ph = push_holds [OF link_ready [OF u a len room v_def] refl]
  show ?thesis
    using expand_holds [OF ph(2) _ ph(4)] ph(1-3) key by (simp add: add HASH_ADD_TO_BKT_def Let_def)
qed

subsection \<open>What the operations find\<close>

lemma find_hash_find:
  "distinct (map f as) \<Longrightarrow> find (\<lambda>a. f a = k) as = map_option ((!) as) (hash_find f k as)"
  by (induction as)
    (auto simp: hash_find_None image_iff split: option.splits, (metis hash_find_Some nth_mem)+)

lemma find_perm:
  assumes "mset as = mset bs" and "distinct (map f bs)"
  shows "find (\<lambda>a. f a = k) as = find (\<lambda>a. f a = k) bs"
proof -
  have s: "set as = set bs" and inj: "inj_on f (set bs)"
    using assms mset_eq_setD by (auto simp: distinct_map)
  show ?thesis
  proof (cases "find (\<lambda>a. f a = k) bs")
    case None
    with s have "find (\<lambda>a. f a = k) as = None" by (simp add: find_None_iff)
    with None show ?thesis by simp
  next
    case (Some b)
    then have b: "b \<in> set as" "f b = k" using s by (auto simp: find_Some_iff)
    then obtain a where a: "find (\<lambda>a. f a = k) as = Some a"
      by (cases "find (\<lambda>a. f a = k) as") (auto simp: find_None_iff)
    then have "a \<in> set as" "f a = k" by (auto simp: find_Some_iff)
    with b s inj have "a = b" by (auto dest: inj_onD)
    with a Some show ?thesis by simp
  qed
qed

lemma find_filter: "(\<And>a. a \<in> set as \<Longrightarrow> P a \<Longrightarrow> Q a) \<Longrightarrow> find P (filter Q as) = find P as"
  by (induction as) auto

text \<open>A look-up finds some element of the key, if there is one; which one, when several have
  it, depends on how often the buckets were doubled, as each time the chains turn round.\<close>

lemma HASH_FIND_holds:
  assumes u: "uthash_holds fcn u as"
  shows "\<exists>P. mset P = mset as \<and> HASH_FIND fcn key u = Inr (find (\<lambda>a. hkey (mem u) a = key) P)"
proof (cases "as = []")
  case True
  with u show ?thesis by (simp add: uthash_holds_def HASH_FIND_def)
next
  case False
  with u have t: "tbl_ok fcn (mem u) (ht_tbl u) as" and len: "length as < 2 ^ 32"
    and lk: "linked (el_next (mem u)) (el_prev (mem u)) None (ht_head u) as"
    by (simp_all add: uthash_holds_def)
  from False lk obtain h where h: "ht_head u = Some h" by (cases as) auto
  from t obtain P where P: "mset P = mset as" "spread (mem u) (num_buckets (ht_tbl u)) (buckets (ht_tbl u)) P"
    by (auto simp: tbl_ok_def)
  let ?B = "HASH_TO_BKT (fcn key) (num_buckets (ht_tbl u))"
  let ?c = "chain_of (hashv (mem u)) (num_buckets (ht_tbl u)) P ?B"
  have B: "?B < length (buckets (ht_tbl u))"
    using P(2) HASH_TO_BKT_less [OF num_buckets_pos [OF t]] by (simp add: spread_def)
  have "length P = length as" using P(1) by (metis size_mset)
  then have "length ?c < walk_turns (ht_tbl u)"
    using length_chain_of [of "hashv (mem u)" "num_buckets (ht_tbl u)" P ?B] turns_ok [OF t len] by simp
  moreover have "path (hh_next (mem u)) (hh_head (buckets (ht_tbl u) ! ?B)) ?c"
    using P(2) B linked_path by (fastforce simp: spread_def bucket_ok_def)
  ultimately have "HASH_FIND fcn key u = Inr (find (\<lambda>a. hkey (mem u) a = key) ?c)"
    using h B by (simp add: HASH_FIND_def Let_def find_in_bkt_path)
  moreover have "find (\<lambda>a. hkey (mem u) a = key) ?c = find (\<lambda>a. hkey (mem u) a = key) (rev P)"
    unfolding chain_of_def rev_filter using t mset_eq_setD [OF P(1)]
    by (intro find_filter) (auto simp: tbl_ok_def)
  moreover have "mset (rev P) = mset as" using P(1) by simp
  ultimately show ?thesis by metis
qed

lemma HASH_FIND_distinct:
  assumes "uthash_holds fcn u as" and "distinct (map (hkey (mem u)) as)"
  shows "HASH_FIND fcn key u = Inr (map_option ((!) as) (hash_find (hkey (mem u)) key as))"
  using HASH_FIND_holds [OF assms(1), of key] find_perm [OF _ assms(2)] find_hash_find [OF assms(2)] by auto

lemma HASH_ITER_holds:
  assumes "uthash_holds fcn u as" shows "HASH_ITER u = Inr as"
proof (cases "as = []")
  case True
  with assms show ?thesis by (simp add: uthash_holds_def HASH_ITER_def walk_turns_def)
next
  case False
  with assms have "path (el_next (mem u)) (ht_head u) as" "walk_turns (ht_tbl u) = Suc (length as)"
    using linked_path turns_ok by (auto simp: uthash_holds_def)
  then show ?thesis by (simp add: HASH_ITER_def iter_from_path del: iter_from.simps)
qed

lemma HASH_COUNT_holds:
  assumes "uthash_holds fcn u as" shows "HASH_COUNT u = of_nat (length as)"
  using assms by (cases as) (auto simp: uthash_holds_def HASH_COUNT_def tbl_ok_def)

lemma fsck_buckets_ok:
  "list_all2 (\<lambda>b c. bucket_ok m b c \<and> length c < f) bs cs \<Longrightarrow>
   fsck_buckets f m bs n = Inr (Some (n + of_nat (length (concat cs))))"
  by (induction bs cs arbitrary: n rule: list_all2_induct)
    (auto simp: bucket_ok_def fsck_walk_linked add.assoc)

lemma HASH_FSCK_holds:
  assumes u: "uthash_holds fcn u as" shows "HASH_FSCK u = Inr True"
proof (cases "as = []")
  case True
  with u show ?thesis by (simp add: uthash_holds_def HASH_FSCK_def)
next
  case False
  with u have t: "tbl_ok fcn (mem u) (ht_tbl u) as" and len: "length as < 2 ^ 32"
    and lk: "linked (el_next (mem u)) (el_prev (mem u)) None (ht_head u) as"
    by (simp_all add: uthash_holds_def)
  from False lk obtain h where h: "ht_head u = Some h" by (cases as) auto
  from t obtain P where P: "mset P = mset as" "spread (mem u) (num_buckets (ht_tbl u)) (buckets (ht_tbl u)) P"
    by (auto simp: tbl_ok_def)
  let ?nb = "num_buckets (ht_tbl u)" and ?bs = "buckets (ht_tbl u)"
  let ?cs = "map (chain_of (hashv (mem u)) ?nb P) [0..<unat ?nb]"
  have lP: "length P = length as" using P(1) by (metis size_mset)
  have "list_all2 (\<lambda>b c. bucket_ok (mem u) b c \<and> length c < walk_turns (ht_tbl u)) ?bs ?cs"
    using P(2) length_chain_of [of "hashv (mem u)" ?nb P] turns_ok [OF t len] lP
    by (auto simp: list_all2_conv_all_nth spread_def le_imp_less_Suc)
  moreover have "length (concat ?cs) = length as"
    using mset_all_chains [OF num_buckets_pos [OF t], of "hashv (mem u)" P] P(1) by (metis size_mset)
  ultimately have "fsck_buckets (walk_turns (ht_tbl u)) (mem u) ?bs 0 = Inr (Some (of_nat (length as)))"
    using fsck_buckets_ok by fastforce
  moreover have "fsck_walk (walk_turns (ht_tbl u)) (el_next (mem u)) (el_prev (mem u)) None (ht_head u) 0
      = Inr (Some (of_nat (length as)))"
    using fsck_walk_linked [OF lk, of "walk_turns (ht_tbl u)" 0] turns_ok [OF t len] by simp
  ultimately show ?thesis
    using h t P(2) by (simp add: HASH_FSCK_def Let_def tbl_ok_def spread_def)
qed

lemma uthash_holds_empty: "ht_head u = None \<Longrightarrow> uthash_holds fcn u []"
  by (simp add: uthash_holds_def)

subsection \<open>The keys of the program\<close>

text \<open>A name is hashed up to its terminator, the two names of a statistic with the zeros
  \<^verbatim>\<open>memset\<close> wrote behind them.\<close>

definition str_key :: "cstring \<Rightarrow> byte list" where
  "str_key s = map (\<lambda>c. of_nat (char_code c)) s"

definition name_key :: "statsd_stat_name_t \<Rightarrow> byte list" where
  "name_key n = str_key (group_name n) @ replicate (KEY_SIZE - length (group_name n)) 0
              @ str_key (key_name n) @ replicate (KEY_SIZE - length (key_name n)) 0"

lemma str_key_inj: "str_key s = str_key t \<longleftrightarrow> s = t"
proof -
  have "inj (\<lambda>c. of_nat (char_code c) :: byte)"
  proof (rule injI)
    fix c c' :: char
    assume "(of_nat (char_code c) :: byte) = of_nat (char_code c')"
    then have "unat (of_nat (char_code c) :: byte) = unat (of_nat (char_code c') :: byte)" by simp
    then have "char_code c = char_code c'"
      by (simp add: unat_of_nat take_bit_nat_eq_self char_code_def)
    then show "c = c'" by (simp add: char_code_def)
  qed
  then show ?thesis by (auto simp: str_key_def inj_map_eq_map)
qed

lemma padded_inj:
  assumes "key_ok s" and "key_ok t"
    and "str_key s @ replicate (KEY_SIZE - length s) 0 @ r = str_key t @ replicate (KEY_SIZE - length t) 0 @ q"
  shows "s = t \<and> r = q"
proof -
  let ?p = "\<lambda>s. str_key s @ replicate (KEY_SIZE - length s) 0"
  have nz: "b \<noteq> 0" if "b \<in> set (str_key s)" "is_cstring s" for b s
  proof -
    from that obtain c where c: "c \<in> set s" "b = of_nat (char_code c)" by (auto simp: str_key_def)
    then have "str_key [c] \<noteq> str_key [CHR 0x00]"
      using that(2) by (auto simp: str_key_inj is_cstring_def)
    with c show ?thesis by (simp add: str_key_def char_code_def)
  qed
  have tw: "takeWhile (\<lambda>b. b \<noteq> 0) (?p s) = str_key s" if "key_ok s" for s
    using that nz by (simp add: key_ok_def takeWhile_append)
  have "length (?p s) = length (?p t)" using assms(1,2) by (simp add: key_ok_def str_key_def)
  moreover have "?p s @ r = ?p t @ q" using assms(3) by simp
  ultimately have "?p s = ?p t \<and> r = q" by (metis append_eq_append_conv)
  with tw [OF assms(1)] tw [OF assms(2)] show ?thesis by (metis str_key_inj)
qed

lemma name_key_inj:
  assumes "key_ok (group_name m)" "key_ok (key_name m)" "key_ok (group_name n)" "key_ok (key_name n)"
  shows "name_key m = name_key n \<longleftrightarrow> m = n"
proof
  assume "name_key m = name_key n"
  from padded_inj [OF assms(1,3) this [unfolded name_key_def]]
  have "group_name m = group_name n" and
    k: "str_key (key_name m) @ replicate (KEY_SIZE - length (key_name m)) 0 @ []
     = str_key (key_name n) @ replicate (KEY_SIZE - length (key_name n)) 0 @ []"
    by simp_all
  with padded_inj [OF assms(2,4) k] show "m = n" by (cases m, cases n) simp
qed simp

lemma hash_find_inj:
  "inj_on g (insert k (set ks)) \<Longrightarrow> hash_find id (g k) (map g ks) = hash_find id k ks"
  by (induction ks) (auto simp: inj_on_def hash_find_None split: option.splits)

text \<open>A table that holds the elements of a list, whose keys it finds as \<open>g\<close> of theirs.\<close>

lemma HASH_FIND_refines:
  assumes u: "uthash_holds fcn u as" and k: "map (hkey (mem u)) as = map (g \<circ> key) es"
    and wf: "hash_wf key es" and inj: "inj_on g (insert k (key ` set es))"
  shows "HASH_FIND fcn (g k) u = Inr (map_option ((!) as) (hash_find key k es))"
proof -
  have "distinct (map (g \<circ> key) es)"
    using wf inj by (auto simp: hash_wf_def distinct_map comp_inj_on inj_on_insert)
  then have "HASH_FIND fcn (g k) u = Inr (map_option ((!) as) (hash_find (hkey (mem u)) (g k) as))"
    using k by (intro HASH_FIND_distinct [OF u]) simp
  also have "hash_find (hkey (mem u)) (g k) as = hash_find id (g k) (map g (map key es))"
    using k by (simp add: hash_find_map [of "hkey (mem u)"])
  also have "\<dots> = hash_find key k es"
    using hash_find_inj [of g k "map key es"] inj by (simp add: hash_find_map [of key])
  finally show ?thesis .
qed

subsection \<open>The table implements its interface\<close>

text \<open>
  C5: Adding an element to a table that holds others returns, and the table then holds it as
  the last one: a loop over the elements visits them in the order in which they were added, and
  the integrity check passes, which follows every pointer of every bucket and of the list
  forward and back and compares every count. This holds for any hash function, whether or not
  the addition doubles the buckets, as long as there are fewer than \<open>2 ^ 31\<close> of them.
\<close>

theorem uthash_add_refines:
  assumes "uthash_holds fcn u as" and "a \<notin> set as" and "length as + 1 < 2 ^ 32"
    and "ht_head u = None \<or> log2_num_buckets (ht_tbl u) < 31"
  shows "\<exists>u'. HASH_ADD fcn a key u = Inr u' \<and> uthash_holds fcn u' (as @ [a])
           \<and> hkey (mem u') = (hkey (mem u))(a := key)
           \<and> HASH_ITER u' = Inr (as @ [a]) \<and> HASH_COUNT u' = of_nat (length as + 1)
           \<and> HASH_FSCK u' = Inr True"
  using add_holds [OF assms] HASH_ITER_holds HASH_COUNT_holds HASH_FSCK_holds by fastforce

definition uthash_empty :: uthash where
  "uthash_empty = \<lparr>mem = \<lparr>el_prev = (\<lambda>_. None), el_next = (\<lambda>_. None), hh_prev = (\<lambda>_. None),
     hh_next = (\<lambda>_. None), hkey = (\<lambda>_. []), hashv = (\<lambda>_. 0)\<rparr>, ht_head = None, ht_tbl = HASH_MAKE_TABLE 0\<rparr>"

theorem uthash_add_refines_witness:
  "\<exists>u'. HASH_ADD HASH_JEN 7 (str_key ''a'') uthash_empty = Inr u' \<and> HASH_ITER u' = Inr [7] \<and> HASH_FSCK u' = Inr True"
  using uthash_add_refines [of HASH_JEN uthash_empty "[]" 7 "str_key ''a''"]
  by (auto simp: uthash_holds_empty uthash_empty_def)

text \<open>
  C6: A look-up in the tables of a well-formed daemon finds the element the interface of the
  model says: by a name in a table of counters, by the two names, with the zeros behind them,
  in the table of statistics.
\<close>

theorem uthash_find_refines:
  assumes "daemon_wf d"
    and "uthash_holds HASH_JEN u as" and "map (hkey (mem u)) as = map (str_key \<circ> ckey) (counters d)"
    and "uthash_holds HASH_JEN v bs" and "map (hkey (mem v)) bs = map (name_key \<circ> sname) (stats d)"
    and "key_ok (group_name n)" and "key_ok (key_name n)"
  shows "HASH_FIND HASH_JEN (str_key key) u = Inr (map_option ((!) as) (hash_find ckey key (counters d)))
    \<and> HASH_FIND HASH_JEN (name_key n) v = Inr (map_option ((!) bs) (hash_find sname n (stats d)))"
proof
  note wf = daemon_wfD [OF assms(1)]
  show "HASH_FIND HASH_JEN (str_key key) u = Inr (map_option ((!) as) (hash_find ckey key (counters d)))"
    using wf(2) by (intro HASH_FIND_refines [OF assms(2,3)]) (simp_all add: table_ok_def inj_on_def str_key_inj)
  have "inj_on name_key (insert n (sname ` set (stats d)))"
    using wf(1) assms(6,7) by (auto simp: table_ok_def stat_ok_def inj_on_def name_key_inj)
  then show "HASH_FIND HASH_JEN (name_key n) v = Inr (map_option ((!) bs) (hash_find sname n (stats d)))"
    using wf(1) by (intro HASH_FIND_refines [OF assms(4,5)]) (simp_all add: table_ok_def)
qed

theorem uthash_find_refines_witness:
  "\<exists>(u :: uthash) (v :: uthash) (d :: daemon). counters d = [\<lparr>ckey = ''a'', cvalue = Fin 1\<rparr>] \<and> length (stats d) = 1
     \<and> HASH_FIND HASH_JEN (str_key ''a'') u = Inr (Some 7) \<and> HASH_FIND HASH_JEN (str_key ''b'') u = Inr None
     \<and> HASH_FIND HASH_JEN (name_key \<lparr>group_name = ''g'', key_name = ''k''\<rparr>) v = Inr (Some 9)"
proof -
  let ?d = "daemon_init\<lparr>counters := [\<lparr>ckey = ''a'', cvalue = Fin 1\<rparr>],
    stats := [\<lparr>sname = \<lparr>group_name = ''g'', key_name = ''k''\<rparr>, svalue = 3, slocked = False\<rparr>]\<rparr>"
  have wf: "daemon_wf ?d"
    by (simp add: daemon_wf_def daemon_init_def table_ok_def hash_wf_def locks_ok_def stat_ok_def
        counter_ok_def key_ok_def KEY_SIZE_def is_cstring_def is_long_def LONG_MIN_def LONG_MAX_def)
  have e: "uthash_holds HASH_JEN uthash_empty []" "ht_head uthash_empty = None"
    by (simp_all add: uthash_holds_empty uthash_empty_def)
  obtain u where u: "uthash_holds HASH_JEN u [7]" "hkey (mem u) 7 = str_key ''a''"
    using add_holds [OF e(1), of 7 "str_key ''a''"] e(2) by auto
  obtain v where v: "uthash_holds HASH_JEN v [9]"
    "hkey (mem v) 9 = name_key \<lparr>group_name = ''g'', key_name = ''k''\<rparr>"
    using add_holds [OF e(1), of 9 "name_key \<lparr>group_name = ''g'', key_name = ''k''\<rparr>"] e(2) by auto
  have f: "HASH_FIND HASH_JEN (str_key key) u = Inr (map_option ((!) [7]) (hash_find ckey key (counters ?d)))
      \<and> HASH_FIND HASH_JEN (name_key \<lparr>group_name = ''g'', key_name = ''k''\<rparr>) v
        = Inr (map_option ((!) [9]) (hash_find sname \<lparr>group_name = ''g'', key_name = ''k''\<rparr> (stats ?d)))" for key
    using u v
    by (intro uthash_find_refines [OF wf u(1) _ v(1)]) (simp_all add: key_ok_def KEY_SIZE_def is_cstring_def)
  have "HASH_FIND HASH_JEN (str_key ''a'') u = Inr (Some 7)" "HASH_FIND HASH_JEN (str_key ''b'') u = Inr None"
    "HASH_FIND HASH_JEN (name_key \<lparr>group_name = ''g'', key_name = ''k''\<rparr>) v = Inr (Some 9)"
    using f [of "''a''"] f [of "''b''"] by simp_all
  moreover have "counters ?d = [\<lparr>ckey = ''a'', cvalue = Fin 1\<rparr>] \<and> length (stats ?d) = 1" by simp
  ultimately show ?thesis by blast
qed

end
