(* ===== verification/UtArray.thy ===== *)
theory UtArray
  imports Prelude
begin

text \<open>
  The growing array that holds the values of a timer (\<^verbatim>\<open>utarray.h\<close>), with the
  macros the program expands. A slot that was allocated and not written holds \<open>None\<close>; a
  pointer to a slot is its number. \<^verbatim>\<open>i\<close> and \<^verbatim>\<open>n\<close> are
  \<^verbatim>\<open>unsigned\<close>: doubling wraps round, so that the loop that makes room never ends
  once \<open>2 ^ 31\<close> slots are not enough. Its state is \<^verbatim>\<open>n\<close>, which has come
  round after 64 turns. \<^verbatim>\<open>qsort\<close> of the C library is an argument. The
  constructor and destructor fields are null for the arrays of the program; a failing allocation
  ends the program and is not modelled. Inserting, erasing and resizing are in \<open>UtArrayEdit\<close>.
\<close>

record 'a UT_array =
  ut_i :: "32 word"
  ut_n :: "32 word"
  ut_d :: "'a option list"

definition utarray_new :: "'a UT_array" where
  "utarray_new = \<lparr>ut_i = 0, ut_n = 0, ut_d = []\<rparr>"

fun reserve_loop :: "nat \<Rightarrow> 32 word \<Rightarrow> 32 word \<Rightarrow> 32 word res" where
  "reserve_loop 0 want n = Inl Endless_Loop"
| "reserve_loop (Suc f) want n =
     (if n < want then reserve_loop f want (if n \<noteq> 0 then 2 * n else 8) else Inr n)"

definition utarray_reserve :: "'a UT_array \<Rightarrow> 32 word \<Rightarrow> 'a UT_array res" where
  "utarray_reserve a by' =
     (if ut_n a < ut_i a + by'
      then rbind (reserve_loop 64 (ut_i a + by') (ut_n a)) (\<lambda>n.
           Inr (a\<lparr>ut_n := n, ut_d := take (unat n) (ut_d a @ replicate (unat n - length (ut_d a)) None)\<rparr>))
      else Inr a)"

definition utarray_push_back :: "'a UT_array \<Rightarrow> 'a \<Rightarrow> 'a UT_array res" where
  "utarray_push_back a p = rbind (utarray_reserve a 1) (\<lambda>a.
     if unat (ut_i a) < length (ut_d a)
     then Inr (a\<lparr>ut_d := (ut_d a)[unat (ut_i a) := Some p], ut_i := ut_i a + 1\<rparr>)
     else Inl Buffer_Overflow)"

definition utarray_len :: "'a UT_array \<Rightarrow> nat" where
  "utarray_len a = unat (ut_i a)"

definition utarray_eltptr :: "'a UT_array \<Rightarrow> nat \<Rightarrow> nat option" where
  "utarray_eltptr a j = (if j < unat (ut_i a) then Some j else None)"

definition utarray_front :: "'a UT_array \<Rightarrow> nat option" where
  "utarray_front a = (if ut_i a \<noteq> 0 then Some 0 else None)"

definition utarray_next :: "'a UT_array \<Rightarrow> nat option \<Rightarrow> nat option" where
  "utarray_next a e = (case e of
       None \<Rightarrow> utarray_front a
     | Some p \<Rightarrow> if p + 1 < unat (ut_i a) then Some (p + 1) else None)"

definition utarray_clear :: "'a UT_array \<Rightarrow> 'a UT_array" where
  "utarray_clear a = (if 0 < ut_i a then a\<lparr>ut_i := 0\<rparr> else a)"

definition utarray_sort :: "('a option list \<Rightarrow> 'a option list) \<Rightarrow> 'a UT_array \<Rightarrow> 'a UT_array" where
  "utarray_sort qsort a =
     a\<lparr>ut_d := qsort (take (unat (ut_i a)) (ut_d a)) @ drop (unat (ut_i a)) (ut_d a)\<rparr>"

text \<open>What a pointer of the array points at.\<close>

definition slot :: "'a UT_array \<Rightarrow> nat \<Rightarrow> 'a res" where
  "slot a p = (if p < length (ut_d a)
     then (case ut_d a ! p of Some v \<Rightarrow> Inr v | None \<Rightarrow> Inl Uninitialised) else Inl Out_Of_Bounds)"

text \<open>\<^verbatim>\<open>while ((iter = utarray_next(a, iter)))\<close>, the loop of the flush thread,
  the management port and the serialiser: the values it sees.\<close>

fun next_loop :: "nat \<Rightarrow> 'a UT_array \<Rightarrow> nat option \<Rightarrow> 'a list res" where
  "next_loop 0 a e = Inl Endless_Loop"
| "next_loop (Suc f) a e = (case utarray_next a e of
       None \<Rightarrow> Inr []
     | Some p \<Rightarrow> rbind (slot a p) (\<lambda>v. rbind (next_loop f a (Some p)) (\<lambda>vs. Inr (v # vs))))"

definition utarray_values :: "'a UT_array \<Rightarrow> 'a list res" where
  "utarray_values a = next_loop (Suc (unat (ut_i a))) a None"

subsection \<open>The list an array holds\<close>

text \<open>The number of slots is 0 or a power of 2 from 8 on.\<close>

definition ut_holds :: "'a UT_array \<Rightarrow> 'a list \<Rightarrow> bool" where
  "ut_holds a vs \<longleftrightarrow> ut_i a = of_nat (length vs) \<and> length vs \<le> unat (ut_n a)
     \<and> (ut_n a = 0 \<or> (\<exists>k. 3 \<le> k \<and> k < 32 \<and> ut_n a = 2 ^ k))
     \<and> length (ut_d a) = unat (ut_n a) \<and> take (length vs) (ut_d a) = map Some vs"

lemma ut_holds_new: "ut_holds utarray_new []"
  by (simp add: ut_holds_def utarray_new_def)

lemma unat_exp_32: "k < 32 \<Longrightarrow> unat (2 ^ k :: 32 word) = 2 ^ k"
  using unat_of_nat_32 [of "2 ^ k"] power_strict_increasing [of k 32 "2 :: nat"] by simp

lemma ut_holds_unat:
  assumes "ut_holds a vs" shows "unat (ut_i a) = length vs" and "length vs \<le> 2 ^ 31"
proof -
  from assms have n: "unat (ut_n a) = 0 \<or> (\<exists>k < 32. unat (ut_n a) = 2 ^ k)"
    unfolding ut_holds_def using unat_exp_32 by auto
  moreover have "(2 :: nat) ^ k \<le> 2 ^ 31" if "k < 32" for k
    using that by (intro power_increasing) auto
  ultimately have "unat (ut_n a) \<le> 2 ^ 31" by auto
  with assms show l: "length vs \<le> 2 ^ 31" by (auto simp: ut_holds_def)
  have "unat (of_nat (length vs) :: 32 word) = length vs"
    using l by (intro unat_of_nat_32) simp
  with assms show "unat (ut_i a) = length vs" by (simp add: ut_holds_def)
qed

text \<open>Making room for one more value.\<close>

lemma utarray_reserve_holds:
  assumes a: "ut_holds a vs" and less: "length vs < 2 ^ 31"
  shows "\<exists>a'. utarray_reserve a 1 = Inr a' \<and> ut_holds a' vs \<and> length vs < unat (ut_n a')"
proof (cases "length vs < unat (ut_n a)")
  case True
  have "unat (ut_i a + 1) = length vs + 1"
    using ut_holds_unat [OF a] less by (subst unat_add_lem [THEN iffD1]) auto
  with True a show ?thesis by (simp add: utarray_reserve_def word_less_nat_alt)
next
  case False
  with a have full: "unat (ut_n a) = length vs" by (simp add: ut_holds_def)
  have w: "unat (ut_i a + 1) = length vs + 1"
    using ut_holds_unat [OF a] less by (subst unat_add_lem [THEN iffD1]) auto
  then have lt: "ut_n a < ut_i a + 1" using full by (simp add: word_less_nat_alt)
  have grow: ?thesis if n: "n = (if ut_n a \<noteq> 0 then 2 * ut_n a else 8)" "length vs < unat n"
    "3 \<le> k" "k < 32" "n = 2 ^ k" for n k
  proof -
    have "\<not> n < ut_i a + 1" using n(2) w by (simp add: word_less_nat_alt)
    then have "reserve_loop 64 (ut_i a + 1) (ut_n a) = Inr n"
      using lt by (simp add: n(1) numeral_eq_Suc)
    then show ?thesis
      using a lt n(2-5) full by (auto simp: utarray_reserve_def ut_holds_def min_def)
  qed
  show ?thesis
  proof (cases "ut_n a = 0")
    case True
    with full show ?thesis by (intro grow [of "8" 3]) auto
  next
    case False
    with a obtain k where k: "3 \<le> k" "k < 32" "ut_n a = 2 ^ k" by (auto simp: ut_holds_def)
    have lv: "length vs = 2 ^ k" using full unat_exp_32 [OF k(2)] k(3) by simp
    with less have k31: "Suc k < 32" using power_less_imp_less_exp [of "2 :: nat" k 31] by simp
    show ?thesis
      using False k k31 lv unat_exp_32 [OF k31] by (intro grow [of "2 ^ Suc k" "Suc k"]) auto
  qed
qed

lemma utarray_push_back_holds:
  assumes "ut_holds a vs" and "length vs < 2 ^ 31"
  shows "\<exists>a'. utarray_push_back a v = Inr a' \<and> ut_holds a' (vs @ [v])"
proof -
  obtain a' where a': "utarray_reserve a 1 = Inr a'" "ut_holds a' vs" "length vs < unat (ut_n a')"
    using utarray_reserve_holds [OF assms] by blast
  note i = ut_holds_unat(1) [OF a'(2)]
  have d: "length (ut_d a') = unat (ut_n a')" "take (length vs) (ut_d a') = map Some vs"
    using a'(2) by (simp_all add: ut_holds_def)
  have "take (Suc (length vs)) ((ut_d a')[length vs := Some v]) = map Some (vs @ [v])"
    using a'(3) d by (simp add: take_Suc_conv_app_nth)
  then show ?thesis
    using a' d i by (simp add: utarray_push_back_def ut_holds_def add.commute)
qed

text \<open>When every slot of \<open>2 ^ 31\<close> is taken, the number of slots goes round
  \<open>0, 8, \<dots>, 2 ^ 31\<close> for ever.\<close>

lemma utarray_push_back_full:
  assumes "ut_holds a vs" and "length vs = 2 ^ 31"
  shows "utarray_push_back a v = Inl Endless_Loop"
proof -
  from assms have i: "ut_i a = 2 ^ 31" by (simp add: ut_holds_def)
  from assms have n: "2 ^ 31 \<le> unat (ut_n a)" "ut_n a = 0 \<or> (\<exists>k. 3 \<le> k \<and> k < 32 \<and> ut_n a = 2 ^ k)"
    by (simp_all add: ut_holds_def)
  then have "ut_n a \<noteq> 0" by auto
  with n obtain k where k: "3 \<le> k" "k < 32" "ut_n a = 2 ^ k" by blast
  with n(1) unat_exp_32 have "(2 :: nat) ^ 31 \<le> 2 ^ k" by metis
  then have "31 \<le> k" by (rule power_le_imp_le_exp [rotated]) simp
  with k have "ut_n a = 2 ^ 31" by (simp add: le_less_Suc_eq numeral_eq_Suc le_Suc_eq)
  moreover have "reserve_loop 64 (2 ^ 31 + 1) (2 ^ 31) = Inl Endless_Loop" by code_simp
  ultimately show ?thesis using i by (simp add: utarray_push_back_def utarray_reserve_def)
qed

lemma next_loop_holds:
  assumes "ut_holds a vs" and "length vs - k < f" and "k \<le> length vs"
  shows "next_loop f a (if k = 0 then None else Some (k - 1)) = Inr (drop k vs)"
  using assms(2,3)
proof (induction "length vs - k" arbitrary: k f)
  case 0
  then have "k = length vs" by simp
  with 0 ut_holds_unat(1) [OF assms(1)] show ?case
    by (cases f) (auto simp: utarray_next_def utarray_front_def unat_eq_0)
next
  case (Suc n)
  then obtain f' where f: "f = Suc f'" by (cases f) auto
  from Suc.hyps(2) have k: "k < length vs" by simp
  have i: "unat (ut_i a) = length vs" by (rule ut_holds_unat(1) [OF assms(1)])
  have "ut_d a ! k = take (length vs) (ut_d a) ! k" using k by simp
  also have "\<dots> = Some (vs ! k)" using assms(1) k by (simp add: ut_holds_def)
  finally have "slot a k = Inr (vs ! k)" using assms(1) k by (auto simp: slot_def ut_holds_def)
  moreover have "utarray_next a (if k = 0 then None else Some (k - 1)) = Some k"
    using k i by (auto simp: utarray_next_def utarray_front_def)
  moreover have "next_loop f' a (Some k) = Inr (drop (Suc k) vs)"
    using Suc.hyps(1) [of "Suc k" f'] Suc.hyps(2) Suc.prems k f by simp
  ultimately show ?case using f k by (simp add: Cons_nth_drop_Suc)
qed

lemma utarray_values_holds: "ut_holds a vs \<Longrightarrow> utarray_values a = Inr vs"
  using next_loop_holds [of a vs 0 "Suc (unat (ut_i a))"] ut_holds_unat(1) [of a vs]
  by (simp add: utarray_values_def)

lemma utarray_clear_holds: "ut_holds a vs \<Longrightarrow> ut_holds (utarray_clear a) []"
  by (auto simp: ut_holds_def utarray_clear_def word_neq_0_conv [symmetric])

text \<open>Sorting: what \<^verbatim>\<open>qsort\<close> makes of the values is what the array holds then.\<close>

lemma utarray_sort_holds:
  assumes "ut_holds a vs" and "qsort (map Some vs) = map Some ws" and "length ws = length vs"
  shows "ut_holds (utarray_sort qsort a) ws"
  using assms ut_holds_unat(1) [OF assms(1)] by (simp add: ut_holds_def utarray_sort_def)

lemma pushes_hold:
  "ut_holds a us \<Longrightarrow> length us + length vs \<le> 2 ^ 31 \<Longrightarrow>
   \<exists>a'. rfold (\<lambda>v a. utarray_push_back a v) vs a = Inr a' \<and> ut_holds a' (us @ vs)"
proof (induction vs arbitrary: a us)
  case (Cons v vs)
  then obtain a1 where "utarray_push_back a v = Inr a1" "ut_holds a1 (us @ [v])"
    using utarray_push_back_holds [of a us v] by auto
  with Cons.IH [of a1 "us @ [v]"] Cons.prems(2) show ?case by simp
qed simp

text \<open>
  An array to which values are pushed, at most \<open>2 ^ 31\<close> of them, holds them in
  their order: its loop sees them all, its length is their number, a pointer is handed out to
  each of them and to nothing else, and clearing it leaves none. One more value can be pushed
  as long as there are fewer than \<open>2 ^ 31\<close>; the loop that makes room for the next one
  does not end.
\<close>

theorem utarray_implements_list:
  assumes "length vs \<le> 2 ^ 31"
  shows "\<exists>a. rfold (\<lambda>v a. utarray_push_back a v) vs utarray_new = Inr a
           \<and> utarray_values a = Inr vs \<and> utarray_len a = length vs
           \<and> (\<forall>j. utarray_eltptr a j = (if j < length vs then Some j else None))
           \<and> utarray_values (utarray_clear a) = Inr []
           \<and> (\<forall>v. returns (utarray_push_back a v) = (length vs < 2 ^ 31))"
proof -
  obtain a where a: "rfold (\<lambda>v a. utarray_push_back a v) vs utarray_new = Inr a" "ut_holds a vs"
    using pushes_hold [OF ut_holds_new, of vs] assms by auto
  have "returns (utarray_push_back a v) = (length vs < 2 ^ 31)" for v
    using utarray_push_back_holds [OF a(2)] utarray_push_back_full [OF a(2)] assms
    by (cases "length vs < 2 ^ 31") (auto simp: returns_iff)
  with a utarray_values_holds [OF a(2)] utarray_values_holds [OF utarray_clear_holds [OF a(2)]]
    ut_holds_unat(1) [OF a(2)]
  show ?thesis by (simp add: utarray_len_def utarray_eltptr_def)
qed

theorem utarray_implements_list_witness:
  "\<exists>a. rfold (\<lambda>v a. utarray_push_back a v) [3, 1, 2 :: int] utarray_new = Inr a
     \<and> utarray_values a = Inr [3, 1, 2] \<and> returns (utarray_push_back a 5)"
  using utarray_implements_list [of "[3, 1, 2 :: int]"] by auto

end
