(* ===== verification/UtArrayEdit.thy ===== *)
theory UtArrayEdit
  imports UtArray
begin

text \<open>
  The other macros of \<^verbatim>\<open>utarray.h\<close>: taking the last value off, enlarging and
  resizing, inserting a value or another array at a position, erasing a range, walking backwards.
  The program does not use them. As in \<open>UtArray\<close>, the constructor and destructor fields are
  null, so that values are copied and slots are set to zero bytes, which are the value
  \<open>zero\<close>. Positions are \<^verbatim>\<open>unsigned\<close>, and so are their sums.

  The lemmas show that any sequence of these operations, with positions that are in the array where
  they have to be, does to the array what it does to a list.
\<close>

text \<open>\<^verbatim>\<open>memmove\<close> and \<^verbatim>\<open>memcpy\<close> of \<open>k\<close> slots.\<close>

definition copy_slots :: "nat \<Rightarrow> 'a option list \<Rightarrow> 'a option list \<Rightarrow> 'a option list res" where
  "copy_slots dst vs d = (if length d < dst + length vs then Inl Buffer_Overflow
     else Inr (take dst d @ vs @ drop (dst + length vs) d))"

definition read_slots :: "nat \<Rightarrow> nat \<Rightarrow> 'a option list \<Rightarrow> 'a option list res" where
  "read_slots src k d = (if length d < src + k then Inl Out_Of_Bounds else Inr (take k (drop src d)))"

definition utarray_done :: "'a UT_array \<Rightarrow> 'a UT_array" where
  "utarray_done a = (if ut_n a \<noteq> 0 then a\<lparr>ut_d := [], ut_n := 0\<rparr> else a)"

definition utarray_pop_back :: "'a UT_array \<Rightarrow> 'a UT_array" where
  "utarray_pop_back a = a\<lparr>ut_i := ut_i a - 1\<rparr>"

definition utarray_extend_back :: "'a \<Rightarrow> 'a UT_array \<Rightarrow> 'a UT_array res" where
  "utarray_extend_back zero a = rbind (utarray_reserve a 1) (\<lambda>a.
     rbind (copy_slots (unat (ut_i a)) [Some zero] (ut_d a)) (\<lambda>d.
     Inr (a\<lparr>ut_d := d, ut_i := ut_i a + 1\<rparr>)))"

definition utarray_resize :: "'a \<Rightarrow> 'a UT_array \<Rightarrow> 32 word \<Rightarrow> 'a UT_array res" where
  "utarray_resize zero dst num =
     (if ut_i dst < num
      then rbind (utarray_reserve dst (num - ut_i dst)) (\<lambda>dst.
           rbind (copy_slots (unat (ut_i dst)) (replicate (unat (num - ut_i dst)) (Some zero)) (ut_d dst)) (\<lambda>d.
           Inr (dst\<lparr>ut_d := d, ut_i := num\<rparr>)))
      else Inr (dst\<lparr>ut_i := num\<rparr>))"

definition utarray_insert :: "'a \<Rightarrow> 'a UT_array \<Rightarrow> 'a \<Rightarrow> 32 word \<Rightarrow> 'a UT_array res" where
  "utarray_insert zero a p j =
     rbind (if ut_i a < j then utarray_resize zero a j else Inr a) (\<lambda>a.
     rbind (utarray_reserve a 1) (\<lambda>a.
     rbind (if j < ut_i a
            then rbind (read_slots (unat j) (unat (ut_i a - j)) (ut_d a)) (\<lambda>m. copy_slots (unat (j + 1)) m (ut_d a))
            else Inr (ut_d a)) (\<lambda>d.
     rbind (copy_slots (unat j) [Some p] d) (\<lambda>d.
     Inr (a\<lparr>ut_d := d, ut_i := ut_i a + 1\<rparr>)))))"

definition utarray_inserta :: "'a \<Rightarrow> 'a UT_array \<Rightarrow> 'a UT_array \<Rightarrow> 32 word \<Rightarrow> 'a UT_array res" where
  "utarray_inserta zero a w j =
     (if ut_i w = 0 then Inr a
      else rbind (if ut_i a < j then utarray_resize zero a j else Inr a) (\<lambda>a.
           rbind (utarray_reserve a (ut_i w)) (\<lambda>a.
           rbind (if j < ut_i a
                  then rbind (read_slots (unat j) (unat (ut_i a - j)) (ut_d a)) (\<lambda>m.
                       copy_slots (unat (j + ut_i w)) m (ut_d a))
                  else Inr (ut_d a)) (\<lambda>d.
           rbind (read_slots 0 (unat (ut_i w)) (ut_d w)) (\<lambda>vs.
           rbind (copy_slots (unat j) vs d) (\<lambda>d.
           Inr (a\<lparr>ut_d := d, ut_i := ut_i a + ut_i w\<rparr>)))))))"

definition utarray_concat :: "'a \<Rightarrow> 'a UT_array \<Rightarrow> 'a UT_array \<Rightarrow> 'a UT_array res" where
  "utarray_concat zero dst src = utarray_inserta zero dst src (ut_i dst)"

definition utarray_erase :: "'a UT_array \<Rightarrow> 32 word \<Rightarrow> 32 word \<Rightarrow> 'a UT_array res" where
  "utarray_erase a pos len =
     rbind (if pos + len < ut_i a
            then rbind (read_slots (unat (pos + len)) (unat (ut_i a - (pos + len))) (ut_d a)) (\<lambda>m.
                 copy_slots (unat pos) m (ut_d a))
            else Inr (ut_d a)) (\<lambda>d.
     Inr (a\<lparr>ut_d := d, ut_i := ut_i a - len\<rparr>))"

definition utarray_renew :: "'a UT_array option \<Rightarrow> 'a UT_array" where
  "utarray_renew a = (case a of Some a \<Rightarrow> utarray_clear a | None \<Rightarrow> utarray_new)"

definition utarray_back :: "'a UT_array \<Rightarrow> nat option" where
  "utarray_back a = (if ut_i a \<noteq> 0 then Some (unat (ut_i a - 1)) else None)"

text \<open>A pointer is a slot of the array, so \<^verbatim>\<open>utarray_eltidx\<close> is its number.\<close>

definition utarray_prev :: "'a UT_array \<Rightarrow> nat option \<Rightarrow> nat option" where
  "utarray_prev a e = (case e of None \<Rightarrow> utarray_back a | Some p \<Rightarrow> if 0 < p then Some (p - 1) else None)"

subsection \<open>Making room\<close>

lemma reserve_loop_doubles:
  assumes "j < 32" and "unat want \<le> 2 ^ 31" and "33 - j \<le> f"
  shows "\<exists>m. reserve_loop f want (2 ^ j) = Inr (2 ^ m) \<and> j \<le> m \<and> m < 32 \<and> unat want \<le> 2 ^ m"
  using assms
proof (induction f arbitrary: j)
  case (Suc f)
  have n: "unat (2 ^ j :: 32 word) = 2 ^ j" using Suc.prems(1) by (rule unat_exp_32)
  show ?case
  proof (cases "(2 ^ j :: 32 word) < want")
    case True
    then have "(2 :: nat) ^ j < 2 ^ 31" using n Suc.prems(2) by (simp add: word_less_nat_alt)
    then have j: "j < 31" using power_less_imp_less_exp [of "2 :: nat" j 31] by simp
    have "(2 ^ j :: 32 word) \<noteq> 0" using n by (metis power_not_zero unat_0 zero_neq_numeral)
    then have eq: "reserve_loop (Suc f) want (2 ^ j) = reserve_loop f want (2 ^ Suc j)" using True by simp
    have "33 - Suc j \<le> f" "Suc j < 32" using Suc.prems(3) j by linarith+
    from Suc.IH [OF this(2) Suc.prems(2) this(1)] obtain m where
      "reserve_loop f want (2 ^ Suc j) = Inr (2 ^ m)" "Suc j \<le> m" "m < 32" "unat want \<le> 2 ^ m" by blast
    then show ?thesis unfolding eq by (intro exI [of _ m]) simp
  next
    case False
    then show ?thesis using n Suc.prems(1) by (auto simp: word_less_nat_alt intro!: exI [of _ j])
  qed
qed simp

lemma utarray_reserve_by:
  assumes a: "ut_holds a vs" and k: "length vs + k \<le> 2 ^ 31"
  shows "\<exists>a'. utarray_reserve a (of_nat k) = Inr a' \<and> ut_holds a' vs \<and> length vs + k \<le> unat (ut_n a')"
proof -
  have w: "unat (ut_i a + of_nat k) = length vs + k"
  proof -
    have "ut_i a + of_nat k = of_nat (length vs + k)" using a by (simp add: ut_holds_def)
    then show ?thesis using k by (simp add: unat_of_nat_32 del: of_nat_add)
  qed
  show ?thesis
  proof (cases "ut_n a < ut_i a + of_nat k")
    case False
    with a w show ?thesis by (simp add: utarray_reserve_def word_less_nat_alt)
  next
    case True
    obtain m where m: "reserve_loop 64 (ut_i a + of_nat k) (ut_n a) = Inr (2 ^ m)" "3 \<le> m" "m < 32"
      "length vs + k \<le> 2 ^ m"
    proof (cases "ut_n a = 0")
      case True
      with \<open>ut_n a < ut_i a + of_nat k\<close>
      have "reserve_loop 64 (ut_i a + of_nat k) (ut_n a) = reserve_loop 63 (ut_i a + of_nat k) (2 ^ 3)"
        by (simp add: numeral_eq_Suc)
      with reserve_loop_doubles [of 3 "ut_i a + of_nat k" 63] w k that show thesis by auto
    next
      case False
      with a obtain j where "3 \<le> j" "j < 32" "ut_n a = 2 ^ j" by (auto simp: ut_holds_def)
      moreover have "33 - j \<le> 64" by arith
      moreover from calculation(2,4) obtain m where "reserve_loop 64 (ut_i a + of_nat k) (2 ^ j) = Inr (2 ^ m)" "j \<le> m"
        "m < 32" "length vs + k \<le> 2 ^ m"
        using reserve_loop_doubles [of j "ut_i a + of_nat k" 64] w k by auto
      ultimately show thesis using that [of m] by simp
    qed
    have "length vs \<le> unat (ut_n a)" "length (ut_d a) = unat (ut_n a)" using a by (simp_all add: ut_holds_def)
    moreover have "unat (ut_n a) \<le> 2 ^ m" using True w m(4) by (simp add: word_less_nat_alt)
    ultimately show ?thesis
      using a True m unat_exp_32 [OF m(3)] by (auto simp: utarray_reserve_def ut_holds_def min_def)
  qed
qed

subsection \<open>The operations on the list\<close>

text \<open>The array with the values \<open>us\<close> put into its first slots.\<close>

definition setting :: "'a list \<Rightarrow> 'a UT_array \<Rightarrow> 'a UT_array" where
  "setting us a = a\<lparr>ut_d := map Some us @ drop (length us) (ut_d a), ut_i := of_nat (length us)\<rparr>"

lemma setting_holds: "ut_holds a vs \<Longrightarrow> length us \<le> unat (ut_n a) \<Longrightarrow> ut_holds (setting us a) us"
  by (auto simp: ut_holds_def setting_def)

lemma ut_holds_take:
  assumes "ut_holds a vs" and "k \<le> length vs"
  shows "ut_holds (a\<lparr>ut_i := of_nat k\<rparr>) (take k vs)"
proof -
  have "take k (ut_d a) = take k (take (length vs) (ut_d a))" using assms(2) by (simp add: min_def)
  with assms show ?thesis by (simp add: ut_holds_def take_map)
qed

lemma ut_holds_slots:
  assumes "ut_holds a (xs @ ys)"
  shows "take (length xs) (ut_d a) = map Some xs" and "take (length ys) (drop (length xs) (ut_d a)) = map Some ys"
proof -
  have d: "take (length xs + length ys) (ut_d a) = map Some xs @ map Some ys" using assms by (simp add: ut_holds_def)
  have "take (length xs) (take (length xs + length ys) (ut_d a)) = map Some xs" unfolding d by simp
  then show "take (length xs) (ut_d a) = map Some xs" by (simp add: min_def)
  have "drop (length xs) (take (length xs + length ys) (ut_d a)) = map Some ys" unfolding d by simp
  then show "take (length ys) (drop (length xs) (ut_d a)) = map Some ys" by (simp add: drop_take)
qed

lemma copy_at_end:
  assumes "ut_holds a vs" and "length vs + length ws \<le> unat (ut_n a)"
  shows "copy_slots (length vs) (map Some ws) (ut_d a) = Inr (ut_d (setting (vs @ ws) a))"
  using assms by (auto simp: copy_slots_def setting_def ut_holds_def)

text \<open>A block of values is moved up and another is put in its place.\<close>

lemma insert_block:
  assumes "ut_holds a (xs @ ys)" and "length xs + length ws + length ys \<le> unat (ut_n a)"
  shows "rbind (if ys \<noteq> [] then rbind (read_slots (length xs) (length ys) (ut_d a)) (\<lambda>m. copy_slots (length xs + length ws) m (ut_d a))
      else Inr (ut_d a)) (copy_slots (length xs) (map Some ws)) = Inr (ut_d (setting (xs @ ws @ ys) a))"
proof -
  have len: "length (ut_d a) = unat (ut_n a)" using assms(1) by (simp add: ut_holds_def)
  note sl = ut_holds_slots [OF assms(1)]
  have r: "read_slots (length xs) (length ys) (ut_d a) = Inr (map Some ys)"
    using assms(2) len sl(2) by (simp add: read_slots_def)
  have x: "take (length xs) (take (length xs + length ws) (ut_d a)) = map Some xs" using sl(1) by (simp add: min_def)
  show ?thesis
  proof (cases "ys = []")
    case True
    with copy_at_end [of a xs ws] assms show ?thesis by simp
  next
    case False
    let ?l = "take (length xs + length ws) (ut_d a)" and ?r = "drop (length xs + length ws + length ys) (ut_d a)"
    have l: "length ?l = length xs + length ws" using assms(2) len by simp
    have "copy_slots (length xs + length ws) (map Some ys) (ut_d a) = Inr (?l @ map Some ys @ ?r)"
      using assms(2) len by (simp add: copy_slots_def)
    moreover have "copy_slots (length xs) (map Some ws) (?l @ map Some ys @ ?r) =
        Inr (map Some xs @ map Some ws @ map Some ys @ ?r)"
      using l x by (simp add: copy_slots_def del: length_take)
    ultimately show ?thesis using False r by (simp add: setting_def add.assoc)
  qed
qed

lemma utarray_resize_holds:
  assumes "ut_holds a vs" and "k \<le> 2 ^ 31"
  shows "\<exists>a'. utarray_resize zero a (of_nat k) = Inr a' \<and> ut_holds a' (take k vs @ replicate (k - length vs) zero)"
proof -
  have u: "unat (of_nat k :: 32 word) = k" using assms(2) by (intro unat_of_nat_32) simp
  note i = ut_holds_unat(1) [OF assms(1)]
  show ?thesis
  proof (cases "length vs < k")
    case True
    then have lt: "ut_i a < of_nat k" using u i by (simp add: word_less_nat_alt)
    have d: "of_nat k - ut_i a = of_nat (k - length vs)" using True assms(1) by (simp add: ut_holds_def of_nat_diff)
    obtain a1 where a1: "utarray_reserve a (of_nat (k - length vs)) = Inr a1" "ut_holds a1 vs" "k \<le> unat (ut_n a1)"
      using utarray_reserve_by [OF assms(1), of "k - length vs"] True assms(2) by auto
    let ?ws = "replicate (k - length vs) zero"
    have "ut_i a1 = ut_i a" using a1(2) assms(1) by (simp add: ut_holds_def)
    moreover have "unat (of_nat (k - length vs) :: 32 word) = k - length vs"
      using assms(2) by (intro unat_of_nat_32) simp
    moreover have "copy_slots (length vs) (replicate (k - length vs) (Some zero)) (ut_d a1) =
        Inr (ut_d (setting (vs @ ?ws) a1))"
      using copy_at_end [OF a1(2), of ?ws] a1(3) True by simp
    ultimately have "utarray_resize zero a (of_nat k) = Inr (setting (vs @ ?ws) a1)"
      using lt d a1(1) i True by (simp add: utarray_resize_def setting_def)
    with setting_holds [OF a1(2), of "vs @ ?ws"] a1(3) True show ?thesis by simp
  next
    case False
    then have "\<not> ut_i a < of_nat k" using u i by (simp add: word_less_nat_alt)
    with ut_holds_take [OF assms(1), of k] False show ?thesis by (simp add: utarray_resize_def)
  qed
qed

text \<open>Inserting past the end enlarges the array first.\<close>

lemma enlarge_holds:
  assumes "ut_holds a vs" and "j \<le> 2 ^ 31"
  shows "\<exists>a1. (if ut_i a < of_nat j then utarray_resize zero a (of_nat j) else Inr a) = Inr a1
    \<and> ut_holds a1 (vs @ replicate (j - length vs) zero)"
proof -
  have "unat (of_nat j :: 32 word) = j" using assms(2) by (intro unat_of_nat_32) simp
  then have "ut_i a < of_nat j \<longleftrightarrow> length vs < j"
    using ut_holds_unat(1) [OF assms(1)] by (simp add: word_less_nat_alt)
  with utarray_resize_holds [OF assms, of zero] assms(1) show ?thesis by auto
qed

text \<open>The words of the positions of \<open>insert_block\<close>.\<close>

lemma block_words:
  assumes "ut_holds a (xs @ ys)" and "length xs + m + length ys \<le> 2 ^ 31"
  shows "of_nat (length xs) < ut_i a \<longleftrightarrow> ys \<noteq> []" and "unat (ut_i a - of_nat (length xs)) = length ys"
    and "unat (of_nat (length xs) :: 32 word) = length xs"
    and "unat (of_nat (length xs) + of_nat m :: 32 word) = length xs + m"
    and "ut_i a + of_nat m = of_nat (length xs + m + length ys)"
proof -
  have i: "ut_i a = of_nat (length xs + length ys)" using assms(1) by (simp add: ut_holds_def)
  have u: "unat (of_nat k :: 32 word) = k" if "k \<le> 2 ^ 31" for k using that by (intro unat_of_nat_32) simp
  show "of_nat (length xs) < ut_i a \<longleftrightarrow> ys \<noteq> []"
    unfolding i word_less_nat_alt using assms(2) by (simp add: u del: of_nat_add)
  show "unat (ut_i a - of_nat (length xs)) = length ys" unfolding i using assms(2) by (simp add: u)
  show "unat (of_nat (length xs) :: 32 word) = length xs" using assms(2) by (intro u) simp
  show "unat (of_nat (length xs) + of_nat m :: 32 word) = length xs + m"
    using assms(2) u [of "length xs + m"] by simp
  show "ut_i a + of_nat m = of_nat (length xs + m + length ys)" by (simp add: i)
qed

lemma utarray_insert_holds:
  fixes zero :: 'a
  assumes "ut_holds a vs" and "j < 2 ^ 31" and "length vs < 2 ^ 31"
  defines "es \<equiv> vs @ replicate (j - length vs) zero"
  shows "\<exists>a'. utarray_insert zero a v (of_nat j) = Inr a' \<and> ut_holds a' (take j es @ [v] @ drop j es)"
proof -
  obtain a1 where a1: "(if ut_i a < of_nat j then utarray_resize zero a (of_nat j) else Inr a) = Inr a1" "ut_holds a1 es"
    using enlarge_holds [OF assms(1), of j zero] assms(2) unfolding es_def by auto
  have len: "length es < 2 ^ 31" "j \<le> length es" using assms by auto
  obtain a2 where a2: "utarray_reserve a1 1 = Inr a2" "ut_holds a2 es" "length es < unat (ut_n a2)"
    using utarray_reserve_holds [OF a1(2) len(1)] by blast
  define xs ys where "xs = take j es" and "ys = drop j es"
  have es: "es = xs @ ys" "length xs = j" using len(2) by (simp_all add: xs_def ys_def)
  have holds: "ut_holds a2 (xs @ ys)" and cap: "length xs + length [v] + length ys \<le> unat (ut_n a2)"
    using a2(2,3) es by simp_all
  have "length xs + 1 + length ys \<le> 2 ^ 31" using len(1) es by simp
  note w = block_words [OF holds this, simplified of_nat_1]
  have "utarray_insert zero a v (of_nat (length xs)) =
      rbind (rbind (if ys \<noteq> [] then rbind (read_slots (length xs) (length ys) (ut_d a2)) (\<lambda>m. copy_slots (length xs + length [v]) m (ut_d a2))
        else Inr (ut_d a2)) (copy_slots (length xs) (map Some [v]))) (\<lambda>d. Inr (a2\<lparr>ut_d := d, ut_i := ut_i a2 + 1\<rparr>))"
    by (simp only: utarray_insert_def a1(1) [folded es(2)] a2(1) rbind_Inr w(1-4) rbind_assoc list.map list.size
        One_nat_def add_0)
  also have "\<dots> = Inr (setting (xs @ [v] @ ys) a2)"
    unfolding insert_block [OF holds cap] using w(5) by (simp add: setting_def)
  finally have "utarray_insert zero a v (of_nat j) = Inr (setting (xs @ [v] @ ys) a2)" using es(2) by simp
  moreover have "ut_holds (setting (xs @ [v] @ ys) a2) (xs @ [v] @ ys)"
    using cap by (intro setting_holds [OF holds]) simp
  ultimately show ?thesis unfolding xs_def ys_def by blast
qed

lemma read_all_slots:
  assumes "ut_holds w ws"
  shows "read_slots 0 (unat (ut_i w)) (ut_d w) = Inr (map Some ws)"
  using assms ut_holds_unat(1) [OF assms] by (simp add: read_slots_def ut_holds_def)

lemma utarray_inserta_holds:
  fixes zero :: 'a
  assumes "ut_holds a vs" and "ut_holds w ws" and "max j (length vs) + length ws \<le> 2 ^ 31" and "ws \<noteq> []"
  defines "es \<equiv> vs @ replicate (j - length vs) zero"
  shows "\<exists>a'. utarray_inserta zero a w (of_nat j) = Inr a' \<and> ut_holds a' (take j es @ ws @ drop j es)"
proof -
  have iw: "ut_i w = of_nat (length ws)" "unat (ut_i w) = length ws" "ut_i w \<noteq> 0"
    using assms(2,4) ut_holds_unat(1) [OF assms(2)] by (auto simp: ut_holds_def)
  have len: "length es + length ws \<le> 2 ^ 31" "j \<le> length es" using assms(3) by (auto simp: es_def)
  obtain a1 where a1: "(if ut_i a < of_nat j then utarray_resize zero a (of_nat j) else Inr a) = Inr a1" "ut_holds a1 es"
    using enlarge_holds [OF assms(1), of j zero] len unfolding es_def by fastforce
  obtain a2 where a2: "utarray_reserve a1 (ut_i w) = Inr a2" "ut_holds a2 es" "length es + length ws \<le> unat (ut_n a2)"
    using utarray_reserve_by [OF a1(2) len(1)] iw(1) by auto
  define xs ys where "xs = take j es" and "ys = drop j es"
  have es: "es = xs @ ys" "length xs = j" using len(2) by (simp_all add: xs_def ys_def)
  have holds: "ut_holds a2 (xs @ ys)" and cap: "length xs + length ws + length ys \<le> unat (ut_n a2)"
    using a2(2,3) es by simp_all
  have "length xs + length ws + length ys \<le> 2 ^ 31" using len(1) es by simp
  note wd = block_words [OF holds this, folded iw(1)]
  have "utarray_inserta zero a w (of_nat (length xs)) =
      rbind (rbind (if ys \<noteq> [] then rbind (read_slots (length xs) (length ys) (ut_d a2)) (\<lambda>m. copy_slots (length xs + length ws) m (ut_d a2))
        else Inr (ut_d a2)) (copy_slots (length xs) (map Some ws))) (\<lambda>d. Inr (a2\<lparr>ut_d := d, ut_i := ut_i a2 + ut_i w\<rparr>))"
    by (simp only: utarray_inserta_def iw(3) if_False a1(1) [folded es(2)] a2(1) rbind_Inr wd(1-4) rbind_assoc
        read_all_slots [OF assms(2)])
  also have "\<dots> = Inr (setting (xs @ ws @ ys) a2)"
    unfolding insert_block [OF holds cap] using wd(5) by (simp add: setting_def add.assoc)
  finally have "utarray_inserta zero a w (of_nat j) = Inr (setting (xs @ ws @ ys) a2)" using es(2) by simp
  moreover have "ut_holds (setting (xs @ ws @ ys) a2) (xs @ ws @ ys)"
    using cap by (intro setting_holds [OF holds]) simp
  ultimately show ?thesis unfolding xs_def ys_def by blast
qed

lemma utarray_pop_back_holds:
  assumes "ut_holds a vs" and "vs \<noteq> []"
  shows "ut_holds (utarray_pop_back a) (butlast vs)"
proof -
  have "ut_i a - 1 = of_nat (length vs - 1)" using assms by (cases vs) (simp_all add: ut_holds_def)
  with ut_holds_take [OF assms(1), of "length vs - 1"] show ?thesis
    by (simp add: utarray_pop_back_def butlast_conv_take)
qed

lemma utarray_extend_back_holds:
  assumes "ut_holds a vs" and "length vs < 2 ^ 31"
  shows "\<exists>a'. utarray_extend_back zero a = Inr a' \<and> ut_holds a' (vs @ [zero])"
proof -
  obtain a1 where a1: "utarray_reserve a 1 = Inr a1" "ut_holds a1 vs" "length vs < unat (ut_n a1)"
    using utarray_reserve_holds [OF assms] by blast
  have "copy_slots (unat (ut_i a1)) [Some zero] (ut_d a1) = Inr (ut_d (setting (vs @ [zero]) a1))"
    using copy_at_end [OF a1(2), of "[zero]"] a1(3) ut_holds_unat(1) [OF a1(2)] by simp
  then have "utarray_extend_back zero a = Inr (setting (vs @ [zero]) a1)"
    using a1(1,2) by (simp add: utarray_extend_back_def setting_def ut_holds_def add.commute)
  with setting_holds [OF a1(2), of "vs @ [zero]"] a1(3) show ?thesis by simp
qed

lemma utarray_erase_holds:
  assumes "ut_holds a (xs @ ms @ zs)"
  shows "\<exists>a'. utarray_erase a (of_nat (length xs)) (of_nat (length ms)) = Inr a' \<and> ut_holds a' (xs @ zs)"
proof -
  have len: "length (xs @ ms @ zs) \<le> 2 ^ 31" by (rule ut_holds_unat(2) [OF assms])
  have h: "ut_holds a ((xs @ ms) @ zs)" using assms by simp
  have "length (xs @ ms) + 0 + length zs \<le> 2 ^ 31" using len by simp
  note w = block_words [OF h this, unfolded length_append of_nat_add]
  have i: "ut_i a - of_nat (length ms) = of_nat (length (xs @ zs))" using assms by (simp add: ut_holds_def)
  have u: "unat (of_nat (length xs) :: 32 word) = length xs" using len by (intro unat_of_nat_32) simp
  note sl = ut_holds_slots [OF h] and slx = ut_holds_slots [OF assms]
  have d: "length (ut_d a) = unat (ut_n a)" "length (xs @ ms @ zs) \<le> unat (ut_n a)" using assms by (simp_all add: ut_holds_def)
  show ?thesis
  proof (cases "zs = []")
    case True
    with w(1) i ut_holds_take [OF assms, of "length xs"] show ?thesis by (simp add: utarray_erase_def)
  next
    case False
    have "read_slots (length xs + length ms) (length zs) (ut_d a) = Inr (map Some zs)"
      using sl(2) d by (simp add: read_slots_def)
    moreover have "copy_slots (length xs) (map Some zs) (ut_d a) = Inr (ut_d (setting (xs @ zs) a))"
      using slx(1) d by (simp add: copy_slots_def setting_def)
    ultimately have "utarray_erase a (of_nat (length xs)) (of_nat (length ms)) = Inr (setting (xs @ zs) a)"
      using False w(1-3) i u by (simp add: utarray_erase_def setting_def)
    with setting_holds [OF assms, of "xs @ zs"] d(2) show ?thesis by simp
  qed
qed

subsection \<open>Sequences of edits\<close>

datatype 'a edit =
    Push 'a
  | Pop
  | Extend
  | Resize nat
  | Insert 'a nat
  | Insert_All "'a list" nat
  | Concat "'a list"
  | Erase nat nat
  | Clear

text \<open>The array that is inserted is one to which its values were pushed.\<close>

fun run_edit :: "'a \<Rightarrow> 'a edit \<Rightarrow> 'a UT_array \<Rightarrow> 'a UT_array res" where
  "run_edit zero (Push v) a = utarray_push_back a v"
| "run_edit zero Pop a = Inr (utarray_pop_back a)"
| "run_edit zero Extend a = utarray_extend_back zero a"
| "run_edit zero (Resize n) a = utarray_resize zero a (of_nat n)"
| "run_edit zero (Insert v j) a = utarray_insert zero a v (of_nat j)"
| "run_edit zero (Insert_All ws j) a =
     rbind (rfold (\<lambda>v a. utarray_push_back a v) ws utarray_new) (\<lambda>w. utarray_inserta zero a w (of_nat j))"
| "run_edit zero (Concat ws) a =
     rbind (rfold (\<lambda>v a. utarray_push_back a v) ws utarray_new) (\<lambda>w. utarray_concat zero a w)"
| "run_edit zero (Erase p l) a = utarray_erase a (of_nat p) (of_nat l)"
| "run_edit zero Clear a = Inr (utarray_clear a)"

text \<open>The same on a list; a list is filled up with zeros to a position past its end.\<close>

definition pad :: "'a \<Rightarrow> nat \<Rightarrow> 'a list \<Rightarrow> 'a list" where
  "pad zero j vs = vs @ replicate (j - length vs) zero"

fun list_edit :: "'a \<Rightarrow> 'a edit \<Rightarrow> 'a list \<Rightarrow> 'a list" where
  "list_edit zero (Push v) vs = vs @ [v]"
| "list_edit zero Pop vs = butlast vs"
| "list_edit zero Extend vs = vs @ [zero]"
| "list_edit zero (Resize n) vs = take n (pad zero n vs)"
| "list_edit zero (Insert v j) vs = take j (pad zero j vs) @ [v] @ drop j (pad zero j vs)"
| "list_edit zero (Insert_All ws j) vs =
     (if ws = [] then vs else take j (pad zero j vs) @ ws @ drop j (pad zero j vs))"
| "list_edit zero (Concat ws) vs = vs @ ws"
| "list_edit zero (Erase p l) vs = take p vs @ drop (p + l) vs"
| "list_edit zero Clear vs = []"

fun edit_ok :: "'a edit \<Rightarrow> 'a list \<Rightarrow> bool" where
  "edit_ok (Push v) vs = (length vs < 2 ^ 31)"
| "edit_ok Pop vs = (vs \<noteq> [])"
| "edit_ok Extend vs = (length vs < 2 ^ 31)"
| "edit_ok (Resize n) vs = (n \<le> 2 ^ 31)"
| "edit_ok (Insert v j) vs = (j < 2 ^ 31 \<and> length vs < 2 ^ 31)"
| "edit_ok (Insert_All ws j) vs = (max j (length vs) + length ws \<le> 2 ^ 31)"
| "edit_ok (Concat ws) vs = (length vs + length ws \<le> 2 ^ 31)"
| "edit_ok (Erase p l) vs = (p + l \<le> length vs)"
| "edit_ok Clear vs = True"

fun edits_ok :: "'a \<Rightarrow> 'a edit list \<Rightarrow> 'a list \<Rightarrow> bool" where
  "edits_ok zero [] vs = True"
| "edits_ok zero (e # es) vs = (edit_ok e vs \<and> edits_ok zero es (list_edit zero e vs))"

lemma inserta_any:
  assumes "ut_holds a vs" and "max j (length vs) + length ws \<le> 2 ^ 31"
  shows "\<exists>a'. rbind (rfold (\<lambda>v a. utarray_push_back a v) ws utarray_new) (\<lambda>w. utarray_inserta zero a w (of_nat j)) = Inr a'
    \<and> ut_holds a' (if ws = [] then vs else take j (pad zero j vs) @ ws @ drop j (pad zero j vs))"
proof -
  obtain w where w: "rfold (\<lambda>v a. utarray_push_back a v) ws utarray_new = Inr w" "ut_holds w ws"
    using pushes_hold [OF ut_holds_new, of ws] assms(2) by auto
  show ?thesis
  proof (cases "ws = []")
    case True
    then have "ut_i w = 0" using w(2) by (simp add: ut_holds_def)
    with w(1) assms(1) True show ?thesis by (simp add: utarray_inserta_def)
  next
    case False
    with utarray_inserta_holds [OF assms(1) w(2) assms(2) False, of zero] w(1) show ?thesis by (simp add: pad_def)
  qed
qed

lemma run_edit_holds:
  assumes a: "ut_holds a vs" and ok: "edit_ok e vs"
  shows "\<exists>a'. run_edit zero e a = Inr a' \<and> ut_holds a' (list_edit zero e vs)"
proof (cases e)
  case (Push v)
  with ok utarray_push_back_holds [OF a] show ?thesis by simp
next
  case Pop
  with ok utarray_pop_back_holds [OF a] show ?thesis by simp
next
  case Extend
  with ok utarray_extend_back_holds [OF a] show ?thesis by simp
next
  case (Resize n)
  with ok utarray_resize_holds [OF a, of n zero] show ?thesis by (simp add: pad_def)
next
  case (Insert v j)
  with ok utarray_insert_holds [OF a, of j zero v] show ?thesis by (simp add: pad_def)
next
  case (Insert_All ws j)
  with ok inserta_any [OF a, of j ws zero] show ?thesis by simp
next
  case (Concat ws)
  have "ut_i a = of_nat (length vs)" using a by (simp add: ut_holds_def)
  with Concat ok inserta_any [OF a, of "length vs" ws zero] show ?thesis
    by (auto simp: utarray_concat_def pad_def split: if_splits)
next
  case (Erase p l)
  then have e: "take p vs @ take l (drop p vs) @ drop (p + l) vs = vs" and pl: "p + l \<le> length vs"
    using ok by (simp_all add: add.commute flip: drop_drop)
  have "length (take p vs) = p" "length (take l (drop p vs)) = l" using pl by simp_all
  with utarray_erase_holds [of a "take p vs" "take l (drop p vs)" "drop (p + l) vs"] a e Erase show ?thesis by simp
next
  case Clear
  with utarray_clear_holds [OF a] show ?thesis by simp
qed

lemma run_edits_hold:
  "ut_holds a vs \<Longrightarrow> edits_ok zero es vs \<Longrightarrow>
   \<exists>a'. rfold (run_edit zero) es a = Inr a' \<and> ut_holds a' (fold (list_edit zero) es vs)"
proof (induction es arbitrary: a vs)
  case (Cons e es)
  then obtain a1 where "run_edit zero e a = Inr a1" "ut_holds a1 (list_edit zero e vs)"
    using run_edit_holds [of a vs e zero] by auto
  with Cons.IH [of a1 "list_edit zero e vs"] Cons.prems show ?case by simp
qed simp

text \<open>
  C32: Any sequence of pushes, pops, extensions, resizings, insertions of a value or of another
  array, concatenations, erasures and clearings of an array does to it what it does to the list of its
  values, as long as nothing is taken from an empty array, only values that are there are erased,
  and no more than \<open>2 ^ 31\<close> values are held: no operation fails, the loop over the array sees the
  list, and the pointer to the last value is that of the last value.
\<close>

theorem utarray_edits_refine:
  assumes "edits_ok zero es []"
  shows "\<exists>a. rfold (run_edit zero) es utarray_new = Inr a
    \<and> utarray_values a = Inr (fold (list_edit zero) es [])
    \<and> utarray_len a = length (fold (list_edit zero) es [])
    \<and> utarray_back a = (if fold (list_edit zero) es [] = [] then None else Some (length (fold (list_edit zero) es []) - 1))"
proof -
  obtain a where a: "rfold (run_edit zero) es utarray_new = Inr a" "ut_holds a (fold (list_edit zero) es [])"
    using run_edits_hold [OF ut_holds_new assms] by blast
  note i = ut_holds_unat(1) [OF a(2)]
  have "unat (ut_i a - 1) = unat (ut_i a) - 1" if "ut_i a \<noteq> 0" using that by (simp add: unat_minus_one)
  moreover have "ut_i a = 0 \<longleftrightarrow> fold (list_edit zero) es [] = []" using i unat_eq_zero by fastforce
  ultimately have "utarray_back a = (if fold (list_edit zero) es [] = [] then None else Some (length (fold (list_edit zero) es []) - 1))"
    using i by (simp add: utarray_back_def)
  with a(1) utarray_values_holds [OF a(2)] i show ?thesis by (simp add: utarray_len_def)
qed

lemma utarray_edits_refine_witness:
  "\<exists>a. rfold (run_edit (0 :: int)) [Push 4, Insert 7 3, Insert_All [1, 2] 1, Erase 0 1, Pop, Resize 5] utarray_new = Inr a
    \<and> utarray_values a = Inr [1, 2, 0, 0, 0]"
proof -
  have "replicate 2 (0 :: int) = [0, 0]" by (simp add: numeral_2_eq_2)
  then show ?thesis
    using utarray_edits_refine [of "0 :: int" "[Push 4, Insert 7 3, Insert_All [1, 2] 1, Erase 0 1, Pop, Resize 5]"]
    by (auto simp: pad_def)
qed

text \<open>Nothing keeps a value from being taken off an empty array: the length wraps round.\<close>

lemma utarray_pop_back_empty: "utarray_len (utarray_pop_back utarray_new) = 2 ^ 32 - 1"
  by (simp add: utarray_len_def utarray_pop_back_def utarray_new_def unsigned_minus_1_eq_mask mask_eq_exp_minus_1)

end
