(* ===== verification/BottomUpSort.thy ===== *)
theory BottomUpSort
  imports Prelude "HOL-Library.Multiset"
begin

text \<open>
  The merge sort of \<^verbatim>\<open>utlist.h\<close> on lists: a pass merges neighbouring runs of \<open>n\<close>
  elements, and passes with doubled run length are made until one run is left. \<open>UtListSort\<close> shows
  that the macros do this with the links of the elements. A comparison is an
  \<^verbatim>\<open>int\<close>, at most 0 when the first element may stand before the second.
\<close>

type_synonym 'a compare = "'a \<Rightarrow> 'a \<Rightarrow> int"

fun merge_runs :: "'a compare \<Rightarrow> 'a list \<Rightarrow> 'a list \<Rightarrow> 'a list" where
  "merge_runs cmp [] qs = qs"
| "merge_runs cmp (p # ps) [] = p # ps"
| "merge_runs cmp (p # ps) (q # qs) =
     (if cmp p q \<le> 0 then p # merge_runs cmp ps (q # qs) else q # merge_runs cmp (p # ps) qs)"

function sort_pass :: "'a compare \<Rightarrow> nat \<Rightarrow> 'a list \<Rightarrow> 'a list" where
  "sort_pass cmp n xs = (if n = 0 \<or> xs = [] then xs
     else merge_runs cmp (take n xs) (take n (drop n xs)) @ sort_pass cmp n (drop (2 * n) xs))"
  by pat_completeness auto
termination by (relation "measure (\<lambda>(cmp, n, xs). length xs)") auto

declare sort_pass.simps [simp del]

lemma sort_pass_Nil [simp]: "sort_pass cmp n [] = []"
  by (simp add: sort_pass.simps)

lemma sort_pass_step:
  "0 < n \<Longrightarrow> xs \<noteq> [] \<Longrightarrow> sort_pass cmp n xs =
     merge_runs cmp (take n xs) (take n (drop n xs)) @ sort_pass cmp n (drop (2 * n) xs)"
  by (simp add: sort_pass.simps)

text \<open>The runs of two that a pass merges.\<close>

definition merges :: "nat \<Rightarrow> nat \<Rightarrow> nat" where
  "merges n len = (len + 2 * n - 1) div (2 * n)"

text \<open>A comparison of a sort: total and transitive.\<close>

definition orders :: "'a compare \<Rightarrow> 'a set \<Rightarrow> bool" where
  "orders cmp A \<longleftrightarrow> (\<forall>a \<in> A. \<forall>b \<in> A. cmp a b \<le> 0 \<or> cmp b a \<le> 0)
     \<and> (\<forall>a \<in> A. \<forall>b \<in> A. \<forall>c \<in> A. cmp a b \<le> 0 \<longrightarrow> cmp b c \<le> 0 \<longrightarrow> cmp a c \<le> 0)"

definition ordered :: "'a compare \<Rightarrow> 'a list \<Rightarrow> bool" where
  "ordered cmp xs \<longleftrightarrow> sorted_wrt (\<lambda>a b. cmp a b \<le> 0) xs"

lemma ordered_simps [simp]:
  "ordered cmp []" "ordered cmp (x # xs) \<longleftrightarrow> (\<forall>y \<in> set xs. cmp x y \<le> 0) \<and> ordered cmp xs"
  by (simp_all add: ordered_def)

lemma orders_subset: "orders cmp A \<Longrightarrow> B \<subseteq> A \<Longrightarrow> orders cmp B"
  unfolding orders_def by blast

lemma orders_total: "orders cmp A \<Longrightarrow> a \<in> A \<Longrightarrow> b \<in> A \<Longrightarrow> cmp a b \<le> 0 \<or> cmp b a \<le> 0"
  unfolding orders_def by blast

lemma orders_trans:
  "orders cmp A \<Longrightarrow> cmp a b \<le> 0 \<Longrightarrow> cmp b c \<le> 0 \<Longrightarrow> a \<in> A \<Longrightarrow> b \<in> A \<Longrightarrow> c \<in> A \<Longrightarrow> cmp a c \<le> 0"
  unfolding orders_def by blast

lemma mset_merge_runs [simp]: "mset (merge_runs cmp ps qs) = mset ps + mset qs"
  by (induction cmp ps qs rule: merge_runs.induct) auto

lemma set_merge_runs [simp]: "set (merge_runs cmp ps qs) = set ps \<union> set qs"
  by (metis mset_merge_runs set_mset_mset set_mset_union)

lemma length_merge_runs [simp]: "length (merge_runs cmp ps qs) = length ps + length qs"
  by (metis mset_merge_runs size_mset size_union)

lemma ordered_merge_runs:
  "orders cmp (set ps \<union> set qs) \<Longrightarrow> ordered cmp ps \<Longrightarrow> ordered cmp qs \<Longrightarrow> ordered cmp (merge_runs cmp ps qs)"
proof (induction cmp ps qs rule: merge_runs.induct)
  case (3 cmp p ps q qs)
  show ?case
  proof (cases "cmp p q \<le> 0")
    case True
    have "orders cmp (set ps \<union> set (q # qs))" using 3(3) by (rule orders_subset) auto
    with 3 True have "ordered cmp (merge_runs cmp ps (q # qs))" by simp
    moreover have "cmp p y \<le> 0" if "y \<in> set qs" for y by (rule orders_trans [OF 3(3) True]) (use 3(5) that in auto)
    ultimately show ?thesis using True 3(4) by auto
  next
    case False
    have "orders cmp (set (p # ps) \<union> set qs)" using 3(3) by (rule orders_subset) auto
    with 3 False have "ordered cmp (merge_runs cmp (p # ps) qs)" by simp
    moreover have qp: "cmp q p \<le> 0" using orders_total [OF 3(3), of p q] False by simp
    moreover have "cmp q y \<le> 0" if "y \<in> set ps" for y by (rule orders_trans [OF 3(3) qp]) (use 3(4) that in auto)
    ultimately show ?thesis using False 3(5) by auto
  qed
qed simp_all

lemma mset_sort_pass [simp]: "mset (sort_pass cmp n xs) = mset xs"
proof (induction cmp n xs rule: sort_pass.induct)
  case (1 cmp n xs)
  have "take n xs @ take n (drop n xs) @ drop (2 * n) xs = xs"
    by (metis append_take_drop_id drop_drop mult_2)
  then have "mset (take n xs) + mset (take n (drop n xs)) + mset (drop (2 * n) xs) = mset xs"
    by (metis mset_append add.assoc)
  with 1 show ?case by (cases "n = 0 \<or> xs = []") (auto simp: sort_pass.simps [of cmp n xs])
qed

lemma length_sort_pass [simp]: "length (sort_pass cmp n xs) = length xs"
  by (metis mset_sort_pass size_mset)

lemma set_sort_pass [simp]: "set (sort_pass cmp n xs) = set xs"
  by (metis mset_sort_pass set_mset_mset)

text \<open>Runs of \<open>n\<close> elements, the last one maybe shorter, each in order.\<close>

definition runs :: "'a compare \<Rightarrow> nat \<Rightarrow> 'a list \<Rightarrow> bool" where
  "runs cmp n xs \<longleftrightarrow> (\<forall>i. ordered cmp (take n (drop (i * n) xs)))"

lemma runs_1: "runs cmp 1 xs"
  unfolding runs_def by (auto simp: ordered_def sorted_wrt_iff_nth_less)

lemma runs_all: "runs cmp n xs \<Longrightarrow> length xs \<le> n \<Longrightarrow> ordered cmp xs"
  unfolding runs_def by (drule spec [of _ 0]) simp

lemma runs_drop: "runs cmp n xs \<Longrightarrow> runs cmp n (drop (k * n) xs)"
  unfolding runs_def by (simp add: add_mult_distrib [symmetric])

lemma runs_sort_pass:
  "0 < n \<Longrightarrow> orders cmp (set xs) \<Longrightarrow> runs cmp n xs \<Longrightarrow> runs cmp (2 * n) (sort_pass cmp n xs)"
proof (induction cmp n xs rule: sort_pass.induct)
  case (1 cmp n xs)
  show ?case
  proof (cases "xs = []")
    case False
    let ?m = "merge_runs cmp (take n xs) (take n (drop n xs))" and ?r = "drop (2 * n) xs"
    have ord: "ordered cmp ?m"
    proof (rule ordered_merge_runs)
      show "orders cmp (set (take n xs) \<union> set (take n (drop n xs)))"
        using 1(3) by (rule orders_subset) (auto dest: in_set_takeD in_set_dropD)
      show "ordered cmp (take n xs)" "ordered cmp (take n (drop n xs))"
        using 1(4) [unfolded runs_def, rule_format, of 0] 1(4) [unfolded runs_def, rule_format, of 1] by simp_all
    qed
    have rest: "runs cmp (2 * n) (sort_pass cmp n ?r)"
      using 1 False runs_drop [of cmp n xs 2] orders_subset [OF 1(3) set_drop_subset] by simp
    have "ordered cmp (take (2 * n) (drop (i * (2 * n)) (?m @ sort_pass cmp n ?r)))" for i
    proof (cases "length xs \<le> 2 * n")
      case True
      then have "?r = []" by simp
      moreover have "length ?m \<le> 2 * n" by simp
      ultimately show ?thesis using ord by (cases i) simp_all
    next
      case False
      then have "length ?m = 2 * n" by simp
      then show ?thesis using ord rest by (cases i) (simp_all add: runs_def)
    qed
    then show ?thesis unfolding runs_def sort_pass_step [OF 1(2) False] by blast
  qed (simp add: runs_def)
qed

text \<open>Elements that compare equal stay in their order.\<close>

definition alike :: "'a compare \<Rightarrow> 'a \<Rightarrow> 'a \<Rightarrow> bool" where
  "alike cmp a b \<longleftrightarrow> cmp a b \<le> 0 \<and> cmp b a \<le> 0"

lemma filter_merge_runs:
  "orders cmp A \<Longrightarrow> a \<in> A \<Longrightarrow> set ps \<union> set qs \<subseteq> A \<Longrightarrow> ordered cmp ps \<Longrightarrow>
   filter (alike cmp a) (merge_runs cmp ps qs) = filter (alike cmp a) ps @ filter (alike cmp a) qs"
proof (induction cmp ps qs rule: merge_runs.induct)
  case (3 cmp p ps q qs)
  show ?case
  proof (cases "cmp p q \<le> 0")
    case False
    have "\<not> alike cmp a x" if "alike cmp a q" "x \<in> set (p # ps)" for x
    proof
      assume x: "alike cmp a x"
      have "cmp x q \<le> 0" by (rule orders_trans [OF 3(3), of x a q]) (use 3(4,5) that x in \<open>auto simp: alike_def\<close>)
      moreover have "x = p \<or> cmp p x \<le> 0" using 3(6) that(2) by auto
      ultimately have "cmp p q \<le> 0" using orders_trans [OF 3(3), of p x q] 3(5) that(2) by auto
      with False show False by simp
    qed
    then have "alike cmp a q \<Longrightarrow> filter (alike cmp a) (p # ps) = []" unfolding filter_empty_conv by blast
    with False 3 show ?thesis by (cases "alike cmp a q") simp_all
  qed (use 3 in simp)
qed simp_all

lemma filter_sort_pass:
  "0 < n \<Longrightarrow> orders cmp A \<Longrightarrow> a \<in> A \<Longrightarrow> set xs \<subseteq> A \<Longrightarrow> runs cmp n xs \<Longrightarrow>
   filter (alike cmp a) (sort_pass cmp n xs) = filter (alike cmp a) xs"
proof (induction cmp n xs rule: sort_pass.induct)
  case (1 cmp n xs)
  show ?case
  proof (cases "xs = []")
    case False
    let ?f = "filter (alike cmp a)" and ?t = "take n xs" and ?u = "take n (drop n xs)" and ?r = "drop (2 * n) xs"
    have "set ?t \<union> set ?u \<subseteq> A" "set ?r \<subseteq> A" using 1(5) by (auto dest: in_set_takeD in_set_dropD)
    moreover have "ordered cmp ?t" using 1(6) [unfolded runs_def, rule_format, of 0] by simp
    ultimately have "?f (sort_pass cmp n xs) = (?f ?t @ ?f ?u) @ ?f ?r"
      using 1 False runs_drop [of cmp n xs 2] filter_merge_runs [OF 1(3,4), of ?t ?u] by (simp add: sort_pass_step)
    also have "\<dots> = ?f (?t @ ?u @ ?r)" by simp
    also have "?t @ ?u @ ?r = xs" by (metis append_take_drop_id drop_drop mult_2)
    finally show ?thesis .
  qed simp
qed

text \<open>All passes: the run length doubles until one merge is enough.\<close>

function sort_passes :: "'a compare \<Rightarrow> nat \<Rightarrow> 'a list \<Rightarrow> 'a list" where
  "sort_passes cmp n xs = (if n = 0 \<or> length xs \<le> 2 * n then sort_pass cmp n xs
     else sort_passes cmp (2 * n) (sort_pass cmp n xs))"
  by pat_completeness auto
termination by (relation "measure (\<lambda>(cmp, n, xs). length xs - n)") auto

declare sort_passes.simps [simp del]

lemma sort_passes_sorts:
  assumes "0 < n" and "orders cmp (set xs)" and "runs cmp n xs"
  shows "ordered cmp (sort_passes cmp n xs) \<and> mset (sort_passes cmp n xs) = mset xs
    \<and> (\<forall>a \<in> set xs. filter (alike cmp a) (sort_passes cmp n xs) = filter (alike cmp a) xs)"
  using assms
proof (induction cmp n xs rule: sort_passes.induct)
  case (1 cmp n xs)
  note r = runs_sort_pass [OF 1(2-4)]
  note f = filter_sort_pass [OF 1(2,3) _ subset_refl 1(4)]
  show ?case
  proof (cases "length xs \<le> 2 * n")
    case True
    with runs_all [OF r] 1(2) f show ?thesis by (simp add: sort_passes.simps [of cmp n xs])
  next
    case False
    with 1 r f show ?thesis by (simp add: sort_passes.simps [of cmp n xs])
  qed
qed

end
