(* ===== verification/UtListSort.thy ===== *)
theory UtListSort
  imports BottomUpSort
begin

text \<open>
  The sorts of \<^verbatim>\<open>utlist.h\<close>, which the program does not use: a merge sort that
  rearranges the links of singly linked, doubly linked and circular lists. The heap maps the
  address of an element to its two links. A comparison is on addresses, as the elements themselves do
  not change. The three macros share their text; they differ in the \<^verbatim>\<open>prev\<close> links,
  which \<^verbatim>\<open>LL_SORT\<close> does not set, and in the end of the list, which
  \<^verbatim>\<open>CDL_SORT\<close> knows by the old head.

  A loop along the links of a list has as many turns as are given to it, and the lemmas show that
  more than there are elements are enough.
\<close>

datatype list_kind = LL | DL | CDL

record lcell =
  l_next :: "nat option"
  l_prev :: "nat option"

type_synonym lheap = "nat \<Rightarrow> lcell option"

definition cell_at :: "lheap \<Rightarrow> nat option \<Rightarrow> lcell res" where
  "cell_at h p = (case p of None \<Rightarrow> Inl Null_Deref
     | Some a \<Rightarrow> (case h a of None \<Rightarrow> Inl Wild_Deref | Some c \<Rightarrow> Inr c))"

definition get_next :: "nat option \<Rightarrow> lheap \<Rightarrow> nat option res" where
  "get_next p h = rbind (cell_at h p) (\<lambda>c. Inr (l_next c))"

definition set_next :: "nat option \<Rightarrow> nat option \<Rightarrow> lheap \<Rightarrow> lheap res" where
  "set_next p v h = rbind (cell_at h p) (\<lambda>c. Inr (h(the p \<mapsto> c\<lparr>l_next := v\<rparr>)))"

definition set_prev :: "nat option \<Rightarrow> nat option \<Rightarrow> lheap \<Rightarrow> lheap res" where
  "set_prev p v h = rbind (cell_at h p) (\<lambda>c. Inr (h(the p \<mapsto> c\<lparr>l_prev := v\<rparr>)))"

subsection \<open>The macros\<close>

definition sort_next :: "list_kind \<Rightarrow> nat option \<Rightarrow> nat option \<Rightarrow> lheap \<Rightarrow> nat option res" where
  "sort_next K oldhead p h =
     rbind (get_next p h) (\<lambda>q. Inr (if K = CDL \<and> q = oldhead then None else q))"

text \<open>The \<^verbatim>\<open>for\<close> loop that steps over a run.\<close>

fun step_run :: "nat \<Rightarrow> list_kind \<Rightarrow> nat option \<Rightarrow> nat \<Rightarrow> nat option \<Rightarrow> lheap \<Rightarrow> (nat \<times> nat option) res" where
  "step_run 0 K oldhead psize q h = Inr (psize, q)"
| "step_run (Suc k) K oldhead psize q h =
     rbind (sort_next K oldhead q h) (\<lambda>q.
     if q = None then Inr (Suc psize, q) else step_run k K oldhead (Suc psize) q h)"

text \<open>Which of the two runs the next element comes from.\<close>

definition takes_p :: "nat compare \<Rightarrow> nat \<Rightarrow> nat \<Rightarrow> nat option \<Rightarrow> nat option \<Rightarrow> bool res" where
  "takes_p cmp psize qsize p q =
     (if psize = 0 then Inr False
      else if qsize = 0 \<or> q = None then Inr True
      else (case (p, q) of (Some a, Some b) \<Rightarrow> Inr (cmp a b \<le> 0) | _ \<Rightarrow> Inl Null_Deref))"

text \<open>The element is linked behind the tail.\<close>

definition sort_emit :: "list_kind \<Rightarrow> nat option \<Rightarrow> nat option \<Rightarrow> nat option \<Rightarrow> lheap \<Rightarrow> (nat option \<times> lheap) res" where
  "sort_emit K e tail list h =
     rbind (if tail \<noteq> None then rbind (set_next tail e h) (\<lambda>h. Inr (list, h)) else Inr (e, h)) (\<lambda>(list, h).
     rbind (if K = LL then Inr h else set_prev e tail h) (\<lambda>h. Inr (list, h)))"

function merge_loop :: "list_kind \<Rightarrow> nat option \<Rightarrow> nat compare \<Rightarrow> nat \<Rightarrow> nat \<Rightarrow> nat option \<Rightarrow> nat option \<Rightarrow>
    nat option \<Rightarrow> nat option \<Rightarrow> lheap \<Rightarrow> (nat option \<times> nat option \<times> nat option \<times> lheap) res" where
  "merge_loop K oldhead cmp psize qsize p q list tail h =
     (if 0 < psize \<or> (0 < qsize \<and> q \<noteq> None)
      then rbind (takes_p cmp psize qsize p q) (\<lambda>tp.
           if tp
           then rbind (sort_next K oldhead p h) (\<lambda>p'.
                rbind (sort_emit K p tail list h) (\<lambda>(list, h).
                merge_loop K oldhead cmp (psize - 1) qsize p' q list p h))
           else rbind (sort_next K oldhead q h) (\<lambda>q'.
                rbind (sort_emit K q tail list h) (\<lambda>(list, h).
                merge_loop K oldhead cmp psize (qsize - 1) p q' list q h)))
      else Inr (q, list, tail, h))"
  by pat_completeness auto
termination
  by (relation "measure (\<lambda>(K, oldhead, cmp, psize, qsize, p, q, list, tail, h). psize + qsize)")
    (auto simp: takes_p_def split: if_splits option.splits)

declare merge_loop.simps [simp del]

text \<open>A pass over the list.\<close>

fun pass_loop :: "nat \<Rightarrow> list_kind \<Rightarrow> nat option \<Rightarrow> nat compare \<Rightarrow> nat \<Rightarrow> nat option \<Rightarrow> nat option \<Rightarrow> nat option \<Rightarrow> nat \<Rightarrow>
    lheap \<Rightarrow> (nat option \<times> nat option \<times> nat \<times> lheap) res" where
  "pass_loop 0 K oldhead cmp insize p list tail nmerges h = Inl Endless_Loop"
| "pass_loop (Suc f) K oldhead cmp insize p list tail nmerges h =
     (if p \<noteq> None
      then rbind (step_run insize K oldhead 0 p h) (\<lambda>(psize, q).
           rbind (merge_loop K oldhead cmp psize insize p q list tail h) (\<lambda>(q, list, tail, h).
           pass_loop f K oldhead cmp insize q list tail (nmerges + 1) h))
      else Inr (list, tail, nmerges, h))"

definition sort_close :: "list_kind \<Rightarrow> nat option \<Rightarrow> nat option \<Rightarrow> lheap \<Rightarrow> lheap res" where
  "sort_close K list tail h = (case K of
       LL \<Rightarrow> if tail \<noteq> None then set_next tail None h else Inr h
     | DL \<Rightarrow> rbind (set_prev list tail h) (set_next tail None)
     | CDL \<Rightarrow> rbind (set_prev list tail h) (set_next tail list))"

fun sort_loop :: "nat \<Rightarrow> nat \<Rightarrow> list_kind \<Rightarrow> nat compare \<Rightarrow> nat \<Rightarrow> nat option \<Rightarrow> lheap \<Rightarrow> (nat option \<times> lheap) res" where
  "sort_loop 0 turns K cmp insize list h = Inl Endless_Loop"
| "sort_loop (Suc f) turns K cmp insize list h =
     rbind (pass_loop turns K list cmp insize list None None 0 h) (\<lambda>(list, tail, nmerges, h).
     rbind (sort_close K list tail h) (\<lambda>h.
     if INT_MAX < 2 * int insize then Inl Signed_Overflow
     else if nmerges \<le> 1 then Inr (list, h)
     else sort_loop f turns K cmp (insize * 2) list h))"

definition list_sort :: "list_kind \<Rightarrow> nat \<Rightarrow> nat compare \<Rightarrow> nat option \<Rightarrow> lheap \<Rightarrow> (nat option \<times> lheap) res" where
  "list_sort K turns cmp list h = (if list \<noteq> None then sort_loop turns turns K cmp 1 list h else Inr (list, h))"

definition LL_SORT :: "nat \<Rightarrow> nat compare \<Rightarrow> nat option \<Rightarrow> lheap \<Rightarrow> (nat option \<times> lheap) res" where
  "LL_SORT = list_sort LL"

definition DL_SORT :: "nat \<Rightarrow> nat compare \<Rightarrow> nat option \<Rightarrow> lheap \<Rightarrow> (nat option \<times> lheap) res" where
  "DL_SORT = list_sort DL"

definition CDL_SORT :: "nat \<Rightarrow> nat compare \<Rightarrow> nat option \<Rightarrow> lheap \<Rightarrow> (nat option \<times> lheap) res" where
  "CDL_SORT = list_sort CDL"

subsection \<open>Lists in the heap\<close>

definition next_of :: "lheap \<Rightarrow> nat \<Rightarrow> nat option" where
  "next_of h x = l_next (the (h x))"

definition prev_of :: "lheap \<Rightarrow> nat \<Rightarrow> nat option" where
  "prev_of h x = l_prev (the (h x))"

text \<open>The elements \<open>xs\<close> are linked as a list of their kind whose head is \<open>list\<close>.\<close>

definition list_ok :: "list_kind \<Rightarrow> lheap \<Rightarrow> nat option \<Rightarrow> nat list \<Rightarrow> bool" where
  "list_ok K h list xs \<longleftrightarrow> list = (if xs = [] then None else Some (hd xs)) \<and> distinct xs \<and> (\<forall>x \<in> set xs. h x \<noteq> None)
     \<and> (\<forall>i < length xs. next_of h (xs ! i) =
          (if Suc i < length xs then Some (xs ! Suc i) else if K = CDL then Some (hd xs) else None))
     \<and> (K \<noteq> LL \<longrightarrow> (\<forall>i < length xs. prev_of h (xs ! i) = Some (if i = 0 then last xs else xs ! (i - 1))))"

text \<open>The links as the sort follows them, and a segment along them.\<close>

definition nx :: "list_kind \<Rightarrow> nat option \<Rightarrow> lheap \<Rightarrow> nat \<Rightarrow> nat option" where
  "nx K oldhead h x = (if K = CDL \<and> next_of h x = oldhead then None else next_of h x)"

fun seg :: "list_kind \<Rightarrow> nat option \<Rightarrow> lheap \<Rightarrow> nat option \<Rightarrow> nat list \<Rightarrow> nat option \<Rightarrow> bool" where
  "seg K oldhead h p [] q \<longleftrightarrow> p = q"
| "seg K oldhead h p (x # xs) q \<longleftrightarrow> p = Some x \<and> h x \<noteq> None \<and> seg K oldhead h (nx K oldhead h x) xs q"

lemma sort_next_elem: "h x \<noteq> None \<Longrightarrow> sort_next K oldhead (Some x) h = Inr (nx K oldhead h x)"
  by (auto simp: sort_next_def get_next_def cell_at_def nx_def next_of_def)

lemma seg_cong: "(\<And>x. x \<in> set xs \<Longrightarrow> h' x \<noteq> None \<and> next_of h' x = next_of h x) \<Longrightarrow> seg K oldhead h p xs q \<Longrightarrow> seg K oldhead h' p xs q"
  by (induction xs arbitrary: p) (auto simp: nx_def)

lemma segI:
  assumes "\<forall>x \<in> set xs. h x \<noteq> None" and "\<forall>i. Suc i < length xs \<longrightarrow> nx K oldhead h (xs ! i) = Some (xs ! Suc i)"
    and "xs \<noteq> []" and "nx K oldhead h (last xs) = None"
  shows "seg K oldhead h (Some (hd xs)) xs None"
  using assms
proof (induction xs)
  case (Cons x xs)
  show ?case
  proof (cases xs)
    case (Cons y ys)
    have "nx K oldhead h (xs ! i) = Some (xs ! Suc i)" if "Suc i < length xs" for i
      using Cons.prems(2) [rule_format, of "Suc i"] that by simp
    moreover have "nx K oldhead h x = Some y" using Cons.prems(2) [rule_format, of 0] Cons by simp
    ultimately show ?thesis using Cons.IH Cons.prems Cons by simp
  qed (use Cons.prems in simp)
qed simp

lemma list_ok_seg:
  assumes "list_ok K h list xs"
  shows "seg K list h list xs None"
proof (cases "xs = []")
  case False
  then have l: "list = Some (hd xs)" using assms by (simp add: list_ok_def)
  have "nx K list h (xs ! i) = Some (xs ! Suc i)" if "Suc i < length xs" for i
  proof -
    have "xs ! Suc i \<noteq> xs ! 0" using assms that False nth_eq_iff_index_eq [of xs "Suc i" 0] by (simp add: list_ok_def)
    then show ?thesis using assms that l False by (auto simp: list_ok_def nx_def hd_conv_nth)
  qed
  moreover have "nx K list h (last xs) = None"
    using assms False l by (auto simp: list_ok_def nx_def last_conv_nth)
  ultimately have "seg K list h (Some (hd xs)) xs None"
    using assms False by (intro segI) (simp_all add: list_ok_def)
  with l show ?thesis by simp
qed (use assms in \<open>simp add: list_ok_def\<close>)

subsection \<open>Stepping over a run\<close>

lemma step_run_seg:
  "seg K oldhead h q xs None \<Longrightarrow> xs \<noteq> [] \<Longrightarrow> 0 < k \<Longrightarrow>
   \<exists>q'. step_run k K oldhead m q h = Inr (m + length (take k xs), q') \<and> seg K oldhead h q (take k xs) q'
     \<and> seg K oldhead h q' (drop k xs) None"
proof (induction k arbitrary: q xs m)
  case (Suc k)
  then obtain x ys where xs: "xs = x # ys" "q = Some x" "h x \<noteq> None" "seg K oldhead h (nx K oldhead h x) ys None"
    by (cases xs) auto
  show ?case
  proof (cases "ys = [] \<or> k = 0")
    case True
    with xs show ?thesis by (cases k) (auto simp: sort_next_elem)
  next
    case False
    then have "nx K oldhead h x \<noteq> None" using xs(4) by (cases ys) auto
    with Suc.IH [OF xs(4), of "Suc m"] False xs show ?thesis by (auto simp: sort_next_elem)
  qed
qed simp

subsection \<open>The output of a pass\<close>

text \<open>The elements that have been linked so far; the \<open>next\<close> link of the last one is still what it
  was.\<close>

definition emitted :: "list_kind \<Rightarrow> lheap \<Rightarrow> nat option \<Rightarrow> nat option \<Rightarrow> nat list \<Rightarrow> bool" where
  "emitted K h list tail os \<longleftrightarrow> list = (if os = [] then None else Some (hd os))
     \<and> tail = (if os = [] then None else Some (last os)) \<and> (\<forall>x \<in> set os. h x \<noteq> None)
     \<and> (\<forall>i. Suc i < length os \<longrightarrow> next_of h (os ! i) = Some (os ! Suc i))
     \<and> (K \<noteq> LL \<longrightarrow> (\<forall>i < length os. prev_of h (os ! i) = (if i = 0 then None else Some (os ! (i - 1)))))"

lemma emitted_Nil: "emitted K h None None []"
  by (simp add: emitted_def)

text \<open>What a heap has kept when only the elements of \<open>A\<close> were linked anew: every \<open>next\<close> link
  outside \<open>B\<close>, and everything outside \<open>A\<close>.\<close>

definition kept :: "lheap \<Rightarrow> lheap \<Rightarrow> nat set \<Rightarrow> nat set \<Rightarrow> bool" where
  "kept h h' A B \<longleftrightarrow> (\<forall>x. x \<notin> A \<longrightarrow> h' x = h x) \<and> (\<forall>x. h' x = None \<longleftrightarrow> h x = None)
     \<and> (\<forall>x. x \<notin> B \<longrightarrow> next_of h' x = next_of h x)"

lemma kept_refl: "kept h h A B"
  by (simp add: kept_def)

lemma kept_trans: "kept h h1 A B \<Longrightarrow> kept h1 h2 A' B' \<Longrightarrow> A \<union> A' \<subseteq> C \<Longrightarrow> B \<union> B' \<subseteq> D \<Longrightarrow> kept h h2 C D"
  unfolding kept_def by (metis UnCI subsetD)

lemma seg_kept: "kept h h' A B \<Longrightarrow> set xs \<inter> B = {} \<Longrightarrow> seg K oldhead h p xs q \<Longrightarrow> seg K oldhead h' p xs q"
proof (induction xs arbitrary: p)
  case (Cons x xs)
  moreover have "nx K oldhead h' x = nx K oldhead h x" using Cons.prems(1,2) by (auto simp: kept_def nx_def)
  ultimately show ?case by (auto simp: kept_def)
qed simp

lemma sort_emit_emitted:
  assumes os: "emitted K h list tail os" and "distinct (os @ [e])" and "h e \<noteq> None"
  shows "\<exists>list' h'. sort_emit K (Some e) tail list h = Inr (list', h') \<and> emitted K h' list' (Some e) (os @ [e])
    \<and> kept h h' (set (os @ [e])) (set os)"
proof -
  obtain ce where ce: "h e = Some ce" using assms(3) by auto
  have e: "e \<notin> set os" "distinct os" using assms(2) by auto
  show ?thesis
  proof (cases "os = []")
    case True
    let ?h = "if K = LL then h else h(e \<mapsto> ce\<lparr>l_prev := None\<rparr>)"
    have "sort_emit K (Some e) tail list h = Inr (Some e, ?h)"
      using True os ce by (simp add: sort_emit_def emitted_def set_prev_def cell_at_def)
    moreover have "emitted K ?h (Some e) (Some e) (os @ [e])" using True ce by (simp add: emitted_def prev_of_def)
    moreover have "kept h ?h (set (os @ [e])) (set os)" using True ce by (simp add: kept_def next_of_def)
    ultimately show ?thesis by blast
  next
    case False
    define t where "t = last os"
    have t: "t \<in> set os" "tail = Some t" using False os by (simp_all add: t_def emitted_def)
    then obtain ct where ct: "h t = Some ct" using os by (auto simp: emitted_def)
    have te: "t \<noteq> e" using t(1) e(1) by auto
    let ?h1 = "h(t \<mapsto> ct\<lparr>l_next := Some e\<rparr>)"
    let ?h2 = "if K = LL then ?h1 else ?h1(e \<mapsto> ce\<lparr>l_prev := Some t\<rparr>)"
    have run: "sort_emit K (Some e) tail list h = Inr (list, ?h2)"
      using False t(2) ce ct te by (simp add: sort_emit_def set_prev_def set_next_def cell_at_def)
    have nxt: "next_of ?h2 x = (if x = t then Some e else next_of h x)" for x
      using ce te by (auto simp: next_of_def)
    have prv: "prev_of ?h2 x = (if x = e \<and> K \<noteq> LL then Some t else prev_of h x)" for x
      using ct te by (auto simp: prev_of_def)
    have idx: "os ! i = t \<longleftrightarrow> i = length os - 1" if "i < length os" for i
      using that False e(2) nth_eq_iff_index_eq [of os i "length os - 1"] by (auto simp: t_def last_conv_nth)
    have nlen: "0 < length os" using False by simp
    have "next_of ?h2 ((os @ [e]) ! i) = Some ((os @ [e]) ! Suc i)" if "Suc i < length (os @ [e])" for i
    proof (cases "Suc i < length os")
      case True
      then have "os ! i \<noteq> t" using idx [of i] by auto
      with True os show ?thesis unfolding nxt by (simp add: nth_append emitted_def)
    next
      case False
      with that have i: "Suc i = length os" by simp
      then have "os ! i = t" using idx [of i] by auto
      then show ?thesis unfolding nxt using i by (simp add: nth_append)
    qed
    moreover have "prev_of ?h2 ((os @ [e]) ! i) = (if i = 0 then None else Some ((os @ [e]) ! (i - 1)))"
      if "K \<noteq> LL" "i < length (os @ [e])" for i
    proof (cases "i < length os")
      case True
      then have "os ! i \<noteq> e" using e(1) nth_mem by metis
      with True os that show ?thesis unfolding prv by (auto simp: nth_append emitted_def)
    next
      case False
      with that have i: "i = length os" by simp
      with nlen that(1) \<open>os \<noteq> []\<close> show ?thesis unfolding prv by (simp add: nth_append t_def last_conv_nth)
    qed
    moreover have "\<forall>x \<in> set (os @ [e]). ?h2 x \<noteq> None" using os ce by (auto simp: emitted_def)
    ultimately have "emitted K ?h2 list (Some e) (os @ [e])"
      using False os unfolding emitted_def by (simp add: hd_append)
    moreover have "kept h ?h2 (set (os @ [e])) (set os)"
      unfolding kept_def using nxt t(1) ce ct by auto
    ultimately show ?thesis using run by blast
  qed
qed

lemma merge_runs_Nil2 [simp]: "merge_runs cmp ps [] = ps"
  by (cases ps) simp_all

text \<open>One turn of the loop takes the first element of one of the runs.\<close>

lemma merge_turn_p:
  assumes "takes_p cmp (length (x # ps)) k (Some x) q = Inr True" and "h x \<noteq> None"
    and "sort_emit K (Some x) tail list h = Inr (list', h')"
  shows "merge_loop K oldhead cmp (length (x # ps)) k (Some x) q list tail h =
    merge_loop K oldhead cmp (length ps) k (nx K oldhead h x) q list' (Some x) h'"
  using assms by (subst merge_loop.simps) (simp add: sort_next_elem)

lemma merge_turn_q:
  assumes "takes_p cmp m (Suc k) p (Some x) = Inr False" and "h x \<noteq> None"
    and "sort_emit K (Some x) tail list h = Inr (list', h')"
  shows "merge_loop K oldhead cmp m (Suc k) p (Some x) list tail h =
    merge_loop K oldhead cmp m k p (nx K oldhead h x) list' (Some x) h'"
  using assms by (subst merge_loop.simps) (simp add: sort_next_elem)

lemma merge_loop_merges:
  assumes "emitted K h list tail os" and "seg K oldhead h p ps r" and "seg K oldhead h q qs None"
    and "distinct (os @ ps @ qs)"
  shows "\<exists>q' list' tail' h'. merge_loop K oldhead cmp (length ps) k p q list tail h = Inr (q', list', tail', h')
    \<and> emitted K h' list' tail' (os @ merge_runs cmp ps (take k qs)) \<and> seg K oldhead h' q' (drop k qs) None
    \<and> kept h h' (set (os @ ps @ take k qs)) (set (os @ ps @ take k qs))"
  using assms
proof (induction "length ps + k" arbitrary: k ps qs p q list tail os h rule: less_induct)
  case less
  have take_p: ?case if "ps = x # ps'" "takes_p cmp (length ps) k p q = Inr True"
    "merge_runs cmp ps (take k qs) = x # merge_runs cmp ps' (take k qs)" for x ps'
  proof -
    have x: "p = Some x" "h x \<noteq> None" "seg K oldhead h (nx K oldhead h x) ps' r" using less.prems(2) that(1) by auto
    have "distinct (os @ [x])" using less.prems(4) that(1) by auto
    from sort_emit_emitted [OF less.prems(1) this x(2)] obtain list1 h1
      where e: "sort_emit K (Some x) tail list h = Inr (list1, h1)" "emitted K h1 list1 (Some x) (os @ [x])"
        "kept h h1 (set (os @ [x])) (set os)" by blast
    have s: "seg K oldhead h1 (nx K oldhead h x) ps' r" "seg K oldhead h1 q qs None"
      by (rule seg_kept [OF e(3) _ x(3)], use less.prems(4) that(1) in auto)
        (rule seg_kept [OF e(3) _ less.prems(3)], use less.prems(4) that(1) in auto)
    have lt: "length ps' + k < length ps + k" using that(1) by simp
    have d: "distinct ((os @ [x]) @ ps' @ qs)" using less.prems(4) that(1) by auto
    obtain q' list' tail' h' where
      "merge_loop K oldhead cmp (length ps') k (nx K oldhead h x) q list1 (Some x) h1 = Inr (q', list', tail', h')"
      "emitted K h' list' tail' ((os @ [x]) @ merge_runs cmp ps' (take k qs))" "seg K oldhead h' q' (drop k qs) None"
      "kept h1 h' (set ((os @ [x]) @ ps' @ take k qs)) (set ((os @ [x]) @ ps' @ take k qs))"
      using less.hyps [OF lt e(2) s d] by blast
    moreover from this(4) have "kept h h' (set (os @ ps @ take k qs)) (set (os @ ps @ take k qs))"
      by (rule kept_trans [OF e(3)]) (use that(1) in auto)
    moreover have "merge_loop K oldhead cmp (length ps) k p q list tail h =
        merge_loop K oldhead cmp (length ps') k (nx K oldhead h x) q list1 (Some x) h1"
      using merge_turn_p [OF _ x(2) e(1)] that(1,2) x(1) by simp
    ultimately show ?thesis using that(3) by simp
  qed
  have take_q: ?case if "qs = x # qs'" "k = Suc k'" "takes_p cmp (length ps) k p q = Inr False"
    "merge_runs cmp ps (take k qs) = x # merge_runs cmp ps (take k' qs')" for x qs' k'
  proof -
    have x: "q = Some x" "h x \<noteq> None" "seg K oldhead h (nx K oldhead h x) qs' None" using less.prems(3) that(1) by auto
    have "distinct (os @ [x])" using less.prems(4) that(1) by auto
    from sort_emit_emitted [OF less.prems(1) this x(2)] obtain list1 h1
      where e: "sort_emit K (Some x) tail list h = Inr (list1, h1)" "emitted K h1 list1 (Some x) (os @ [x])"
        "kept h h1 (set (os @ [x])) (set os)" by blast
    have s: "seg K oldhead h1 p ps r" "seg K oldhead h1 (nx K oldhead h x) qs' None"
      by (rule seg_kept [OF e(3) _ less.prems(2)], use less.prems(4) that(1) in auto)
        (rule seg_kept [OF e(3) _ x(3)], use less.prems(4) that(1) in auto)
    have lt: "length ps + k' < length ps + k" using that(2) by simp
    have d: "distinct ((os @ [x]) @ ps @ qs')" using less.prems(4) that(1) by auto
    obtain q' list' tail' h' where
      "merge_loop K oldhead cmp (length ps) k' p (nx K oldhead h x) list1 (Some x) h1 = Inr (q', list', tail', h')"
      "emitted K h' list' tail' ((os @ [x]) @ merge_runs cmp ps (take k' qs'))" "seg K oldhead h' q' (drop k' qs') None"
      "kept h1 h' (set ((os @ [x]) @ ps @ take k' qs')) (set ((os @ [x]) @ ps @ take k' qs'))"
      using less.hyps [OF lt e(2) s d] by blast
    moreover from this(4) have "kept h h' (set (os @ ps @ take k qs)) (set (os @ ps @ take k qs))"
      by (rule kept_trans [OF e(3)]) (use that(1,2) in auto)
    moreover have "merge_loop K oldhead cmp (length ps) k p q list tail h =
        merge_loop K oldhead cmp (length ps) k' p (nx K oldhead h x) list1 (Some x) h1"
      using merge_turn_q [OF _ x(2) e(1)] that(2,3) x(1) by simp
    ultimately show ?thesis using that(1,2,4) by simp
  qed
  show ?case
  proof (cases ps)
    case Nil
    show ?thesis
    proof (cases "k = 0 \<or> qs = []")
      case True
      then have "\<not> (0 < k \<and> q \<noteq> None)" using less.prems(3) by auto
      then have "merge_loop K oldhead cmp (length ps) k p q list tail h = Inr (q, list, tail, h)"
        using Nil by (subst merge_loop.simps) auto
      with True less.prems Nil show ?thesis by (auto simp: kept_refl)
    next
      case False
      then obtain x qs' k' where "qs = x # qs'" "k = Suc k'" by (metis neq_Nil_conv not0_implies_Suc)
      with take_q [of x qs' k'] Nil show ?thesis by (simp add: takes_p_def)
    qed
  next
    case (Cons x ps')
    then have p: "p = Some x" using less.prems(2) by simp
    show ?thesis
    proof (cases "k = 0 \<or> qs = []")
      case True
      then have "k = 0 \<or> q = None" using less.prems(3) by auto
      with True take_p [of x ps'] Cons show ?thesis by (auto simp: takes_p_def)
    next
      case False
      then obtain y qs' k' where y: "qs = y # qs'" "k = Suc k'" by (metis neq_Nil_conv not0_implies_Suc)
      then have q: "q = Some y" using less.prems(3) by simp
      show ?thesis
      proof (cases "cmp x y \<le> 0")
        case True
        with take_p [of x ps'] Cons y p q show ?thesis by (simp add: takes_p_def)
      next
        case False
        with take_q [of y qs' k'] Cons y p q show ?thesis by (simp add: takes_p_def)
      qed
    qed
  qed
qed

subsection \<open>A pass\<close>

function num_merges :: "nat \<Rightarrow> 'a list \<Rightarrow> nat" where
  "num_merges n xs = (if n = 0 \<or> xs = [] then 0 else Suc (num_merges n (drop (2 * n) xs)))"
  by pat_completeness auto
termination by (relation "measure (\<lambda>(n, xs). length xs)") auto

declare num_merges.simps [simp del]

lemma num_merges_one: "0 < n \<Longrightarrow> num_merges n xs \<le> 1 \<longleftrightarrow> length xs \<le> 2 * n"
  by (subst num_merges.simps, subst num_merges.simps) auto

lemma pass_loop_sorts:
  assumes "emitted K h list tail os" and "seg K oldhead h p xs None" and "distinct (os @ xs)" and "0 < n"
    and "length xs < f"
  shows "\<exists>list' tail' h'. pass_loop f K oldhead cmp n p list tail m h = Inr (list', tail', m + num_merges n xs, h')
    \<and> emitted K h' list' tail' (os @ sort_pass cmp n xs) \<and> kept h h' (set (os @ xs)) (set (os @ xs))"
  using assms
proof (induction f arbitrary: h list tail os p xs m)
  case (Suc f)
  show ?case
  proof (cases "xs = []")
    case True
    with Suc.prems(1,2) show ?thesis by (simp add: kept_refl num_merges.simps)
  next
    case False
    let ?t = "take n xs" and ?u = "take n (drop n xs)" and ?r = "drop (2 * n) xs"
    have xs: "?t @ ?u @ ?r = xs" by (metis append_take_drop_id drop_drop mult_2)
    have p: "p \<noteq> None" using Suc.prems(2) False by (cases xs) auto
    obtain q where q: "step_run n K oldhead 0 p h = Inr (length ?t, q)" "seg K oldhead h p ?t q"
      "seg K oldhead h q (drop n xs) None"
      using step_run_seg [OF Suc.prems(2) False Suc.prems(4), of 0] by auto
    have d: "distinct (os @ ?t @ drop n xs)" using Suc.prems(3) by simp
    obtain q1 list1 tail1 h1 where m: "merge_loop K oldhead cmp (length ?t) n p q list tail h = Inr (q1, list1, tail1, h1)"
      "emitted K h1 list1 tail1 (os @ merge_runs cmp ?t ?u)" "seg K oldhead h1 q1 (drop n (drop n xs)) None"
      "kept h h1 (set (os @ ?t @ ?u)) (set (os @ ?t @ ?u))"
      using merge_loop_merges [OF Suc.prems(1) q(2,3) d, of cmp n] by blast
    have r: "drop n (drop n xs) = ?r" by (simp add: mult_2)
    have "mset ((os @ merge_runs cmp ?t ?u) @ ?r) = mset (os @ ?t @ ?u @ ?r)" by simp
    then have "mset ((os @ merge_runs cmp ?t ?u) @ ?r) = mset (os @ xs)" unfolding xs .
    then have d1: "distinct ((os @ merge_runs cmp ?t ?u) @ ?r)"
      using Suc.prems(3) by (metis mset_eq_imp_distinct_iff)
    have lt: "length ?r < f" using False Suc.prems(4,5) by (cases xs) auto
    obtain list2 tail2 h2 where i: "pass_loop f K oldhead cmp n q1 list1 tail1 (m + 1) h1 =
        Inr (list2, tail2, m + 1 + num_merges n ?r, h2)"
      "emitted K h2 list2 tail2 ((os @ merge_runs cmp ?t ?u) @ sort_pass cmp n ?r)"
      "kept h1 h2 (set ((os @ merge_runs cmp ?t ?u) @ ?r)) (set ((os @ merge_runs cmp ?t ?u) @ ?r))"
      using Suc.IH [OF m(2) m(3) [unfolded r] d1 Suc.prems(4) lt] by blast
    have "set xs = set ?t \<union> set ?u \<union> set ?r" using arg_cong [OF xs, of set] by auto
    then have "kept h h2 (set (os @ xs)) (set (os @ xs))"
      by (intro kept_trans [OF m(4) i(3)]) auto
    moreover have "num_merges n xs = Suc (num_merges n ?r)"
      using False Suc.prems(4) by (subst num_merges.simps) simp
    moreover have "sort_pass cmp n xs = merge_runs cmp ?t ?u @ sort_pass cmp n ?r"
      by (rule sort_pass_step [OF Suc.prems(4) False])
    ultimately show ?thesis using p q(1) m(1) i(1,2) by simp
  qed
qed simp

text \<open>The end of a pass links the ends.\<close>

lemma sort_close_ok:
  assumes os: "emitted K h list tail os" and d: "distinct os" and ne: "os \<noteq> []"
  shows "\<exists>h'. sort_close K list tail h = Inr h' \<and> list_ok K h' list os \<and> (\<forall>x. x \<notin> set os \<longrightarrow> h' x = h x)"
proof -
  define a t where "a = hd os" and "t = last os"
  have at: "list = Some a" "tail = Some t" "a \<in> set os" "t \<in> set os"
    using os ne by (simp_all add: emitted_def a_def t_def)
  obtain ca ct where c: "h a = Some ca" "h t = Some ct" using os at(3,4) by (fastforce simp: emitted_def)
  let ?e = "if K = CDL then Some a else None"
  let ?h1 = "if K = LL then h else h(a \<mapsto> ca\<lparr>l_prev := Some t\<rparr>)"
  define c1 where "c1 = the (?h1 t)"
  have c1: "?h1 t = Some c1" "l_prev c1 = (if K \<noteq> LL \<and> t = a then Some t else l_prev ct)"
    using c by (auto simp: c1_def)
  let ?h2 = "?h1(t \<mapsto> c1\<lparr>l_next := ?e\<rparr>)"
  have run: "sort_close K list tail h = Inr ?h2"
    using at(1,2) c c1 by (cases K) (simp_all add: sort_close_def set_prev_def set_next_def cell_at_def)
  have nxt: "next_of ?h2 x = (if x = t then ?e else next_of h x)" for x
    using c by (auto simp: next_of_def)
  have prv: "prev_of ?h2 x = (if x = a \<and> K \<noteq> LL then Some t else prev_of h x)" for x
    using c c1 by (auto simp: prev_of_def)
  have ti: "os ! i = t \<longleftrightarrow> Suc i = length os" if "i < length os" for i
    using that ne d nth_eq_iff_index_eq [of os i "length os - 1"] by (auto simp: t_def last_conv_nth)
  have ai: "os ! i = a \<longleftrightarrow> i = 0" if "i < length os" for i
    using that ne d nth_eq_iff_index_eq [of os i 0] by (auto simp: a_def hd_conv_nth)
  have "next_of ?h2 (os ! i) = (if Suc i < length os then Some (os ! Suc i) else if K = CDL then Some (hd os) else None)"
    if "i < length os" for i
    unfolding nxt using ti [OF that] os that by (auto simp: emitted_def a_def)
  moreover have "prev_of ?h2 (os ! i) = Some (if i = 0 then last os else os ! (i - 1))" if "K \<noteq> LL" "i < length os" for i
    unfolding prv using ai [OF that(2)] os that by (auto simp: emitted_def t_def)
  moreover have "\<forall>x \<in> set os. ?h2 x \<noteq> None" using os by (auto simp: emitted_def)
  ultimately have "list_ok K ?h2 list os" using at(1) ne d by (simp add: list_ok_def a_def)
  moreover have "\<forall>x. x \<notin> set os \<longrightarrow> ?h2 x = h x" using at(3,4) by auto
  ultimately show ?thesis using run by blast
qed

subsection \<open>All passes\<close>

lemma sort_loop_sorts:
  assumes "list_ok K h list xs" and "xs \<noteq> []" and "0 < n" and "n = 1 \<or> n < length xs" and "length xs \<le> 2 ^ 30"
    and "length xs < turns" and "length xs \<le> 2 ^ f * n" and "0 < f"
  shows "\<exists>list' h'. sort_loop f turns K cmp n list h = Inr (list', h') \<and> list_ok K h' list' (sort_passes cmp n xs)
    \<and> (\<forall>x. x \<notin> set xs \<longrightarrow> h' x = h x)"
  using assms
proof (induction f arbitrary: h list xs n)
  case (Suc f)
  let ?ys = "sort_pass cmp n xs"
  have d: "distinct xs" and d': "distinct ?ys"
    using Suc.prems(1) mset_eq_imp_distinct_iff [OF mset_sort_pass [of cmp n xs]] by (simp_all add: list_ok_def)
  have "?ys \<noteq> []" using Suc.prems(2) by (metis length_0_conv length_sort_pass)
  obtain list1 tail1 h1 where p: "pass_loop turns K list cmp n list None None 0 h = Inr (list1, tail1, num_merges n xs, h1)"
    "emitted K h1 list1 tail1 ?ys" "kept h h1 (set xs) (set xs)"
    using pass_loop_sorts [OF emitted_Nil list_ok_seg [OF Suc.prems(1)] _ Suc.prems(3,6), of cmp 0] d by auto
  obtain h2 where c: "sort_close K list1 tail1 h1 = Inr h2" "list_ok K h2 list1 ?ys" "\<forall>x. x \<notin> set xs \<longrightarrow> h2 x = h1 x"
    using sort_close_ok [OF p(2) d' \<open>?ys \<noteq> []\<close>] by auto
  have frame: "\<forall>x. x \<notin> set xs \<longrightarrow> h2 x = h x" using c(3) p(3) by (simp add: kept_def)
  have "\<not> INT_MAX < 2 * int n" using Suc.prems(4,5) by (auto simp: INT_MAX_def)
  then have step: "sort_loop (Suc f) turns K cmp n list h =
      (if length xs \<le> 2 * n then Inr (list1, h2) else sort_loop f turns K cmp (n * 2) list1 h2)"
    using p(1) c(1) num_merges_one [OF Suc.prems(3), of xs] by simp
  show ?case
  proof (cases "length xs \<le> 2 * n")
    case True
    with step c(2) frame show ?thesis by (simp add: sort_passes.simps [of cmp n xs])
  next
    case False
    then have "0 < f" using Suc.prems(7) by (cases f) auto
    moreover have "length ?ys \<le> 2 ^ f * (n * 2)" using Suc.prems(7) by simp
    ultimately obtain list' h' where "sort_loop f turns K cmp (n * 2) list1 h2 = Inr (list', h')"
      "list_ok K h' list' (sort_passes cmp (n * 2) ?ys)" "\<forall>x. x \<notin> set ?ys \<longrightarrow> h' x = h2 x"
      using Suc.IH [OF c(2) \<open>?ys \<noteq> []\<close>, of "n * 2"] Suc.prems(3,5,6) False by auto
    with step False frame Suc.prems(3) show ?thesis by (simp add: sort_passes.simps [of cmp n xs] mult.commute)
  qed
qed simp

lemma list_sort_sorts:
  assumes "list_ok K h list xs" and "orders cmp (set xs)" and "length xs \<le> 2 ^ 30" and "length xs < turns"
  shows "\<exists>list' h' ys. list_sort K turns cmp list h = Inr (list', h') \<and> list_ok K h' list' ys
    \<and> ordered cmp ys \<and> mset ys = mset xs \<and> (\<forall>a \<in> set xs. filter (alike cmp a) ys = filter (alike cmp a) xs)
    \<and> (\<forall>x. x \<notin> set xs \<longrightarrow> h' x = h x)"
proof (cases "xs = []")
  case True
  with assms(1) show ?thesis by (auto simp: list_sort_def list_ok_def)
next
  case False
  have "length xs \<le> 2 ^ turns * 1" using assms(4) less_exp [of turns] by linarith
  moreover have "0 < turns" using assms(4) by simp
  ultimately obtain list' h' where l: "sort_loop turns turns K cmp 1 list h = Inr (list', h')"
    "list_ok K h' list' (sort_passes cmp 1 xs)" "\<forall>x. x \<notin> set xs \<longrightarrow> h' x = h x"
    using sort_loop_sorts [OF assms(1) False zero_less_one _ assms(3,4), of turns cmp] by blast
  have "list_sort K turns cmp list h = Inr (list', h')"
    using assms(1) False l(1) by (simp add: list_sort_def list_ok_def)
  with l(2,3) sort_passes_sorts [OF zero_less_one assms(2) runs_1] show ?thesis by blast
qed

text \<open>
  C33: the three sorts: a singly linked, doubly linked or circular list of at most \<open>2 ^ 30\<close> elements is
  turned, by changes to the links of its own elements only, into a list of the same kind (both ends
  and all backward links included) that holds the same elements in the order of the comparison,
  those that compare equal in the order they had; and the loops end.
\<close>

theorem utlist_sorts:
  assumes "list_ok K h list xs" and "orders cmp (set xs)" and "length xs \<le> 2 ^ 30" and "length xs < turns"
  shows "\<exists>list' h' ys. (case K of LL \<Rightarrow> LL_SORT | DL \<Rightarrow> DL_SORT | CDL \<Rightarrow> CDL_SORT) turns cmp list h = Inr (list', h')
    \<and> list_ok K h' list' ys \<and> ordered cmp ys \<and> mset ys = mset xs
    \<and> (\<forall>a \<in> set xs. filter (alike cmp a) ys = filter (alike cmp a) xs) \<and> (\<forall>x. x \<notin> set xs \<longrightarrow> h' x = h x)"
  using list_sort_sorts [OF assms] by (cases K) (simp_all add: LL_SORT_def DL_SORT_def CDL_SORT_def)

definition sample_list :: lheap where
  "sample_list = Map.empty(5 \<mapsto> \<lparr>l_next = Some 2, l_prev = Some 9\<rparr>, 2 \<mapsto> \<lparr>l_next = Some 9, l_prev = Some 5\<rparr>,
     9 \<mapsto> \<lparr>l_next = Some 5, l_prev = Some 2\<rparr>)"

lemma sample_list_ok: "list_ok CDL sample_list (Some 5) [5, 2, 9]"
  by (auto simp: list_ok_def sample_list_def next_of_def prev_of_def less_Suc_eq numeral_eq_Suc)

lemma utlist_sorts_witness:
  "\<exists>list' h' ys. CDL_SORT 4 (\<lambda>a b. int a - int b) (Some 5) sample_list = Inr (list', h')
    \<and> list_ok CDL h' list' ys \<and> ordered (\<lambda>a b. int a - int b) ys \<and> mset ys = {#2, 5, 9#}"
proof -
  have "orders (\<lambda>a b. int a - int b) (set [5, 2, 9 :: nat])" by (auto simp: orders_def)
  from utlist_sorts [OF sample_list_ok this, of 4] show ?thesis by (auto simp: add_mset_commute)
qed

end
