(* ===== verification/UtString.thy ===== *)
theory UtString
  imports PrintBuf Flush
begin

text \<open>
  The growing string in which the flush thread collects what it sends to Graphite
  (\<^verbatim>\<open>utstring.h\<close>; the searches of that file are in \<open>UtStringFind\<close>). Sizes
  are \<^verbatim>\<open>size_t\<close>, words of 64 bits; a byte that was allocated and not written is
  \<open>None\<close>; the text that a format and its arguments make is an argument. A failing allocation
  ends the program and is not modelled. The lemmas relate the string to the text appended to it,
  which is what \<open>Flush\<close> keeps.
\<close>

record UT_string =
  us_d :: "char option list"
  us_n :: "64 word"
  us_i :: "64 word"

definition put_bytes :: "nat \<Rightarrow> char option list \<Rightarrow> char option list \<Rightarrow> char option list res" where
  "put_bytes pos bs b = (if length b < pos + length bs then Inl Buffer_Overflow
     else Inr (take pos b @ bs @ drop (pos + length bs) b))"

text \<open>\<^verbatim>\<open>realloc\<close> keeps the bytes that fit; those it adds are not written.\<close>

definition realloc_bytes :: "nat \<Rightarrow> char option list \<Rightarrow> char option list" where
  "realloc_bytes n b = take n (b @ replicate (n - length b) None)"

definition utstring_reserve :: "UT_string \<Rightarrow> 64 word \<Rightarrow> UT_string" where
  "utstring_reserve s amt =
     (if us_n s - us_i s < amt
      then s\<lparr>us_d := realloc_bytes (unat (us_n s + amt)) (us_d s), us_n := us_n s + amt\<rparr>
      else s)"

definition utstring_init :: "UT_string res" where
  "utstring_init =
     (let s = utstring_reserve \<lparr>us_d = [], us_n = 0, us_i = 0\<rparr> 100
      in rbind (put_bytes 0 [Some (CHR 0x00)] (us_d s)) (\<lambda>d. Inr (s\<lparr>us_d := d\<rparr>)))"

definition utstring_new :: "UT_string res" where
  "utstring_new = utstring_init"

definition utstring_done :: "UT_string \<Rightarrow> UT_string" where
  "utstring_done s = s\<lparr>us_d := [], us_n := 0\<rparr>"

definition utstring_clear :: "UT_string \<Rightarrow> UT_string res" where
  "utstring_clear s = rbind (put_bytes 0 [Some (CHR 0x00)] (us_d s)) (\<lambda>d. Inr (s\<lparr>us_i := 0, us_d := d\<rparr>))"

text \<open>The argument is the null pointer or a string.\<close>

definition utstring_renew :: "UT_string option \<Rightarrow> UT_string res" where
  "utstring_renew s = (case s of Some s \<Rightarrow> utstring_clear s | None \<Rightarrow> utstring_new)"

text \<open>The macros \<^verbatim>\<open>utstring_bincpy\<close> and \<^verbatim>\<open>utstring_concat\<close> append a
  block of bytes and a terminator.\<close>

definition append_bytes :: "UT_string \<Rightarrow> char option list \<Rightarrow> 64 word \<Rightarrow> UT_string res" where
  "append_bytes s b l =
     (let s = utstring_reserve s (l + 1)
      in rbind (if l \<noteq> 0 then put_bytes (unat (us_i s)) b (us_d s) else Inr (us_d s)) (\<lambda>d.
         let i = us_i s + l
         in rbind (put_bytes (unat i) [Some (CHR 0x00)] d) (\<lambda>d. Inr (s\<lparr>us_d := d, us_i := i\<rparr>))))"

definition utstring_bincpy :: "UT_string \<Rightarrow> char list \<Rightarrow> UT_string res" where
  "utstring_bincpy s b = append_bytes s (map Some b) (of_nat (length b))"

definition utstring_concat :: "UT_string \<Rightarrow> UT_string \<Rightarrow> UT_string res" where
  "utstring_concat dst src = append_bytes dst (take (unat (us_i src)) (us_d src)) (us_i src)"

definition utstring_len :: "UT_string \<Rightarrow> 32 word" where
  "utstring_len s = ucast (us_i s)"

definition utstring_body :: "UT_string \<Rightarrow> char option list" where
  "utstring_body s = us_d s"

subsection \<open>Formatted output\<close>

text \<open>\<^verbatim>\<open>vsnprintf\<close> into \<open>room\<close> bytes at a position: the bytes, and its result, which
  is negative when the length is no \<^verbatim>\<open>int\<close>.\<close>

definition vsnprintf_at :: "nat \<Rightarrow> nat \<Rightarrow> cstring \<Rightarrow> char option list \<Rightarrow> (char option list \<times> int) res" where
  "vsnprintf_at pos room txt b =
     (if INT_MAX < int (length txt) then Inr (b, -1)
      else if room = 0 then Inr (b, int (length txt))
      else rbind (put_bytes pos (map Some (take (room - 1) txt @ [CHR 0x00])) b) (\<lambda>b.
           Inr (b, int (length txt))))"

text \<open>The loop of \<^verbatim>\<open>utstring_printf_va\<close>: a text that does not fit is printed again
  after more room was made.\<close>

fun printf_loop :: "nat \<Rightarrow> UT_string \<Rightarrow> cstring \<Rightarrow> UT_string res" where
  "printf_loop 0 s txt = Inl Endless_Loop"
| "printf_loop (Suc f) s txt =
     rbind (vsnprintf_at (unat (us_i s)) (unat (us_n s - us_i s)) txt (us_d s)) (\<lambda>(d, n).
     let s = s\<lparr>us_d := d\<rparr>
     in if -1 < n \<and> word_of_int n < us_n s - us_i s then Inr (s\<lparr>us_i := us_i s + word_of_int n\<rparr>)
        else if -1 < n
        then if n = INT_MAX then Inl Signed_Overflow
             else printf_loop f (utstring_reserve s (word_of_int (n + 1))) txt
        else printf_loop f (utstring_reserve s (us_n s * 2)) txt)"

text \<open>\<open>turns\<close> bounds the turns of the loop: two are enough, and more change nothing
  (\<open>utstring_printf_holds\<close>); a text too long for an \<^verbatim>\<open>int\<close> is not printed in any
  number of turns.\<close>

definition utstring_printf :: "nat \<Rightarrow> UT_string \<Rightarrow> cstring \<Rightarrow> UT_string res" where
  "utstring_printf turns s txt = printf_loop turns s txt"

lemma printf_too_long: "INT_MAX < int (length txt) \<Longrightarrow> printf_loop f s txt = Inl Endless_Loop"
  by (induction f arbitrary: s) (simp_all add: vsnprintf_at_def)

subsection \<open>A string that holds a text\<close>

text \<open>The text is there, with room for a terminator; the terminator is there too.\<close>

definition us_text :: "UT_string \<Rightarrow> string \<Rightarrow> bool" where
  "us_text s t \<longleftrightarrow> length (us_d s) = unat (us_n s) \<and> unat (us_i s) = length t
     \<and> length t < unat (us_n s) \<and> take (length t) (us_d s) = map Some t"

definition us_holds :: "UT_string \<Rightarrow> string \<Rightarrow> bool" where
  "us_holds s t \<longleftrightarrow> us_text s t \<and> us_d s ! length t = Some (CHR 0x00)"

lemma us_textD:
  assumes "us_text s t"
  shows "length (us_d s) = unat (us_n s)" "unat (us_i s) = length t" "length t < unat (us_n s)"
    "take (length t) (us_d s) = map Some t" "unat (us_n s - us_i s) = unat (us_n s) - length t"
proof -
  show d: "length (us_d s) = unat (us_n s)" "unat (us_i s) = length t" "length t < unat (us_n s)"
    and "take (length t) (us_d s) = map Some t"
    using assms by (simp_all add: us_text_def)
  have "us_i s \<le> us_n s" using d by (simp add: word_le_nat_alt)
  with d show "unat (us_n s - us_i s) = unat (us_n s) - length t" by (simp add: unat_sub)
qed

lemma unat_of_nat_64: "n < 2 ^ 64 \<Longrightarrow> unat (of_nat n :: 64 word) = n"
  by (simp add: unat_of_nat take_bit_nat_eq_self)

text \<open>Room is made for \<open>m\<close> bytes.\<close>

lemma utstring_reserve_text:
  assumes "us_text s t" and "length t + m < 2 ^ 62"
  shows "us_text (utstring_reserve s (of_nat m)) t
    \<and> m \<le> unat (us_n (utstring_reserve s (of_nat m))) - length t"
proof (cases "us_n s - us_i s < of_nat m")
  case False
  then show ?thesis
    using assms us_textD(5) [OF assms(1)] unat_of_nat_64 [of m]
    by (simp add: utstring_reserve_def word_less_nat_alt not_less)
next
  case True
  note d = us_textD [OF assms(1)]
  have m: "unat (of_nat m :: 64 word) = m" using assms(2) by (intro unat_of_nat_64) simp
  with True d(5) have l: "unat (us_n s) - length t < m" by (simp add: word_less_nat_alt)
  then have "unat (us_n s) + m < 2 ^ 64" using assms(2) d(3) by simp
  then have n: "unat (us_n s + of_nat m) = unat (us_n s) + m"
    using m by (subst unat_add_lem [THEN iffD1]) simp_all
  have "take (length t) (realloc_bytes (unat (us_n s) + m) (us_d s)) = take (length t) (us_d s)"
    using d(1,3) by (simp add: realloc_bytes_def min_def)
  with True d n show ?thesis
    by (simp add: utstring_reserve_def us_text_def realloc_bytes_def)
qed

lemma put_bytes_ok: "pos + length bs \<le> length b \<Longrightarrow> put_bytes pos bs b = Inr (take pos b @ bs @ drop (pos + length bs) b)"
  by (simp add: put_bytes_def)

text \<open>The bytes after a text is appended with its terminator.\<close>

definition appended :: "UT_string \<Rightarrow> string \<Rightarrow> string \<Rightarrow> UT_string" where
  "appended s t u = s\<lparr>us_d := take (length t) (us_d s) @ map Some (u @ [CHR 0x00]) @ drop (length t + length u + 1) (us_d s),
     us_i := us_i s + of_nat (length u)\<rparr>"

lemma appended_holds:
  assumes "us_text s t" and "length t + length u < unat (us_n s)"
  shows "us_holds (appended s t u) (t @ u)"
proof -
  note h = us_textD [OF assms(1)]
  have "unat (us_n s) < 2 ^ 64" using unsigned_less [of "us_n s"] by simp
  with assms(2) have "unat (us_i s + of_nat (length u)) = length t + length u"
    using h(2) unat_of_nat_64 [of "length u"] by (subst unat_add_lem [THEN iffD1]) simp_all
  with assms(2) h show ?thesis by (simp add: us_holds_def us_text_def appended_def nth_append)
qed

lemma utstring_new_holds: "\<exists>s. utstring_new = Inr s \<and> us_holds s []"
  by (simp add: utstring_new_def utstring_init_def utstring_reserve_def Let_def put_bytes_def
      realloc_bytes_def us_holds_def us_text_def)

lemma utstring_clear_holds: "us_text s t \<Longrightarrow> \<exists>s'. utstring_clear s = Inr s' \<and> us_holds s' []"
  by (cases "us_d s") (auto simp: us_holds_def us_text_def utstring_clear_def put_bytes_def)

lemma append_bytes_holds:
  assumes "us_text s t" and "length t + length u < 2 ^ 61"
  shows "\<exists>s'. append_bytes s (map Some u) (of_nat (length u)) = Inr s' \<and> us_holds s' (t @ u)"
proof -
  define r where "r = utstring_reserve s (of_nat (length u) + 1)"
  have r: "us_text r t" "Suc (length u) \<le> unat (us_n r) - length t"
    using utstring_reserve_text [OF assms(1), of "Suc (length u)"] assms(2)
    by (simp_all add: r_def add.commute)
  note d = us_textD [OF r(1)]
  have room: "length t + length u < unat (us_n r)" using r(2) d(3) by simp
  have h: "us_holds (appended r t u) (t @ u)" by (rule appended_holds [OF r(1) room])
  then have i: "unat (us_i r + of_nat (length u)) = length t + length u"
    by (simp add: us_holds_def us_text_def appended_def)
  have u0: "(of_nat (length u) :: 64 word) = 0 \<longleftrightarrow> u = []"
    using assms(2) unat_of_nat_64 [of "length u"] unat_eq_zero [of "of_nat (length u) :: 64 word"] by simp
  have "append_bytes s (map Some u) (of_nat (length u)) = Inr (appended r t u)"
  proof (cases "u = []")
    case True
    with r_def have "utstring_reserve s 1 = r" by simp
    with True d(1,2) room i show ?thesis by (simp add: append_bytes_def put_bytes_ok appended_def)
  next
    case False
    with d(1,2) room i u0 show ?thesis
      by (simp add: append_bytes_def r_def [symmetric] Let_def put_bytes_ok appended_def)
  qed
  with h show ?thesis by blast
qed

lemma utstring_bincpy_holds:
  "us_text s t \<Longrightarrow> length t + length u < 2 ^ 61 \<Longrightarrow>
   \<exists>s'. utstring_bincpy s u = Inr s' \<and> us_holds s' (t @ u)"
  unfolding utstring_bincpy_def by (rule append_bytes_holds)

lemma utstring_concat_holds:
  assumes "us_text s t" and "us_text r u" and "length t + length u < 2 ^ 61"
  shows "\<exists>s'. utstring_concat s r = Inr s' \<and> us_holds s' (t @ u)"
proof -
  have "us_i r = of_nat (length u)" using us_textD(2) [OF assms(2)] by (metis of_nat_unat ucast_id)
  moreover have "take (unat (us_i r)) (us_d r) = map Some u"
    using us_textD(2,4) [OF assms(2)] by simp
  ultimately show ?thesis using append_bytes_holds [OF assms(1,3)] by (simp add: utstring_concat_def)
qed

text \<open>A turn of the loop: the text fits and is there; or it does not, and the string still ends in
  the text it had, with some of the new bytes over its terminator.\<close>

lemma printf_loop_fits:
  assumes "us_text s t" and "length u < unat (us_n s) - length t" and "int (length u) \<le> INT_MAX"
  shows "\<exists>s'. printf_loop (Suc f) s u = Inr s' \<and> us_holds s' (t @ u)"
proof -
  note h = us_textD [OF assms(1)]
  have u: "unat (of_nat (length u) :: 64 word) = length u"
    using assms(3) by (intro unat_of_nat_64) (simp add: INT_MAX_def)
  have "vsnprintf_at (length t) (unat (us_n s) - length t) u (us_d s) =
      Inr (us_d (appended s t u), int (length u))"
    using assms(2,3) h(1) by (simp add: vsnprintf_at_def put_bytes_ok appended_def)
  then have "printf_loop (Suc f) s u = Inr (appended s t u)"
    using h(2,5) assms(2) u by (simp add: word_less_nat_alt appended_def)
  moreover have "us_holds (appended s t u) (t @ u)"
    using assms(2) by (intro appended_holds [OF assms(1)]) simp
  ultimately show ?thesis by blast
qed

lemma printf_loop_again:
  assumes "us_text s t" and "unat (us_n s) - length t \<le> length u" and "int (length u) < INT_MAX"
  shows "\<exists>s'. printf_loop (Suc f) s u = printf_loop f (utstring_reserve s' (of_nat (Suc (length u)))) u
    \<and> us_text s' t"
proof -
  note h = us_textD [OF assms(1)]
  let ?bs = "map Some (take (unat (us_n s) - length t - 1) u @ [CHR 0x00])"
  let ?s = "s\<lparr>us_d := take (length t) (us_d s) @ ?bs\<rparr>"
  have u: "unat (of_nat (length u) :: 64 word) = length u"
    using assms(3) by (intro unat_of_nat_64) (simp add: INT_MAX_def)
  have l: "length t + length ?bs = length (us_d s)" using h(1,3) assms(2) by simp
  then have "vsnprintf_at (length t) (unat (us_n s) - length t) u (us_d s) =
      Inr (us_d ?s, int (length u))"
    using assms(3) h(3) by (simp add: vsnprintf_at_def put_bytes_ok)
  then have "printf_loop (Suc f) s u = printf_loop f (utstring_reserve ?s (of_nat (Suc (length u)))) u"
    using h(2,5) assms(2,3) u by (simp add: word_less_nat_alt add.commute)
  moreover have "us_text ?s t" using h l by (simp add: us_text_def)
  ultimately show ?thesis by blast
qed

lemma utstring_printf_holds:
  assumes "us_text s t" and "length t < 2 ^ 61" and "int (length u) < INT_MAX"
  shows "\<exists>s'. utstring_printf (Suc (Suc f)) s u = Inr s' \<and> us_holds s' (t @ u)"
proof (cases "length u < unat (us_n s) - length t")
  case True
  with printf_loop_fits [OF assms(1) _ less_imp_le [OF assms(3)]] show ?thesis
    unfolding utstring_printf_def by blast
next
  case False
  then obtain s1 where s1: "utstring_printf (Suc (Suc f)) s u =
      printf_loop (Suc f) (utstring_reserve s1 (of_nat (Suc (length u)))) u" "us_text s1 t"
    using printf_loop_again [OF assms(1) _ assms(3), of "Suc f"] unfolding utstring_printf_def by auto
  have l: "length t + Suc (length u) < 2 ^ 62" using assms(2,3) by (simp add: INT_MAX_def)
  have "length u < unat (us_n (utstring_reserve s1 (of_nat (Suc (length u))))) - length t"
    using utstring_reserve_text [OF s1(2) l] by linarith
  from printf_loop_fits [OF _ this less_imp_le [OF assms(3)]] utstring_reserve_text [OF s1(2) l] s1(1)
  show ?thesis by metis
qed

text \<open>The string is a sink of text like the print buffer, up to the greatest
  \<^verbatim>\<open>int\<close>, given two turns or more.\<close>

interpretation us: text_sink "utstring_printf (Suc (Suc f))" us_holds "2 ^ 31 - 1" for f
proof unfold_locales
  fix s :: UT_string and t u :: string
  assume "us_holds s t" and "length t + length u < 2 ^ 31 - 1"
  then show "\<exists>s'. utstring_printf (Suc (Suc f)) s u = Inr s' \<and> us_holds s' (t @ u)"
    by (intro utstring_printf_holds) (simp_all add: us_holds_def INT_MAX_def)
qed

lemma us_holds_body: "us_holds s t \<Longrightarrow> is_cstring t \<Longrightarrow> cstr_at (utstring_body s) = Some t"
proof -
  assume h: "us_holds s t" and t: "is_cstring t"
  then have "us_d s = map Some t @ Some (CHR 0x00) # drop (Suc (length t)) (us_d s)"
    unfolding us_holds_def us_text_def by (metis Cons_nth_drop_Suc append_take_drop_id)
  then show ?thesis unfolding utstring_body_def using cstr_at_text [OF t] by metis
qed

lemma us_holds_len: "us_holds s t \<Longrightarrow> unat (utstring_len s) = length t mod 2 ^ 32"
  by (simp add: us_holds_def us_text_def utstring_len_def unsigned_ucast_eq take_bit_eq_mod)

text \<open>
  C30: the string of a flush implements the text the model of the flush thread keeps: a new one
  to which any pieces are printed, fewer than \<open>2 ^ 31 - 1\<close> bytes together and none of them zero,
  never writes past the bytes allocated, whatever the sizes of the pieces; each is printed after two
  turns of the loop at most. Its body reads, up to the terminator, as the pieces one after the other,
  its length is theirs, and clearing it leaves the empty text. A piece too long for an
  \<^verbatim>\<open>int\<close> is not printed in any number of turns.
\<close>

theorem utstring_implements_text:
  assumes "length (concat ps) < 2 ^ 31 - 1" and "is_cstring (concat ps)" and "statString st = []"
    and "2 \<le> turns"
  shows "\<exists>s0 s c. utstring_new = Inr s0 \<and> rfold (\<lambda>t s. utstring_printf turns s t) ps s0 = Inr s
    \<and> cstr_at (utstring_body s) = Some (statString (fold put_text ps st))
    \<and> unat (utstring_len s) = length (statString (fold put_text ps st))
    \<and> utstring_clear s = Inr c \<and> cstr_at (utstring_body c) = Some []
    \<and> (\<forall>u n. INT_MAX < int (length u) \<longrightarrow> utstring_printf n s u = Inl Endless_Loop)"
proof -
  obtain f where f: "turns = Suc (Suc f)" using assms(4) by (auto dest!: le_Suc_ex)
  obtain s0 where s0: "utstring_new = Inr s0" "us_holds s0 []" using utstring_new_holds by blast
  then obtain s where s: "rfold (\<lambda>t s. utstring_printf turns s t) ps s0 = Inr s" "us_holds s (concat ps)"
    using us.appends [of s0 "[]" ps f] assms(1) f by auto
  then obtain c where c: "utstring_clear s = Inr c" "us_holds c []"
    using utstring_clear_holds [of s "concat ps"] by (auto simp: us_holds_def)
  have "statString (fold put_text ps st) = statString st @ concat ps" for st
    by (induction ps arbitrary: st) (simp_all add: put_text_def)
  with s0 s c assms us_holds_body [OF s(2)] us_holds_body [OF c(2)] us_holds_len [OF s(2)] show ?thesis
    by (auto simp: utstring_printf_def printf_too_long)
qed

lemma utstring_implements_text_witness:
  "\<exists>s0 s c. utstring_new = Inr s0
    \<and> rfold (\<lambda>t s. utstring_printf 2 s t) [''stats.a 1'', replicate 300 (CHR ''b'')] s0 = Inr s
    \<and> cstr_at (utstring_body s) = Some (''stats.a 1'' @ replicate 300 (CHR ''b''))
    \<and> utstring_clear s = Inr c \<and> cstr_at (utstring_body c) = Some []"
  using utstring_implements_text [of "[''stats.a 1'', replicate 300 (CHR ''b'')]"
      "\<lparr>fdaemon = daemon_init, statString = [], gmsgs = [], numStats = 0\<rparr>" 2]
  by (auto simp: is_cstring_def put_text_def)

end
