(* ===== verification/Kmp.thy ===== *)
theory Kmp
  imports CNum "HOL-Library.Sublist"
begin

text \<open>
  The searches of \<^verbatim>\<open>utstring.h\<close> on any haystack: the Knuth-Morris-Pratt tables
  from the left and from the right, and the two searches that use them (\<open>UtStringFind\<close> has the
  functions that apply them to a string). A table is what \<^verbatim>\<open>malloc\<close>
  returns, so a cell that was not written is \<open>None\<close>. The loop that falls back in the table may
  turn as often as the needle is long and once more, since every cell points at a smaller index.

  The lemmas show that the searches return the first and the last occurrence. Those from the right
  are the mirror images of those from the left, which is how their proof goes.
\<close>

definition cell :: "'a option list \<Rightarrow> int \<Rightarrow> 'a res" where
  "cell xs k = (if 0 \<le> k \<and> k < int (length xs)
     then (case xs ! nat k of Some x \<Rightarrow> Inr x | None \<Rightarrow> Inl Uninitialised) else Inl Out_Of_Bounds)"

definition elt :: "'a list \<Rightarrow> int \<Rightarrow> 'a res" where
  "elt xs k = (if 0 \<le> k \<and> k < int (length xs) then Inr (xs ! nat k) else Inl Out_Of_Bounds)"

definition set_cell :: "'a option list \<Rightarrow> int \<Rightarrow> 'a \<Rightarrow> 'a option list res" where
  "set_cell xs k x = (if 0 \<le> k \<and> k < int (length xs) then Inr (xs[nat k := Some x]) else Inl Buffer_Overflow)"

subsection \<open>From the left\<close>

text \<open>\<^verbatim>\<open>while ((j > -1) && (c != P_Needle[j])) j = P_KMP_Table[j];\<close>\<close>

fun fall_back :: "nat \<Rightarrow> char list \<Rightarrow> int option list \<Rightarrow> char res \<Rightarrow> int \<Rightarrow> int res" where
  "fall_back 0 nd T c j = Inl Endless_Loop"
| "fall_back (Suc f) nd T c j =
     (if -1 < j
      then rbind c (\<lambda>a. rbind (elt nd j) (\<lambda>b.
           if a \<noteq> b then rbind (cell T j) (\<lambda>j. fall_back f nd T c j) else Inr j))
      else Inr j)"

function build_loop :: "char list \<Rightarrow> int option list \<Rightarrow> int \<Rightarrow> int \<Rightarrow> int option list res" where
  "build_loop nd T i j =
     (if i < int (length nd)
      then rbind (fall_back (length nd + 2) nd T (elt nd i) j) (\<lambda>j.
           let i' = i + 1; j = j + 1
           in rbind (if i' < int (length nd)
                then rbind (elt nd i') (\<lambda>a. rbind (elt nd j) (\<lambda>b.
                     if a = b then rbind (cell T j) (set_cell T i') else set_cell T i' j))
                else set_cell T i' j) (\<lambda>T. build_loop nd T i' j))
      else Inr T)"
  by pat_completeness auto
termination by (relation "measure (\<lambda>(nd, T, i, j). nat (int (length nd) - i))") auto

definition utstring_BuildTable :: "char list \<Rightarrow> int option list \<Rightarrow> int option list res" where
  "utstring_BuildTable nd T = rbind (set_cell T 0 (-1)) (\<lambda>T. build_loop nd T 0 (-1))"

text \<open>\<open>hay k\<close> is the byte of the haystack at \<open>k\<close>, \<open>H\<close> its length, which is cut to an
  \<^verbatim>\<open>int\<close> in the comparison.\<close>

function find_loop :: "(int \<Rightarrow> char res) \<Rightarrow> int \<Rightarrow> char list \<Rightarrow> int option list \<Rightarrow> int \<Rightarrow> int \<Rightarrow> int res" where
  "find_loop hay H nd T i j =
     (if j < to_int32 H \<and> int (length nd) \<le> (H - j + i) mod 2 ^ 64
      then rbind (fall_back (length nd + 2) nd T (hay j) i) (\<lambda>i.
           let i = i + 1; j' = j + 1
           in if to_int32 (int (length nd)) \<le> i then Inr (j' - i) else find_loop hay H nd T i j')
      else Inr (-1))"
  by pat_completeness auto
termination by (relation "measure (\<lambda>(hay, H, nd, T, i, j). nat (to_int32 H - j))") auto

definition utstring_find_in :: "(int \<Rightarrow> char res) \<Rightarrow> int \<Rightarrow> char list \<Rightarrow> int option list \<Rightarrow> int res" where
  "utstring_find_in hay H nd T = find_loop hay H nd T 0 0"

subsection \<open>From the right\<close>

text \<open>\<open>m\<close> is the length of the needle, which the search cuts to an \<^verbatim>\<open>int\<close> and
  the table does not.\<close>

fun fall_back_R :: "nat \<Rightarrow> int \<Rightarrow> char list \<Rightarrow> int option list \<Rightarrow> char res \<Rightarrow> int \<Rightarrow> int res" where
  "fall_back_R 0 m nd T c j = Inl Endless_Loop"
| "fall_back_R (Suc f) m nd T c j =
     (if j < m
      then rbind c (\<lambda>a. rbind (elt nd j) (\<lambda>b.
           if a \<noteq> b then rbind (cell T (j + 1)) (\<lambda>j. fall_back_R f m nd T c j) else Inr j))
      else Inr j)"

function build_loop_R :: "char list \<Rightarrow> int option list \<Rightarrow> int \<Rightarrow> int \<Rightarrow> int option list res" where
  "build_loop_R nd T i j =
     (if 0 \<le> i
      then rbind (fall_back_R (length nd + 2) (int (length nd)) nd T (elt nd i) j) (\<lambda>j.
           let i' = i - 1; j = j - 1
           in rbind (if 0 \<le> i'
                then rbind (elt nd i') (\<lambda>a. rbind (elt nd j) (\<lambda>b.
                     if a = b then rbind (cell T (j + 1)) (set_cell T (i' + 1)) else set_cell T (i' + 1) j))
                else set_cell T (i' + 1) j) (\<lambda>T. build_loop_R nd T i' j))
      else Inr T)"
  by pat_completeness auto
termination by (relation "measure (\<lambda>(nd, T, i, j). nat (i + 1))") auto

definition utstring_BuildTableR :: "char list \<Rightarrow> int option list \<Rightarrow> int option list res" where
  "utstring_BuildTableR nd T =
     (let i = int (length nd) - 1; j = i + 1
      in rbind (set_cell T (i + 1) j) (\<lambda>T. build_loop_R nd T i j))"

function find_loop_R :: "(int \<Rightarrow> char res) \<Rightarrow> char list \<Rightarrow> int option list \<Rightarrow> int \<Rightarrow> int \<Rightarrow> int res" where
  "find_loop_R hay nd T i j =
     (if 0 \<le> j \<and> i \<le> j
      then rbind (fall_back_R (length nd + 2) (to_int32 (int (length nd))) nd T (hay j) i) (\<lambda>i.
           let i = i - 1; j' = j - 1
           in if i < 0 then Inr (j' + 1) else find_loop_R hay nd T i j')
      else Inr (-1))"
  by pat_completeness auto
termination by (relation "measure (\<lambda>(hay, nd, T, i, j). nat (j + 1))") auto

definition utstring_find_in_R :: "(int \<Rightarrow> char res) \<Rightarrow> int \<Rightarrow> char list \<Rightarrow> int option list \<Rightarrow> int res" where
  "utstring_find_in_R hay H nd T = find_loop_R hay nd T (int (length nd) - 1) (H - 1)"

declare fall_back.simps [simp del] fall_back_R.simps [simp del] build_loop.simps [simp del] find_loop.simps [simp del]
  build_loop_R.simps [simp del] find_loop_R.simps [simp del]

subsection \<open>Borders\<close>

text \<open>The first \<open>n\<close> characters of \<open>p\<close> end the text \<open>w\<close>.\<close>

definition ends :: "char list \<Rightarrow> char list \<Rightarrow> nat \<Rightarrow> bool" where
  "ends w p n \<longleftrightarrow> n \<le> length p \<and> suffix (take n p) w"

lemma ends_0 [simp]: "ends w p 0"
  by (simp add: ends_def)

lemma ends_length: "ends w p n \<Longrightarrow> n \<le> length w"
  by (auto simp: ends_def dest: suffix_length_le)

lemma ends_snoc: "ends (w @ [c]) p (Suc n) \<longleftrightarrow> n < length p \<and> p ! n = c \<and> ends w p n"
  by (auto simp: ends_def take_Suc_conv_app_nth)

lemma ends_border:
  assumes "ends w p j" and "n \<le> j"
  shows "ends w p n \<longleftrightarrow> ends (take j p) p n"
proof
  assume "ends w p n"
  with assms show "ends (take j p) p n"
    by (auto simp: ends_def intro: suffix_length_suffix [of _ w])
qed (use assms in \<open>auto simp: ends_def intro: suffix_order.trans\<close>)

text \<open>What a cell holds: the longest border of the first \<open>k\<close> characters that is followed by
  another character than they are.\<close>

definition fails_to :: "char list \<Rightarrow> nat \<Rightarrow> int \<Rightarrow> bool" where
  "fails_to p k t \<longleftrightarrow> (t = -1 \<or> (\<exists>n. t = int n \<and> n < k \<and> ends (take k p) p n \<and> p ! n \<noteq> p ! k))
     \<and> (\<forall>n<k. ends (take k p) p n \<and> t < int n \<longrightarrow> p ! n = p ! k)"

definition table_to :: "char list \<Rightarrow> int option list \<Rightarrow> nat \<Rightarrow> bool" where
  "table_to p T k \<longleftrightarrow> length T = length p + 1
     \<and> (\<forall>k' \<le> k. k' < length p \<longrightarrow> (\<exists>t. T ! k' = Some t \<and> fails_to p k' t))"

text \<open>The longest beginning of the needle that ends the text and is followed by \<open>c\<close>, among those
  that are not longer than \<open>j\<close>.\<close>

definition longest :: "char list \<Rightarrow> char list \<Rightarrow> char \<Rightarrow> int \<Rightarrow> int \<Rightarrow> bool" where
  "longest w p c j r \<longleftrightarrow> (r = -1 \<or> (\<exists>n. r = int n \<and> n < length p \<and> r \<le> j \<and> ends w p n \<and> p ! n = c))
     \<and> (\<forall>n. int n \<le> j \<and> n < length p \<and> ends w p n \<and> p ! n = c \<longrightarrow> int n \<le> r)"

lemma fall_back_minus: "0 < f \<Longrightarrow> fall_back f p T c (-1) = Inr (-1)"
  by (cases f) (simp_all add: fall_back.simps)

lemma fall_back_longest:
  assumes "table_to p T j" and "j < length p" and "ends w p j" and "j + 1 < f"
  shows "\<exists>r. fall_back f p T (Inr c) (int j) = Inr r \<and> longest w p c (int j) r"
  using assms
proof (induction j arbitrary: f rule: less_induct)
  case (less j)
  obtain g where f: "f = Suc g" using less.prems(4) by (cases f) auto
  show ?case
  proof (cases "p ! j = c")
    case True
    with f less.prems show ?thesis by (auto simp: fall_back.simps elt_def longest_def)
  next
    case False
    obtain t where t: "T ! j = Some t" "fails_to p j t"
      using less.prems(1,2) by (auto simp: table_to_def)
    have step: "fall_back f p T (Inr c) (int j) = fall_back g p T (Inr c) t"
      using f False less.prems(1,2) t(1) by (simp add: fall_back.simps elt_def cell_def table_to_def)
    have skip: "int n \<le> t" if "int n \<le> int j" "n < length p" "ends w p n" "p ! n = c" for n
    proof -
      have "n < j" using that False by (cases "n = j") auto
      with that less.prems(3) ends_border [of w p j n] t(2) False show ?thesis
        by (auto simp: fails_to_def not_less [symmetric])
    qed
    show ?thesis
    proof (cases "t = -1")
      case True
      with step skip f less.prems(4) show ?thesis
        by (intro exI [of _ "-1"]) (force simp: fall_back_minus longest_def)
    next
      case False
      then obtain n where n: "t = int n" "n < j" "ends (take j p) p n"
        using t(2) by (auto simp: fails_to_def)
      have "table_to p T n" using less.prems(1) n(2) by (simp add: table_to_def)
      moreover have "ends w p n" using ends_border [OF less.prems(3), of n] n by simp
      ultimately obtain r where r: "fall_back g p T (Inr c) (int n) = Inr r" "longest w p c (int n) r"
        using less.IH [of n g] n(2) less.prems(2,4) f by auto
      with step n skip show ?thesis by (fastforce simp: longest_def)
    qed
  qed
qed

text \<open>The longest beginning that ends the text and one more character.\<close>

lemma longest_snoc:
  assumes "longest w p c j r" and "\<And>n. ends w p n \<Longrightarrow> n < length p \<Longrightarrow> P n \<Longrightarrow> int n \<le> j"
  shows "ends (w @ [c]) p (nat (r + 1))" and "-1 \<le> r" and "r < int (length p)"
    and "\<And>n. ends (w @ [c]) p n \<Longrightarrow> (\<And>k. n = Suc k \<Longrightarrow> P k) \<Longrightarrow> int n \<le> r + 1"
proof -
  show r: "-1 \<le> r" "r < int (length p)" using assms(1) by (auto simp: longest_def)
  show "ends (w @ [c]) p (nat (r + 1))"
  proof (cases "r = -1")
    case False
    with assms(1) obtain n where n: "r = int n" "n < length p" "ends w p n" "p ! n = c"
      by (auto simp: longest_def)
    then have "nat (r + 1) = Suc n" by simp
    with n show ?thesis by (simp add: ends_snoc)
  qed simp
  show "int n \<le> r + 1" if "ends (w @ [c]) p n" "\<And>k. n = Suc k \<Longrightarrow> P k" for n
  proof (cases n)
    case (Suc k)
    with that assms(2) [of k] assms(1) show ?thesis by (auto simp: ends_snoc longest_def)
  qed (use r in simp)
qed

subsection \<open>The table\<close>

text \<open>\<open>j\<close> is the length of the longest border of the first \<open>i\<close> characters.\<close>

definition border :: "char list \<Rightarrow> nat \<Rightarrow> int \<Rightarrow> bool" where
  "border p i j \<longleftrightarrow> (if i = 0 then j = -1
     else 0 \<le> j \<and> j < int i \<and> ends (take i p) p (nat j) \<and> (\<forall>n<i. ends (take i p) p n \<longrightarrow> int n \<le> j))"

lemma border_fall_back:
  assumes "table_to p T i" and "border p i j" and "i < length p"
  shows "\<exists>r. fall_back (length p + 2) p T (elt p (int i)) j = Inr r \<and> border p (Suc i) (r + 1)"
proof -
  have c: "elt p (int i) = Inr (p ! i)" "take (Suc i) p = take i p @ [p ! i]"
    using assms(3) by (simp_all add: elt_def take_Suc_conv_app_nth)
  obtain r where r: "fall_back (length p + 2) p T (Inr (p ! i)) j = Inr r" "longest (take i p) p (p ! i) j r"
  proof (cases "i = 0")
    case True
    with assms(2) have "j = -1" by (simp add: border_def)
    moreover have "longest (take i p) p (p ! i) (-1) (-1)" by (auto simp: longest_def)
    ultimately show ?thesis using that [of "-1"] by (simp add: fall_back_minus)
  next
    case False
    with assms(2) have j: "0 \<le> j" "j < int i" "ends (take i p) p (nat j)" by (simp_all add: border_def)
    have "table_to p T (nat j)" using assms(1) j by (auto simp: table_to_def)
    moreover have "nat j < length p" using j assms(3) by simp
    ultimately show ?thesis
      using fall_back_longest [of p T "nat j" "take i p" "length p + 2" "p ! i"] j that by auto
  qed
  have j: "int n \<le> j" if "ends (take i p) p n" "n < length p" "n < i" for n
    using assms(2) that by (auto simp: border_def)
  note s = longest_snoc [OF r(2), of "\<lambda>n. n < i", OF j, simplified, folded c(2)]
  have "r < int i" using r(2) assms(2) by (auto simp: longest_def border_def split: if_splits)
  with s have "border p (Suc i) (r + 1)" by (auto simp: border_def)
  with r(1) c(1) show ?thesis by auto
qed

text \<open>A border that is followed by the same character is no place to go on from.\<close>

lemma fails_to_border:
  assumes "border p i j" and "0 < i" and "i < length p"
  shows "p ! i \<noteq> p ! nat j \<Longrightarrow> fails_to p i j"
    and "p ! i = p ! nat j \<Longrightarrow> fails_to p (nat j) t \<Longrightarrow> fails_to p i t"
proof -
  have b: "0 \<le> j" "j < int i" "ends (take i p) p (nat j)" "\<And>n. n < i \<Longrightarrow> ends (take i p) p n \<Longrightarrow> int n \<le> j"
    using assms(1,2) by (simp_all add: border_def)
  then show "p ! i \<noteq> p ! nat j \<Longrightarrow> fails_to p i j"
    by (force simp: fails_to_def)
  assume e: "p ! i = p ! nat j" and t: "fails_to p (nat j) t"
  have below: "ends (take i p) p n \<longleftrightarrow> ends (take (nat j) p) p n" if "n \<le> nat j" for n
    by (rule ends_border [OF b(3) that])
  have "p ! n = p ! i" if n: "n < i" "ends (take i p) p n" "t < int n" for n
  proof (cases "n = nat j")
    case False
    with b(4) [OF n(1,2)] b(1) have "n < nat j" by linarith
    with below [of n] t n e show ?thesis unfolding fails_to_def by simp
  qed (use e in simp)
  moreover have "t = -1 \<or> (\<exists>n. t = int n \<and> n < i \<and> ends (take i p) p n \<and> p ! n \<noteq> p ! i)"
  proof (cases "t = -1")
    case False
    with t obtain n where n: "t = int n" "n < nat j" "ends (take (nat j) p) p n" "p ! n \<noteq> p ! nat j"
      unfolding fails_to_def by blast
    with below [of n] b(1,2) e show ?thesis by (intro disjI2 exI [of _ n]) auto
  qed simp
  ultimately show "fails_to p i t" unfolding fails_to_def by blast
qed

lemma table_to_set:
  assumes "table_to p T i" and "Suc i < length p \<longrightarrow> fails_to p (Suc i) t" and "i < length p"
  shows "set_cell T (int i + 1) t = Inr (T[Suc i := Some t])" and "table_to p (T[Suc i := Some t]) (Suc i)"
  using assms by (auto simp: set_cell_def table_to_def le_Suc_eq nth_list_update nat_add_distrib)

lemma build_loop_table:
  assumes "table_to p T i" and "border p i j" and "i \<le> length p"
  shows "\<exists>T'. build_loop p T (int i) j = Inr T' \<and> table_to p T' (length p)"
  using assms
proof (induction "length p - i" arbitrary: T i j)
  case 0
  then show ?case by (simp add: build_loop.simps)
next
  case (Suc n)
  then have i: "i < length p" by simp
  obtain r where r: "fall_back (length p + 2) p T (elt p (int i)) j = Inr r" "border p (Suc i) (r + 1)"
    using border_fall_back [OF Suc.prems(1,2) i] by blast
  have r0: "0 \<le> r + 1" "r + 1 < int i + 1" using r(2) by (simp_all add: border_def)
  obtain t where t: "(if int i + 1 < int (length p)
      then rbind (elt p (int i + 1)) (\<lambda>a. rbind (elt p (r + 1)) (\<lambda>b.
           if a = b then rbind (cell T (r + 1)) (set_cell T (int i + 1)) else set_cell T (int i + 1) (r + 1)))
      else set_cell T (int i + 1) (r + 1)) = set_cell T (int i + 1) t"
    "Suc i < length p \<longrightarrow> fails_to p (Suc i) t"
  proof (cases "Suc i < length p \<and> p ! Suc i = p ! nat (r + 1)")
    case False
    with r(2) r0 fails_to_border(1) [of p "Suc i" "r + 1"] show ?thesis
      by (intro that [of "r + 1"]) (auto simp: elt_def nat_add_distrib)
  next
    case True
    have "nat (r + 1) \<le> i" "nat (r + 1) < length p" using r0 i by linarith+
    with Suc.prems(1) obtain t where "T ! nat (r + 1) = Some t" "fails_to p (nat (r + 1)) t"
      unfolding table_to_def by blast
    with True r(2) r0 Suc.prems(1) fails_to_border(2) [of p "Suc i" "r + 1" t] show ?thesis
      by (intro that [of t]) (auto simp: elt_def cell_def table_to_def nat_add_distrib)
  qed
  note T = table_to_set [OF Suc.prems(1) t(2) i]
  have "build_loop p T (int i) j = build_loop p (T[Suc i := Some t]) (int (Suc i)) (r + 1)"
    using i by (subst build_loop.simps) (simp only: Let_def if_True of_nat_less_iff r(1) rbind_Inr t(1) T(1) of_nat_Suc add.commute [of 1])
  with Suc.hyps(1) [of "Suc i", OF _ T(2) r(2)] Suc.hyps(2) i show ?case by simp
qed

lemma utstring_BuildTable_table:
  assumes "p \<noteq> []"
  shows "\<exists>T. utstring_BuildTable p (replicate (length p + 1) None) = Inr T \<and> table_to p T (length p)"
proof -
  let ?T = "(replicate (length p + 1) None)[0 := Some (- 1 :: int)]"
  have "table_to p ?T 0" by (simp add: table_to_def fails_to_def)
  moreover have "border p 0 (-1)" by (simp add: border_def)
  ultimately show ?thesis
    using build_loop_table [of p ?T 0 "-1"] by (simp add: utstring_BuildTable_def set_cell_def)
qed

subsection \<open>The search from the left\<close>

definition occurs :: "char list \<Rightarrow> char list \<Rightarrow> nat \<Rightarrow> bool" where
  "occurs p h q \<longleftrightarrow> q + length p \<le> length h \<and> take (length p) (drop q h) = p"

text \<open>The position of the first occurrence from \<open>k\<close> on, or \<open>-1\<close>.\<close>

definition first_occurrence :: "char list \<Rightarrow> char list \<Rightarrow> nat \<Rightarrow> int \<Rightarrow> bool" where
  "first_occurrence p h k r \<longleftrightarrow>
     (r = -1 \<and> (\<forall>q \<ge> k. \<not> occurs p h q)) \<or>
     (\<exists>q \<ge> k. r = int q \<and> occurs p h q \<and> (\<forall>q'. k \<le> q' \<and> q' < q \<longrightarrow> \<not> occurs p h q'))"

lemma suffix_iff_drop: "suffix p w \<longleftrightarrow> length p \<le> length w \<and> drop (length w - length p) w = p"
  by (metis append_take_drop_id diff_diff_cancel length_drop suffix_def suffix_drop suffix_length_le
      append_eq_conv_conj length_append add_diff_cancel_right')

lemma occurs_ends:
  assumes "j \<le> length h" and "length p \<le> j"
  shows "occurs p h (j - length p) \<longleftrightarrow> ends (take j h) p (length p)"
  using assms by (auto simp: occurs_def ends_def suffix_iff_drop drop_take min_def)

lemma occurs_part:
  assumes "occurs p h q" and "q \<le> j" and "j < q + length p"
  shows "ends (take j h) p (j - q)"
proof -
  have "take (j - q) p = take (j - q) (take (length p) (drop q h))"
    using assms(1) by (simp add: occurs_def)
  also have "\<dots> = drop q (take j h)" using assms(2,3) by (simp add: drop_take min_def)
  finally show ?thesis using assms by (simp add: ends_def suffix_drop)
qed

text \<open>\<open>i\<close> is the length of the longest beginning of the needle that ends the bytes read, and the
  needle has not been seen.\<close>

definition searching :: "char list \<Rightarrow> char list \<Rightarrow> nat \<Rightarrow> nat \<Rightarrow> bool" where
  "searching p h i j \<longleftrightarrow> i < length p \<and> j \<le> length h \<and> ends (take j h) p i
     \<and> (\<forall>n < length p. ends (take j h) p n \<longrightarrow> n \<le> i)
     \<and> (\<forall>q. q + length p \<le> j \<longrightarrow> \<not> occurs p h q)"

lemma searching_start: "p \<noteq> [] \<Longrightarrow> searching p h 0 0"
  by (simp add: searching_def) (auto dest: ends_length)

text \<open>The needle cannot end after the haystack.\<close>

lemma searching_end:
  assumes "searching p h i j" and "length h = j \<or> length h - j + i < length p"
  shows "first_occurrence p h 0 (-1)"
proof -
  have "\<not> occurs p h q" for q
  proof
    assume o: "occurs p h q"
    then have q: "q + length p \<le> length h" by (simp add: occurs_def)
    have e: "j < q + length p" using o assms(1) by (auto simp: searching_def not_less [symmetric])
    show False
    proof (cases "q \<le> j")
      case True
      with occurs_part [OF o True e] e assms(1) have "j - q \<le> i" by (simp add: searching_def)
      with True q e assms(2) show False by linarith
    qed (use q assms(2) in linarith)
  qed
  then show ?thesis by (simp add: first_occurrence_def)
qed

lemma searching_step:
  assumes "searching p h i j" and "j < length h" and "longest (take j h) p (h ! j) (int i) r"
  shows "int (length p) \<le> r + 1 \<Longrightarrow> first_occurrence p h 0 (int j + 1 - (r + 1))"
    and "int (length p) \<le> r + 1 \<Longrightarrow> length p \<le> Suc j"
    and "r + 1 < int (length p) \<Longrightarrow> searching p h (nat (r + 1)) (Suc j)"
proof -
  have t: "take (Suc j) h = take j h @ [h ! j]" using assms(2) by (simp add: take_Suc_conv_app_nth)
  have i: "int n \<le> int i" if "ends (take j h) p n" "n < length p" for n
    using assms(1) that by (simp add: searching_def)
  note s = longest_snoc [OF assms(3), of "\<lambda>_. True", OF i, simplified, folded t]
  have old: "\<not> occurs p h q" if "q + length p \<le> j" for q
    using assms(1) that by (simp add: searching_def)
  have seen: "ends (take (Suc j) h) p (length p) \<and> length p \<le> Suc j" if "int (length p) \<le> r + 1"
  proof -
    have "nat (r + 1) = length p" using s(2,3) that by linarith
    with s(1) show ?thesis using ends_length [of "take (Suc j) h" p "length p"] by simp
  qed
  then show "int (length p) \<le> r + 1 \<Longrightarrow> length p \<le> Suc j" by blast
  show "first_occurrence p h 0 (int j + 1 - (r + 1))" if "int (length p) \<le> r + 1"
  proof -
    have r: "nat (r + 1) = length p" using s(2,3) that by linarith
    note e = seen [OF that, THEN conjunct1] and l = seen [OF that, THEN conjunct2]
    with e assms(2) have "occurs p h (Suc j - length p)" by (simp add: occurs_ends Suc_le_eq)
    moreover have "\<not> occurs p h q" if "q < Suc j - length p" for q using that by (intro old) simp
    moreover have "int j + 1 - (r + 1) = int (Suc j - length p)" using r l s(2) by (simp add: of_nat_diff)
    ultimately show ?thesis by (auto simp: first_occurrence_def)
  qed
  assume r: "r + 1 < int (length p)"
  have "\<not> occurs p h q" if q: "q + length p \<le> Suc j" for q
  proof (cases "q + length p = Suc j")
    case True
    then have "q = Suc j - length p" by simp
    with s(4) [of "length p"] r occurs_ends [of "Suc j" h p] assms(2) q show ?thesis by auto
  qed (use q old in simp)
  with s r assms(2) show "searching p h (nat (r + 1)) (Suc j)"
    by (auto simp: searching_def le_nat_iff)
qed

lemma find_loop_first:
  assumes "\<And>k. k < length h \<Longrightarrow> hay (int k) = Inr (h ! k)" and "length h < 2 ^ 31"
    and "table_to p T (length p)" and "length p \<le> length h" and "searching p h i j"
  shows "\<exists>r. find_loop hay (int (length h)) p T (int i) (int j) = Inr r \<and> first_occurrence p h 0 r"
  using assms(5)
proof (induction "length h - j" arbitrary: i j rule: less_induct)
  case less
  have j: "j \<le> length h" "i < length p" using less.prems by (simp_all add: searching_def)
  have cut: "to_int32 (int (length h)) = int (length h)" "to_int32 (int (length p)) = int (length p)"
    using assms(2,4) by (simp_all add: to_int32_id)
  have room: "(int (length h) - int j + int i) mod 2 ^ 64 = int (length h - j + i)"
    using j assms(2,4) by (subst mod_pos_pos_trivial) (simp_all add: of_nat_diff)
  show ?case
  proof (cases "j < length h \<and> length p \<le> length h - j + i")
    case False
    with j have "length h = j \<or> length h - j + i < length p" by linarith
    from searching_end [OF less.prems this] False cut room show ?thesis
      by (subst find_loop.simps) auto
  next
    case True
    have "table_to p T i" using assms(3) j(2) by (simp add: table_to_def)
    then obtain r where r: "fall_back (length p + 2) p T (Inr (h ! j)) (int i) = Inr r"
      "longest (take j h) p (h ! j) (int i) r"
      using fall_back_longest [of p T i "take j h" "length p + 2" "h ! j"] less.prems
      by (auto simp: searching_def)
    have "int (length p) \<le> (int (length h) - int j + int i) mod 2 ^ 64" "int j < to_int32 (int (length h))"
      unfolding room using True cut by (simp_all only: of_nat_le_iff of_nat_less_iff)
    then have step: "find_loop hay (int (length h)) p T (int i) (int j) =
        (if int (length p) \<le> r + 1 then Inr (int j + 1 - (r + 1))
         else find_loop hay (int (length h)) p T (r + 1) (int (Suc j)))"
      using True r(1) assms(1) [of j] cut by (subst find_loop.simps) (simp add: Let_def add.commute [of 1])
    note s = searching_step [OF less.prems _ r(2)]
    show ?thesis
    proof (cases "int (length p) \<le> r + 1")
      case True
      with step s(1) \<open>j < length h \<and> _\<close> show ?thesis by auto
    next
      case False
      have "0 \<le> r + 1" using r(2) by (auto simp: longest_def)
      with False step s(3) True less.hyps [of "Suc j" "nat (r + 1)"] show ?thesis by auto
    qed
  qed
qed

lemma utstring_find_in_first:
  assumes "\<And>k. k < length h \<Longrightarrow> hay (int k) = Inr (h ! k)" and "length h < 2 ^ 31"
    and "table_to p T (length p)" and "length p \<le> length h" and "p \<noteq> []"
  shows "\<exists>r. utstring_find_in hay (int (length h)) p T = Inr r \<and> first_occurrence p h 0 r"
  using find_loop_first [OF assms(1-4) searching_start [OF assms(5)]] by (simp add: utstring_find_in_def)

subsection \<open>The search from the right\<close>

text \<open>An index from the other end, and a table whose cells and indices are both turned round.\<close>

definition mir :: "char list \<Rightarrow> int \<Rightarrow> int" where
  "mir p x = int (length p) - 1 - x"

definition mirror :: "char list \<Rightarrow> int option list \<Rightarrow> int option list" where
  "mirror p T = map (map_option (mir p)) (rev T)"

lemma mir_mir [simp]: "mir p (mir p x) = x" "mir (rev p) = mir p"
  by (simp_all add: mir_def fun_eq_iff)

lemma mirror_mirror [simp]: "mirror p (mirror p T) = T" "length (mirror p T) = length T"
  by (simp_all add: mirror_def rev_map option.map_comp comp_def option.map_ident)

lemma elt_mir: "elt p k = elt (rev p) (mir p k)"
proof (cases "0 \<le> k \<and> k < int (length p)")
  case True
  then obtain n where n: "k = int n" "n < length p" by (metis nonneg_int_cases of_nat_less_iff)
  then obtain l where "length p = Suc (n + l)" using less_imp_Suc_add by blast
  moreover from this n have "mir p k = int l" by (simp add: mir_def)
  ultimately show ?thesis using n by (simp add: elt_def rev_nth)
qed (auto simp: elt_def mir_def)

text \<open>The cell behind an index, on either side.\<close>

lemma mir_cell:
  assumes "length T = length p + 1" and "- 1 \<le> k" and "k < int (length p)"
  obtains n l where "k + 1 = int n" and "n + l = length p" and "mir p k = int l"
    and "mirror p T ! l = map_option (mir p) (T ! n)"
proof -
  have "0 \<le> k + 1" "k + 1 \<le> int (length p)" using assms(2,3) by simp_all
  then obtain n where n: "k + 1 = int n" "n \<le> length p" by (metis nonneg_int_cases of_nat_le_iff)
  then obtain l where l: "n + l = length p" using le_Suc_ex by metis
  moreover from n l have "mir p k = int l" by (simp add: mir_def)
  moreover have "length T - Suc l = n" using assms(1) l by simp
  then have "mirror p T ! l = map_option (mir p) (T ! n)"
    using assms(1) l unfolding mirror_def by (simp add: rev_nth)
  ultimately show ?thesis by (rule that [OF n(1)])
qed

lemma cell_mir:
  assumes "length T = length p + 1"
  shows "cell T (k + 1) = rbind (cell (mirror p T) (mir p k)) (\<lambda>x. Inr (mir p x))"
proof (cases "- 1 \<le> k \<and> k < int (length p)")
  case True
  then obtain n l where "k + 1 = int n" "n + l = length p" "mir p k = int l"
    "mirror p T ! l = map_option (mir p) (T ! n)" using mir_cell [OF assms] by metis
  with assms show ?thesis by (cases "T ! n") (auto simp: cell_def)
qed (use assms in \<open>auto simp: cell_def mir_def\<close>)

lemma mirror_update:
  "n < length T \<Longrightarrow> mirror p (T[n := Some x]) = (mirror p T)[length T - Suc n := Some (mir p x)]"
  by (simp add: mirror_def rev_update map_update)

lemma set_cell_mir:
  assumes "length T = length p + 1"
  shows "set_cell T (k + 1) x = rbind (set_cell (mirror p T) (mir p k) (mir p x)) (\<lambda>T. Inr (mirror p T))"
proof (cases "- 1 \<le> k \<and> k < int (length p)")
  case True
  then obtain n l where n: "k + 1 = int n" "n + l = length p" "mir p k = int l"
    using mir_cell [OF assms] by metis
  have "length T - Suc l = n" using assms n(2) by simp
  then have "mirror p ((mirror p T)[l := Some (mir p x)]) = T[n := Some x]"
    using mirror_update [of l "mirror p T" p "mir p x"] assms n(2) by simp
  with n assms show ?thesis by (auto simp: set_cell_def)
qed (use assms in \<open>auto simp: set_cell_def mir_def\<close>)

lemma fall_back_mir:
  assumes "length T = length p + 1"
  shows "fall_back_R f (int (length p)) p T c j =
    rbind (fall_back f (rev p) (mirror p T) c (mir p j)) (\<lambda>j. Inr (mir p j))"
proof (induction f arbitrary: j)
  case 0
  then show ?case by (simp add: fall_back.simps fall_back_R.simps)
next
  case (Suc f)
  have m: "- 1 < mir p j \<longleftrightarrow> j < int (length p)" by (auto simp: mir_def)
  show ?case
  proof (cases "j < int (length p)")
    case False
    with m show ?thesis by (simp add: fall_back.simps fall_back_R.simps)
  next
    case True
    show ?thesis
    proof (cases c)
      case (Inr a)
      with True m show ?thesis
        by (cases "elt (rev p) (mir p j)"; cases "cell (mirror p T) (mir p j)")
          (simp_all add: fall_back.simps fall_back_R.simps elt_mir [of p j] cell_mir [OF assms] Suc.IH [unfolded Inr])
    qed (use True m in \<open>simp add: fall_back.simps fall_back_R.simps\<close>)
  qed
qed

lemma build_loop_mir:
  assumes "length T = length p + 1"
  shows "build_loop_R p T i j =
    rbind (build_loop (rev p) (mirror p T) (mir p i) (mir p j)) (\<lambda>T. Inr (mirror p T))"
  using assms
proof (induction "nat (i + 1)" arbitrary: T i j rule: less_induct)
  case less
  have m: "mir p i < int (length p) \<longleftrightarrow> 0 \<le> i" "mir p i + 1 = mir p (i - 1)"
    "mir p (i - 1) < int (length p) \<longleftrightarrow> 0 \<le> i - 1" by (auto simp: mir_def)
  show ?case
  proof (cases "0 \<le> i")
    case False
    with m(1) show ?thesis by (simp add: build_loop_R.simps [of p] build_loop.simps)
  next
    case True
    have IH: "build_loop_R p (mirror p T') (i - 1) j' =
        rbind (build_loop (rev p) T' (mir p (i - 1)) (mir p j')) (\<lambda>T. Inr (mirror p T))"
      if "length T' = length p + 1" for T' j'
      using less.hyps [of "i - 1" "mirror p T'" j'] True that by simp
    have set: "set_cell (mirror p T) k x = Inr T' \<Longrightarrow> length T' = length p + 1" for k x T'
      using less.prems by (auto simp: set_cell_def split: if_splits)
    have go: "rbind (set_cell T (i - 1 + 1) x) (\<lambda>T. build_loop_R p T (i - 1) j') =
        rbind (rbind (set_cell (mirror p T) (mir p (i - 1)) (mir p x)) (\<lambda>T. build_loop (rev p) T (mir p (i - 1)) (mir p j')))
          (\<lambda>T. Inr (mirror p T))" for x j'
      unfolding set_cell_mir [OF less.prems]
      by (cases "set_cell (mirror p T) (mir p (i - 1)) (mir p x)") (simp_all add: IH [OF set])
    show ?thesis
    proof (cases "fall_back (length p + 2) (rev p) (mirror p T) (elt (rev p) (mir p i)) (mir p j)")
      case (Inl e)
      with True m(1) show ?thesis
        by (subst build_loop_R.simps, subst build_loop.simps) (simp add: fall_back_mir [OF less.prems] elt_mir [of p i])
    next
      case (Inr r)
      define j' where "j' = mir p r - 1"
      have r: "r + 1 = mir p j'" by (simp add: j'_def mir_def)
      have R: "build_loop_R p T i j = rbind (if 0 \<le> i - 1
          then rbind (elt p (i - 1)) (\<lambda>a. rbind (elt p j') (\<lambda>b.
               if a = b then rbind (cell T (j' + 1)) (set_cell T (i - 1 + 1)) else set_cell T (i - 1 + 1) j'))
          else set_cell T (i - 1 + 1) j') (\<lambda>T. build_loop_R p T (i - 1) j')"
        using True by (subst build_loop_R.simps)
          (simp only: fall_back_mir [OF less.prems] elt_mir [of p i] Inr rbind_Inr if_True Let_def j'_def)
      have F: "build_loop (rev p) (mirror p T) (mir p i) (mir p j) = rbind (if 0 \<le> i - 1
          then rbind (elt (rev p) (mir p (i - 1))) (\<lambda>a. rbind (elt (rev p) (mir p j')) (\<lambda>b.
               if a = b then rbind (cell (mirror p T) (mir p j')) (set_cell (mirror p T) (mir p (i - 1)))
               else set_cell (mirror p T) (mir p (i - 1)) (mir p j')))
          else set_cell (mirror p T) (mir p (i - 1)) (mir p j')) (\<lambda>T. build_loop (rev p) T (mir p (i - 1)) (mir p j'))"
        using True by (subst build_loop.simps) (simp only: length_rev m Inr rbind_Inr if_True Let_def r)
      show ?thesis
      proof (cases "0 \<le> i - 1")
        case False
        with R F go show ?thesis by simp
      next
        case inner: True
        show ?thesis
          using inner R F go elt_mir [of p "i - 1"] elt_mir [of p j'] cell_mir [OF less.prems, of j']
          by (cases "elt (rev p) (mir p (i - 1))"; cases "elt (rev p) (mir p j')"; cases "cell (mirror p T) (mir p j')")
            (simp_all del: diff_add_cancel)
      qed
    qed
  qed
qed

lemma utstring_BuildTableR_table:
  assumes "p \<noteq> []"
  shows "\<exists>T. utstring_BuildTableR p (replicate (length p + 1) None) = Inr T \<and> length T = length p + 1
    \<and> table_to (rev p) (mirror p T) (length p)"
proof -
  let ?T0 = "replicate (length p + 1) None :: int option list"
  obtain T where T: "utstring_BuildTable (rev p) ?T0 = Inr T" "table_to (rev p) T (length p)"
    using utstring_BuildTable_table [of "rev p"] assms by auto
  define T1 where "T1 = ?T0[length p := Some (int (length p))]"
  have T1: "set_cell ?T0 (int (length p)) (int (length p)) = Inr T1" "length T1 = length p + 1"
    by (simp_all add: set_cell_def T1_def del: replicate_Suc)
  have "mirror p ?T0 = ?T0" by (simp add: mirror_def del: replicate_Suc Nat.add_Suc_right add_Suc_right One_nat_def)
  moreover have "mirror p T1 = (mirror p ?T0)[length ?T0 - Suc (length p) := Some (mir p (int (length p)))]"
    unfolding T1_def by (rule mirror_update) simp
  ultimately have "mirror p T1 = ?T0[0 := Some (-1)]" by (simp add: mir_def)
  then have "build_loop (rev p) (mirror p T1) 0 (-1) = Inr T"
    using T(1) by (simp add: utstring_BuildTable_def set_cell_def)
  moreover have "mir p (int (length p) - 1) = 0" "mir p (int (length p)) = -1" by (simp_all add: mir_def)
  ultimately have "build_loop_R p T1 (int (length p) - 1) (int (length p)) = Inr (mirror p T)"
    using build_loop_mir [OF T1(2), of "int (length p) - 1" "int (length p)"] by simp
  with T1(1) T(2) show ?thesis
    by (intro exI [of _ "mirror p T"]) (simp add: utstring_BuildTableR_def Let_def table_to_def)
qed

definition last_occurrence :: "char list \<Rightarrow> char list \<Rightarrow> int \<Rightarrow> bool" where
  "last_occurrence p h r \<longleftrightarrow>
     (r = -1 \<and> (\<forall>q. \<not> occurs p h q)) \<or>
     (\<exists>q. r = int q \<and> occurs p h q \<and> (\<forall>q' > q. \<not> occurs p h q'))"

lemma occurs_rev: "occurs (rev p) (rev h) q \<longleftrightarrow> q + length p \<le> length h \<and> occurs p h (length h - length p - q)"
proof (cases "q + length p \<le> length h")
  case True
  then obtain l where l: "length h = q + length p + l" using le_Suc_ex by blast
  then have "take (length p) (drop q (rev h)) = rev (take (length p) (drop l h))"
    by (simp add: drop_rev take_rev drop_take)
  with l show ?thesis by (simp add: occurs_def)
qed (simp add: occurs_def)

lemma occurs_rev':
  assumes "occurs p h q"
  shows "occurs (rev p) (rev h) (length h - length p - q)"
  using assms occurs_rev [of p h "length h - length p - q"] by (auto simp: occurs_def)

text \<open>\<open>j\<close> bytes are read when the first occurrence from the other end has been.\<close>

lemma last_occurrence_rev:
  assumes "first_occurrence (rev p) (rev h) 0 r"
  shows "r = -1 \<Longrightarrow> last_occurrence p h (-1)"
    and "r = int j - int (length p) \<Longrightarrow> length p \<le> j \<Longrightarrow> last_occurrence p h (int (length h) - int j)"
proof -
  show "last_occurrence p h (-1)" if "r = -1"
    using assms that occurs_rev' by (fastforce simp: first_occurrence_def last_occurrence_def)
  assume r: "r = int j - int (length p)" and j: "length p \<le> j"
  then have "r = int (j - length p)" by (simp add: of_nat_diff)
  with assms have o: "occurs (rev p) (rev h) (j - length p)"
    and first: "\<And>q. q < j - length p \<Longrightarrow> \<not> occurs (rev p) (rev h) q"
    unfolding first_occurrence_def by auto
  from o j have h: "j \<le> length h" "occurs p h (length h - j)" by (simp_all add: occurs_rev)
  have "\<not> occurs p h q" if "length h - j < q" for q
  proof
    assume q: "occurs p h q"
    then have "q + length p \<le> length h" by (simp add: occurs_def)
    with that have "length h - length p - q < j - length p" by linarith
    with first occurs_rev' [OF q] show False by blast
  qed
  moreover have "int (length h) - int j = int (length h - j)" using h(1) by (simp add: of_nat_diff)
  ultimately show "last_occurrence p h (int (length h) - int j)"
    using h(2) unfolding last_occurrence_def by blast
qed

lemma find_loop_R_last:
  assumes "\<And>k. k < length h \<Longrightarrow> hay (int k) = Inr (h ! k)" and "length p < 2 ^ 31"
    and "length T = length p + 1" and "table_to (rev p) (mirror p T) (length p)"
    and "length p \<le> length h" and "searching (rev p) (rev h) i j"
  shows "\<exists>r. find_loop_R hay p T (mir p (int i)) (int (length h) - 1 - int j) = Inr r
    \<and> last_occurrence p h r"
  using assms(6)
proof (induction "length h - j" arbitrary: i j rule: less_induct)
  case less
  have j: "j \<le> length h" "i < length p" using less.prems by (simp_all add: searching_def)
  have cut: "to_int32 (int (length p)) = int (length p)" using assms(2) by (simp add: to_int32_id)
  show ?case
  proof (cases "j < length h \<and> length p \<le> length h - j + i")
    case False
    with j have "length (rev h) = j \<or> length (rev h) - j + i < length (rev p)" by auto
    from searching_end [OF less.prems this] have "last_occurrence p h (-1)"
      by (rule last_occurrence_rev) simp
    moreover have "\<not> (0 \<le> int (length h) - 1 - int j \<and> mir p (int i) \<le> int (length h) - 1 - int j)"
      using False j by (auto simp: mir_def)
    then have "find_loop_R hay p T (mir p (int i)) (int (length h) - 1 - int j) = Inr (-1)"
      by (subst find_loop_R.simps) (simp only: if_False)
    ultimately show ?thesis by blast
  next
    case True
    have "table_to (rev p) (mirror p T) i" using assms(4) j(2) by (simp add: table_to_def)
    then obtain r where r: "fall_back (length p + 2) (rev p) (mirror p T) (Inr (rev h ! j)) (int i) = Inr r"
      "longest (take j (rev h)) (rev p) (rev h ! j) (int i) r"
      using fall_back_longest [of "rev p" "mirror p T" i "take j (rev h)" "length p + 2" "rev h ! j"] less.prems
      by (auto simp: searching_def)
    have hay: "hay (int (length h) - 1 - int j) = Inr (rev h ! j)"
    proof -
      have "int (length h) - 1 - int j = int (length h - Suc j)" using True by (simp add: of_nat_diff)
      moreover have "hay (int (length h - Suc j)) = Inr (rev h ! j)"
        using assms(1) [of "length h - Suc j"] True by (auto simp: rev_nth simp del: of_nat_diff)
      ultimately show ?thesis by (simp only:)
    qed
    have fb: "fall_back_R (length p + 2) (to_int32 (int (length p))) p T (Inr (rev h ! j)) (mir p (int i)) = Inr (mir p r)"
      by (simp add: cut fall_back_mir [OF assms(3)] r(1) del: add_2_eq_Suc')
    have m: "mir p r - 1 = mir p (r + 1)" "mir p (r + 1) < 0 \<longleftrightarrow> int (length p) \<le> r + 1"
      "int (length h) - 1 - int j - 1 = int (length h) - 1 - int (Suc j)"
      "int (length h) - 1 - int (Suc j) + 1 = int (length h) - 1 - int j" by (auto simp: mir_def)
    have "0 \<le> int (length h) - 1 - int j \<and> mir p (int i) \<le> int (length h) - 1 - int j"
      using True by (auto simp: mir_def)
    then have step: "find_loop_R hay p T (mir p (int i)) (int (length h) - 1 - int j) =
        (if int (length p) \<le> r + 1 then Inr (int (length h) - 1 - int j)
         else find_loop_R hay p T (mir p (r + 1)) (int (length h) - 1 - int (Suc j)))"
      by (subst find_loop_R.simps) (simp only: hay fb rbind_Inr Let_def m if_True simp_thms)
    have jr: "j < length (rev h)" using True by simp
    note s = searching_step [OF less.prems jr r(2)]
    show ?thesis
    proof (cases "int (length p) \<le> r + 1")
      case found: True
      have "r + 1 = int (length p)" using found r(2) by (auto simp: longest_def)
      then have f: "first_occurrence (rev p) (rev h) 0 (int (Suc j) - int (length p))"
        using s(1) by (simp add: add.commute)
      moreover have "length p \<le> Suc j" using s(2) found by simp
      ultimately have "last_occurrence p h (int (length h) - int (Suc j))"
        by (intro last_occurrence_rev(2)) simp_all
      with step found show ?thesis
        by (intro exI [of _ "int (length h) - int (Suc j)"]) (simp add: algebra_simps)
    next
      case False
      have "0 \<le> r + 1" using r(2) by (auto simp: longest_def)
      with False step s(3) True less.hyps [of "Suc j" "nat (r + 1)"] show ?thesis by auto
    qed
  qed
qed

lemma utstring_find_in_R_last:
  assumes "\<And>k. k < length h \<Longrightarrow> hay (int k) = Inr (h ! k)" and "length p < 2 ^ 31"
    and "length T = length p + 1" and "table_to (rev p) (mirror p T) (length p)"
    and "length p \<le> length h" and "p \<noteq> []"
  shows "\<exists>r. utstring_find_in_R hay (int (length h)) p T = Inr r \<and> last_occurrence p h r"
proof -
  have "mir p (int 0) = int (length p) - 1" by (simp add: mir_def)
  with find_loop_R_last [OF assms(1-5) searching_start] assms(6) show ?thesis
    by (simp add: utstring_find_in_R_def)
qed

subsection \<open>Parts of a text\<close>

lemma occurs_drop: "k \<le> length h \<Longrightarrow> occurs p (drop k h) q \<longleftrightarrow> occurs p h (k + q)"
  by (auto simp: occurs_def add.commute)

lemma first_occurrence_drop:
  assumes "first_occurrence p (drop k h) 0 r" and "k \<le> length h"
  shows "first_occurrence p h k (if 0 \<le> r then r + int k else r)"
proof -
  have "\<exists>q1. q = k + q1" if "k \<le> q" for q using that le_Suc_ex by blast
  with assms show ?thesis unfolding first_occurrence_def by (fastforce simp: occurs_drop)
qed

lemma first_occurrence_none: "length h < k + length p \<Longrightarrow> first_occurrence p h k (-1)"
  by (auto simp: first_occurrence_def occurs_def)

lemma last_occurrence_none: "length h < length p \<Longrightarrow> last_occurrence p h (-1)"
  by (auto simp: last_occurrence_def occurs_def)

end
