(* ===== verification/UtStringFind.thy ===== *)
theory UtStringFind
  imports UtString Kmp
begin

text \<open>
  The searches for a text in a string of \<^verbatim>\<open>utstring.h\<close>, from a position on and up
  to a position. A negative position counts from the end; the program does not use them.
\<close>

definition utstring_find :: "UT_string \<Rightarrow> int \<Rightarrow> char list \<Rightarrow> int res" where
  "utstring_find s pstart nd =
     (let start = (if pstart < 0 then sint (us_i s + word_of_int pstart) else pstart);
          H = sint (us_i s - word_of_int start)
      in if int (length nd) \<le> H \<and> 0 < length nd
         then rbind (utstring_BuildTable nd (replicate (length nd + 1) None)) (\<lambda>T.
              rbind (utstring_find_in (\<lambda>k. cell (us_d s) (start + k)) H nd T) (\<lambda>pos.
              Inr (if 0 \<le> pos then pos + start else pos)))
         else Inr (-1))"

definition utstring_findR :: "UT_string \<Rightarrow> int \<Rightarrow> char list \<Rightarrow> int res" where
  "utstring_findR s pstart nd =
     (let start = (if pstart < 0 then sint (us_i s + word_of_int pstart) else pstart);
          H = start + 1
      in if int (length nd) \<le> H \<and> 0 < length nd
         then rbind (utstring_BuildTableR nd (replicate (length nd + 1) None)) (\<lambda>T.
              utstring_find_in_R (cell (us_d s)) H nd T)
         else Inr (-1))"

subsection \<open>The bytes searched\<close>

lemma us_text_cell:
  assumes "us_text s t" and "k < length t"
  shows "cell (us_d s) (int k) = Inr (t ! k)"
proof -
  note h = us_textD [OF assms(1)]
  have "k < length (us_d s)" using h(1,3) assms(2) by simp
  moreover have "us_d s ! k = take (length t) (us_d s) ! k" using assms(2) by simp
  then have "us_d s ! k = Some (t ! k)" using h(4) assms(2) by simp
  ultimately show ?thesis by (simp add: cell_def)
qed

text \<open>The position a negative argument counts to, as \<^verbatim>\<open>long\<close>.\<close>

lemma sint_word_of_int: "- (2 ^ 63) \<le> k \<Longrightarrow> k < 2 ^ 63 \<Longrightarrow> sint (word_of_int k :: 64 word) = k"
  by (simp add: sint_sbintrunc' signed_take_bit_int_eq_self)

lemma us_i_word: "us_text s t \<Longrightarrow> us_i s = word_of_int (int (length t))"
  using us_textD(2) [of s t] by (metis of_int_of_nat_eq of_nat_unat ucast_id)

definition position :: "char list \<Rightarrow> int \<Rightarrow> int" where
  "position t pstart = (if pstart < 0 then int (length t) + pstart else pstart)"

lemma sint_position:
  assumes "us_text s t" and "length t < 2 ^ 31" and "- int (length t) \<le> pstart" and "pstart < 0"
  shows "sint (us_i s + word_of_int pstart) = position t pstart"
proof -
  have "us_i s + word_of_int pstart = word_of_int (int (length t) + pstart)"
    using us_i_word [OF assms(1)] by (simp add: wi_hom_add)
  then show ?thesis using assms(2-4) sint_word_of_int [of "int (length t) + pstart"]
    by (simp add: position_def)
qed

lemma utstring_find_first:
  assumes "us_text s t" and "length t < 2 ^ 31" and "p \<noteq> []"
    and "0 \<le> position t pstart" and "pstart < 2 ^ 62"
  shows "\<exists>r. utstring_find s pstart p = Inr r \<and> first_occurrence p t (nat (position t pstart)) r"
proof -
  define k where "k = nat (position t pstart)"
  have k: "position t pstart = int k" using assms(4) by (simp add: k_def)
  have start: "(if pstart < 0 then sint (us_i s + word_of_int pstart) else pstart) = int k"
    using sint_position [OF assms(1,2), of pstart] k by (auto simp: position_def)
  have kb: "int k < 2 ^ 62 + 2 ^ 31" using k assms(2,5) by (auto simp: position_def split: if_splits)
  have "us_i s - word_of_int (int k) = word_of_int (int (length t) - int k)"
    using us_i_word [OF assms(1)] by (simp add: wi_hom_sub)
  then have H: "sint (us_i s - of_nat k) = int (length t) - int k"
    using sint_word_of_int [of "int (length t) - int k"] kb assms(2) by simp
  show ?thesis
  proof (cases "length p + k \<le> length t")
    case False
    then have "first_occurrence p t k (-1)" by (intro first_occurrence_none) simp
    moreover have "utstring_find s pstart p = Inr (-1)"
      using False by (simp add: utstring_find_def start H)
    ultimately show ?thesis by (simp add: k_def)
  next
    case True
    obtain T where T: "utstring_BuildTable p (replicate (length p + 1) None) = Inr T" "table_to p T (length p)"
      using utstring_BuildTable_table [OF assms(3)] by blast
    have hay: "cell (us_d s) (int k + int i) = Inr (drop k t ! i)" if "i < length (drop k t)" for i
      using us_text_cell [OF assms(1), of "k + i"] that by simp
    have "length (drop k t) < 2 ^ 31" "length p \<le> length (drop k t)"
      unfolding length_drop using assms(2) True by linarith+
    then obtain r where r: "utstring_find_in (\<lambda>i. cell (us_d s) (int k + i)) (int (length (drop k t))) p T = Inr r"
      "first_occurrence p (drop k t) 0 r"
      using utstring_find_in_first [where h = "drop k t", OF hay _ T(2)] assms(3) by blast
    have "int (length t) - int k = int (length (drop k t))" using True by (simp add: of_nat_diff)
    then have "utstring_find s pstart p = Inr (if 0 \<le> r then r + int k else r)"
      using T(1) r(1) True assms(3) by (simp add: utstring_find_def start H del: replicate_Suc)
    moreover have "first_occurrence p t k (if 0 \<le> r then r + int k else r)"
      by (rule first_occurrence_drop [OF r(2)]) (use True in simp)
    ultimately show ?thesis by (simp add: k_def)
  qed
qed

lemma utstring_findR_last:
  assumes "us_text s t" and "length t < 2 ^ 31" and "p \<noteq> []"
    and "0 \<le> position t pstart" and "position t pstart < int (length t)"
  shows "\<exists>r. utstring_findR s pstart p = Inr r \<and> last_occurrence p (take (nat (position t pstart) + 1) t) r"
proof -
  define k where "k = nat (position t pstart)"
  have k: "position t pstart = int k" "k < length t" using assms(4,5) by (simp_all add: k_def nat_less_iff)
  have start: "(if pstart < 0 then sint (us_i s + word_of_int pstart) else pstart) = int k"
    using sint_position [OF assms(1,2), of pstart] k by (auto simp: position_def)
  have l: "length (take (k + 1) t) = k + 1" using k(2) by simp
  show ?thesis
  proof (cases "length p \<le> k + 1")
    case False
    then have "last_occurrence p (take (k + 1) t) (-1)" using l by (intro last_occurrence_none) simp
    moreover have "utstring_findR s pstart p = Inr (-1)"
      using False by (simp add: utstring_findR_def start)
    ultimately show ?thesis by (simp add: k_def)
  next
    case True
    obtain T where T: "utstring_BuildTableR p (replicate (length p + 1) None) = Inr T"
      "length T = length p + 1" "table_to (rev p) (mirror p T) (length p)"
      using utstring_BuildTableR_table [OF assms(3)] by blast
    have hay: "cell (us_d s) (int i) = Inr (take (k + 1) t ! i)" if "i < length (take (k + 1) t)" for i
      using us_text_cell [OF assms(1), of i] that l k(2) by simp
    have "length p < 2 ^ 31" using True k(2) assms(2) by simp
    from utstring_find_in_R_last [where h = "take (k + 1) t" and hay = "cell (us_d s)", OF hay this T(2,3)]
    obtain r where "utstring_find_in_R (cell (us_d s)) (int (k + 1)) p T = Inr r"
      "last_occurrence p (take (k + 1) t) r" using True assms(3) l k(2) by auto
    with T(1) True assms(3) show ?thesis
      by (intro exI [of _ r]) (simp add: utstring_findR_def start k_def [symmetric] add.commute del: replicate_Suc)
  qed
qed

text \<open>
  C31: the two searches of a string that holds a text of fewer than \<open>2 ^ 31\<close> bytes, for a
  needle that is not empty, from a start position inside the text (a negative one counts from the
  end, and must not go past the beginning): \<^verbatim>\<open>utstring_find\<close>
  returns the first position from the start position on, and \<^verbatim>\<open>utstring_findR\<close>
  the last one within the bytes up to it, at which the text holds the needle, and both
  \<open>-1\<close> when there is none. Under these conditions both end, and read inside the text, the
  needle and the table only.
\<close>

theorem utstring_finds_occurrence:
  assumes "us_holds s t" and "length t < 2 ^ 31" and "p \<noteq> []"
    and "0 \<le> position t pstart" and "position t pstart < int (length t)"
  shows "\<exists>r r'. utstring_find s pstart p = Inr r \<and> first_occurrence p t (nat (position t pstart)) r
    \<and> utstring_findR s pstart p = Inr r' \<and> last_occurrence p (take (nat (position t pstart) + 1) t) r'"
proof -
  have "us_text s t" using assms(1) by (simp add: us_holds_def)
  moreover have "pstart < 2 ^ 62" using assms(2,5) by (auto simp: position_def split: if_splits)
  ultimately show ?thesis
    using utstring_find_first [of s t p pstart] utstring_findR_last [of s t p pstart] assms(2-5) by blast
qed

lemma utstring_finds_occurrence_witness:
  "\<exists>s r r'. us_holds s ''abcabcabdabcabd''
    \<and> utstring_find s 4 ''abcabd'' = Inr r \<and> first_occurrence ''abcabd'' ''abcabcabdabcabd'' 4 r
    \<and> utstring_findR s 4 ''abcabd'' = Inr r' \<and> last_occurrence ''abcabd'' (take 5 ''abcabcabdabcabd'') r'"
proof -
  obtain s0 where s0: "us_holds s0 []" using utstring_new_holds by blast
  then obtain s where s: "us_holds s ''abcabcabdabcabd''"
    using us.append_shows [OF s0, of "''abcabcabdabcabd''"] by auto
  from utstring_finds_occurrence [OF s, of "''abcabd''" 4] s show ?thesis
    by (auto simp: position_def)
qed

text \<open>A start position before the text is not caught: the search reads in front of the bytes.\<close>

lemma utstring_find_before:
  "\<exists>s. us_holds s ''abc'' \<and> utstring_find s (-5) ''bc'' = Inl Out_Of_Bounds"
proof -
  obtain s0 where s0: "us_holds s0 []" using utstring_new_holds by blast
  then obtain s where s: "us_holds s ''abc''" using us.append_shows [OF s0, of "''abc''"] by auto
  then have i: "us_i s = 3" using us_i_word [of s "''abc''"] by (simp add: us_holds_def)
  have "utstring_BuildTable ''bc'' (replicate 3 None) = Inr [Some (-1), Some 0, Some 0]" by code_simp
  then have "utstring_find s (-5) ''bc'' = Inl Out_Of_Bounds"
    by (simp add: utstring_find_def i sint_word_of_int utstring_find_in_def find_loop.simps fall_back.simps cell_def to_int32_def numeral_eq_Suc)
  with s show ?thesis by blast
qed

end
