(* ===== verification/JsonHeap.thy ===== *)
theory JsonHeap
  imports ArrayList "HOL-Library.Multiset"
begin

text \<open>
  The reference counts and the destructors of the JSON library (\<^verbatim>\<open>json_object.c\<close>,
  with \<^verbatim>\<open>array_list_free\<close> and \<^verbatim>\<open>lh_table_free\<close>), which
  \<open>Json\<close> leaves out: objects have addresses, containers hold pointers, and a pointer may be
  held by several owners. The heap is the list of what \<^verbatim>\<open>calloc\<close> has handed out,
  \<open>None\<close> once it is freed; an address is not handed out again, so that every use of a freed object
  is seen.

  The lemmas show that a client that gives back the references it owns, and no other, never makes
  the library use or free an object twice, and that no object is left behind unless it is part of
  a cycle.
\<close>

type_synonym ptr = "nat option"

datatype jdata =
    D_Boolean bool
  | D_Double fp
  | D_Int int
  | D_String cstring
  | D_Object "(cstring \<times> ptr) list"
  | D_Array "nat array_list"

record jnode =
  ref_count :: int
  jdata :: jdata

type_synonym jheap = "jnode option list"

definition deref_node :: "jheap \<Rightarrow> nat \<Rightarrow> jnode res" where
  "deref_node h a = (if a < length h then (case h ! a of None \<Rightarrow> Inl Use_After_Free | Some n \<Rightarrow> Inr n)
     else Inl Wild_Deref)"

subsection \<open>Construction and destruction\<close>

definition json_object_new :: "jdata \<Rightarrow> jheap \<Rightarrow> nat \<times> jheap" where
  "json_object_new d h = (length h, h @ [Some \<lparr>ref_count = 1, jdata = d\<rparr>])"

definition json_object_new_object :: "jheap \<Rightarrow> nat \<times> jheap" where
  "json_object_new_object h = json_object_new (D_Object []) h"

definition json_object_new_boolean :: "bool \<Rightarrow> jheap \<Rightarrow> nat \<times> jheap" where
  "json_object_new_boolean b h = json_object_new (D_Boolean b) h"

definition json_object_new_int :: "int \<Rightarrow> jheap \<Rightarrow> nat \<times> jheap" where
  "json_object_new_int i h = json_object_new (D_Int i) h"

definition json_object_new_double :: "fp \<Rightarrow> jheap \<Rightarrow> nat \<times> jheap" where
  "json_object_new_double d h = json_object_new (D_Double d) h"

definition json_object_new_string :: "cstring \<Rightarrow> jheap \<Rightarrow> nat \<times> jheap" where
  "json_object_new_string s h = json_object_new (D_String s) h"

definition json_object_new_string_len :: "cstring \<Rightarrow> nat \<Rightarrow> jheap \<Rightarrow> nat \<times> jheap" where
  "json_object_new_string_len s len h = json_object_new (D_String (take len s)) h"

definition json_object_new_array :: "jheap \<Rightarrow> nat \<times> jheap" where
  "json_object_new_array h = json_object_new (D_Array array_list_new) h"

lemmas json_object_constructors = json_object_new_object_def json_object_new_boolean_def
  json_object_new_int_def json_object_new_double_def json_object_new_string_def
  json_object_new_string_len_def json_object_new_array_def

definition json_object_incref :: "ptr \<Rightarrow> jheap \<Rightarrow> jheap res" where
  "json_object_incref jso h = (case jso of None \<Rightarrow> Inr h
     | Some a \<Rightarrow> rbind (deref_node h a) (\<lambda>n.
         if ref_count n = INT_MAX then Inl Signed_Overflow
         else Inr (h[a := Some (n\<lparr>ref_count := ref_count n + 1\<rparr>)])))"

definition json_object_generic_delete :: "nat \<Rightarrow> jheap \<Rightarrow> jheap res" where
  "json_object_generic_delete a h = rbind (deref_node h a) (\<lambda>n. Inr (h[a := None]))"

text \<open>The containers give back the pointers they hold; \<open>put\<close> is
  \<^verbatim>\<open>json_object_put\<close>.\<close>

definition lh_table_free :: "(ptr \<Rightarrow> jheap \<Rightarrow> jheap res) \<Rightarrow> (cstring \<times> ptr) list \<Rightarrow> jheap \<Rightarrow> jheap res" where
  "lh_table_free put kvs h = rfold (\<lambda>(k, v). put v) kvs h"

definition array_list_free :: "(ptr \<Rightarrow> jheap \<Rightarrow> jheap res) \<Rightarrow> nat array_list \<Rightarrow> jheap \<Rightarrow> jheap res" where
  "array_list_free put arr h =
     rfold (\<lambda>v h. if v \<noteq> None then put v h else Inr h) (take (al_length arr) (al_array arr)) h"

definition json_object_object_delete :: "(ptr \<Rightarrow> jheap \<Rightarrow> jheap res) \<Rightarrow> (cstring \<times> ptr) list \<Rightarrow> nat \<Rightarrow> jheap \<Rightarrow> jheap res" where
  "json_object_object_delete put kvs a h = rbind (lh_table_free put kvs h) (json_object_generic_delete a)"

definition json_object_array_delete :: "(ptr \<Rightarrow> jheap \<Rightarrow> jheap res) \<Rightarrow> nat array_list \<Rightarrow> nat \<Rightarrow> jheap \<Rightarrow> jheap res" where
  "json_object_array_delete put arr a h = rbind (array_list_free put arr h) (json_object_generic_delete a)"

definition json_object_string_delete :: "nat \<Rightarrow> jheap \<Rightarrow> jheap res" where
  "json_object_string_delete a h = json_object_generic_delete a h"

text \<open>The virtual \<^verbatim>\<open>_delete\<close>, which the constructors set.\<close>

definition json_object_delete :: "(ptr \<Rightarrow> jheap \<Rightarrow> jheap res) \<Rightarrow> nat \<Rightarrow> jheap \<Rightarrow> jheap res" where
  "json_object_delete put a h = rbind (deref_node h a) (\<lambda>n. case jdata n of
       D_Object kvs \<Rightarrow> json_object_object_delete put kvs a h
     | D_Array arr \<Rightarrow> json_object_array_delete put arr a h
     | D_String s \<Rightarrow> json_object_string_delete a h
     | _ \<Rightarrow> json_object_generic_delete a h)"

lemmas json_object_deletes = json_object_delete_def json_object_object_delete_def
  json_object_array_delete_def json_object_string_delete_def

text \<open>The recursion enters an object at most once, so it is no deeper than there are objects.\<close>

primrec put_turns :: "nat \<Rightarrow> ptr \<Rightarrow> jheap \<Rightarrow> jheap res" where
  "put_turns 0 = (\<lambda>jso h. Inl Endless_Loop)"
| "put_turns (Suc f) = (\<lambda>jso h. case jso of None \<Rightarrow> Inr h
     | Some a \<Rightarrow> rbind (deref_node h a) (\<lambda>n.
         let n = n\<lparr>ref_count := ref_count n - 1\<rparr>;
             h = h[a := Some n]
         in if ref_count n = 0 then json_object_delete (put_turns f) a h else Inr h))"

definition json_object_decref :: "ptr \<Rightarrow> jheap \<Rightarrow> jheap res" where
  "json_object_decref jso h = put_turns (Suc (length h)) jso h"

subsection \<open>The containers\<close>

definition as_object :: "jnode \<Rightarrow> (cstring \<times> ptr) list res" where
  "as_object n = (case jdata n of D_Object kvs \<Rightarrow> Inr kvs | _ \<Rightarrow> Inl Type_Confusion)"

definition as_array :: "jnode \<Rightarrow> nat array_list res" where
  "as_array n = (case jdata n of D_Array arr \<Rightarrow> Inr arr | _ \<Rightarrow> Inl Type_Confusion)"

definition set_data :: "nat \<Rightarrow> jdata \<Rightarrow> jheap \<Rightarrow> jheap" where
  "set_data a d h = h[a := map_option (\<lambda>n. n\<lparr>jdata := d\<rparr>) (h ! a)]"

fun entry_del :: "cstring \<Rightarrow> (cstring \<times> ptr) list \<Rightarrow> (cstring \<times> ptr) list" where
  "entry_del key [] = []"
| "entry_del key ((k, v) # kvs) = (if k = key then kvs else (k, v) # entry_del key kvs)"

text \<open>\<^verbatim>\<open>lh_table_delete\<close> gives back the value before it takes the entry out.\<close>

definition heap_object_del :: "nat \<Rightarrow> cstring \<Rightarrow> jheap \<Rightarrow> jheap res" where
  "heap_object_del jso key h =
     rbind (deref_node h jso) (\<lambda>n. rbind (as_object n) (\<lambda>kvs.
     case map_of kvs key of
       None \<Rightarrow> Inr h
     | Some v \<Rightarrow> rbind (json_object_decref v h) (\<lambda>h.
         rbind (deref_node h jso) (\<lambda>n. rbind (as_object n) (\<lambda>kvs.
         Inr (set_data jso (D_Object (entry_del key kvs)) h))))))"

definition heap_object_add :: "nat \<Rightarrow> cstring \<Rightarrow> ptr \<Rightarrow> jheap \<Rightarrow> jheap res" where
  "heap_object_add jso key val h =
     rbind (heap_object_del jso key h) (\<lambda>h.
     rbind (deref_node h jso) (\<lambda>n. rbind (as_object n) (\<lambda>kvs.
     Inr (set_data jso (D_Object (kvs @ [(key, val)])) h))))"

text \<open>\<^verbatim>\<open>array_list_put_idx\<close> with its \<^verbatim>\<open>free_fn\<close>: what was in the slot is
  given back.\<close>

definition heap_array_put_idx :: "nat \<Rightarrow> int \<Rightarrow> ptr \<Rightarrow> jheap \<Rightarrow> jheap res" where
  "heap_array_put_idx jso idx val h =
     rbind (deref_node h jso) (\<lambda>n. rbind (as_array n) (\<lambda>arr.
     rbind (array_list_expand_internal arr idx) (\<lambda>arr.
     if idx < 0 \<or> int (length (al_array arr)) \<le> idx then Inl Out_Of_Bounds
     else let old = al_array arr ! nat idx; h = set_data jso (D_Array arr) h in
       rbind (if old \<noteq> None then json_object_decref old h else Inr h) (\<lambda>h.
       rbind (deref_node h jso) (\<lambda>n. rbind (as_array n) (\<lambda>arr.
       Inr (set_data jso (D_Array (arr\<lparr>al_array := (al_array arr)[nat idx := val],
         al_length := (if int (al_length arr) \<le> idx then nat idx + 1 else al_length arr)\<rparr>)) h)))))))"

definition heap_array_add :: "nat \<Rightarrow> ptr \<Rightarrow> jheap \<Rightarrow> jheap res" where
  "heap_array_add jso val h =
     rbind (deref_node h jso) (\<lambda>n. rbind (as_array n) (\<lambda>arr. heap_array_put_idx jso (int (al_length arr)) val h))"

subsection \<open>Counting references\<close>

fun kids :: "jdata \<Rightarrow> ptr list" where
  "kids (D_Object kvs) = map snd kvs"
| "kids (D_Array arr) = elems arr"
| "kids _ = []"

definition kids_at :: "jheap \<Rightarrow> nat \<Rightarrow> ptr list" where
  "kids_at h b = (if b < length h then (case h ! b of None \<Rightarrow> [] | Some n \<Rightarrow> kids (jdata n)) else [])"

fun ptrs :: "ptr list \<Rightarrow> nat multiset" where
  "ptrs [] = {#}"
| "ptrs (None # ps) = ptrs ps"
| "ptrs (Some a # ps) = add_mset a (ptrs ps)"

lemma ptrs_append: "ptrs (ps @ qs) = ptrs ps + ptrs qs"
  by (induction ps rule: ptrs.induct) auto

lemma in_ptrs: "a \<in># ptrs ps \<longleftrightarrow> Some a \<in> set ps"
  by (induction ps rule: ptrs.induct) auto

text \<open>The references that the live objects hold on \<open>a\<close>, without those of the objects in \<open>D\<close>,
  which are being destroyed.\<close>

definition held :: "jheap \<Rightarrow> nat set \<Rightarrow> nat multiset" where
  "held h D = (\<Sum>b \<in> {..<length h} - D. ptrs (kids_at h b))"

definition rc :: "jheap \<Rightarrow> nat \<Rightarrow> int" where
  "rc h a = (if a < length h then (case h ! a of None \<Rightarrow> 0 | Some n \<Rightarrow> ref_count n) else 0)"

definition alive :: "jheap \<Rightarrow> nat \<Rightarrow> bool" where
  "alive h a \<longleftrightarrow> a < length h \<and> h ! a \<noteq> None"

text \<open>\<open>R\<close> is the references held outside the heap. The count of an object is the number of its
  references; an object in destruction, or freed, has none.\<close>

definition ref_inv :: "jheap \<Rightarrow> nat set \<Rightarrow> nat multiset \<Rightarrow> bool" where
  "ref_inv h D R \<longleftrightarrow> (\<forall>a. rc h a = int (count (R + held h D) a))
     \<and> (\<forall>a. 0 < rc h a \<longleftrightarrow> alive h a \<and> a \<notin> D) \<and> (\<forall>a \<in> D. alive h a)"

lemma ref_invI:
  "(\<And>a. rc h a = int (count (R + held h D) a)) \<Longrightarrow> (\<And>a. 0 < rc h a \<longleftrightarrow> alive h a \<and> a \<notin> D) \<Longrightarrow>
   (\<And>a. a \<in> D \<Longrightarrow> alive h a) \<Longrightarrow> ref_inv h D R"
  by (simp add: ref_inv_def)

lemma ref_invD:
  assumes "ref_inv h D R"
  shows "rc h a = int (count (R + held h D) a)" "0 < rc h a \<longleftrightarrow> alive h a \<and> a \<notin> D" "a \<in> D \<Longrightarrow> alive h a"
  using assms unfolding ref_inv_def by blast+

lemma ref_inv_root:
  assumes "ref_inv h D R" and "a \<in># R"
  obtains n where "alive h a" and "a \<notin> D" and "h ! a = Some n" and "deref_node h a = Inr n" and "ref_count n = rc h a"
    and "0 < rc h a"
proof -
  have "0 < count (R + held h D) a" using assms(2) by simp
  then have "0 < rc h a" unfolding ref_invD(1) [OF assms(1)] by (simp only: of_nat_0_less_iff)
  moreover from this have "alive h a" "a \<notin> D" using ref_invD(2) [OF assms(1)] by blast+
  moreover from this(1) obtain n where "h ! a = Some n" "deref_node h a = Inr n" "ref_count n = rc h a"
    by (auto simp: alive_def deref_node_def rc_def)
  ultimately show ?thesis using that by blast
qed

text \<open>An object whose count alone changes.\<close>

lemma held_count [simp]:
  assumes "h ! a = Some n"
  shows "held (h[a := Some (n\<lparr>ref_count := k\<rparr>)]) D = held h D"
proof -
  have "kids_at (h[a := Some (n\<lparr>ref_count := k\<rparr>)]) b = kids_at h b" for b
    using assms by (cases "b = a") (auto simp: kids_at_def)
  then show ?thesis by (simp add: held_def)
qed

lemma rc_update: "a < length h \<Longrightarrow> rc (h[a := Some n]) b = (if b = a then ref_count n else rc h b)"
  by (auto simp: rc_def)

lemma alive_update: "alive (h[a := x]) b \<longleftrightarrow> (if b = a then a < length h \<and> x \<noteq> None else alive h b)"
  by (auto simp: alive_def)

lemma rc_free: "rc (h[a := None]) b = (if b = a then 0 else rc h b)"
  by (cases "b < length h") (auto simp: rc_def nth_list_update)

lemma ref_inv_count:
  assumes "ref_inv h D R" and "h ! a = Some n" and "alive h a" and "a \<notin> D"
    and "0 < k" and "k = int (count (R' + held h D) a)" and "\<And>b. b \<noteq> a \<Longrightarrow> count R' b = count R b"
  shows "ref_inv (h[a := Some (n\<lparr>ref_count := k\<rparr>)]) D R'"
proof (rule ref_invI)
  have l: "a < length h" using assms(3) by (simp add: alive_def)
  show "rc (h[a := Some (n\<lparr>ref_count := k\<rparr>)]) b = int (count (R' + held (h[a := Some (n\<lparr>ref_count := k\<rparr>)]) D) b)" for b
    using ref_invD(1) [OF assms(1), of b] assms(2,6,7) l by (cases "b = a") (simp_all add: rc_update)
  show "0 < rc (h[a := Some (n\<lparr>ref_count := k\<rparr>)]) b \<longleftrightarrow> alive (h[a := Some (n\<lparr>ref_count := k\<rparr>)]) b \<and> b \<notin> D" for b
    using ref_invD(2) [OF assms(1), of b] assms(4,5) l by (simp add: rc_update alive_update)
  show "alive (h[a := Some (n\<lparr>ref_count := k\<rparr>)]) b" if "b \<in> D" for b
    using ref_invD(3) [OF assms(1) that] l by (simp add: alive_update)
qed

text \<open>An object enters its destruction: the references it holds are then to be given back.\<close>

lemma held_insert:
  assumes "a < length h" and "a \<notin> D"
  shows "held h D = ptrs (kids_at h a) + held h (insert a D)"
proof -
  have e: "{..<length h} - D = insert a ({..<length h} - insert a D)" using assms by auto
  show ?thesis unfolding held_def e by (rule sum.insert) auto
qed

lemma ref_inv_destroy:
  assumes "ref_inv h D (add_mset a R)" and "h ! a = Some n" and "ref_count n = 1"
  shows "ref_inv (h[a := Some (n\<lparr>ref_count := 0\<rparr>)]) (insert a D) (R + ptrs (kids (jdata n)))"
proof -
  let ?h = "h[a := Some (n\<lparr>ref_count := 0\<rparr>)]"
  obtain a: "alive h a" "a \<notin> D" "rc h a = 1"
    using ref_inv_root [OF assms(1), of a] assms(2,3) by (metis option.inject union_single_eq_member)
  then have l: "a < length h" by (simp add: alive_def)
  have none: "count (R + held h D) a = 0" using ref_invD(1) [OF assms(1), of a] a(3) by simp
  have "kids (jdata n) = kids_at h a" using assms(2) l by (simp add: kids_at_def)
  then have eq: "R + ptrs (kids (jdata n)) + held ?h (insert a D) = R + held h D"
    using held_insert [OF l a(2)] held_count [OF assms(2)] by (simp add: add.assoc)
  show ?thesis
  proof (rule ref_invI)
    show "rc ?h b = int (count (R + ptrs (kids (jdata n)) + held ?h (insert a D)) b)" for b
      unfolding eq rc_update [OF l] using ref_invD(1) [OF assms(1), of b] none by (cases "b = a") simp_all
    show "0 < rc ?h b \<longleftrightarrow> alive ?h b \<and> b \<notin> insert a D" for b
      using ref_invD(2) [OF assms(1), of b] l by (simp add: rc_update alive_update)
    show "alive ?h b" if "b \<in> insert a D" for b
      using ref_invD(3) [OF assms(1), of b] that l by (auto simp: alive_update)
  qed
qed

text \<open>It is freed when it holds none any more.\<close>

lemma ref_inv_free:
  assumes "ref_inv h (insert a D) R" and "a \<notin> D"
  shows "ref_inv (h[a := None]) D R"
proof -
  have a: "alive h a" by (rule ref_invD(3) [OF assms(1)]) simp
  then have l: "a < length h" by (simp add: alive_def)
  have "\<not> 0 < rc h a" using ref_invD(2) [OF assms(1), of a] by simp
  then have rc: "rc h a = 0" using ref_invD(1) [OF assms(1), of a] by simp
  have k: "kids_at (h[a := None]) b = (if b = a then [] else kids_at h b)" for b
    using l by (auto simp: kids_at_def)
  then have "held (h[a := None]) (insert a D) = held h (insert a D)"
    unfolding held_def by (intro sum.cong) auto
  then have held: "held (h[a := None]) D = held h (insert a D)"
    using held_insert [of a "h[a := None]" D] l assms(2) k by simp
  show ?thesis
  proof (rule ref_invI)
    show "rc (h[a := None]) b = int (count (R + held (h[a := None]) D) b)" for b
      unfolding held rc_free using ref_invD(1) [OF assms(1), of b] rc by (cases "b = a") simp_all
    show "0 < rc (h[a := None]) b \<longleftrightarrow> alive (h[a := None]) b \<and> b \<notin> D" for b
      using ref_invD(2) [OF assms(1), of b] by (simp add: rc_free alive_update)
    show "alive (h[a := None]) b" if "b \<in> D" for b
      using ref_invD(3) [OF assms(1), of b] that assms(2) by (auto simp: alive_update)
  qed
qed

subsection \<open>Giving a reference back\<close>

text \<open>What a heap has become: counts have fallen and objects have gone, no data has changed.\<close>

definition shrunk :: "jheap \<Rightarrow> jheap \<Rightarrow> bool" where
  "shrunk h h' \<longleftrightarrow> length h' = length h \<and> (\<forall>a. rc h' a \<le> rc h a)
     \<and> (\<forall>a n'. a < length h \<and> h' ! a = Some n' \<longrightarrow> (\<exists>n. h ! a = Some n \<and> jdata n' = jdata n))"

lemma shrunk_refl: "shrunk h h"
  by (simp add: shrunk_def)

lemma shrunk_trans: "shrunk h h1 \<Longrightarrow> shrunk h1 h2 \<Longrightarrow> shrunk h h2"
  unfolding shrunk_def by (metis order_trans)

lemma shrunk_count:
  assumes "a < length h" and "h ! a = Some n" and "k \<le> ref_count n"
  shows "shrunk h (h[a := Some (n\<lparr>ref_count := k\<rparr>)])"
proof -
  have "rc h a = ref_count n" using assms by (simp add: rc_def)
  with assms show ?thesis by (auto simp: shrunk_def rc_update nth_list_update)
qed

lemma shrunk_free: "a < length h \<Longrightarrow> 0 \<le> rc h a \<Longrightarrow> shrunk h (h[a := None])"
  by (auto simp: shrunk_def rc_free nth_list_update split: if_splits)

text \<open>The objects that have not begun to be destroyed.\<close>

definition counted :: "jheap \<Rightarrow> nat set" where
  "counted h = {a. 0 < rc h a}"

lemma finite_counted [simp]: "finite (counted h)" and card_counted: "card (counted h) \<le> length h"
proof -
  have s: "counted h \<subseteq> {..<length h}" by (auto simp: counted_def rc_def split: if_splits)
  then show "finite (counted h)" by (rule finite_subset) simp
  show "card (counted h) \<le> length h" using card_mono [OF _ s] by simp
qed

lemma shrunk_counted: "shrunk h h' \<Longrightarrow> card (counted h') \<le> card (counted h)"
  by (intro card_mono finite_counted) (auto simp: shrunk_def counted_def intro: less_le_trans)

lemma array_list_free_eq: "put None = Inr \<Longrightarrow> array_list_free put arr = rfold put (elems arr)"
proof
  fix h assume p: "put None = Inr"
  then have "(\<lambda>v h. if v \<noteq> None then put v h else Inr h) = put" by (auto simp: fun_eq_iff)
  then show "array_list_free put arr h = rfold put (elems arr) h" by (simp add: array_list_free_def elems_def)
qed

lemma lh_table_free_eq: "lh_table_free put kvs h = rfold put (map snd kvs) h"
  unfolding lh_table_free_def by (induction kvs arbitrary: h) (auto simp: rbind_def split: sum.split)

lemma json_object_delete_eq:
  assumes "deref_node h a = Inr n" and "put None = Inr"
  shows "json_object_delete put a h = rbind (rfold put (kids (jdata n)) h) (json_object_generic_delete a)"
  using assms by (cases "jdata n") (simp_all add: json_object_deletes lh_table_free_eq array_list_free_eq)

lemma put_turns_None: "put_turns (Suc f) None = Inr"
  by (simp add: fun_eq_iff)

lemma put_turns_ok:
  assumes "ref_inv h D (R + ptrs [p])" and "card (counted h) < f"
  shows "\<exists>h'. put_turns f p h = Inr h' \<and> ref_inv h' D R \<and> shrunk h h'"
  using assms
proof (induction f arbitrary: h D R p)
  case (Suc f)
  have all: "\<exists>h'. rfold (put_turns f) ps h = Inr h' \<and> ref_inv h' D R \<and> shrunk h h'"
    if "ref_inv h D (R + ptrs ps)" "card (counted h) < f" for ps h D R
    using that
  proof (induction ps arbitrary: h)
    case (Cons q ps)
    have "ref_inv h D ((R + ptrs ps) + ptrs [q])" using Cons.prems(1) by (cases q) (simp_all add: ac_simps)
    then obtain h1 where h1: "put_turns f q h = Inr h1" "ref_inv h1 D (R + ptrs ps)" "shrunk h h1"
      using Suc.IH Cons.prems(2) by blast
    with Cons.IH [OF h1(2)] shrunk_counted [OF h1(3)] Cons.prems(2) show ?case
      by (auto intro: shrunk_trans)
  qed (auto simp: shrunk_refl)
  show ?case
  proof (cases p)
    case None
    with Suc.prems show ?thesis by (auto simp: shrunk_refl)
  next
    case (Some a)
    then have inv: "ref_inv h D (add_mset a R)" using Suc.prems(1) by simp
    obtain n where n: "alive h a" "a \<notin> D" "h ! a = Some n" "deref_node h a = Inr n" "ref_count n = rc h a" "0 < rc h a"
      using ref_inv_root [OF inv, of a] by auto
    have l: "a < length h" using n(1) by (simp add: alive_def)
    show ?thesis
    proof (cases "ref_count n = 1")
      case False
      let ?h = "h[a := Some (n\<lparr>ref_count := ref_count n - 1\<rparr>)]"
      have "put_turns (Suc f) p h = Inr ?h" using Some n(4) False by simp
      moreover have "ref_inv ?h D R"
        using n False ref_invD(1) [OF inv, of a] by (intro ref_inv_count [OF inv n(3,1,2)]) simp_all
      ultimately show ?thesis using shrunk_count [OF l n(3), of "ref_count n - 1"] by auto
    next
      case True
      let ?h = "h[a := Some (n\<lparr>ref_count := 0\<rparr>)]"
      have inv1: "ref_inv ?h (insert a D) (R + ptrs (kids (jdata n)))" by (rule ref_inv_destroy [OF inv n(3) True])
      have "a \<in> counted h" "a \<notin> counted ?h" "counted ?h \<subseteq> counted h"
        using n(6) l by (auto simp: counted_def rc_update)
      then have "counted ?h \<subset> counted h" by blast
      from psubset_card_mono [OF finite_counted this] Suc.prems(2) have c: "card (counted ?h) < f" by linarith
      then obtain f' where f: "f = Suc f'" by (cases f) auto
      obtain h2 where h2: "rfold (put_turns f) (kids (jdata n)) ?h = Inr h2" "ref_inv h2 (insert a D) R" "shrunk ?h h2"
        using all [OF inv1 c] by blast
      have "alive h2 a" by (rule ref_invD(3) [OF h2(2)]) simp
      then have g: "json_object_generic_delete a h2 = Inr (h2[a := None])"
        by (auto simp: json_object_generic_delete_def deref_node_def alive_def)
      have "deref_node ?h a = Inr (n\<lparr>ref_count := 0\<rparr>)" using l by (simp add: deref_node_def)
      then have "json_object_delete (put_turns f) a ?h = Inr (h2[a := None])"
        using json_object_delete_eq [of ?h a _ "put_turns f"] h2(1) g put_turns_None f by simp
      then have "put_turns (Suc f) p h = Inr (h2[a := None])" using Some n(4) True by simp
      have "0 \<le> rc h2 a" using ref_invD(1) [OF h2(2), of a] by simp
      moreover have "a < length h2" using \<open>alive h2 a\<close> by (simp add: alive_def)
      ultimately have "shrunk h2 (h2[a := None])" by (intro shrunk_free)
      then have "shrunk h (h2[a := None])"
        using shrunk_count [OF l n(3), of 0] h2(3) True by (auto intro: shrunk_trans)
      with \<open>put_turns (Suc f) p h = Inr (h2[a := None])\<close> ref_inv_free [OF h2(2) n(2)] show ?thesis by blast
    qed
  qed
qed simp

lemma json_object_decref_ok:
  assumes "ref_inv h {} (R + ptrs [p])"
  shows "\<exists>h'. json_object_decref p h = Inr h' \<and> ref_inv h' {} R \<and> shrunk h h'"
  using put_turns_ok [OF assms, of "Suc (length h)"] card_counted [of h]
  unfolding json_object_decref_def by simp

subsection \<open>An object that is not destroyed\<close>

lemma deref_alive: "alive h a \<Longrightarrow> deref_node h a = Inr (the (h ! a))"
  by (auto simp: deref_node_def alive_def)

lemma deref_Inr: "deref_node h a = Inr n \<longleftrightarrow> a < length h \<and> h ! a = Some n"
  by (auto simp: deref_node_def split: option.splits)

lemma length_set_data [simp]: "length (set_data c d h) = length h"
  by (simp add: set_data_def)

lemma nth_set_data:
  "(set_data c d h) ! b = (if b = c \<and> c < length h then map_option (\<lambda>n. n\<lparr>jdata := d\<rparr>) (h ! c) else h ! b)"
  by (cases "c < length h") (auto simp: set_data_def nth_list_update list_update_beyond)

lemma alive_set_data [simp]: "alive (set_data c d h) a = alive h a"
  by (auto simp: alive_def nth_set_data)

lemma rc_set_data [simp]: "rc (set_data c d h) a = rc h a"
  by (cases "h ! c") (auto simp: rc_def nth_set_data)

text \<open>Giving a reference back looks at the data of the objects it destroys, and of no other.\<close>

definition blind :: "(ptr \<Rightarrow> jheap \<Rightarrow> jheap res) \<Rightarrow> bool" where
  "blind put \<longleftrightarrow> (\<forall>p h h'. put p h = Inr h' \<longrightarrow> length h' = length h \<and> (\<forall>c. alive h' c \<longrightarrow> alive h c
     \<and> (\<forall>d. put p (set_data c d h) = Inr (set_data c d h'))))"

lemma blindD:
  assumes "blind put" and "put p h = Inr h'"
  shows "length h' = length h" and "alive h' c \<Longrightarrow> alive h c"
    and "alive h' c \<Longrightarrow> put p (set_data c d h) = Inr (set_data c d h')"
  using assms unfolding blind_def by blast+

lemma rfold_blind:
  assumes "blind put"
  shows "rfold put ps h = Inr h' \<Longrightarrow> length h' = length h \<and> (\<forall>c. alive h' c \<longrightarrow> alive h c
    \<and> (\<forall>d. rfold put ps (set_data c d h) = Inr (set_data c d h')))"
proof (induction ps arbitrary: h)
  case (Cons p ps)
  then obtain h1 where h1: "put p h = Inr h1" "rfold put ps h1 = Inr h'" by auto
  with Cons.IH [OF h1(2)] blindD [OF assms h1(1)] show ?case by simp
qed simp

lemma json_object_delete_split:
  assumes "blind put"
  shows "\<exists>put' ps. blind put' \<and> (\<forall>h m. deref_node h a = Inr m \<longrightarrow> jdata m = d \<longrightarrow>
    json_object_delete put a h = rbind (rfold put' ps h) (json_object_generic_delete a))"
proof (cases d)
  case (D_Array vs)
  have "blind (\<lambda>v h. if v \<noteq> None then put v h else Inr h)" using assms by (auto simp: blind_def)
  with D_Array show ?thesis by (intro exI conjI) (auto simp: json_object_deletes array_list_free_def)
next
  case (D_Object kvs)
  with assms show ?thesis by (intro exI conjI) (auto simp: json_object_deletes lh_table_free_eq)
qed (use assms in \<open>force simp: json_object_deletes intro: exI [of _ "[]"]\<close>)+

lemma json_object_delete_blind:
  assumes "blind put" and "json_object_delete put a h = Inr h'"
  shows "length h' = length h" and "alive h' c \<Longrightarrow> alive h c"
    and "alive h' c \<Longrightarrow> json_object_delete put a (set_data c d h) = Inr (set_data c d h')"
proof -
  obtain n where n: "deref_node h a = Inr n" using assms(2) by (cases "deref_node h a") (auto simp: json_object_deletes)
  obtain put' ps where b: "blind put'" and eq: "\<And>h m. deref_node h a = Inr m \<Longrightarrow> jdata m = jdata n \<Longrightarrow>
      json_object_delete put a h = rbind (rfold put' ps h) (json_object_generic_delete a)"
    using json_object_delete_split [OF assms(1), of a "jdata n"] by blast
  from assms(2) obtain h2 where h2: "rfold put' ps h = Inr h2" and h': "a < length h2" "h' = h2[a := None]"
    by (auto simp: eq [OF n] json_object_generic_delete_def deref_Inr)
  note bl = rfold_blind [OF b h2]
  from bl h' show "length h' = length h" by simp
  have ca: "c \<noteq> a \<and> alive h2 c" if "alive h' c" using that h' by (auto simp: alive_def nth_list_update split: if_splits)
  with bl show "alive h' c \<Longrightarrow> alive h c" by blast
  assume c: "alive h' c"
  have "deref_node (set_data c d h) a = Inr n" using n ca [OF c] by (simp add: deref_Inr nth_set_data)
  moreover have "deref_node (set_data c d h2) a = deref_node h2 a" using ca [OF c] by (simp add: deref_node_def nth_set_data)
  moreover have "(set_data c d h2)[a := None] = set_data c d h'"
    unfolding h' set_data_def using ca [OF c] by (simp add: list_update_swap)
  moreover have "rfold put' ps (set_data c d h) = Inr (set_data c d h2)" using bl ca [OF c] by blast
  moreover obtain m where "deref_node h2 a = Inr m" using assms(2) h2
    by (cases "deref_node h2 a") (auto simp: eq [OF n] json_object_generic_delete_def)
  ultimately show "json_object_delete put a (set_data c d h) = Inr (set_data c d h')"
    by (simp add: eq json_object_generic_delete_def)
qed

lemma put_turns_blind: "blind (put_turns f)"
proof (induction f)
  case 0
  show ?case by (simp add: blind_def)
next
  case (Suc f)
  show ?case unfolding blind_def
  proof (intro allI impI)
    fix p h h' assume r: "put_turns (Suc f) p h = Inr h'"
    show "length h' = length h \<and> (\<forall>c. alive h' c \<longrightarrow> alive h c
      \<and> (\<forall>d. put_turns (Suc f) p (set_data c d h) = Inr (set_data c d h')))"
    proof (cases p)
      case None
      with r show ?thesis by simp
    next
      case (Some a)
      then obtain n where n: "a < length h" "h ! a = Some n"
        using r by (auto simp: deref_Inr)
      let ?h = "h[a := Some (n\<lparr>ref_count := ref_count n - 1\<rparr>)]"
      have da: "deref_node h a = Inr n" using n by (simp add: deref_Inr)
      have al: "alive ?h c = alive h c" for c using n by (auto simp: alive_def nth_list_update)
      have upd: "(set_data c d h)[a := Some (ref_count_update (\<lambda>_. k) (the (set_data c d h ! a)))] =
          set_data c d (h[a := Some (n\<lparr>ref_count := k\<rparr>)])" for c d k
        using n by (intro nth_equalityI) (auto simp: nth_set_data nth_list_update)
      have cnt: "ref_count (the (set_data c d h ! a)) = ref_count n" for c d using n by (auto simp: nth_set_data)
      have dc: "deref_node (set_data c d h) a = Inr (the (set_data c d h ! a))" for c d
        using n by (cases "c = a") (auto simp: deref_node_def nth_set_data)
      show ?thesis
      proof (cases "ref_count n = 1")
        case False
        with r Some da have h': "h' = ?h" by (simp add: Let_def)
        have "put_turns (Suc f) p (set_data c d h) = Inr (set_data c d h')" for c d
          using Some False upd [of c d "ref_count n - 1"] by (simp add: dc cnt h' Let_def)
        with h' al show ?thesis by simp
      next
        case True
        then have del: "json_object_delete (put_turns f) a ?h = Inr h'" using r Some da by (simp add: Let_def)
        note bl = json_object_delete_blind [OF Suc.IH del]
        have "put_turns (Suc f) p (set_data c d h) = Inr (set_data c d h')" if "alive h' c" for c d
          using Some True bl(3) [OF that] upd [of c d "ref_count n - 1"] by (simp add: dc cnt Let_def)
        with bl(1,2) al show ?thesis by simp
      qed
    qed
  qed
qed

subsection \<open>Changing what an object holds\<close>

lemma set_data_again [simp]: "set_data a d (set_data a d' h) = set_data a d h"
  by (cases "a < length h") (cases "h ! a", simp_all add: set_data_def list_update_beyond)

lemma set_data_same: "deref_node h a = Inr n \<Longrightarrow> jdata n = d \<Longrightarrow> set_data a d h = h"
  by (auto simp: set_data_def deref_Inr list_update_same_conv)

lemma deref_set_data: "deref_node h a = Inr n \<Longrightarrow> deref_node (set_data a d h) a = Inr (n\<lparr>jdata := d\<rparr>)"
  by (simp add: deref_Inr nth_set_data)

lemma kids_at_deref: "deref_node h a = Inr n \<Longrightarrow> kids_at h a = kids (jdata n)"
  by (simp add: deref_Inr kids_at_def)

lemma held_set_data:
  assumes "deref_node h a = Inr n" and "a \<notin> D"
  shows "held (set_data a d h) D = ptrs (kids d) + held h (insert a D)"
proof -
  have "kids_at (set_data a d h) b = kids_at h b" if "b \<noteq> a" for b
    using that by (simp add: kids_at_def nth_set_data)
  then have "held (set_data a d h) (insert a D) = held h (insert a D)"
    unfolding held_def by (intro sum.cong) auto
  with held_insert [of a "set_data a d h" D] kids_at_deref [OF deref_set_data [OF assms(1)], of d] assms
  show ?thesis by (simp add: deref_Inr)
qed

lemma ref_inv_set_data:
  assumes "ref_inv h D R" and "deref_node h a = Inr n" and "a \<notin> D"
    and "R' + ptrs (kids d) = R + ptrs (kids (jdata n))"
  shows "ref_inv (set_data a d h) D R'"
proof -
  have "held h D = ptrs (kids (jdata n)) + held h (insert a D)"
    using held_insert [of a h D] kids_at_deref [OF assms(2)] assms(2,3) by (simp add: deref_Inr)
  then have eq: "R' + held (set_data a d h) D = R + held h D"
    using held_set_data [OF assms(2,3), of d] assms(4) by (metis add.assoc)
  show ?thesis unfolding ref_inv_def rc_set_data alive_set_data eq using assms(1) unfolding ref_inv_def .
qed

text \<open>The arrays of the live objects are well formed.\<close>

definition arrays_ok :: "jheap \<Rightarrow> bool" where
  "arrays_ok h \<longleftrightarrow> (\<forall>a n arr. deref_node h a = Inr n \<longrightarrow> jdata n = D_Array arr \<longrightarrow> array_wf arr)"

lemma arrays_ok_set_data:
  "arrays_ok h \<Longrightarrow> (\<And>arr. d = D_Array arr \<Longrightarrow> array_wf arr) \<Longrightarrow> arrays_ok (set_data a d h)"
  by (fastforce simp: arrays_ok_def deref_Inr nth_set_data split: if_splits)

lemma arrays_ok_shrunk: "arrays_ok h \<Longrightarrow> shrunk h h' \<Longrightarrow> arrays_ok h'"
  unfolding arrays_ok_def shrunk_def deref_Inr by metis

text \<open>The library gives a pointer back before it takes it out of its container. As the
  container is owned by the client, this is the same as taking it out first.\<close>

lemma decref_held_ok:
  assumes "ref_inv h {} R" and "a \<in># R" and "deref_node h a = Inr n"
    and "ptrs (kids (jdata n)) = ptrs [v] + ptrs (kids d)" and "arrays_ok (set_data a d h)"
  obtains h1 n1 where "json_object_decref v h = Inr (set_data a (jdata n) h1)" and "ref_inv h1 {} R"
    and "deref_node h1 a = Inr n1" and "jdata n1 = d" and "arrays_ok h1"
proof -
  let ?h = "set_data a d h"
  have "ref_inv ?h {} (R + ptrs [v])" using assms by (intro ref_inv_set_data [OF assms(1,3)]) (simp_all only: empty_iff not_False_eq_True add.assoc)
  from json_object_decref_ok [OF this] obtain h1
    where h1: "json_object_decref v ?h = Inr h1" "ref_inv h1 {} R" "shrunk ?h h1" by blast
  obtain n1 where n1: "alive h1 a" "deref_node h1 a = Inr n1" by (rule ref_inv_root [OF h1(2) assms(2)])
  then have "jdata n1 = d"
    using h1(3) deref_set_data [OF assms(3), of d] by (fastforce simp: shrunk_def deref_Inr)
  moreover have "json_object_decref v (set_data a (jdata n) ?h) = Inr (set_data a (jdata n) h1)"
    using blindD(3) [OF put_turns_blind h1(1) [unfolded json_object_decref_def] n1(1)]
    by (simp add: json_object_decref_def)
  ultimately show ?thesis using that h1(2) n1(2) set_data_same [OF assms(3) refl]
      arrays_ok_shrunk [OF assms(5) h1(3)] by simp
qed

lemma as_object_Inr [simp]: "as_object n = Inr kvs \<longleftrightarrow> jdata n = D_Object kvs"
  by (simp add: as_object_def split: jdata.splits)

lemma as_array_Inr [simp]: "as_array n = Inr arr \<longleftrightarrow> jdata n = D_Array arr"
  by (simp add: as_array_def split: jdata.splits)

lemma ptrs_Cons: "ptrs (p # ps) = ptrs [p] + ptrs ps"
  by (cases p) auto

lemma ptrs_entry_del:
  "map_of kvs key = Some v \<Longrightarrow> ptrs (map snd kvs) = ptrs [v] + ptrs (map snd (entry_del key kvs))"
proof (induction key kvs rule: entry_del.induct)
  case (2 key k v' kvs)
  then show ?case
    by (cases "k = key") (simp_all add: ptrs_Cons [of v' "map snd kvs"] ptrs_Cons [of v "map snd kvs"]
      ptrs_Cons [of v' "map snd (entry_del key kvs)"])
qed simp

lemma entry_del_absent: "map_of kvs key = None \<Longrightarrow> entry_del key kvs = kvs"
  by (induction key kvs rule: entry_del.induct) (auto split: if_splits)

lemma heap_object_del_ok:
  assumes "ref_inv h {} R" and "a \<in># R" and "deref_node h a = Inr n" and "as_object n = Inr kvs"
    and "arrays_ok h"
  obtains h1 n1 where "heap_object_del a key h = Inr h1" and "ref_inv h1 {} R" and "arrays_ok h1"
    and "deref_node h1 a = Inr n1" and "as_object n1 = Inr (entry_del key kvs)"
proof (cases "map_of kvs key")
  case None
  then show ?thesis using that [of h n] assms entry_del_absent [OF None] by (simp add: heap_object_del_def as_object_def)
next
  case (Some v)
  let ?d = "D_Object (entry_del key kvs)"
  have d: "jdata n = D_Object kvs" using assms(4) by simp
  then have "ptrs (kids (jdata n)) = ptrs [v] + ptrs (kids ?d)" using ptrs_entry_del [OF Some] by simp
  moreover have "arrays_ok (set_data a ?d h)" using assms(5) by (intro arrays_ok_set_data) simp_all
  ultimately obtain h1 n1
    where h1: "json_object_decref v h = Inr (set_data a (jdata n) h1)" "ref_inv h1 {} R"
      "deref_node h1 a = Inr n1" "jdata n1 = ?d" "arrays_ok h1" by (rule decref_held_ok [OF assms(1-3)])
  have "heap_object_del a key h = Inr h1"
    using assms(3,4) Some h1(1) deref_set_data [OF h1(3)] set_data_same [OF h1(3,4)] d
    by (simp add: heap_object_del_def as_object_def)
  then show ?thesis using that h1 by simp
qed

lemma heap_object_add_ok:
  assumes "ref_inv h {} (R + ptrs [val])" and "a \<in># R" and "deref_node h a = Inr n" and "as_object n = Inr kvs"
    and "arrays_ok h"
  obtains h1 n1 where "heap_object_add a key val h = Inr h1" and "ref_inv h1 {} R" and "arrays_ok h1"
    and "deref_node h1 a = Inr n1" and "as_object n1 = Inr (entry_del key kvs @ [(key, val)])"
proof -
  have "a \<in># R + ptrs [val]" using assms(2) by simp
  from heap_object_del_ok [OF assms(1) this assms(3-5)] obtain h1 n1
    where h1: "heap_object_del a key h = Inr h1" "ref_inv h1 {} (R + ptrs [val])" "arrays_ok h1"
      "deref_node h1 a = Inr n1" "as_object n1 = Inr (entry_del key kvs)" .
  let ?d = "D_Object (entry_del key kvs @ [(key, val)])"
  have "R + ptrs (kids ?d) = (R + ptrs [val]) + ptrs (kids (jdata n1))"
    using h1(5) by (simp add: ptrs_append)
  then have "ref_inv (set_data a ?d h1) {} R" by (intro ref_inv_set_data [OF h1(2,4)]) simp_all
  moreover have "arrays_ok (set_data a ?d h1)" using h1(3) by (intro arrays_ok_set_data) simp_all
  ultimately show ?thesis
    using that [of "set_data a ?d h1" "n1\<lparr>jdata := ?d\<rparr>"] h1 deref_set_data [OF h1(4)]
    by (simp add: heap_object_add_def as_object_def)
qed

lemma ptrs_update: "i < length ps \<Longrightarrow> ptrs (ps[i := v]) + ptrs [ps ! i] = ptrs ps + ptrs [v]"
proof (induction ps arbitrary: i)
  case (Cons p ps)
  then show ?case
    by (cases i) (simp_all add: ptrs_Cons [of p ps] ptrs_Cons [of v ps] ptrs_Cons [of p "ps[_ := v]"] add.assoc)
qed simp

lemma ptrs_replicate [simp]: "ptrs (replicate k None) = {#}"
  by (induction k) simp_all

lemma ptrs_slot_free:
  "ptrs ps = ptrs [if i < length ps then ps ! i else None] + ptrs (ps[i := None])"
  using ptrs_update [of i ps None] by (cases "i < length ps") (simp_all add: list_update_beyond add.commute)

lemma ptrs_slot_set:
  assumes "i < length ps + k"
  shows "ptrs ((ps @ replicate k None)[i := v]) = ptrs [v] + ptrs (ps[i := None])"
proof -
  let ?es = "ps @ replicate k None"
  have e: "?es ! i = (if i < length ps then ps ! i else None)" using assms by (simp add: nth_append)
  have "ptrs (?es[i := v]) + ptrs [?es ! i] = ptrs [v] + ptrs (ps[i := None]) + ptrs [?es ! i]"
    using ptrs_update [of i ?es v] assms ptrs_slot_free [of ps i] by (simp add: ptrs_append e ac_simps)
  then show ?thesis by (rule add_right_imp_eq)
qed

lemma heap_array_put_idx_ok:
  assumes "ref_inv h {} (R + ptrs [val])" and "a \<in># R" and "deref_node h a = Inr n" and "as_array n = Inr arr"
    and ok: "arrays_ok h" and i: "0 \<le> idx" "idx < 2 * int (al_size arr)"
      "idx < int (al_size arr) \<or> 2 * int (al_size arr) \<le> INT_MAX"
  obtains h1 n1 arr1 where "heap_array_put_idx a idx val h = Inr h1" and "ref_inv h1 {} R" and "arrays_ok h1"
    and "deref_node h1 a = Inr n1" and "as_array n1 = Inr arr1"
    and "elems arr1 = (elems arr @ replicate (Suc (nat idx) - al_length arr) None)[nat idx := val]"
proof -
  define i where "i = nat idx"
  have idx: "idx = int i" using i(1) by (simp add: i_def)
  have wf: "array_wf arr" using ok assms(3,4) by (simp add: arrays_ok_def)
  let ?es = "elems arr @ replicate (Suc i - al_length arr) None"
  obtain b where b: "array_list_expand_internal arr idx = Inr b" using expand_returns i(3) by blast
  note sl = expand_slots [OF wf b]
  have len: "length (elems arr) = al_length arr" "al_length arr \<le> al_size arr"
    "length (al_array arr) = al_size arr" using wf by (simp_all add: array_wf_def)
  have n: "i < length (al_array b)" using sl(1,3) len i(2) idx by (auto split: if_splits)
  let ?upd = "\<lambda>v. b\<lparr>al_array := (al_array b)[i := v],
      al_length := (if int (al_length b) \<le> idx then i + 1 else al_length b)\<rparr>"
  have put: "array_wf (?upd v) \<and> elems (?upd v) = ?es[i := v]" for v
    using put_idx_elems [OF wf, of i v] i b n idx by (auto simp: array_list_put_idx_def)
  let ?old = "al_array b ! i" and ?d = "D_Array (?upd None)"
  let ?h = "set_data a (D_Array b) h"
  have old: "?old = (if i < length (elems arr) then elems arr ! i else None)"
    using n len(1) by (simp add: sl(1) nth_append)
  have kids: "elems b = elems arr" using len(1) by (simp add: elems_def sl(1,2))
  have slot: "ptrs (?es[i := v]) = ptrs [v] + ptrs ((elems arr)[i := None])" for v
    using len(1) by (intro ptrs_slot_set) simp
  have h0: "deref_node ?h a = Inr (n\<lparr>jdata := D_Array b\<rparr>)" by (rule deref_set_data [OF assms(3)])
  have inv0: "ref_inv ?h {} (R + ptrs [val])"
    using assms(4) kids by (intro ref_inv_set_data [OF assms(1,3)]) simp_all
  have a: "a \<in># R + ptrs [val]" using assms(2) by simp
  have split: "ptrs (kids (jdata (n\<lparr>jdata := D_Array b\<rparr>))) = ptrs [?old] + ptrs (kids ?d)"
    unfolding old using kids ptrs_slot_free [of "elems arr" i] put [of None] slot [of None] by simp
  have ok1: "arrays_ok (set_data a ?d ?h)" using arrays_ok_set_data [OF ok, of ?d a] put [of None] by simp
  obtain h1 n1 where h1: "json_object_decref ?old ?h = Inr (set_data a (D_Array b) h1)"
    "ref_inv h1 {} (R + ptrs [val])" "deref_node h1 a = Inr n1" "jdata n1 = ?d" "arrays_ok h1"
    by (rule decref_held_ok [OF inv0 a h0 split ok1]) simp
  have "(if ?old \<noteq> None then json_object_decref ?old ?h else Inr ?h) = json_object_decref ?old ?h"
    by (simp add: json_object_decref_def)
  then have "heap_array_put_idx a idx val h = Inr (set_data a (D_Array (?upd val)) h1)"
    using assms(3,4) b n idx h1(1) deref_set_data [OF h1(3)]
    by (simp add: heap_array_put_idx_def as_array_def Let_def del: not_None_eq)
  moreover have "ref_inv (set_data a (D_Array (?upd val)) h1) {} R"
  proof (rule ref_inv_set_data [OF h1(2,3)])
    show "R + ptrs (kids (D_Array (?upd val))) = R + ptrs [val] + ptrs (kids (jdata n1))"
      unfolding h1(4) kids.simps put [THEN conjunct2] slot by simp
  qed simp
  moreover have "arrays_ok (set_data a (D_Array (?upd val)) h1)"
    using put [of val] by (intro arrays_ok_set_data [OF h1(5)]) simp
  ultimately show ?thesis
    using that deref_set_data [OF h1(3), of "D_Array (?upd val)"] put [of val] i_def by simp
qed

subsection \<open>A client of the library\<close>

text \<open>The calls that change counts or containers, and the references \<open>R\<close> the client holds after
  each: a constructor and \<^verbatim>\<open>json_object_get\<close> give it one, \<^verbatim>\<open>json_object_put\<close>
  takes one, and a container takes the reference of what is stored in it.\<close>

datatype json_call =
    New_Object
  | New_Array
  | New_Boolean bool
  | New_Int int
  | New_Double fp
  | New_String cstring
  | New_String_Len cstring nat
  | Get nat
  | Put nat
  | Object_Add nat cstring ptr
  | Object_Del nat cstring
  | Array_Put nat int ptr
  | Array_Add nat ptr

fun run_call :: "json_call \<Rightarrow> jheap \<Rightarrow> jheap res" where
  "run_call New_Object h = Inr (snd (json_object_new_object h))"
| "run_call New_Array h = Inr (snd (json_object_new_array h))"
| "run_call (New_Boolean b) h = Inr (snd (json_object_new_boolean b h))"
| "run_call (New_Int i) h = Inr (snd (json_object_new_int i h))"
| "run_call (New_Double d) h = Inr (snd (json_object_new_double d h))"
| "run_call (New_String t) h = Inr (snd (json_object_new_string t h))"
| "run_call (New_String_Len t len) h = Inr (snd (json_object_new_string_len t len h))"
| "run_call (Get a) h = json_object_incref (Some a) h"
| "run_call (Put a) h = json_object_decref (Some a) h"
| "run_call (Object_Add a key v) h = heap_object_add a key v h"
| "run_call (Object_Del a key) h = heap_object_del a key h"
| "run_call (Array_Put a idx v) h = heap_array_put_idx a idx v h"
| "run_call (Array_Add a v) h = heap_array_add a v h"

fun refs_after :: "json_call \<Rightarrow> jheap \<Rightarrow> nat multiset \<Rightarrow> nat multiset" where
  "refs_after (Get a) h R = add_mset a R"
| "refs_after (Put a) h R = R - {#a#}"
| "refs_after (Object_Add a key v) h R = R - ptrs [v]"
| "refs_after (Object_Del a key) h R = R"
| "refs_after (Array_Put a idx v) h R = R - ptrs [v]"
| "refs_after (Array_Add a v) h R = R - ptrs [v]"
| "refs_after _ h R = add_mset (length h) R"

text \<open>What the client must see to: it gives away only references that it holds, it holds one to
  the container it changes, which has the right type, and an index stays below twice the number
  of slots. It may take a reference to any live object.\<close>

definition holds_object :: "jheap \<Rightarrow> nat \<Rightarrow> bool" where
  "holds_object h a = (case deref_node h a of Inr n \<Rightarrow> (case jdata n of D_Object _ \<Rightarrow> True | _ \<Rightarrow> False) | Inl _ \<Rightarrow> False)"

definition index_ok :: "jheap \<Rightarrow> nat \<Rightarrow> (nat array_list \<Rightarrow> int) \<Rightarrow> bool" where
  "index_ok h a i = (case deref_node h a of Inl _ \<Rightarrow> False | Inr n \<Rightarrow>
     (case jdata n of D_Array arr \<Rightarrow> 0 \<le> i arr \<and> i arr < 2 * int (al_size arr)
         \<and> (i arr < int (al_size arr) \<or> 2 * int (al_size arr) \<le> INT_MAX)
      | _ \<Rightarrow> False))"

fun may_call :: "json_call \<Rightarrow> jheap \<Rightarrow> nat multiset \<Rightarrow> bool" where
  "may_call (Get a) h R = (alive h a \<and> rc h a < INT_MAX)"
| "may_call (Put a) h R = (a \<in># R)"
| "may_call (Object_Add a key v) h R = (ptrs [v] \<subseteq># R \<and> a \<in># R - ptrs [v] \<and> holds_object h a)"
| "may_call (Object_Del a key) h R = (a \<in># R \<and> holds_object h a)"
| "may_call (Array_Put a idx v) h R = (ptrs [v] \<subseteq># R \<and> a \<in># R - ptrs [v] \<and> index_ok h a (\<lambda>_. idx))"
| "may_call (Array_Add a v) h R =
     (ptrs [v] \<subseteq># R \<and> a \<in># R - ptrs [v] \<and> index_ok h a (\<lambda>arr. int (al_length arr)))"
| "may_call _ h R = True"

inductive json_client :: "jheap \<Rightarrow> nat multiset \<Rightarrow> bool" where
  start: "json_client [] {#}"
| call: "json_client h R \<Longrightarrow> may_call c h R \<Longrightarrow> run_call c h = Inr h' \<Longrightarrow> json_client h' (refs_after c h R)"

text \<open>A new object holds nothing.\<close>

fun empty_data :: "jdata \<Rightarrow> bool" where
  "empty_data (D_Object kvs) = (kvs = [])"
| "empty_data (D_Array arr) = (arr = array_list_new)"
| "empty_data _ = True"

lemma empty_data_kids: "empty_data d \<Longrightarrow> kids d = []"
  by (cases d) simp_all

lemma ref_inv_new:
  assumes "ref_inv h {} R" and "kids d = []"
  shows "ref_inv (snd (json_object_new d h)) {} (add_mset (length h) R)"
proof -
  let ?h = "h @ [Some \<lparr>ref_count = 1, jdata = d\<rparr>]"
  have rc: "rc ?h b = (if b = length h then 1 else rc h b)" for b by (simp add: rc_def nth_append)
  have "kids_at ?h b = kids_at h b" for b using assms(2) by (simp add: kids_at_def nth_append)
  moreover have "{..<length ?h} - {} = insert (length h) {..<length h}" by auto
  moreover have "kids_at h (length h) = []" by (simp add: kids_at_def)
  ultimately have held: "held ?h {} = held h {}" by (simp add: held_def)
  have "rc h (length h) = 0" by (simp add: rc_def)
  with ref_invD(1) [OF assms(1), of "length h"] have none: "count (R + held h {}) (length h) = 0" by simp
  have "ref_inv ?h {} (add_mset (length h) R)"
  proof (rule ref_invI)
    show "rc ?h b = int (count (add_mset (length h) R + held ?h {}) b)" for b
      unfolding held rc using ref_invD(1) [OF assms(1), of b] none by simp
    show "0 < rc ?h b \<longleftrightarrow> alive ?h b \<and> b \<notin> {}" for b
      unfolding rc using ref_invD(2) [OF assms(1), of b] by (auto simp: alive_def nth_append)
  qed simp
  then show ?thesis by (simp add: json_object_new_def)
qed

lemma ref_inv_get:
  assumes "ref_inv h {} R" and "alive h a" and "rc h a < INT_MAX"
  obtains h' where "json_object_incref (Some a) h = Inr h'" and "ref_inv h' {} (add_mset a R)"
    and "\<exists>n k. deref_node h a = Inr n \<and> h' = h[a := Some (n\<lparr>ref_count := k\<rparr>)]"
proof -
  obtain n where n: "h ! a = Some n" "deref_node h a = Inr n" "ref_count n = rc h a"
    using assms(2) by (auto simp: alive_def deref_node_def rc_def)
  have "0 < rc h a" using ref_invD(2) [OF assms(1), of a] assms(2) by simp
  then have "ref_inv (h[a := Some (n\<lparr>ref_count := ref_count n + 1\<rparr>)]) {} (add_mset a R)"
    using ref_invD(1) [OF assms(1), of a] n(3) by (intro ref_inv_count [OF assms(1) n(1) assms(2)]) simp_all
  then show ?thesis using that n assms(3) by (fastforce simp: json_object_incref_def)
qed

lemma arrays_ok_count:
  "arrays_ok h \<Longrightarrow> deref_node h a = Inr n \<Longrightarrow> arrays_ok (h[a := Some (n\<lparr>ref_count := k\<rparr>)])"
  by (fastforce simp: arrays_ok_def deref_Inr nth_list_update split: if_splits)

lemma arrays_ok_new: "arrays_ok h \<Longrightarrow> empty_data d \<Longrightarrow> arrays_ok (snd (json_object_new d h))"
  by (fastforce simp: arrays_ok_def deref_Inr json_object_new_def nth_append less_Suc_eq split: if_splits)

lemma holds_objectD:
  assumes "holds_object h a"
  obtains n kvs where "deref_node h a = Inr n" and "as_object n = Inr kvs"
  using assms by (auto simp: holds_object_def split: sum.splits jdata.splits)

lemma index_okD:
  assumes "index_ok h a i"
  obtains n arr where "deref_node h a = Inr n" and "as_array n = Inr arr" and "0 \<le> i arr"
    and "i arr < 2 * int (al_size arr)" and "i arr < int (al_size arr) \<or> 2 * int (al_size arr) \<le> INT_MAX"
  using assms by (auto simp: index_ok_def split: sum.splits jdata.splits)

lemma run_call_ok:
  assumes "ref_inv h {} R" and "arrays_ok h" and "may_call c h R"
  obtains h' where "run_call c h = Inr h'" and "ref_inv h' {} (refs_after c h R)" and "arrays_ok h'"
proof (cases c)
  case (Get a)
  then have "alive h a" "rc h a < INT_MAX" using assms(3) by simp_all
  from ref_inv_get [OF assms(1) this] obtain h' n k where "json_object_incref (Some a) h = Inr h'"
    "ref_inv h' {} (add_mset a R)" "deref_node h a = Inr n" "h' = h[a := Some (n\<lparr>ref_count := k\<rparr>)]" by blast
  then show ?thesis using that [of h'] Get arrays_ok_count [OF assms(2)] by simp
next
  case (Put a)
  then have "ref_inv h {} ((R - {#a#}) + ptrs [Some a])" using assms(1,3) by simp
  from json_object_decref_ok [OF this] obtain h'
    where "json_object_decref (Some a) h = Inr h'" "ref_inv h' {} (R - {#a#})" "shrunk h h'" by blast
  then show ?thesis using that [of h'] Put arrays_ok_shrunk [OF assms(2)] by simp
next
  case (Object_Add a key v)
  then have pre: "ptrs [v] \<subseteq># R" "a \<in># R - ptrs [v]" "holds_object h a" using assms(3) by simp_all
  then have inv: "ref_inv h {} ((R - ptrs [v]) + ptrs [v])" using assms(1) by simp
  obtain n kvs where n: "deref_node h a = Inr n" "as_object n = Inr kvs" by (rule holds_objectD [OF pre(3)])
  obtain h1 where "heap_object_add a key v h = Inr h1" "ref_inv h1 {} (R - ptrs [v])" "arrays_ok h1"
    by (rule heap_object_add_ok [OF inv pre(2) n assms(2)]) blast
  then show ?thesis using that [of h1] Object_Add by simp
next
  case (Object_Del a key)
  then have pre: "a \<in># R" "holds_object h a" using assms(3) by simp_all
  obtain n kvs where n: "deref_node h a = Inr n" "as_object n = Inr kvs" by (rule holds_objectD [OF pre(2)])
  obtain h1 where "heap_object_del a key h = Inr h1" "ref_inv h1 {} R" "arrays_ok h1"
    by (rule heap_object_del_ok [OF assms(1) pre(1) n assms(2)]) blast
  then show ?thesis using that [of h1] Object_Del by simp
next
  case (Array_Put a idx v)
  then have pre: "ptrs [v] \<subseteq># R" "a \<in># R - ptrs [v]" "index_ok h a (\<lambda>_. idx)" using assms(3) by simp_all
  then have inv: "ref_inv h {} ((R - ptrs [v]) + ptrs [v])" using assms(1) by simp
  obtain n arr where arr: "deref_node h a = Inr n" "as_array n = Inr arr" "0 \<le> idx" "idx < 2 * int (al_size arr)"
    "idx < int (al_size arr) \<or> 2 * int (al_size arr) \<le> INT_MAX" by (rule index_okD [OF pre(3)])
  obtain h1 where "heap_array_put_idx a idx v h = Inr h1" "ref_inv h1 {} (R - ptrs [v])" "arrays_ok h1"
    by (rule heap_array_put_idx_ok [OF inv pre(2) arr(1,2) assms(2) arr(3-5)]) blast
  then show ?thesis using that [of h1] Array_Put by simp
next
  case (Array_Add a v)
  then have pre: "ptrs [v] \<subseteq># R" "a \<in># R - ptrs [v]" "index_ok h a (\<lambda>arr. int (al_length arr))"
    using assms(3) by simp_all
  then have inv: "ref_inv h {} ((R - ptrs [v]) + ptrs [v])" using assms(1) by simp
  obtain n arr where arr: "deref_node h a = Inr n" "as_array n = Inr arr" "0 \<le> int (al_length arr)"
    "int (al_length arr) < 2 * int (al_size arr)"
    "int (al_length arr) < int (al_size arr) \<or> 2 * int (al_size arr) \<le> INT_MAX" by (rule index_okD [OF pre(3)])
  then have eq: "heap_array_add a v h = heap_array_put_idx a (int (al_length arr)) v h"
    by (simp add: heap_array_add_def as_array_def)
  obtain h1 where "heap_array_put_idx a (int (al_length arr)) v h = Inr h1"
      "ref_inv h1 {} (R - ptrs [v])" "arrays_ok h1"
    by (rule heap_array_put_idx_ok [OF inv pre(2) arr(1,2) assms(2) arr(3-5)]) blast
  then show ?thesis using that [of h1] Array_Add eq by simp
qed (use that assms ref_inv_new [OF assms(1)] arrays_ok_new [OF assms(2)] in
    \<open>simp_all add: json_object_constructors\<close>)

lemma client_inv: "json_client h R \<Longrightarrow> ref_inv h {} R \<and> arrays_ok h"
proof (induction rule: json_client.induct)
  case start
  show ?case by (simp add: ref_inv_def arrays_ok_def rc_def alive_def held_def deref_node_def)
next
  case (call h R c h')
  then show ?case using run_call_ok [of h R c] by fastforce
qed

text \<open>The pointers of the live objects, as a graph.\<close>

definition edges :: "jheap \<Rightarrow> (nat \<times> nat) set" where
  "edges h = {(b, a). a \<in># ptrs (kids_at h b)}"

lemma referenced_iff: "a \<in># R + held h {} \<longleftrightarrow> a \<in># R \<or> (\<exists>b. (b, a) \<in> edges h)"
proof -
  have "b < length h" if "a \<in># ptrs (kids_at h b)" for b
    using that by (auto simp: kids_at_def split: if_splits)
  then show ?thesis by (auto simp: held_def edges_def set_mset_sum)
qed

lemma edges_alive:
  assumes "ref_inv h {} R" and "(b, a) \<in> edges h"
  shows "alive h b" and "alive h a"
proof -
  show "alive h b" using assms(2)
    by (auto simp: edges_def kids_at_def alive_def split: if_splits option.splits)
  have "a \<in># R + held h {}" using assms(2) referenced_iff by blast
  then have "0 < rc h a" unfolding ref_invD(1) [OF assms(1)] by (simp only: of_nat_0_less_iff count_greater_zero_iff)
  then show "alive h a" using ref_invD(2) [OF assms(1)] by blast
qed

lemma finite_edges: "ref_inv h {} R \<Longrightarrow> finite (edges h)"
  by (rule finite_subset [of _ "{..<length h} \<times> {..<length h}"])
    (auto dest: edges_alive simp: alive_def)

lemma root_reaches:
  assumes inv: "ref_inv h {} R" and ac: "acyclic (edges h)" and "alive h a"
  shows "\<exists>r. r \<in># R \<and> (r, a) \<in> (edges h)\<^sup>*"
proof -
  have "wf (edges h)" using finite_edges [OF inv] ac by (rule finite_acyclic_wf)
  then show ?thesis using assms(3)
  proof (induction a rule: wf_induct_rule)
    case (less a)
    have "0 < rc h a" using ref_invD(2) [OF inv, of a] less.prems by simp
    then have "a \<in># R + held h {}" unfolding ref_invD(1) [OF inv] by (simp only: of_nat_0_less_iff count_greater_zero_iff)
    then show ?case unfolding referenced_iff
    proof
      assume "\<exists>b. (b, a) \<in> edges h"
      then obtain b where b: "(b, a) \<in> edges h" by blast
      with less.IH edges_alive(1) [OF inv b] show ?thesis by (blast intro: rtrancl_into_rtrancl)
    qed blast
  qed
qed

subsection \<open>Properties\<close>

text \<open>
  C28: take a client that starts with nothing and keeps to this contract (\<open>may_call\<close>): it gives
  away only references it holds; it takes another reference to a live object only, whose count is
  below the greatest \<^verbatim>\<open>int\<close>; it adds to, or deletes from, only a container of the right
  kind that it holds a reference to besides the one it gives away; and it stores into an array at an
  index, or at a length, that is not negative, below twice the number of slots and, when the array
  must grow, twice that number is an \<^verbatim>\<open>int\<close>. It never brings the library to use a freed object or to free one
  twice: every such call returns, with all the destructors it sets off, and afterwards the count of every object is the number of
  references that the client and the live containers hold on it, and exactly the objects with a
  reference are live.
\<close>

theorem json_references_sound:
  assumes "json_client h R" and "may_call c h R"
  shows "\<exists>h'. run_call c h = Inr h' \<and> json_client h' (refs_after c h R)
    \<and> (\<forall>a. rc h' a = int (count (refs_after c h R + held h' {}) a))
    \<and> (\<forall>a. alive h' a \<longleftrightarrow> a \<in># refs_after c h R + held h' {})"
proof -
  have "ref_inv h {} R" "arrays_ok h" using client_inv [OF assms(1)] by simp_all
  from this assms(2) obtain h' where h': "run_call c h = Inr h'" "ref_inv h' {} (refs_after c h R)"
    by (rule run_call_ok)
  note rc = ref_invD(1) [OF h'(2)]
  have "alive h' a \<longleftrightarrow> 0 < rc h' a" for a using ref_invD(2) [OF h'(2), of a] by simp
  then have "alive h' a \<longleftrightarrow> a \<in># refs_after c h R + held h' {}" for a
    by (simp only: rc of_nat_0_less_iff count_greater_zero_iff)
  with h'(1) rc json_client.call [OF assms h'(1)] show ?thesis by blast
qed

definition two_objects :: jheap where
  "two_objects = [Some \<lparr>ref_count = 1, jdata = D_Object []\<rparr>, Some \<lparr>ref_count = 1, jdata = D_Int 5\<rparr>]"

lemma client_two: "json_client two_objects {#1, 0#}"
proof -
  have "json_client [Some \<lparr>ref_count = 1, jdata = D_Object []\<rparr>] {#0#}"
    using json_client.call [OF json_client.start, of "New_Object"] by (simp add: json_object_new_def json_object_constructors)
  from json_client.call [OF this, of "New_Int 5"] show ?thesis
    by (simp add: json_object_new_def json_object_constructors two_objects_def)
qed

lemma json_references_sound_witness:
  "\<exists>h'. run_call (Object_Add 0 ''k'' (Some 1)) two_objects = Inr h'
    \<and> json_client h' (refs_after (Object_Add 0 ''k'' (Some 1)) two_objects {#1, 0#})
    \<and> (\<forall>a. rc h' a = int (count (refs_after (Object_Add 0 ''k'' (Some 1)) two_objects {#1, 0#} + held h' {}) a))
    \<and> (\<forall>a. alive h' a \<longleftrightarrow> a \<in># refs_after (Object_Add 0 ''k'' (Some 1)) two_objects {#1, 0#} + held h' {})"
  by (rule json_references_sound [OF client_two]) (simp add: holds_object_def two_objects_def deref_node_def)

text \<open>
  C29: nothing is left behind: as long as no container holds itself, over however many
  containers, every live object can be reached from a reference the client holds; so a client
  that has given all its references back has freed every object.
\<close>

theorem json_no_leak:
  assumes "json_client h R" and "acyclic (edges h)"
  shows "(\<forall>a. alive h a \<longrightarrow> (\<exists>r. r \<in># R \<and> (r, a) \<in> (edges h)\<^sup>*)) \<and> (R = {#} \<longrightarrow> set h \<subseteq> {None})"
proof -
  have inv: "ref_inv h {} R" using client_inv [OF assms(1)] by simp
  note reach = root_reaches [OF inv assms(2)]
  moreover have "set h \<subseteq> {None}" if "R = {#}"
  proof
    fix x assume "x \<in> set h"
    then obtain a where "a < length h" "h ! a = x" by (auto simp: in_set_conv_nth)
    with reach [of a] that show "x \<in> {None}" by (cases x) (auto simp: alive_def)
  qed
  ultimately show ?thesis by blast
qed

definition one_held :: jheap where
  "one_held = [Some \<lparr>ref_count = 1, jdata = D_Object [(''k'', Some 1)]\<rparr>, Some \<lparr>ref_count = 1, jdata = D_Int 5\<rparr>]"

lemma client_held: "json_client one_held {#0#}"
  using json_client.call [OF client_two, of "Object_Add 0 ''k'' (Some 1)" one_held]
  by (simp add: holds_object_def two_objects_def one_held_def deref_node_def heap_object_add_def heap_object_del_def
      as_object_def set_data_def)

lemma json_no_leak_witness: "\<exists>r. r \<in># {#0#} \<and> (r, 1) \<in> (edges one_held)\<^sup>*"
proof -
  have "edges one_held \<subseteq> {(0, 1)}"
    by (auto simp: edges_def one_held_def kids_at_def less_Suc_eq split: if_splits)
  then have "acyclic (edges one_held)"
    by (rule acyclic_subset [rotated]) (simp add: acyclic_insert acyclic_def [of "{}"])
  from json_no_leak [OF client_held this] show ?thesis by (simp add: alive_def one_held_def)
qed

text \<open>Giving the container back frees both objects; an object that is put into itself is never
  freed, though nobody outside holds it any more.\<close>

lemma container_freed: "run_call (Put 0) one_held = Inr [None, None]"
  by (simp add: one_held_def json_object_decref_def deref_node_def json_object_deletes lh_table_free_def
      json_object_generic_delete_def)

lemma cycle_leaks:
  "rbind (run_call New_Object []) (\<lambda>h. rbind (run_call (Get 0) h) (\<lambda>h.
     rbind (run_call (Object_Add 0 ''k'' (Some 0)) h) (run_call (Put 0)))) =
   Inr [Some \<lparr>ref_count = 1, jdata = D_Object [(''k'', Some 0)]\<rparr>]"
  by (simp add: json_object_new_def json_object_constructors json_object_incref_def json_object_decref_def deref_node_def INT_MAX_def
      heap_object_add_def heap_object_del_def as_object_def set_data_def)

end
