(* ===== verification/JsonFile.thy ===== *)
theory JsonFile
  imports PrintBuf JsonRoundtrip
begin

text \<open>
  JSON values in files (\<^verbatim>\<open>json_util.c\<close>), which the program does not call: it writes
  its state itself. What \<^verbatim>\<open>open\<close>, \<^verbatim>\<open>read\<close> and
  \<^verbatim>\<open>write\<close> return is an input: \<^verbatim>\<open>read\<close> a block of bytes,
  which is empty at the end of the file, or an error; \<^verbatim>\<open>write\<close> a number of bytes or
  a negative number. The messages of \<^verbatim>\<open>debug.c\<close> are compiled out.

  The lemmas show that a value comes back from its file however the system calls cut it up, and what
  an empty file does.
\<close>

definition JSON_FILE_BUF_SIZE :: nat where "JSON_FILE_BUF_SIZE = 4096"

subsection \<open>Reading\<close>

text \<open>The flag is whether the last \<^verbatim>\<open>read\<close> did not fail; after the given blocks
  the file is at its end.\<close>

fun read_loop :: "char list option list \<Rightarrow> printbuf \<Rightarrow> (bool \<times> printbuf) res" where
  "read_loop [] p = Inr (True, p)"
| "read_loop (None # reads) p = Inr (False, p)"
| "read_loop (Some block # reads) p =
     (if JSON_FILE_BUF_SIZE < length block then Inl Buffer_Overflow
      else if 0 < length block then rbind (printbuf_memappend p block) (read_loop reads)
      else Inr (True, p))"

text \<open>\<^verbatim>\<open>error_ptr(-1)\<close> is what the tokener's first error is returned as, so a
  caller cannot tell them apart.\<close>

definition json_object_from_file :: "bool \<Rightarrow> char list option list \<Rightarrow> (json_tokener_error + json) res" where
  "json_object_from_file can_open reads =
     (if \<not> can_open then Inr (Inl json_tokener_continue)
      else rbind (read_loop reads printbuf_new) (\<lambda>(ok, p).
           if \<not> ok then Inr (Inl json_tokener_continue)
           else (case cstr_at (buf p) of
               None \<Rightarrow> Inl Uninitialised
             | Some str \<Rightarrow> json_tokener_parse str)))"

subsection \<open>Writing\<close>

text \<open>The result, and what the file then holds; \<open>writes\<close> is what the calls of
  \<^verbatim>\<open>write\<close> return. A call that returns 0 is made again.\<close>

fun write_loop :: "int list \<Rightarrow> cstring \<Rightarrow> 32 word \<Rightarrow> 32 word \<Rightarrow> string \<Rightarrow> (int \<times> string) res" where
  "write_loop writes json_str wsize wpos file =
     (if wpos < wsize
      then (case writes of
          [] \<Rightarrow> Inl Endless_Loop
        | ret # writes \<Rightarrow>
            if ret < 0 then Inr (-1, file)
            else write_loop writes json_str wsize (wpos + word_of_int ret)
                   (file @ take (nat ret) (drop (unat wpos) json_str)))
      else Inr (0, file))"

text \<open>The null pointer is \<^verbatim>\<open>JNull\<close>. The file is \<open>None\<close> when it was not opened,
  and empty as soon as it was.\<close>

definition json_object_to_file :: "bool \<Rightarrow> int list \<Rightarrow> json \<Rightarrow> (int \<times> string option) res" where
  "json_object_to_file can_open writes obj =
     (if obj = JNull then Inr (-1, None)
      else if \<not> can_open then Inr (-1, None)
      else let json_str = json_object_to_json_string obj; wsize = of_nat (length json_str)
           in rbind (write_loop writes json_str wsize 0 []) (\<lambda>(ret, file). Inr (ret, Some file)))"

subsection \<open>What a file holds\<close>

text \<open>The blocks that \<^verbatim>\<open>read\<close> may deliver a file in.\<close>

definition blocks_of :: "string \<Rightarrow> char list list \<Rightarrow> bool" where
  "blocks_of file bs \<longleftrightarrow> concat bs = file \<and> (\<forall>b \<in> set bs. 0 < length b \<and> length b \<le> JSON_FILE_BUF_SIZE)"

lemma read_loop_blocks:
  assumes "terminated p s" and "length s + length (concat bs) < 2 ^ 30"
    and "\<forall>b \<in> set bs. 0 < length b \<and> length b \<le> JSON_FILE_BUF_SIZE"
  shows "\<exists>p'. read_loop (map Some bs) p = Inr (True, p') \<and> terminated p' (s @ concat bs)"
  using assms
proof (induction bs arbitrary: p s)
  case (Cons b bs)
  then obtain p1 where "printbuf_memappend p b = Inr p1" "terminated p1 (s @ b)"
    using printbuf_memappend_holds [of p s b] by (auto simp: terminated_def)
  with Cons.IH [of p1 "s @ b"] Cons.prems show ?case by auto
qed simp

text \<open>The first block ends up in a buffer that was not terminated yet.\<close>

lemma read_loop_new:
  assumes "blocks_of file bs" and "file \<noteq> []" and "length file < 2 ^ 30"
  shows "\<exists>p'. read_loop (map Some bs) printbuf_new = Inr (True, p') \<and> terminated p' file"
proof -
  obtain b bs' where bs: "bs = b # bs'" using assms(1,2) by (cases bs) (auto simp: blocks_of_def)
  obtain p1 where "printbuf_memappend printbuf_new b = Inr p1" "terminated p1 b"
    using printbuf_memappend_holds [OF holds_new, of b] assms(1,3) bs by (auto simp: terminated_def blocks_of_def)
  with read_loop_blocks [of p1 b bs'] bs assms show ?thesis by (auto simp: blocks_of_def)
qed

text \<open>What \<^verbatim>\<open>write\<close> may return when nothing fails.\<close>

definition writes_of :: "nat \<Rightarrow> int list \<Rightarrow> bool" where
  "writes_of n ws \<longleftrightarrow> (\<forall>w \<in> set ws. 0 < w) \<and> sum_list ws = int n"

lemma writes_of_Cons: "writes_of n (w # ws) \<Longrightarrow> 0 < w \<and> nat w \<le> n \<and> writes_of (n - nat w) ws"
proof -
  assume w: "writes_of n (w # ws)"
  then have "0 \<le> sum_list ws" by (intro sum_list_nonneg) (auto simp: writes_of_def)
  with w show ?thesis by (auto simp: writes_of_def of_nat_diff)
qed

lemma write_loop_all:
  assumes "writes_of (length s - k) ws" and "k \<le> length s" and "length s < 2 ^ 32"
  shows "write_loop ws s (of_nat (length s)) (of_nat k) out = Inr (0, out @ drop k s)"
  using assms
proof (induction ws arbitrary: k out)
  case Nil
  then show ?case by (simp add: writes_of_def)
next
  case (Cons w ws)
  then have w: "0 < w" "nat w \<le> length s - k" "writes_of (length s - k - nat w) ws"
    using writes_of_Cons by blast+
  have u: "unat (of_nat k :: 32 word) = k" "unat (of_nat (length s) :: 32 word) = length s"
    using Cons.prems by (simp_all add: unat_of_nat_32)
  have "k < length s" using w(1,2) by linarith
  then have "(of_nat k :: 32 word) < of_nat (length s)" by (simp add: word_less_nat_alt u)
  moreover have "(of_nat k :: 32 word) + word_of_int w = of_nat (k + nat w)" using w(1) by simp
  moreover have "write_loop ws s (of_nat (length s)) (of_nat (k + nat w)) (out @ take (nat w) (drop k s)) =
      Inr (0, (out @ take (nat w) (drop k s)) @ drop (k + nat w) s)"
    using w Cons.prems by (intro Cons.IH) auto
  moreover have "take (nat w) (drop k s) @ drop (k + nat w) s = drop k s"
    by (metis append_take_drop_id drop_drop add.commute)
  ultimately show ?case using w(1) u by simp
qed

subsection \<open>Properties\<close>

text \<open>
  C34: a value other than null that the printer and the parser agree on (\<open>printable\<close>, nested at
  most 31 levels deep), whose text has fewer than \<open>2 ^ 30\<close> bytes and that is written to a
  file comes back when the file is read, however many bytes each
  \<^verbatim>\<open>write\<close> takes and each \<^verbatim>\<open>read\<close> delivers: writing reports
  success, the file holds the printed text, and every way to read it in blocks of at most 4096
  bytes gives the value.
\<close>

theorem json_file_roundtrip:
  assumes "printable j" and "nest j < MAX_DEPTH" and "j \<noteq> JNull"
    and "length (json_object_to_json_string j) < 2 ^ 30"
    and "writes_of (length (json_object_to_json_string j)) ws" and "blocks_of (json_object_to_json_string j) bs"
  shows "json_object_to_file True ws j = Inr (0, Some (json_object_to_json_string j))
    \<and> json_object_from_file True (map Some bs) = Inr (Inr j)"
proof
  let ?s = "json_object_to_json_string j"
  obtain c r where "?s = c # r"
    by (rule json_text_head [OF assms(1)]) (simp add: json_object_to_json_string_eq)
  then have s: "is_cstring ?s" "?s \<noteq> []"
    using is_cstring_json_text(1) [OF assms(1)] by (simp_all add: json_object_to_json_string_eq)
  have "write_loop ws ?s (of_nat (length ?s)) (of_nat 0) [] = Inr (0, [] @ drop 0 ?s)"
    using assms(4,5) by (intro write_loop_all) simp_all
  then show "json_object_to_file True ws j = Inr (0, Some ?s)"
    using assms(3) by (simp add: json_object_to_file_def)
  obtain p where "read_loop (map Some bs) printbuf_new = Inr (True, p)" "terminated p ?s"
    using read_loop_new [OF assms(6) s(2) assms(4)] by blast
  then show "json_object_from_file True (map Some bs) = Inr (Inr j)"
    using cstr_at_terminated [OF _ s(1)] json_roundtrip_text [OF assms(1,2)] by (simp add: json_object_from_file_def)
qed

lemma json_file_roundtrip_witness:
  "json_object_to_file True [4, 2] (JArray [JInt 42]) = Inr (0, Some ''[ 42 ]'')
    \<and> json_object_from_file True [Some ''[ 4'', Some ''2 ]''] = Inr (Inr (JArray [JInt 42]))"
proof -
  have t: "json_object_to_json_string (JArray [JInt 42]) = ''[ 42 ]''" by code_simp
  show ?thesis
    using json_file_roundtrip [of "JArray [JInt 42]" "[4, 2]" "[''[ 4'', ''2 ]'']"]
    by (simp add: t MAX_DEPTH_def writes_of_def blocks_of_def JSON_FILE_BUF_SIZE_def is_int32_def)
qed

text \<open>A file that is empty leaves the buffer as it was allocated, and the parser reads it; so does a
  file that cannot be read return what the parser returns for its first error.\<close>

lemma json_empty_file: "json_object_from_file True [] = Inl Uninitialised"
  by (simp add: json_object_from_file_def printbuf_new_def numeral_eq_Suc)

end
