(* ===== verification/UrlDecode.thy ===== *)
theory UrlDecode
  imports CText
begin

text \<open>
  Decoding of percent escapes (\<^verbatim>\<open>urldecode.c\<close>), which the program does not call. The
  text in the output buffer is the list of its bytes before the terminator; the buffer has
  \<open>n\<close> bytes. \<^verbatim>\<open>int\<close> is stored low byte first, and
  \<^verbatim>\<open>isxdigit\<close> is asked about bytes above 127 too, which the table of the library
  covers.

  The last byte of the text is not looked at unless an escape ends there; the lemmas show that
  apart from it decoding inverts encoding, and that the output fits a buffer as long as the input.
\<close>

datatype decode_state = URLDECODE_STATE_SEARCH | URLDECODE_STATE_CONVERTING

text \<open>\<^verbatim>\<open>strncat(out, &c, 1)\<close>: a zero byte appends nothing.\<close>

definition strncat_1 :: "nat \<Rightarrow> cstring \<Rightarrow> char \<Rightarrow> cstring res" where
  "strncat_1 n out c =
     (let out' = (if c = CHR 0x00 then out else out @ [c])
      in if length out' < n then Inr out' else Inl Buffer_Overflow)"

text \<open>The byte at an index of a C string, its terminator included.\<close>

definition byte_at :: "cstring \<Rightarrow> nat \<Rightarrow> char res" where
  "byte_at s i = (if i < length s then Inr (s ! i)
     else if i = length s then Inr (CHR 0x00) else Inl Out_Of_Bounds)"

text \<open>\<^verbatim>\<open>strlen(pszEncodedIn)-1\<close>, a \<^verbatim>\<open>size_t\<close>.\<close>

definition last_index :: "cstring \<Rightarrow> nat" where
  "last_index s = (if s = [] then 2 ^ 64 - 1 else length s - 1)"

text \<open>A turn for an escape: \<^verbatim>\<open>strncpy\<close> copies its two bytes, and none after a
  terminator.\<close>

definition convert :: "nat \<Rightarrow> cstring \<Rightarrow> 32 word \<Rightarrow> cstring \<Rightarrow> (32 word \<times> cstring) res" where
  "convert n inp i out =
     rbind (byte_at inp (unat i)) (\<lambda>a.
     rbind (if a = CHR 0x00 then Inr (CHR 0x00) else byte_at inp (unat i + 1)) (\<lambda>b.
     if \<not> is_xdigit a \<or> \<not> is_xdigit b then Inr (i, out)
     else rbind (strncat_1 n out (char_of (xdigits_val [a, b]))) (\<lambda>out. Inr (i + 1, out))))"

text \<open>The loop. Its counter is 32 bits wide, so a text of more than \<open>2 ^ 32\<close> bytes has no last
  turn.\<close>

fun urldecode_loop :: "nat \<Rightarrow> nat \<Rightarrow> cstring \<Rightarrow> decode_state \<Rightarrow> 32 word \<Rightarrow> cstring \<Rightarrow> cstring res" where
  "urldecode_loop 0 n inp st i out = Inl Endless_Loop"
| "urldecode_loop (Suc f) n inp st i out =
     (if unat i < last_index inp
      then (case st of
          URLDECODE_STATE_SEARCH \<Rightarrow>
            rbind (byte_at inp (unat i)) (\<lambda>c.
            if c \<noteq> CHR ''%''
            then rbind (strncat_1 n out c) (urldecode_loop f n inp URLDECODE_STATE_SEARCH (i + 1))
            else urldecode_loop f n inp URLDECODE_STATE_CONVERTING (i + 1) out)
        | URLDECODE_STATE_CONVERTING \<Rightarrow>
            rbind (convert n inp i out) (\<lambda>(i, out).
            urldecode_loop f n inp URLDECODE_STATE_SEARCH (i + 1) out))
      else Inr out)"

definition urldecode :: "nat \<Rightarrow> cstring \<Rightarrow> cstring res" where
  "urldecode n inp = urldecode_loop (length inp + 2) n inp URLDECODE_STATE_SEARCH 0 []"

text \<open>The assertion, that the output is shorter than its buffer, holds as long as nothing was
  written past the buffer, so it is not a branch here. Concrete texts.\<close>

lemma urldecode_samples:
  "urldecode 20 ''a%20b!'' = Inr ''a b''"
  "urldecode 20 ''a%2'' = Inr ''a''"
  "urldecode 20 ''a%zzb'' = Inr ''az''"
  "urldecode 3 ''abcd'' = Inl Buffer_Overflow"
  "urldecode 20 [] = Inl Out_Of_Bounds"
  by code_simp+

subsection \<open>Encoding\<close>

text \<open>Percent encoding of the bytes that \<open>P\<close> picks.\<close>

definition hex_digit :: "nat \<Rightarrow> char" where
  "hex_digit k = ''0123456789ABCDEF'' ! k"

definition encode :: "(char \<Rightarrow> bool) \<Rightarrow> string \<Rightarrow> string" where
  "encode P s = concat (map (\<lambda>c. if P c
     then [CHR ''%'', hex_digit (char_code c div 16), hex_digit (char_code c mod 16)] else [c]) s)"

lemma encode_simps [simp]:
  "encode P [] = []"
  "encode P (c # s) = (if P c
     then CHR ''%'' # hex_digit (char_code c div 16) # hex_digit (char_code c mod 16) # encode P s
     else c # encode P s)"
  by (simp_all add: encode_def)

lemma hex_digit_val: "k < 16 \<Longrightarrow> is_xdigit (hex_digit k) \<and> xdigit_val (hex_digit k) = k \<and> hex_digit k \<noteq> CHR 0x00"
  using less_16 [of k]
  by (auto simp: hex_digit_def is_xdigit_def xdigit_val_def is_digit_def digit_val_def tolower_def is_upper_def
      char_code_def)

lemma hex_digits_char: "char_of (xdigits_val [hex_digit (char_code c div 16), hex_digit (char_code c mod 16)]) = c"
proof -
  have "char_code c < 256" by (simp add: char_code_def)
  then have "xdigit_val (hex_digit (char_code c div 16)) = char_code c div 16"
    "xdigit_val (hex_digit (char_code c mod 16)) = char_code c mod 16"
    using hex_digit_val by auto
  then show ?thesis by (simp add: xdigits_val_def char_code_def)
qed

text \<open>The turns the loop takes for an encoded text.\<close>

fun turns :: "(char \<Rightarrow> bool) \<Rightarrow> string \<Rightarrow> nat" where
  "turns P [] = 0"
| "turns P (c # s) = (if P c then 2 else 1) + turns P s"

lemma turns_le: "turns P s \<le> length (encode P s)"
  by (induction s) auto

lemma byte_at_append [simp]: "byte_at (pre @ c # r) (length pre) = Inr c"
  by (simp add: byte_at_def)

lemma char_code_256: "char_code c div 16 < 16" "char_code c mod 16 < 16"
  by (simp_all add: char_code_def less_mult_imp_div_less)

lemma convert_hex:
  assumes "unat i = length pre" and "c \<noteq> CHR 0x00" and "length out + 1 < n"
  shows "convert n (pre @ hex_digit (char_code c div 16) # hex_digit (char_code c mod 16) # r) i out = Inr (i + 1, out @ [c])"
proof -
  let ?a = "hex_digit (char_code c div 16)" and ?b = "hex_digit (char_code c mod 16)"
  have "byte_at (pre @ ?a # ?b # r) (length pre + 1) = Inr ?b"
    using byte_at_append [of "pre @ [?a]" ?b r] by simp
  then show ?thesis
    using assms hex_digit_val [OF char_code_256(1), of c] hex_digit_val [OF char_code_256(2), of c] hex_digits_char [of c]
    by (simp add: convert_def strncat_1_def del: xdigits_val_def)
qed

lemma urldecode_loop_encode:
  assumes "P (CHR ''%'')" and "length (pre @ encode P s @ rest) < 2 ^ 32" and "is_cstring s"
    and "rest \<noteq> [] \<or> s = [] \<or> P (last s)" and "length (out @ s) < n"
  shows "urldecode_loop (turns P s + g) n (pre @ encode P s @ rest) URLDECODE_STATE_SEARCH (of_nat (length pre)) out =
    urldecode_loop g n (pre @ encode P s @ rest) URLDECODE_STATE_SEARCH (of_nat (length pre + length (encode P s))) (out @ s)"
  using assms
proof (induction s arbitrary: pre out)
  case (Cons c s)
  let ?inp = "pre @ encode P (c # s) @ rest"
  define e where "e = (if P c then [CHR ''%'', hex_digit (char_code c div 16), hex_digit (char_code c mod 16)] else [c])"
  have enc: "encode P (c # s) = e @ encode P s" by (simp add: e_def)
  have u: "unat (of_nat k :: 32 word) = k" if "k \<le> length ?inp" for k
    using that Cons.prems(2) by (intro unat_of_nat_32) linarith
  have c: "c \<noteq> CHR 0x00" "length out + 1 < n" using Cons.prems(3,5) by simp_all
  have "urldecode_loop ((if P c then 2 else 1) + h) n ?inp URLDECODE_STATE_SEARCH (of_nat (length pre)) out =
      urldecode_loop h n ?inp URLDECODE_STATE_SEARCH (of_nat (length pre + length e)) (out @ [c])" for h
  proof (cases "P c")
    case True
    have v: "convert n ?inp (of_nat (length pre) + 1) out = Inr (of_nat (length pre) + 2, out @ [c])"
      using convert_hex [of "of_nat (length pre) + 1" "pre @ [CHR ''%'']" c out n "encode P s @ rest"] c
        u [of "length pre + 1"] True by (simp add: add.commute)
    have "last_index ?inp = length ?inp - 1" "length pre + 2 < length ?inp" using True by (simp_all add: last_index_def)
    moreover have "unat (of_nat (length pre) + 1 :: 32 word) = length pre + 1"
      using u [of "length pre + 1"] True by (simp add: add.commute)
    moreover have "byte_at ?inp (length pre) = Inr (CHR ''%'')" using True by simp
    ultimately show ?thesis
      using True u [of "length pre"] v by (simp add: e_def numeral_2_eq_2 add.commute)
  next
    case False
    then have "encode P s @ rest \<noteq> []" using Cons.prems(4) by (cases s) auto
    then have "last_index ?inp = length ?inp - 1" "length pre + 1 < length ?inp"
      using False by (simp_all add: last_index_def)
    moreover have "byte_at ?inp (length pre) = Inr c" "c \<noteq> CHR ''%''" using False Cons.prems(1) by auto
    ultimately show ?thesis
      using False u [of "length pre"] c by (simp add: e_def strncat_1_def add.commute)
  qed
  from this [of "turns P s + g"] show ?case
    using Cons.IH [of "pre @ e" "out @ [c]"] Cons.prems enc
    by (simp add: add.assoc split: if_splits)
qed simp

subsection \<open>The size of the output\<close>

text \<open>Fewer bytes are written than were passed.\<close>

lemma strncat_1_fits:
  "length out + 1 < n \<Longrightarrow> \<exists>o'. strncat_1 n out c = Inr o' \<and> length o' \<le> length out + 1"
  by (auto simp: strncat_1_def)

lemma not_xdigit_zero [simp]: "\<not> is_xdigit (CHR 0x00)"
  by code_simp

lemma convert_fits:
  assumes "unat i + 1 < length inp" and "length out + 1 < n"
  shows "\<exists>i' o'. convert n inp i out = Inr (i', o') \<and> (i' = i \<or> i' = i + 1) \<and> length o' \<le> length out + 1"
proof -
  let ?a = "inp ! unat i" and ?b = "inp ! (unat i + 1)"
  have "byte_at inp (unat i) = Inr ?a" "byte_at inp (unat i + 1) = Inr ?b"
    using assms(1) by (simp_all add: byte_at_def)
  then show ?thesis
    using strncat_1_fits [OF assms(2), of "char_of (xdigits_val [?a, ?b])"] by (auto simp: convert_def)
qed

lemma urldecode_loop_fits:
  assumes "inp \<noteq> []" and "length inp < 2 ^ 32" and "length inp \<le> n" and "length inp < f + unat i"
    and "length out + (if st = URLDECODE_STATE_CONVERTING then 1 else 0) \<le> unat i" and "unat i \<le> length inp"
    and "length out < length inp"
  shows "\<exists>r. urldecode_loop f n inp st i out = Inr r \<and> length r < length inp"
  using assms(4-7)
proof (induction f arbitrary: st i out)
  case (Suc f)
  have last: "last_index inp = length inp - 1" using assms(1) by (simp add: last_index_def)
  show ?case
  proof (cases "unat i < last_index inp")
    case True
    then have i: "unat i + 1 < length inp" using last by linarith
    have u: "unat (i + 1) = unat i + 1" "unat (i + 1 + 1) = unat i + 2"
      using i assms(2) by (simp_all add: unat_word_ariths)
    have o: "length out + 1 < n" using Suc.prems(2) i assms(3) by linarith
    show ?thesis
    proof (cases st)
      case URLDECODE_STATE_SEARCH
      have b: "byte_at inp (unat i) = Inr (inp ! unat i)" using i by (simp add: byte_at_def)
      obtain o' where "strncat_1 n out (inp ! unat i) = Inr o'" "length o' \<le> length out + 1"
        using strncat_1_fits [OF o] by blast
      with True URLDECODE_STATE_SEARCH Suc.prems i u b Suc.IH [of "i + 1"] show ?thesis by auto
    next
      case URLDECODE_STATE_CONVERTING
      obtain i' o' where c: "convert n inp i out = Inr (i', o')" "i' = i \<or> i' = i + 1" "length o' \<le> length out + 1"
        using convert_fits [OF i o] by blast
      have "\<exists>r. urldecode_loop f n inp URLDECODE_STATE_SEARCH (i' + 1) o' = Inr r \<and> length r < length inp"
        using c(2,3) Suc.prems URLDECODE_STATE_CONVERTING i u by (intro Suc.IH) auto
      with True URLDECODE_STATE_CONVERTING c(1) show ?thesis by simp
    qed
  next
    case False
    with Suc.prems last show ?thesis by simp
  qed
qed simp

subsection \<open>Properties\<close>

theorem urldecode_fits:
  assumes "inp \<noteq> []" and "length inp < 2 ^ 32" and "length inp \<le> n"
  shows "\<exists>out. urldecode n inp = Inr out \<and> length out < length inp"
  unfolding urldecode_def by (rule urldecode_loop_fits [OF assms]) (use assms(1) in simp_all)

text \<open>
  C35: decoding inverts percent encoding, whatever bytes beside the percent sign the encoder
  escapes, but for the last byte of the text: an ordinary byte there is lost, an escaped one is
  not. The buffer need not be longer than the encoded text.
\<close>

theorem urldecode_inverts_encoding:
  assumes "P (CHR ''%'')" and "is_cstring (s @ [c])" and "length (encode P s) + 3 < 2 ^ 32"
    and "length (encode P s) + 1 < n"
  shows "urldecode n (encode P s @ [c]) = Inr s \<and> urldecode n (encode P s @ encode (\<lambda>_. True) [c]) = Inr (s @ [c])"
proof -
  have len: "length s \<le> length (encode P s)" by (induction s) auto
  have loop: "urldecode_loop (turns P s + g) n (encode P s @ rest) URLDECODE_STATE_SEARCH 0 [] =
      urldecode_loop g n (encode P s @ rest) URLDECODE_STATE_SEARCH (of_nat (length (encode P s))) s"
    if "rest \<noteq> []" "length rest \<le> 3" for g rest
    using urldecode_loop_encode [where pre = "[]" and out = "[]", of P s rest n g] assms that len by simp
  have u: "unat (of_nat (length (encode P s)) :: 32 word) = length (encode P s)"
    using assms(3) by (intro unat_of_nat_32) linarith
  obtain k where k: "length (encode P s) = turns P s + k" using turns_le [of P s] by (auto simp: le_iff_add)
  have "length (encode P s @ [c]) + 2 = turns P s + Suc (k + 2)" using k by simp
  then have "urldecode n (encode P s @ [c]) = Inr s"
    unfolding urldecode_def using loop [of "[c]" "Suc (k + 2)"] u by (simp add: last_index_def)
  moreover have "urldecode n (encode P s @ encode (\<lambda>_. True) [c]) = Inr (s @ [c])"
  proof -
    let ?esc = "encode (\<lambda>_. True) [c]"
    have "length (encode P s @ ?esc) + 2 = turns P s + (turns (\<lambda>_. True) [c] + Suc (k + 2))" using k by simp
    then have "urldecode n (encode P s @ ?esc) = urldecode_loop (turns (\<lambda>_. True) [c] + Suc (k + 2)) n (encode P s @ ?esc)
        URLDECODE_STATE_SEARCH (of_nat (length (encode P s))) s"
      unfolding urldecode_def using loop [of ?esc "turns (\<lambda>_. True) [c] + Suc (k + 2)"]
      by (simp del: urldecode_loop.simps)
    also have "\<dots> = urldecode_loop (Suc (k + 2)) n (encode P s @ ?esc) URLDECODE_STATE_SEARCH
        (of_nat (length (encode P s) + 3)) (s @ [c])"
      using urldecode_loop_encode [where P = "\<lambda>_. True" and pre = "encode P s" and s = "[c]" and rest = "[]"
          and out = s and n = n and g = "Suc (k + 2)"] assms len
      by (simp add: add.commute del: urldecode_loop.simps)
    also have "unat (of_nat (length (encode P s) + 3) :: 32 word) = length (encode P s) + 3"
      using assms(3) by (rule unat_of_nat_32)
    then have "urldecode_loop (Suc (k + 2)) n (encode P s @ ?esc) URLDECODE_STATE_SEARCH
        (of_nat (length (encode P s) + 3)) (s @ [c]) = Inr (s @ [c])" by (simp add: last_index_def)
    finally show ?thesis .
  qed
  ultimately show ?thesis by simp
qed

lemma urldecode_inverts_encoding_witness:
  "urldecode 40 (encode (\<lambda>c. c \<in> {CHR ''%'', CHR '' '', CHR ''&''}) ''a b&100%'' @ ''!'') = Inr ''a b&100%''
    \<and> urldecode 40 (encode (\<lambda>c. c \<in> {CHR ''%'', CHR '' '', CHR ''&''}) ''a b&100%'' @ encode (\<lambda>_. True) ''!'') = Inr (''a b&100%'' @ ''!'')"
  by (rule urldecode_inverts_encoding) simp_all

end
