(* ===== verification/Spec2Isabelle.thy ===== *)
theory Spec2Isabelle
  imports Packet QueueThreads FlushRace Mgmt Flush Client Serialize LinkHash PrintBuf NumToA
    Stopping TokenerBuf UtHashImpl UtArrayEdit UtListSort UtStringFind JsonHeap JsonFile
    UrlDecode
begin

text \<open>
  A model of statsd-c, a statistics daemon in C, and of the libraries it carries in its tree.

  \<^bold>\<open>The program.\<close> \<^verbatim>\<open>main\<close> (\<^verbatim>\<open>src/statsd.c\<close>) reads
  the options, restores saved statistics and starts four threads. The UDP thread reads datagrams
  and stores them in a ring (\<^verbatim>\<open>queue.c\<close>); the queue thread takes them out and
  hands each to the text parser or to the JSON parser, which record what it says in four tables
  of counters, gauges, timers and statistics (uthash tables behind one semaphore each); the flush
  thread sends the tables to Graphite and Ganglia every few seconds and starts the counters and
  timers anew; the management thread answers commands on a TCP port. A client
  (\<^verbatim>\<open>statsd_client.c\<close>) sends packets from the command line.

  \<^bold>\<open>Conventions\<close> (theory \<open>Prelude\<close>). A C function that may leave the behaviour C
  defines is a function into \<^verbatim>\<open>'a res\<close>, a fault or a value; overruns, null and
  wild pointers, type confusion, overflow of an \<^verbatim>\<open>int\<close>, a deadlock and an
  endless loop are faults, so a theorem that a function returns says that none of them happens.
  A C string is the list of the bytes before its terminator, with \<^verbatim>\<open>strcpy\<close>
  into a sized array as \<open>strcpy_buf\<close>. State is passed explicitly, in records. Integers are
  \<^verbatim>\<open>int\<close> with their range checked where C leaves overflow undefined, and words
  where it wraps. Floating-point values are rationals rounded to the format of their C type
  (\<open>CFloat\<close>: 64-bit \<^verbatim>\<open>double\<close>, 80-bit \<^verbatim>\<open>long double\<close>,
  with infinities and NaN); the conversions from and to text are in \<open>CNum\<close> and \<open>CText\<close>.

  \<^bold>\<open>The daemon.\<close>
  \<^item> \<open>UtHash\<close>, \<open>Stats\<close> (\<^verbatim>\<open>stats.h\<close>,
    \<^verbatim>\<open>counters.h\<close>, \<^verbatim>\<open>gauges.h\<close>, \<^verbatim>\<open>timers.h\<close>,
    the \<^verbatim>\<open>update_*\<close> functions of \<^verbatim>\<open>statsd.c\<close>): the record
    \<^verbatim>\<open>daemon\<close> is the four tables, each the list of its elements in insertion
    order, and their semaphores. \<open>daemon_wf\<close> is the invariant: no key twice, keys that
    are terminated and fit their arrays, the count of a timer the number of its values, values
    of their C type, no semaphore lost. Each update is shown to be find-or-create on the map a
    table stands for.
  \<^item> \<open>Sanitize\<close>, \<open>Packet\<close> (\<^verbatim>\<open>strings.c\<close>,
    \<^verbatim>\<open>process_stats_packet\<close>): the text parser with its nested
    \<^verbatim>\<open>strtok_r\<close> loops and the pointer variables that outlive a turn. It refines
    a specification on fields, keeps the invariant on any bytes, and returns on well-formed
    packets; malformed packets and long names are characterised as the faults they are.
  \<^item> \<open>Queue\<close>, \<open>QueueThreads\<close>, \<open>Threads\<close> (\<^verbatim>\<open>queue.c\<close>,
    \<^verbatim>\<open>p_thread_udp\<close>, \<^verbatim>\<open>p_thread_queue\<close>): the ring is an
    array of \<open>2 ^ 20\<close> slots whose accesses are checked; below its capacity it answers any sequence of
    stores and pops as a FIFO buffer does, round the end of the array, also when the statements of the two threads interleave, and
    datagrams reach the parsers in the order of their arrival.
  \<^item> \<open>Json\<close>, \<open>Tokener\<close>, \<open>JsonPacket\<close>, \<open>Serialize\<close>
    (\<^verbatim>\<open>process_json_stats_packet\<close>, \<^verbatim>\<open>serialize.c\<close>): JSON
    packets as lists of events; the text of the tables and what a start makes of it as a round trip,
    with the block of eight bytes that saving puts the name of a statistic in.
  \<^item> \<open>Flush\<close>, \<open>FlushRace\<close>, \<open>Gmetric\<close> (\<^verbatim>\<open>p_thread_flush\<close>,
    \<^verbatim>\<open>embeddedgmetric.c\<close>): one turn of the flush thread, what it sends and what
    it leaves; its unlocked reads against \<^verbatim>\<open>update_counter\<close>, step by step; the
    XDR messages as a round trip, the XDR routines being parameters with the laws of RFC 4506.
  \<^item> \<open>Mgmt\<close>, \<open>Options\<close>, \<open>Client\<close>: the answers of the management port, the
    options, the client's messages, what a daemon makes of them, and the address block its
    \<^verbatim>\<open>sendto\<close> reads past.
  \<^item> \<open>DaemonSystem\<close>: the four threads as a step relation over the shared state, whole
    turns in any order, with the invariant that holds in every reachable state.
  \<^item> \<open>Shutdown\<close>, \<open>Stopping\<close> (\<^verbatim>\<open>cleanup\<close>,
    \<^verbatim>\<open>die_with_error\<close>, the signal handlers, \<^verbatim>\<open>daemonize_server\<close>,
    the start in \<^verbatim>\<open>main\<close>): a start gives back the tables of a saved text; a
    daemon that is stopped never saves them, as the names of its own statistics overrun the block;
    cancellation, the lock file and the signals that are not handled.

  \<^bold>\<open>The libraries.\<close>
  \<^item> \<open>Tokener\<close>, \<open>JsonRoundtrip\<close>, \<open>JsonTypes\<close> (\<^verbatim>\<open>json_tokener.c\<close>,
    \<^verbatim>\<open>json_object.c\<close>): the state machine of the JSON parser, one definition per
    case of its switch, with the text it collects as a list of bytes. It reads back what the printer writes, and
    returns values of the library's type only.
  \<^item> \<open>TokenerBuf\<close> (the same and \<^verbatim>\<open>printbuf.h\<close>): the cases that collect text, over the
    print buffer with its allocated bytes, \<^verbatim>\<open>int\<close> sizes and the stack of 32 levels. The
    parser stays inside all of them, returns, and agrees with \<open>Tokener\<close>.
  \<^item> \<open>JsonFile\<close>, \<open>UrlDecode\<close> (\<^verbatim>\<open>json_util.c\<close>,
    \<^verbatim>\<open>urldecode.c\<close>): values in files however the system calls cut them up, and the
    decoding of escaped text, each as a round trip.
  \<^item> \<open>ArrayList\<close>, \<open>PrintBuf\<close>, \<open>LinkHash\<close> (\<^verbatim>\<open>arraylist.c\<close>,
    \<^verbatim>\<open>printbuf.c\<close>, \<^verbatim>\<open>linkhash.c\<close>): the containers below JSON values,
    with their reallocation, probing and links, refine lists, texts and ordered maps.
  \<^item> \<open>UtHashImpl\<close>, \<open>UtArray\<close>, \<open>UtArrayEdit\<close> (\<^verbatim>\<open>uthash.h\<close>,
    \<^verbatim>\<open>utarray.h\<close>): the macros behind the tables and the values of a timer, with
    pointers, buckets and their doubling; they refine the lists the daemon's model works on, through
    any sequence of edits of an array.
  \<^item> \<open>BottomUpSort\<close>, \<open>UtListSort\<close> (\<^verbatim>\<open>utlist.h\<close>): the merge sort of the three
    kinds of linked list, down to the links.
  \<^item> \<open>JsonHeap\<close> (\<^verbatim>\<open>json_object_get\<close>, \<^verbatim>\<open>json_object_put\<close>, the
    destructors): objects with addresses and reference counts, as a heap. A client that keeps to its
    contract never makes the library use or free an object twice, and leaves
    nothing behind unless a container holds itself.
  \<^item> \<open>UtString\<close>, \<open>Kmp\<close>, \<open>UtStringFind\<close> (\<^verbatim>\<open>utstring.h\<close>): the growing
    string in which a flush collects its text, byte by byte, and the searches in it with their
    Knuth-Morris-Pratt tables.
  \<^item> \<open>NumToA\<close> (\<^verbatim>\<open>modp_numtoa.c\<close>): number formatting against
    \<^verbatim>\<open>printf\<close>.

  \<^bold>\<open>Interfaces.\<close> Each is a locale, interpreted on the model's own definitions:
  \<open>keyed_table\<close> (\<open>hash\<close>, the tables), \<open>fifo_buffer\<close> (\<open>ring\<close>, the packet
  queue), \<open>list_store\<close> (\<open>al\<close>, the growing array), \<open>text_sink\<close> (\<open>pb\<close>, the
  print buffer, and \<open>us\<close>, the string of a flush), \<open>ordered_table\<close> (\<open>lh\<close>, the linked hash table).

  \<^bold>\<open>Bounds and fuel.\<close> A loop that may run for ever carries a number of turns, and
  running out of it is the fault \<open>Endless_Loop\<close>.
  \<^item> The tokener may run its switch \<open>MAX_TURNS\<close> = 10 times on a character: the rank of its
    state, at most 9, falls with every turn that does not take the next one.
  \<^item> A probe of the linked hash table has as many turns as the table has slots, since its
    state is the position; inserting has the number of entries and four, as growing inserts
    every entry once. A probe of a table without a free slot does run out, and the code is then
    in an endless loop.
  \<^item> A walk along a list of uthash handles has one turn more than the table has items, making
    room in an array 64, after which the number of slots has come round.
  \<^item> A pass of the queue thread has one turn more than the ring has packets.
  \<^item> Printing to a string is given its number of turns: two are enough, as the second try has the
    room the first one asked for, and no number is when the text is too long for an
    \<^verbatim>\<open>int\<close>.
  \<^item> Sorting a list is given its number of turns too, any number above that of the elements being
    enough; decoding a URL has two turns more than the text has bytes.
    Falling back in a search table has as many turns as the needle has bytes and two: every cell
    points at a smaller index. Giving back a reference goes no deeper than there are objects, as
    it enters each at most once.
  \<^item> Proved up to: \<open>2 ^ 30\<close> bytes or slots of a buffer or array of the JSON library and
    bytes of a saved text, \<open>2 ^ 25\<close> bytes of text for the JSON parser (whose print buffer grows
    by no more than 30 bytes for a byte of text), \<open>2 ^ 30\<close> elements of a list to sort,
    \<open>2 ^ 26\<close> members of a JSON object, \<open>2 ^ 31\<close> values of a timer, tables of
    fewer than \<open>2 ^ 32\<close> items and \<open>2 ^ 31\<close> buckets.

  \<^bold>\<open>Not modelled.\<close>
  \<^item> Creating, binding and closing sockets, \<^verbatim>\<open>select\<close> and host look-up: what
    they deliver is an input. The messages of \<^verbatim>\<open>syslog\<close>, the descriptors and
    user ids of a daemon, \<^verbatim>\<open>getopt\<close>'s parsing, the clock.
  \<^item> Failing allocations, and the release of memory other than that of JSON objects. In
    \<open>Json\<close> and what rests on it a value has one owner; \<open>JsonHeap\<close> has the counts.
  \<^item> What the program does not use: deletion, sorting and selection of uthash, its Bloom filter
    and \<^verbatim>\<open>HASH_MUR\<close>, the link operations of \<^verbatim>\<open>utlist.h\<close>,
    \<^verbatim>\<open>debug.c\<close> and the pointer-keyed table of \<^verbatim>\<open>linkhash.c\<close>.
\<close>

end
